(* ===== verification/Prelude.thy ===== *)
theory Prelude
  imports Main "HOL-Library.Word" "HOL-Library.Signed_Division"
begin

unbundle bit_operations_syntax

text \<open>
  The shared vocabulary of the development: the machine integers of types.h, C's signed
  arithmetic, the ways in which kernel code fails to return, a bind for such results, the
  table scan \<open>for(p = t; p < &t[N]; p++) if(...) goto found\<close> that every table of the
  kernel is searched with, and a byte memory with little-endian 32-bit access.
\<close>

section \<open>Collections of facts\<close>

named_theorems kdefs
  \<open>definitions unfolded when a model function is evaluated\<close>
named_theorems kframe
  \<open>what an operation leaves unchanged\<close>

section \<open>Machine integers\<close>

type_synonym u8 = "8 word"
type_synonym u16 = "16 word"
type_synonym u32 = "32 word"

text \<open>
  A C \<open>int\<close> is kept as an \<open>int\<close> in the range of 32 bits. Arithmetic that can leave the
  range is wrapped explicitly (gcc on x86 computes signed sums and products modulo
  \<open>2^32\<close>); \<open>sdiv\<close> of \<open>HOL-Library.Signed_Division\<close> truncates towards zero as C does.
\<close>

definition wrap32 :: "int \<Rightarrow> int" where
  "wrap32 x = (x + 2 ^ 31) mod 2 ^ 32 - 2 ^ 31"

definition int32 :: "int \<Rightarrow> bool" where
  "int32 x \<longleftrightarrow> - (2 ^ 31) \<le> x \<and> x < 2 ^ 31"

lemma wrap32_id [simp]: "int32 x \<Longrightarrow> wrap32 x = x"
  by (simp add: wrap32_def int32_def)

lemma int32_wrap32 [simp]: "int32 (wrap32 x)"
proof -
  have "0 \<le> (x + 2 ^ 31) mod (2 ^ 32 :: int)" "(x + 2 ^ 31) mod (2 ^ 32 :: int) < 2 ^ 32"
    by (rule pos_mod_sign, simp) (rule pos_mod_bound, simp)
  then show ?thesis by (simp add: wrap32_def int32_def)
qed

lemma wrap32_wrap_diff: "wrap32 (wrap32 x - b) = wrap32 (x - b)"
proof -
  have e: "wrap32 x - b + 2 ^ 31 = (x + 2 ^ 31) mod 2 ^ 32 - b"
    by (simp add: wrap32_def)
  have "(wrap32 x - b + 2 ^ 31) mod 2 ^ 32 = (x + 2 ^ 31 - b) mod (2 ^ 32 :: int)"
    unfolding e by (rule mod_diff_left_eq)
  also have "x + 2 ^ 31 - b = (x - b) + 2 ^ 31" by simp
  finally show ?thesis by (simp only: wrap32_def)
qed

text \<open>Adding and taking away again is harmless even across the wrap-around.\<close>

lemma wrap32_sub_cancel [simp]: "int32 a \<Longrightarrow> wrap32 (wrap32 (a + b) - b) = a"
  by (simp add: wrap32_wrap_diff)

text \<open>Truncating division of non-negative numbers is the ordinary quotient.\<close>

lemma sdiv_nonneg [simp]:
  fixes a b :: int
  assumes "0 \<le> a" "0 \<le> b"
  shows "a sdiv b = a div b"
  unfolding signed_divide_int_def using assms by (simp add: sgn_if)

section \<open>Identities of kernel objects\<close>

text \<open>
  A \<open>struct proc *\<close>, \<open>struct file *\<close>, \<open>struct inode *\<close> or \<open>struct buf *\<close> points into a
  static table: it is the index of the table entry, and a null pointer is \<open>None\<close>. A
  spinlock is named by the structure that holds it, and a wait channel (the \<open>void *chan\<close> of
  sleep) by the object whose address the code passes.
\<close>

datatype slockid = BufLock nat | InodeLock nat

datatype lockid =
    PtableLock | TicksLock | KmemLock | BcacheLock | LogLock | IcacheLock | FtableLock
  | IdeLock | ConsLock | PipeLock u32 | SleepLk slockid

datatype chan =
    ChProc nat | ChTicks | ChLog | ChSleepLock slockid | ChBuf nat
  | ChPipeRead u32 | ChPipeWrite u32 | ChInput

section \<open>Results that are not a return\<close>

text \<open>
  \<open>Panic s\<close> is a call of \<open>panic(s)\<close>, which never returns. \<open>Spins l\<close> is a processor
  looping on the held spinlock \<open>l\<close>. \<open>Blocks c\<close> is a process that has gone to sleep on
  channel \<open>c\<close>. \<open>DivideError\<close> is the processor exception of an integer division by zero,
  \<open>BadAccess\<close> an access outside the object that is accessed, and \<open>Diverges\<close> a loop that
  is still running when its fuel is used up.
\<close>

datatype kerror =
  Panic string | Spins lockid | Blocks chan | DivideError | BadAccess | Diverges

type_synonym 'a result = "kerror + 'a"

definition bindE :: "'e + 'a \<Rightarrow> ('a \<Rightarrow> 'e + 'b) \<Rightarrow> 'e + 'b" where
  "bindE m f = (case m of Inl e \<Rightarrow> Inl e | Inr x \<Rightarrow> f x)"

lemma bindE_Inl [simp]: "bindE (Inl e) f = Inl e"
  by (simp add: bindE_def)

lemma bindE_Inr [simp]: "bindE (Inr x) f = f x"
  by (simp add: bindE_def)

lemma bindE_assoc: "bindE (bindE m f) g = bindE m (\<lambda>x. bindE (f x) g)"
  by (cases m) simp_all

lemma bindE_eq_Inr: "bindE m f = Inr y \<longleftrightarrow> (\<exists>x. m = Inr x \<and> f x = Inr y)"
  by (cases m) simp_all

lemma bindE_eq_Inl: "bindE m f = Inl e \<longleftrightarrow> m = Inl e \<or> (\<exists>x. m = Inr x \<and> f x = Inl e)"
  by (cases m) simp_all

lemma bindE_InrE [elim!]:
  assumes "bindE m f = Inr y"
  obtains x where "m = Inr x" "f x = Inr y"
  using assms by (auto simp: bindE_eq_Inr)

lemma bindE_cong [fundef_cong]:
  "m = m' \<Longrightarrow> (\<And>x. m' = Inr x \<Longrightarrow> f x = f' x) \<Longrightarrow> bindE m f = bindE m' f'"
  by (cases m') (simp_all add: bindE_def)

text \<open>\<open>guardE b e\<close>: go on when \<open>b\<close> holds, otherwise stop with \<open>e\<close>.\<close>

definition guardE :: "bool \<Rightarrow> 'e \<Rightarrow> 'e + unit" where
  "guardE b e = (if b then Inr () else Inl e)"

lemma guardE_True [simp]: "guardE True e = Inr ()"
  by (simp add: guardE_def)

lemma guardE_False [simp]: "guardE False e = Inl e"
  by (simp add: guardE_def)

lemma guardE_eq_Inr [simp]: "guardE b e = Inr u \<longleftrightarrow> b"
  by (simp add: guardE_def)

lemma guardE_eq_Inl [simp]: "guardE b e = Inl e' \<longleftrightarrow> \<not> b \<and> e' = e"
  by (auto simp: guardE_def)

section \<open>Loops\<close>

text \<open>
  \<open>loopE n c f s\<close> is \<open>while(c) f\<close> with fuel \<open>n\<close>. The body goes on with \<open>Inr s'\<close> and leaves
  the function from inside the loop with \<open>Inl r\<close>; a loop that is left because \<open>c\<close> fails
  gives \<open>Inr\<close> of its last state. Every use fixes the fuel to a bound that a lemma shows to be
  enough, by \<open>loopE_rule\<close>.
\<close>

fun loopE :: "nat \<Rightarrow> ('s \<Rightarrow> bool) \<Rightarrow> ('s \<Rightarrow> ('r + 's) result) \<Rightarrow> 's \<Rightarrow> ('r + 's) result" where
  "loopE 0 c f s = (if c s then Inl Diverges else Inr (Inr s))"
| "loopE (Suc n) c f s =
    (if c s then bindE (f s) (\<lambda>x. case x of Inl r \<Rightarrow> Inr (Inl r) | Inr s' \<Rightarrow> loopE n c f s')
     else Inr (Inr s))"

text \<open>\<open>outcome E R I x\<close>: every error of \<open>x\<close> is in \<open>E\<close>, every early return in \<open>R\<close>, every other end in \<open>I\<close>.\<close>

definition outcome :: "('e \<Rightarrow> bool) \<Rightarrow> ('r \<Rightarrow> bool) \<Rightarrow> ('s \<Rightarrow> bool) \<Rightarrow> 'e + 'r + 's \<Rightarrow> bool" where
  "outcome E R I x = (case x of Inl e \<Rightarrow> E e | Inr (Inl r) \<Rightarrow> R r | Inr (Inr s) \<Rightarrow> I s)"

lemma outcome_simps [simp]:
  "outcome E R I (Inl e) = E e" "outcome E R I (Inr (Inl r)) = R r" "outcome E R I (Inr (Inr s)) = I s"
  by (simp_all add: outcome_def)

lemma loopE_rule:
  assumes "I s" "\<mu> s < n"
    and step: "\<And>s. I s \<Longrightarrow> c s \<Longrightarrow> outcome E R (\<lambda>s'. I s' \<and> \<mu> s' < (\<mu> s :: nat)) (f s)"
  shows "outcome E R (\<lambda>s'. I s' \<and> \<not> c s') (loopE n c f s)"
  using assms(1,2)
proof (induction n arbitrary: s)
  case (Suc n)
  show ?case
  proof (cases "c s")
    case True
    have o: "outcome E R (\<lambda>s'. I s' \<and> \<mu> s' < \<mu> s) (f s)" by (rule step [OF Suc.prems(1) True])
    show ?thesis
    proof (cases "f s")
      case (Inr x)
      then show ?thesis using o True Suc.IH Suc.prems by (cases x) auto
    qed (use o True in simp)
  qed (use Suc.prems in simp)
qed simp

section \<open>Scanning a table\<close>

primrec scan :: "('a \<Rightarrow> bool) \<Rightarrow> 'a list \<Rightarrow> nat option" where
  "scan P [] = None"
| "scan P (x # xs) = (if P x then Some 0 else map_option Suc (scan P xs))"

lemma scan_None_iff: "scan P xs = None \<longleftrightarrow> (\<forall>x \<in> set xs. \<not> P x)"
  by (induction xs) auto

lemma scan_Some_iff:
  "scan P xs = Some i \<longleftrightarrow> i < length xs \<and> P (xs ! i) \<and> (\<forall>j < i. \<not> P (xs ! j))"
proof (induction xs arbitrary: i)
  case Nil
  then show ?case by simp
next
  case (Cons x xs)
  then show ?case
    by (cases i) (auto simp: All_less_Suc2)
qed

lemma scan_SomeD:
  assumes "scan P xs = Some i"
  shows "i < length xs" "P (xs ! i)"
  using assms by (simp_all add: scan_Some_iff)

lemma scan_ex: "x \<in> set xs \<Longrightarrow> P x \<Longrightarrow> \<exists>i. scan P xs = Some i"
  by (cases "scan P xs") (auto simp: scan_None_iff)

lemma scan_unique:
  assumes "i < length xs" "P (xs ! i)" "\<And>j. j < length xs \<Longrightarrow> P (xs ! j) \<Longrightarrow> j = i"
  shows "scan P xs = Some i"
  unfolding scan_Some_iff
proof (intro conjI allI impI notI)
  fix j assume "j < i" "P (xs ! j)"
  with assms(1) assms(3) [of j] show False by linarith
qed (use assms(1,2) in auto)

lemma scan_map: "scan P (map f xs) = scan (\<lambda>x. P (f x)) xs"
  by (induction xs) simp_all

lemma scan_update_same: "P y = P (xs ! i) \<Longrightarrow> scan P (xs[i := y]) = scan P xs"
  by (induction xs arbitrary: i) (auto split: nat.split)

lemma map_update_same: "f y = f (xs ! i) \<Longrightarrow> map f (xs[i := y]) = map f xs"
  by (induction xs arbitrary: i) (auto split: nat.split)

section \<open>Byte memory\<close>

type_synonym memory = "u32 \<Rightarrow> u8"

definition load32 :: "memory \<Rightarrow> u32 \<Rightarrow> u32" where
  "load32 m a = ucast (m a) OR push_bit 8 (ucast (m (a + 1)))
     OR push_bit 16 (ucast (m (a + 2))) OR push_bit 24 (ucast (m (a + 3)))"

definition store32 :: "memory \<Rightarrow> u32 \<Rightarrow> u32 \<Rightarrow> memory" where
  "store32 m a v = m(a := ucast v, a + 1 := ucast (drop_bit 8 v),
     a + 2 := ucast (drop_bit 16 v), a + 3 := ucast (drop_bit 24 v))"

lemma bit_low_byte:
  fixes v :: u32
  shows "bit (ucast (ucast v :: u8) :: u32) n \<longleftrightarrow> n < 8 \<and> bit v n"
  by (auto simp: bit_simps)

lemma bit_mid_byte:
  fixes v :: u32
  shows "bit (push_bit k (ucast (ucast (drop_bit k v) :: u8)) :: u32) n
    \<longleftrightarrow> k \<le> n \<and> n < k + 8 \<and> bit v n"
  by (auto simp: bit_simps dest: bit_imp_le_length)

lemma word_split_bytes:
  fixes v :: u32
  shows "ucast (ucast v :: u8) OR push_bit 8 (ucast (ucast (drop_bit 8 v) :: u8))
     OR push_bit 16 (ucast (ucast (drop_bit 16 v) :: u8))
     OR push_bit 24 (ucast (ucast (drop_bit 24 v) :: u8)) = v"
  by (rule bit_word_eqI) (auto simp: bit_or_iff bit_low_byte bit_mid_byte)

lemma load32_store32 [simp]: "load32 (store32 m a v) a = v"
proof -
  have "a \<noteq> a + 1" "a \<noteq> a + 2" "a \<noteq> a + 3" "a + 1 \<noteq> a + 2" "a + 1 \<noteq> a + 3" "a + 2 \<noteq> a + 3"
    by simp_all
  then show ?thesis
    by (simp add: load32_def store32_def word_split_bytes)
qed

lemma load32_cong:
  "m a = m' a \<Longrightarrow> m (a + 1) = m' (a + 1) \<Longrightarrow> m (a + 2) = m' (a + 2) \<Longrightarrow> m (a + 3) = m' (a + 3)
   \<Longrightarrow> load32 m a = load32 m' a"
  by (simp add: load32_def)

text \<open>\<open>in_range a v n\<close>: address \<open>a\<close> is one of the \<open>n\<close> bytes from \<open>v\<close> on (modulo \<open>2^32\<close>).\<close>

definition in_range :: "u32 \<Rightarrow> u32 \<Rightarrow> nat \<Rightarrow> bool" where
  "in_range a v n \<longleftrightarrow> unat (a - v) < n"

lemma store32_outside: "\<not> in_range b a 4 \<Longrightarrow> store32 m a v b = m b"
proof -
  assume out: "\<not> in_range b a 4"
  have "b \<noteq> a" "b \<noteq> a + 1" "b \<noteq> a + 2" "b \<noteq> a + 3"
    using out by (auto simp: in_range_def)
  then show ?thesis by (simp add: store32_def)
qed

lemma sint_small:
  fixes n :: u32
  assumes "unat n < 2147483648"
  shows "sint n = int (unat n)"
proof -
  have "uint n < 2147483648" using assms by (metis of_nat_less_iff of_nat_numeral uint_nat)
  moreover have "- 2147483648 \<le> uint n" using uint_ge_0 [of n] by linarith
  ultimately show ?thesis by (simp add: sint_uint signed_take_bit_int_eq_self)
qed

end
