(* ===== verification/Bytes.thy ===== *)
theory Bytes
  imports Prelude
begin

text \<open>
  Byte arrays of fixed length, as disk blocks and the structures stored in them: reading and
  replacing a part of an array, and the little-endian words in it.
\<close>

section \<open>Parts of an array\<close>

definition slice :: "'a list \<Rightarrow> nat \<Rightarrow> nat \<Rightarrow> 'a list" where
  "slice bs off n = take n (drop off bs)"

definition splice_at :: "'a list \<Rightarrow> nat \<Rightarrow> 'a list \<Rightarrow> 'a list" where
  "splice_at bs off xs = take off bs @ xs @ drop (off + length xs) bs"

lemma length_slice [simp]: "off + n \<le> length bs \<Longrightarrow> length (slice bs off n) = n"
  by (simp add: slice_def)

lemma length_splice_at [simp]: "off + length xs \<le> length bs \<Longrightarrow> length (splice_at bs off xs) = length bs"
  by (simp add: splice_at_def)

lemma nth_slice: "i < n \<Longrightarrow> off + n \<le> length bs \<Longrightarrow> slice bs off n ! i = bs ! (off + i)"
  by (simp add: slice_def)

lemma nth_splice_at:
  assumes "off + length xs \<le> length bs" "i < length bs"
  shows "splice_at bs off xs ! i = (if off \<le> i \<and> i < off + length xs then xs ! (i - off) else bs ! i)"
  using assms by (auto simp: splice_at_def nth_append min_def)

lemma slice_splice_same [simp]:
  "off + length xs \<le> length bs \<Longrightarrow> n = length xs \<Longrightarrow> slice (splice_at bs off xs) off n = xs"
  by (simp add: slice_def splice_at_def)

lemma slice_splice_disjoint:
  assumes "off + length xs \<le> length bs" "o' + n \<le> length bs" "o' + n \<le> off \<or> off + length xs \<le> o'"
  shows "slice (splice_at bs off xs) o' n = slice bs o' n"
  using assms by (intro nth_equalityI) (auto simp: nth_slice nth_splice_at)

lemma splice_slice_same: "off + n \<le> length bs \<Longrightarrow> splice_at bs off (slice bs off n) = bs"
  by (intro nth_equalityI) (auto simp: nth_slice nth_splice_at)

lemma splice_all [simp]: "length xs = length bs \<Longrightarrow> splice_at bs 0 xs = xs"
  by (simp add: splice_at_def)

section \<open>Words in an array\<close>

definition bytes32 :: "u32 \<Rightarrow> u8 list" where
  "bytes32 w = [ucast w, ucast (drop_bit 8 w), ucast (drop_bit 16 w), ucast (drop_bit 24 w)]"

definition word32 :: "u8 list \<Rightarrow> u32" where
  "word32 bs = ucast (bs ! 0) OR push_bit 8 (ucast (bs ! 1)) OR push_bit 16 (ucast (bs ! 2))
     OR push_bit 24 (ucast (bs ! 3))"

definition bytes16 :: "u16 \<Rightarrow> u8 list" where
  "bytes16 w = [ucast w, ucast (drop_bit 8 w)]"

definition word16 :: "u8 list \<Rightarrow> u16" where
  "word16 bs = ucast (bs ! 0) OR push_bit 8 (ucast (bs ! 1))"

lemma length_bytes [simp]: "length (bytes32 w) = 4" "length (bytes16 h) = 2"
  by (simp_all add: bytes32_def bytes16_def)

lemma word32_bytes32 [simp]: "word32 (bytes32 w) = w"
  using word_split_bytes [of w] by (simp add: word32_def bytes32_def)

lemma word16_bytes16 [simp]: "word16 (bytes16 w) = w"
  by (rule bit_word_eqI) (auto simp: word16_def bytes16_def bit_simps dest: bit_imp_le_length)

definition get32 :: "u8 list \<Rightarrow> nat \<Rightarrow> u32" where
  "get32 bs off = word32 (slice bs off 4)"

definition put32 :: "u8 list \<Rightarrow> nat \<Rightarrow> u32 \<Rightarrow> u8 list" where
  "put32 bs off w = splice_at bs off (bytes32 w)"

definition get16 :: "u8 list \<Rightarrow> nat \<Rightarrow> u16" where
  "get16 bs off = word16 (slice bs off 2)"

definition put16 :: "u8 list \<Rightarrow> nat \<Rightarrow> u16 \<Rightarrow> u8 list" where
  "put16 bs off w = splice_at bs off (bytes16 w)"

lemma length_put [simp]:
  "off + 4 \<le> length bs \<Longrightarrow> length (put32 bs off w) = length bs"
  "off + 2 \<le> length bs \<Longrightarrow> length (put16 bs off h) = length bs"
  by (simp_all add: put32_def put16_def)

lemma get_put [simp]:
  "off + 4 \<le> length bs \<Longrightarrow> get32 (put32 bs off w) off = w"
  "off + 2 \<le> length bs \<Longrightarrow> get16 (put16 bs off h) off = h"
  by (simp_all add: get32_def put32_def get16_def put16_def)

lemma get32_put32_other:
  "off + 4 \<le> length bs \<Longrightarrow> o' + 4 \<le> length bs \<Longrightarrow> o' + 4 \<le> off \<or> off + 4 \<le> o' \<Longrightarrow>
   get32 (put32 bs off w) o' = get32 bs o'"
  by (simp add: get32_def put32_def slice_splice_disjoint)

text \<open>An array of words at the start of a block, as the log header and an indirect block have it.\<close>

fun put32s :: "u8 list \<Rightarrow> nat \<Rightarrow> u32 list \<Rightarrow> u8 list" where
  "put32s bs off [] = bs"
| "put32s bs off (w # ws) = put32s (put32 bs off w) (off + 4) ws"

lemma length_put32s [simp]: "off + 4 * length ws \<le> length bs \<Longrightarrow> length (put32s bs off ws) = length bs"
  by (induction bs off ws rule: put32s.induct) simp_all

lemma get32_put32s:
  assumes "off + 4 * length ws \<le> length bs" "o' + 4 \<le> length bs" "o' + 4 \<le> off \<or> off + 4 * length ws \<le> o'"
  shows "get32 (put32s bs off ws) o' = get32 bs o'"
  using assms by (induction bs off ws rule: put32s.induct) (auto simp: get32_put32_other)

lemma get32_put32s_nth:
  assumes "off + 4 * length ws \<le> length bs" "i < length ws"
  shows "get32 (put32s bs off ws) (off + 4 * i) = ws ! i"
  using assms
proof (induction bs off ws arbitrary: i rule: put32s.induct)
  case (2 bs off w ws)
  show ?case
  proof (cases i)
    case 0
    then show ?thesis using "2.prems" get32_put32s [of "off + 4" ws "put32 bs off w" off] by simp
  next
    case (Suc k)
    then show ?thesis using "2.IH" [of k] "2.prems" by (simp add: add.assoc)
  qed
qed simp

end
