(* ===== verification/Spinlock.thy ===== *)
theory Spinlock
  imports Prelude
begin

text \<open>
  Spinlocks and the interrupt-disable count (spinlock.c), with the per-processor state they
  use (struct cpu of proc.h, mycpu of proc.c).

  The state is the part of the machine that all processors share. \<open>m_lapicid\<close> is the local
  APIC id of the processor that executes; a processor switch is an update of that field, so
  the operations below interleave at the granularity of one call. \<open>m_IF\<close> is the interrupt
  flag of eflags, one per processor. The debugging fields of a lock that record the call
  stack (pcs) are left out of the lock; getcallerpcs itself is modelled as a function of the
  stack memory.
\<close>

section \<open>State\<close>

record spinlock =
  lk_locked :: u32
  lk_name :: string
  lk_cpu :: "nat option"

record cpu =
  c_apicid :: u8
  c_ncli :: int
  c_intena :: bool
  c_proc :: "nat option"

record machine =
  cpus :: "cpu list"
  m_lapicid :: u8
  m_IF :: "u8 \<Rightarrow> bool"
  locks :: "lockid \<Rightarrow> spinlock"

section \<open>Operations\<close>

text \<open>The instructions readeflags, cli and sti of x86.h, on the interrupt flag.\<close>

definition readeflags_IF :: "'a machine_scheme \<Rightarrow> bool" where
  "readeflags_IF s = m_IF s (m_lapicid s)"

definition cli :: "'a machine_scheme \<Rightarrow> 'a machine_scheme" where
  "cli s = s\<lparr>m_IF := (m_IF s)(m_lapicid s := False)\<rparr>"

definition sti :: "'a machine_scheme \<Rightarrow> 'a machine_scheme" where
  "sti s = s\<lparr>m_IF := (m_IF s)(m_lapicid s := True)\<rparr>"

definition mycpu :: "'a machine_scheme \<Rightarrow> nat result" where
  "mycpu s =
    (if readeflags_IF s then Inl (Panic ''mycpu called with interrupts enabled\<newline>'')
     else case scan (\<lambda>c. c_apicid c = m_lapicid s) (cpus s) of
       None \<Rightarrow> Inl (Panic ''unknown apicid\<newline>'')
     | Some i \<Rightarrow> Inr i)"

definition upd_cpu :: "nat \<Rightarrow> (cpu \<Rightarrow> cpu) \<Rightarrow> 'a machine_scheme \<Rightarrow> 'a machine_scheme" where
  "upd_cpu i f s = s\<lparr>cpus := (cpus s)[i := f (cpus s ! i)]\<rparr>"

definition upd_lock :: "lockid \<Rightarrow> (spinlock \<Rightarrow> spinlock) \<Rightarrow> 'a machine_scheme \<Rightarrow> 'a machine_scheme"
  where "upd_lock l f s = s\<lparr>locks := (locks s)(l := f (locks s l))\<rparr>"

definition pushcli :: "'a machine_scheme \<Rightarrow> 'a machine_scheme result" where
  "pushcli s =
    (let eflags = readeflags_IF s; s1 = cli s in
     bindE (mycpu s1) (\<lambda>i.
     let s2 = (if c_ncli (cpus s1 ! i) = 0 then upd_cpu i (\<lambda>c. c\<lparr>c_intena := eflags\<rparr>) s1 else s1)
     in Inr (upd_cpu i (\<lambda>c. c\<lparr>c_ncli := c_ncli c + 1\<rparr>) s2)))"

definition popcli :: "'a machine_scheme \<Rightarrow> 'a machine_scheme result" where
  "popcli s =
    (if readeflags_IF s then Inl (Panic ''popcli - interruptible'')
     else bindE (mycpu s) (\<lambda>i.
       let s1 = upd_cpu i (\<lambda>c. c\<lparr>c_ncli := c_ncli c - 1\<rparr>) s in
       if c_ncli (cpus s1 ! i) < 0 then Inl (Panic ''popcli'')
       else if c_ncli (cpus s1 ! i) = 0 \<and> c_intena (cpus s1 ! i) then Inr (sti s1)
       else Inr s1))"

definition initlock :: "lockid \<Rightarrow> string \<Rightarrow> 'a machine_scheme \<Rightarrow> 'a machine_scheme" where
  "initlock l name s =
     upd_lock l (\<lambda>k. k\<lparr>lk_name := name, lk_locked := 0, lk_cpu := None\<rparr>) s"

definition holding :: "lockid \<Rightarrow> 'a machine_scheme \<Rightarrow> (bool \<times> 'a machine_scheme) result" where
  "holding l s =
    bindE (pushcli s) (\<lambda>s.
    bindE (mycpu s) (\<lambda>i.
    let r = lk_locked (locks s l) \<noteq> 0 \<and> lk_cpu (locks s l) = Some i in
    bindE (popcli s) (\<lambda>s.
    Inr (r, s))))"

text \<open>
  The loop \<open>while(xchg(&lk->locked, 1) != 0)\<close> stores 1 and looks at the old value: it
  leaves at once when the old value is 0, and spins without a change of state otherwise.
\<close>

definition acquire :: "lockid \<Rightarrow> 'a machine_scheme \<Rightarrow> 'a machine_scheme result" where
  "acquire l s =
    bindE (pushcli s) (\<lambda>s.
    bindE (holding l s) (\<lambda>(r, s).
    if r then Inl (Panic ''acquire'')
    else if lk_locked (locks s l) \<noteq> 0 then Inl (Spins l)
    else let s = upd_lock l (\<lambda>k. k\<lparr>lk_locked := 1\<rparr>) s in
      bindE (mycpu s) (\<lambda>i.
      Inr (upd_lock l (\<lambda>k. k\<lparr>lk_cpu := Some i\<rparr>) s))))"

definition release :: "lockid \<Rightarrow> 'a machine_scheme \<Rightarrow> 'a machine_scheme result" where
  "release l s =
    bindE (holding l s) (\<lambda>(r, s).
    if \<not> r then Inl (Panic ''release'')
    else let s = upd_lock l (\<lambda>k. k\<lparr>lk_cpu := None\<rparr>) s;
             s = upd_lock l (\<lambda>k. k\<lparr>lk_locked := 0\<rparr>) s in
      popcli s)"

text \<open>
  getcallerpcs follows the chain of saved frame pointers: at most ten frames, stopping at a
  null pointer, a user address or the end marker; the rest of the array is zero.
\<close>

definition KERNBASE :: u32 where "KERNBASE = 0x80000000"

fun callchain :: "nat \<Rightarrow> memory \<Rightarrow> u32 \<Rightarrow> u32 list" where
  "callchain 0 m ebp = []"
| "callchain (Suc n) m ebp =
     (if ebp = 0 \<or> ebp < KERNBASE \<or> ebp = 0xffffffff then []
      else load32 m (ebp + 4) # callchain n m (load32 m ebp))"

definition getcallerpcs :: "memory \<Rightarrow> u32 \<Rightarrow> u32 list" where
  "getcallerpcs m v = (let pcs = callchain 10 m (v - 8) in pcs @ replicate (10 - length pcs) 0)"

section \<open>What the operations do on a well-formed machine\<close>

text \<open>
  \<open>cpu_ok s i\<close>: the executing processor is entry \<open>i\<close> of cpus, its count is not negative,
  and interrupts are off while it is positive.
\<close>

definition cpu_ok :: "'a machine_scheme \<Rightarrow> nat \<Rightarrow> bool" where
  "cpu_ok s i \<longleftrightarrow> scan (\<lambda>c. c_apicid c = m_lapicid s) (cpus s) = Some i
     \<and> 0 \<le> c_ncli (cpus s ! i)
     \<and> (0 < c_ncli (cpus s ! i) \<longrightarrow> \<not> m_IF s (m_lapicid s))"

lemma cpu_ok_bound: "cpu_ok s i \<Longrightarrow> i < length (cpus s)"
  by (auto simp: cpu_ok_def dest: scan_SomeD)

lemma cpu_ok_apicid: "cpu_ok s i \<Longrightarrow> c_apicid (cpus s ! i) = m_lapicid s"
  by (auto simp: cpu_ok_def dest: scan_SomeD)

text \<open>\<open>cur s\<close>: the entry of cpus for the executing processor. It depends only on the APIC ids.\<close>

definition cur :: "'a machine_scheme \<Rightarrow> nat option" where
  "cur s = scan (\<lambda>a. a = m_lapicid s) (map c_apicid (cpus s))"

definition same_cpus :: "'a machine_scheme \<Rightarrow> 'b machine_scheme \<Rightarrow> bool" where
  "same_cpus s t \<longleftrightarrow> m_lapicid t = m_lapicid s \<and> map c_apicid (cpus t) = map c_apicid (cpus s)"

lemma cur_eq: "cur s = scan (\<lambda>c. c_apicid c = m_lapicid s) (cpus s)"
  by (simp add: cur_def scan_map)

lemma same_cpus_cur: "same_cpus s t \<Longrightarrow> cur t = cur s"
  by (simp add: same_cpus_def cur_def)

lemma same_cpus_trans: "same_cpus s t \<Longrightarrow> same_cpus t u \<Longrightarrow> same_cpus s u"
  by (simp add: same_cpus_def)

lemma same_cpus_upd_lock [simp]: "same_cpus s (upd_lock l f t) = same_cpus s t"
  by (simp add: same_cpus_def upd_lock_def)

lemma mycpu_Inr: "mycpu s = Inr i \<longleftrightarrow> \<not> m_IF s (m_lapicid s) \<and> cur s = Some i"
  by (auto simp: mycpu_def cur_eq readeflags_IF_def split: option.splits)

lemma pushcli_frame: "pushcli s = Inr t \<Longrightarrow> locks t = locks s \<and> same_cpus s t"
  by (auto simp: pushcli_def cli_def upd_cpu_def same_cpus_def Let_def map_update_same
      split: if_splits)

lemma popcli_frame: "popcli s = Inr t \<Longrightarrow> locks t = locks s \<and> same_cpus s t"
  by (auto simp: popcli_def sti_def upd_cpu_def same_cpus_def Let_def map_update_same
      split: if_splits)

lemma holding_frame:
  assumes "holding l s = Inr (r, t)"
  shows "locks t = locks s" "same_cpus s t"
    "\<exists>i. cur s = Some i \<and> (r \<longleftrightarrow> lk_locked (locks s l) \<noteq> 0 \<and> lk_cpu (locks s l) = Some i)"
proof -
  from assms obtain u i where u: "pushcli s = Inr u" and i: "mycpu u = Inr i"
    and t: "popcli u = Inr t" and r: "r \<longleftrightarrow> lk_locked (locks u l) \<noteq> 0 \<and> lk_cpu (locks u l) = Some i"
    by (auto simp: holding_def Let_def)
  note fu = pushcli_frame [OF u] and ft = popcli_frame [OF t]
  from fu ft show "locks t = locks s" "same_cpus s t"
    by (auto intro: same_cpus_trans)
  from i fu r show "\<exists>i. cur s = Some i \<and> (r \<longleftrightarrow> lk_locked (locks s l) \<noteq> 0 \<and> lk_cpu (locks s l) = Some i)"
    by (auto simp: mycpu_Inr dest: same_cpus_cur)
qed

lemma acquire_Inr:
  assumes "acquire l s = Inr t"
  obtains i where "cur s = Some i" "lk_locked (locks s l) = 0" "same_cpus s t"
    "locks t = (locks s)(l := (locks s l)\<lparr>lk_locked := 1, lk_cpu := Some i\<rparr>)"
proof -
  from assms obtain u v i where u: "pushcli s = Inr u" and v: "holding l u = Inr (False, v)"
    and free: "lk_locked (locks v l) = 0"
    and i: "mycpu (upd_lock l (\<lambda>k. k\<lparr>lk_locked := 1\<rparr>) v) = Inr i"
    and t: "t = upd_lock l (\<lambda>k. k\<lparr>lk_cpu := Some i\<rparr>) (upd_lock l (\<lambda>k. k\<lparr>lk_locked := 1\<rparr>) v)"
    by (auto simp: acquire_def Let_def split: if_splits)
  note fu = pushcli_frame [OF u] and fv = holding_frame [OF v]
  have sv: "same_cpus s v" using fu fv(2) by (auto intro: same_cpus_trans)
  have "cur s = Some i"
    using i sv by (auto simp: mycpu_Inr same_cpus_def cur_def upd_lock_def)
  moreover have "locks v = locks s" using fu fv(1) by simp
  ultimately show ?thesis
    using sv free t by (intro that) (auto simp: upd_lock_def same_cpus_def)
qed

lemma release_Inr:
  assumes "release l s = Inr t"
  obtains i where "cur s = Some i" "lk_locked (locks s l) \<noteq> 0" "lk_cpu (locks s l) = Some i"
    "same_cpus s t" "locks t = (locks s)(l := (locks s l)\<lparr>lk_cpu := None, lk_locked := 0\<rparr>)"
proof -
  from assms obtain u where u: "holding l s = Inr (True, u)"
    and t: "popcli (upd_lock l (\<lambda>k. k\<lparr>lk_locked := 0\<rparr>) (upd_lock l (\<lambda>k. k\<lparr>lk_cpu := None\<rparr>) u)) = Inr t"
    by (auto simp: release_def Let_def split: if_splits)
  note fu = holding_frame [OF u] and ft = popcli_frame [OF t]
  have "same_cpus s t"
    using fu(2) ft by (auto simp: same_cpus_def upd_lock_def)
  then show ?thesis
    using fu ft that by (auto simp: upd_lock_def)
qed

section \<open>Mutual exclusion\<close>

text \<open>
  The contract of a lock, shared by every kind of lock in the kernel: an agent can acquire
  only a free lock and release only a lock it holds. \<open>mutex_run\<close> runs a history of such
  calls, each made by some agent; it stops at the first call that does not return.
\<close>

datatype ('a, 'l) mutex_event = Acq 'a 'l | Rel 'a 'l

fun mutex_run ::
  "('a \<Rightarrow> 'l \<Rightarrow> 's \<Rightarrow> 'e + 's) \<Rightarrow> ('a \<Rightarrow> 'l \<Rightarrow> 's \<Rightarrow> 'e + 's) \<Rightarrow> ('a, 'l) mutex_event list \<Rightarrow> 's \<Rightarrow> 'e + 's"
where
  "mutex_run acq rel [] s = Inr s"
| "mutex_run acq rel (Acq a l # es) s = bindE (acq a l s) (mutex_run acq rel es)"
| "mutex_run acq rel (Rel a l # es) s = bindE (rel a l s) (mutex_run acq rel es)"

lemma mutex_run_append:
  "mutex_run acq rel (es @ fs) s = bindE (mutex_run acq rel es s) (mutex_run acq rel fs)"
proof (induction es arbitrary: s)
  case (Cons e es)
  then show ?case by (cases e) (auto simp: bindE_assoc intro: bindE_cong)
qed simp

locale mutex =
  fixes acq :: "'a \<Rightarrow> 'l \<Rightarrow> 's \<Rightarrow> 'e + 's"
    and rel :: "'a \<Rightarrow> 'l \<Rightarrow> 's \<Rightarrow> 'e + 's"
    and holder :: "'s \<Rightarrow> 'l \<Rightarrow> 'a option"
    and inv :: "'s \<Rightarrow> bool"
  assumes acq_free: "inv s \<Longrightarrow> acq a l s = Inr t \<Longrightarrow> holder s l = None"
    and acq_takes: "inv s \<Longrightarrow> acq a l s = Inr t \<Longrightarrow> holder t = (holder s)(l := Some a)"
    and acq_inv: "inv s \<Longrightarrow> acq a l s = Inr t \<Longrightarrow> inv t"
    and rel_held: "inv s \<Longrightarrow> rel a l s = Inr t \<Longrightarrow> holder s l = Some a"
    and rel_frees: "inv s \<Longrightarrow> rel a l s = Inr t \<Longrightarrow> holder t = (holder s)(l := None)"
    and rel_inv: "inv s \<Longrightarrow> rel a l s = Inr t \<Longrightarrow> inv t"
begin

lemma run_inv: "inv s \<Longrightarrow> mutex_run acq rel es s = Inr t \<Longrightarrow> inv t"
proof (induction es arbitrary: s)
  case (Cons e es)
  then show ?case by (cases e) (auto dest: acq_inv rel_inv)
qed simp

lemma run_keeps_holder:
  "inv s \<Longrightarrow> mutex_run acq rel es s = Inr t \<Longrightarrow> holder s l = Some a \<Longrightarrow> Rel a l \<notin> set es
   \<Longrightarrow> holder t l = Some a \<and> (\<forall>b. Acq b l \<notin> set es)"
proof (induction es arbitrary: s)
  case Nil
  then show ?case by simp
next
  case (Cons e es)
  show ?case
  proof (cases e)
    case (Acq b k)
    with Cons.prems obtain u where u: "acq b k s = Inr u" "mutex_run acq rel es u = Inr t"
      by auto
    with Cons.prems have "k \<noteq> l" by (auto dest: acq_free)
    with u Cons.prems have "holder u l = Some a" by (auto dest: acq_takes)
    with u Cons.prems Cons.IH [of u] Acq \<open>k \<noteq> l\<close> show ?thesis by (auto dest: acq_inv)
  next
    case (Rel b k)
    with Cons.prems obtain u where u: "rel b k s = Inr u" "mutex_run acq rel es u = Inr t"
      by auto
    with Cons.prems Rel have "k \<noteq> l" by (auto dest: rel_held)
    with u Cons.prems have "holder u l = Some a" by (auto dest: rel_frees)
    with u Cons.prems Cons.IH [of u] Rel show ?thesis by (auto dest: rel_inv)
  qed
qed

lemma exclusion:
  assumes "inv s" "mutex_run acq rel (xs @ Acq a l # ys @ Acq b l # zs) s = Inr t"
  shows "Rel a l \<in> set ys"
proof (rule ccontr)
  assume no: "Rel a l \<notin> set ys"
  from assms(2) obtain u v w where u: "mutex_run acq rel xs s = Inr u" and v: "acq a l u = Inr v"
    and w: "mutex_run acq rel ys v = Inr w" and b: "\<exists>t. acq b l w = Inr t"
    by (auto simp: mutex_run_append)
  have iu: "inv u" using run_inv [OF assms(1) u] .
  have iv: "inv v" using acq_inv [OF iu v] .
  have "holder v l = Some a" using acq_takes [OF iu v] by simp
  then have "holder w l = Some a" using run_keeps_holder [OF iv w _ no] by blast
  moreover have "inv w" using run_inv [OF iv w] .
  ultimately show False using b acq_free by fastforce
qed

end

text \<open>Processor \<open>a\<close> (by APIC id) runs acquire or release.\<close>

definition acquire_on :: "u8 \<Rightarrow> lockid \<Rightarrow> machine \<Rightarrow> machine result" where
  "acquire_on a l s = acquire l (s\<lparr>m_lapicid := a\<rparr>)"

definition release_on :: "u8 \<Rightarrow> lockid \<Rightarrow> machine \<Rightarrow> machine result" where
  "release_on a l s = release l (s\<lparr>m_lapicid := a\<rparr>)"

definition lock_holder :: "machine \<Rightarrow> lockid \<Rightarrow> u8 option" where
  "lock_holder s l = (if lk_locked (locks s l) = 0 then None
     else map_option (\<lambda>i. map c_apicid (cpus s) ! i) (lk_cpu (locks s l)))"

text \<open>
  The APIC ids differ (mpinit reads them from the MP table, one entry per processor), and
  a lock is marked as locked exactly when it names a processor.
\<close>

definition locks_inv :: "machine \<Rightarrow> bool" where
  "locks_inv s \<longleftrightarrow> distinct (map c_apicid (cpus s))
     \<and> (\<forall>l. (lk_locked (locks s l) = 0 \<longleftrightarrow> lk_cpu (locks s l) = None)
          \<and> (\<forall>i. lk_cpu (locks s l) = Some i \<longrightarrow> i < length (cpus s)))"

lemma cur_SomeD:
  assumes "cur s = Some i"
  shows "i < length (cpus s)" "map c_apicid (cpus s) ! i = m_lapicid s"
  using assms unfolding cur_def by (auto dest: scan_SomeD)

lemma same_cpusD:
  assumes "same_cpus s t"
  shows "map c_apicid (cpus t) = map c_apicid (cpus s)" "length (cpus t) = length (cpus s)"
  using assms by (auto simp: same_cpus_def dest: map_eq_imp_length_eq)

lemma acquire_on_locks_inv:
  assumes "locks_inv s" "acquire_on a l s = Inr t"
  shows "locks_inv t" "lock_holder s l = None" "lock_holder t = (lock_holder s)(l := Some a)"
proof -
  obtain i where i: "cur (s\<lparr>m_lapicid := a\<rparr>) = Some i" and free: "lk_locked (locks s l) = 0"
    and same: "same_cpus (s\<lparr>m_lapicid := a\<rparr>) t"
    and t: "locks t = (locks s)(l := (locks s l)\<lparr>lk_locked := 1, lk_cpu := Some i\<rparr>)"
    using assms(2) unfolding acquire_on_def by (auto elim: acquire_Inr)
  note facts = assms(1) free t cur_SomeD [OF i] same_cpusD [OF same]
  from facts show "locks_inv t" by (auto simp: locks_inv_def)
  from facts show "lock_holder s l = None" by (simp add: lock_holder_def)
  from facts show "lock_holder t = (lock_holder s)(l := Some a)"
    by (auto simp: lock_holder_def fun_eq_iff)
qed

lemma release_on_locks_inv:
  assumes "locks_inv s" "release_on a l s = Inr t"
  shows "locks_inv t" "lock_holder s l = Some a" "lock_holder t = (lock_holder s)(l := None)"
proof -
  obtain i where i: "cur (s\<lparr>m_lapicid := a\<rparr>) = Some i" and held: "lk_locked (locks s l) \<noteq> 0"
    "lk_cpu (locks s l) = Some i" and same: "same_cpus (s\<lparr>m_lapicid := a\<rparr>) t"
    and t: "locks t = (locks s)(l := (locks s l)\<lparr>lk_cpu := None, lk_locked := 0\<rparr>)"
    using assms(2) unfolding release_on_def by (auto elim: release_Inr)
  note facts = assms(1) held t cur_SomeD [OF i] same_cpusD [OF same]
  from facts show "locks_inv t" by (auto simp: locks_inv_def)
  from facts show "lock_holder s l = Some a" by (simp add: lock_holder_def)
  from facts show "lock_holder t = (lock_holder s)(l := None)"
    by (auto simp: lock_holder_def fun_eq_iff)
qed

interpretation spin: mutex acquire_on release_on lock_holder locks_inv
  by unfold_locales (auto dest: acquire_on_locks_inv release_on_locks_inv)

section \<open>Nesting\<close>

lemma mycpu_ok: "cpu_ok s i \<Longrightarrow> \<not> m_IF s (m_lapicid s) \<Longrightarrow> mycpu s = Inr i"
  by (simp add: mycpu_Inr cpu_ok_def cur_eq)

text \<open>The state after \<open>n\<close> calls of pushcli and after \<open>n\<close> calls of popcli, in closed form.\<close>

definition pushed :: "nat \<Rightarrow> int \<Rightarrow> 'a machine_scheme \<Rightarrow> 'a machine_scheme" where
  "pushed i n s = s\<lparr>m_IF := (m_IF s)(m_lapicid s := False),
     cpus := (cpus s)[i := (cpus s ! i)\<lparr>
       c_intena := (if c_ncli (cpus s ! i) = 0 then m_IF s (m_lapicid s) else c_intena (cpus s ! i)),
       c_ncli := c_ncli (cpus s ! i) + n\<rparr>]\<rparr>"

definition popped :: "nat \<Rightarrow> int \<Rightarrow> 'a machine_scheme \<Rightarrow> 'a machine_scheme" where
  "popped i n s = s\<lparr>
     m_IF := (if c_ncli (cpus s ! i) = n \<and> c_intena (cpus s ! i)
              then (m_IF s)(m_lapicid s := True) else m_IF s),
     cpus := (cpus s)[i := (cpus s ! i)\<lparr>c_ncli := c_ncli (cpus s ! i) - n\<rparr>]\<rparr>"

lemma pushed_sel [simp]:
  "m_lapicid (pushed i n s) = m_lapicid s" "locks (pushed i n s) = locks s"
  "m_IF (pushed i n s) = (m_IF s)(m_lapicid s := False)"
  "length (cpus (pushed i n s)) = length (cpus s)"
  by (simp_all add: pushed_def)

lemma popped_sel [simp]:
  "m_lapicid (popped i n s) = m_lapicid s" "locks (popped i n s) = locks s"
  "length (cpus (popped i n s)) = length (cpus s)"
  by (simp_all add: popped_def)

lemma pushed_ncli [simp]:
  "i < length (cpus s) \<Longrightarrow> c_ncli (cpus (pushed i n s) ! i) = c_ncli (cpus s ! i) + n"
  by (simp add: pushed_def)

lemma popped_ncli [simp]:
  "i < length (cpus s) \<Longrightarrow> c_ncli (cpus (popped i n s) ! i) = c_ncli (cpus s ! i) - n"
  by (simp add: popped_def)

lemma cpu_ok_pushed: "cpu_ok s i \<Longrightarrow> 0 \<le> n \<Longrightarrow> cpu_ok (pushed i n s) i"
  using cpu_ok_bound [of s i]
  by (simp add: cpu_ok_def pushed_def scan_update_same)

lemma cpu_ok_popped:
  "cpu_ok s i \<Longrightarrow> 0 < n \<Longrightarrow> n \<le> c_ncli (cpus s ! i) \<Longrightarrow> cpu_ok (popped i n s) i"
  using cpu_ok_bound [of s i]
  by (simp add: cpu_ok_def popped_def scan_update_same)

lemma pushed_pushed:
  "cpu_ok s i \<Longrightarrow> 0 < m \<Longrightarrow> pushed i n (pushed i m s) = pushed i (m + n) s"
  using cpu_ok_bound [of s i] by (simp add: pushed_def cpu_ok_def add.assoc)

lemma popped_popped:
  assumes "cpu_ok s i" "0 < m" "0 < n" "m + n \<le> c_ncli (cpus s ! i)"
  shows "popped i n (popped i m s) = popped i (m + n) s"
proof -
  have "popped i m s = s\<lparr>cpus := (cpus s)[i := (cpus s ! i)\<lparr>c_ncli := c_ncli (cpus s ! i) - m\<rparr>]\<rparr>"
    using assms by (simp add: popped_def)
  moreover have "c_ncli (cpus s ! i) - m = n \<longleftrightarrow> c_ncli (cpus s ! i) = m + n" by linarith
  ultimately show ?thesis
    using cpu_ok_bound [OF assms(1)] by (simp add: popped_def diff_diff_eq)
qed

text \<open>Popping what was pushed: the flag comes back at the last pop, not before.\<close>

lemma popped_pushed:
  assumes "cpu_ok s i" "0 < n"
  shows "m_IF (popped i n (pushed i n s)) = m_IF s"
    "c_ncli (cpus (popped i n (pushed i n s)) ! i) = c_ncli (cpus s ! i)"
    "map c_ncli (cpus (popped i n (pushed i n s))) = map c_ncli (cpus s)"
  using assms cpu_ok_bound [OF assms(1)]
  by (auto simp: popped_def pushed_def cpu_ok_def fun_upd_idem map_update_same)

lemma popped_pushed_less:
  assumes "cpu_ok s i" "k < n"
  shows "\<not> m_IF (popped i k (pushed i n s)) (m_lapicid s)"
  using assms cpu_ok_bound [OF assms(1)] by (auto simp: popped_def pushed_def cpu_ok_def)

lemma pushcli_ok:
  assumes "cpu_ok s i"
  shows "pushcli s = Inr (pushed i 1 s)"
proof -
  have "mycpu (cli s) = Inr i"
    using assms by (simp add: cli_def mycpu_Inr cpu_ok_def cur_eq)
  then show ?thesis
    using cpu_ok_bound [OF assms]
    by (simp add: pushcli_def pushed_def Let_def upd_cpu_def cli_def readeflags_IF_def)
qed

lemma popcli_ok:
  assumes "cpu_ok s i" "0 < c_ncli (cpus s ! i)"
  shows "popcli s = Inr (popped i 1 s)"
proof -
  have off: "\<not> m_IF s (m_lapicid s)" using assms by (simp add: cpu_ok_def)
  have "mycpu s = Inr i" using mycpu_ok [OF assms(1) off] .
  then show ?thesis
    using assms off cpu_ok_bound [OF assms(1)]
    by (simp add: popcli_def popped_def Let_def upd_cpu_def sti_def readeflags_IF_def)
qed

text \<open>Where the count is positive, holding looks at the lock and changes nothing.\<close>

lemma popped_pushed_nested:
  assumes "cpu_ok s i" "0 < c_ncli (cpus s ! i)"
  shows "popped i 1 (pushed i 1 s) = s"
proof -
  have "(m_IF s)(m_lapicid s := False) = m_IF s"
    using assms by (simp add: cpu_ok_def fun_upd_idem)
  then show ?thesis
    using assms cpu_ok_bound [OF assms(1)] by (simp add: popped_def pushed_def)
qed

lemma holding_nested:
  assumes "cpu_ok s i" "0 < c_ncli (cpus s ! i)"
  shows "holding l s = Inr (lk_locked (locks s l) \<noteq> 0 \<and> lk_cpu (locks s l) = Some i, s)"
proof -
  have ok: "cpu_ok (pushed i 1 s) i" using cpu_ok_pushed [OF assms(1)] by simp
  have "popcli (pushed i 1 s) = Inr s"
    using popcli_ok [OF ok] assms cpu_ok_bound [OF assms(1)] popped_pushed_nested [OF assms] by simp
  moreover have "mycpu (pushed i 1 s) = Inr i" using mycpu_ok [OF ok] by simp
  ultimately show ?thesis
    using pushcli_ok [OF assms(1)] by (simp add: holding_def)
qed

lemma acquire_ok:
  assumes "cpu_ok s i" "lk_locked (locks s l) = 0"
  shows "acquire l s = Inr (upd_lock l (\<lambda>k. k\<lparr>lk_locked := 1, lk_cpu := Some i\<rparr>) (pushed i 1 s))"
proof -
  have n: "0 \<le> c_ncli (cpus s ! i)" using assms(1) by (simp add: cpu_ok_def)
  have ok: "cpu_ok (pushed i 1 s) i" using cpu_ok_pushed [OF assms(1)] by simp
  have "holding l (pushed i 1 s) = Inr (False, pushed i 1 s)"
    using holding_nested [OF ok] assms n cpu_ok_bound [OF assms(1)] by simp
  moreover have "mycpu (upd_lock l (\<lambda>k. k\<lparr>lk_locked := 1\<rparr>) (pushed i 1 s)) = Inr i"
    using ok by (simp add: mycpu_Inr cur_eq upd_lock_def cpu_ok_def)
  ultimately show ?thesis
    using pushcli_ok [OF assms(1)] assms(2) by (simp add: acquire_def upd_lock_def Let_def)
qed

lemma acquire_held:
  assumes "cpu_ok s i" "lk_locked (locks s l) \<noteq> 0"
  shows "acquire l s = Inl (if lk_cpu (locks s l) = Some i then Panic ''acquire'' else Spins l)"
proof -
  have n: "0 \<le> c_ncli (cpus s ! i)" using assms(1) by (simp add: cpu_ok_def)
  have ok: "cpu_ok (pushed i 1 s) i" using cpu_ok_pushed [OF assms(1)] by simp
  have "holding l (pushed i 1 s) = Inr (lk_cpu (locks s l) = Some i, pushed i 1 s)"
    using holding_nested [OF ok] assms n cpu_ok_bound [OF assms(1)] by simp
  then show ?thesis
    using pushcli_ok [OF assms(1)] assms(2) by (simp add: acquire_def)
qed

lemma release_ok:
  assumes "cpu_ok s i" "0 < c_ncli (cpus s ! i)"
    "lk_locked (locks s l) \<noteq> 0" "lk_cpu (locks s l) = Some i"
  shows "release l s = Inr (popped i 1 (upd_lock l (\<lambda>k. k\<lparr>lk_cpu := None, lk_locked := 0\<rparr>) s))"
proof -
  let ?u = "upd_lock l (\<lambda>k. k\<lparr>lk_cpu := None, lk_locked := 0\<rparr>) s"
  have "cpu_ok ?u i" "0 < c_ncli (cpus ?u ! i)"
    using assms by (simp_all add: cpu_ok_def upd_lock_def)
  from popcli_ok [OF this] show ?thesis
    using assms by (simp add: release_def holding_nested Let_def upd_lock_def)
qed

lemma release_not_held:
  assumes "cpu_ok s i" "0 < c_ncli (cpus s ! i)"
    "lk_locked (locks s l) = 0 \<or> lk_cpu (locks s l) \<noteq> Some i"
  shows "release l s = Inl (Panic ''release'')"
  using assms by (auto simp: release_def holding_nested)

text \<open>\<open>n\<close> calls in a row.\<close>

fun iterE :: "nat \<Rightarrow> ('s \<Rightarrow> 'e + 's) \<Rightarrow> 's \<Rightarrow> 'e + 's" where
  "iterE 0 f s = Inr s"
| "iterE (Suc n) f s = bindE (f s) (iterE n f)"

lemma iter_pushcli: "cpu_ok s i \<Longrightarrow> iterE (Suc n) pushcli s = Inr (pushed i (1 + int n) s)"
proof (induction n arbitrary: s)
  case (Suc n)
  have "iterE (Suc (Suc n)) pushcli s = iterE (Suc n) pushcli (pushed i 1 s)"
    using pushcli_ok [OF Suc.prems] by simp
  also have "\<dots> = Inr (pushed i (1 + int n) (pushed i 1 s))"
    using cpu_ok_pushed [OF Suc.prems] by (intro Suc.IH) simp
  finally show ?case using pushed_pushed [OF Suc.prems] by simp
qed (simp add: pushcli_ok)

lemma iter_popcli:
  "cpu_ok s i \<Longrightarrow> 1 + int k \<le> c_ncli (cpus s ! i) \<Longrightarrow>
   iterE (Suc k) popcli s = Inr (popped i (1 + int k) s)"
proof (induction k arbitrary: s)
  case (Suc k)
  note b = cpu_ok_bound [OF Suc.prems(1)]
  have "iterE (Suc (Suc k)) popcli s = iterE (Suc k) popcli (popped i 1 s)"
    using popcli_ok [OF Suc.prems(1)] Suc.prems by simp
  also have "\<dots> = Inr (popped i (1 + int k) (popped i 1 s))"
    using cpu_ok_popped [OF Suc.prems(1)] Suc.prems b by (intro Suc.IH) simp_all
  finally show ?case using popped_popped [OF Suc.prems(1)] Suc.prems by simp
qed (simp add: popcli_ok)

section \<open>Critical sections\<close>

text \<open>
  \<open>with_lock l f\<close> is a critical section \<open>acquire(l); ... release(l)\<close> around the body \<open>f\<close>.
  \<open>locked\<close> and \<open>unlocked\<close> are the states after the two calls.
\<close>

definition with_lock ::
  "lockid \<Rightarrow> ('a machine_scheme \<Rightarrow> ('x \<times> 'a machine_scheme) result) \<Rightarrow> 'a machine_scheme
   \<Rightarrow> ('x \<times> 'a machine_scheme) result"
where
  "with_lock l f s =
    bindE (acquire l s) (\<lambda>s.
    bindE (f s) (\<lambda>(x, s).
    bindE (release l s) (\<lambda>s.
    Inr (x, s))))"

definition locked :: "lockid \<Rightarrow> nat \<Rightarrow> 'a machine_scheme \<Rightarrow> 'a machine_scheme" where
  "locked l i s = upd_lock l (\<lambda>k. k\<lparr>lk_locked := 1, lk_cpu := Some i\<rparr>) (pushed i 1 s)"

definition unlocked :: "lockid \<Rightarrow> nat \<Rightarrow> 'a machine_scheme \<Rightarrow> 'a machine_scheme" where
  "unlocked l i s = popped i 1 (upd_lock l (\<lambda>k. k\<lparr>lk_cpu := None, lk_locked := 0\<rparr>) s)"

definition lk_free :: "lockid \<Rightarrow> 'a machine_scheme \<Rightarrow> bool" where
  "lk_free l s \<longleftrightarrow> lk_locked (locks s l) = 0"

text \<open>The fields of the machine, as opposed to those of the components above it.\<close>

definition mach :: "'a machine_scheme \<Rightarrow> cpu list \<times> u8 \<times> (u8 \<Rightarrow> bool) \<times> (lockid \<Rightarrow> spinlock)" where
  "mach s = (cpus s, m_lapicid s, m_IF s, locks s)"

lemma machD:
  assumes "mach t = mach s"
  shows "cpus t = cpus s" "m_lapicid t = m_lapicid s" "m_IF t = m_IF s" "locks t = locks s"
  using assms by (simp_all add: mach_def)

lemma cpu_ok_mach: "mach t = mach s \<Longrightarrow> cpu_ok t i = cpu_ok s i"
  by (simp add: cpu_ok_def mach_def)

lemma lk_free_mach: "mach t = mach s \<Longrightarrow> lk_free l t = lk_free l s"
  by (simp add: lk_free_def mach_def)

lemma locked_ok:
  assumes "cpu_ok s i"
  shows "cpu_ok (locked l i s) i" "0 < c_ncli (cpus (locked l i s) ! i)"
    "lk_locked (locks (locked l i s) l) = 1" "lk_cpu (locks (locked l i s) l) = Some i"
  using cpu_ok_pushed [OF assms, of 1] cpu_ok_bound [OF assms] assms
  by (simp_all add: locked_def cpu_ok_def upd_lock_def)

lemma mach_unlocked_locked:
  assumes ok: "cpu_ok s i" and free: "lk_free l s" and t: "mach t = mach (locked l i s)"
  shows "m_IF (unlocked l i t) = m_IF s" "m_lapicid (unlocked l i t) = m_lapicid s"
    "map c_ncli (cpus (unlocked l i t)) = map c_ncli (cpus s)"
    "map c_apicid (cpus (unlocked l i t)) = map c_apicid (cpus s)"
    "map c_proc (cpus (unlocked l i t)) = map c_proc (cpus s)"
    "locks (unlocked l i t) = (locks s)(l := (locks s l)\<lparr>lk_cpu := None, lk_locked := 0\<rparr>)"
    "cpu_ok (unlocked l i t) i" "lk_free l' (unlocked l i t) = lk_free l' s"
proof -
  note m = machD [OF t] and b = cpu_ok_bound [OF ok]
  have p: "m_IF (unlocked l i t) = m_IF (popped i 1 (pushed i 1 s))"
    "cpus (unlocked l i t) = cpus (popped i 1 (pushed i 1 s))"
    using m by (simp_all add: unlocked_def locked_def popped_def upd_lock_def)
  show ifl: "m_IF (unlocked l i t) = m_IF s" and n: "map c_ncli (cpus (unlocked l i t)) = map c_ncli (cpus s)"
    using popped_pushed [OF ok, of 1] p by simp_all
  show id: "m_lapicid (unlocked l i t) = m_lapicid s"
    using m by (simp add: unlocked_def locked_def upd_lock_def)
  show a: "map c_apicid (cpus (unlocked l i t)) = map c_apicid (cpus s)"
    "map c_proc (cpus (unlocked l i t)) = map c_proc (cpus s)"
    unfolding p using b by (simp_all add: popped_def pushed_def map_update_same)
  show lk: "locks (unlocked l i t) = (locks s)(l := (locks s l)\<lparr>lk_cpu := None, lk_locked := 0\<rparr>)"
    using m by (simp add: unlocked_def locked_def upd_lock_def)
  show "lk_free l' (unlocked l i t) = lk_free l' s"
    using free by (simp add: lk_free_def lk)
  have len: "length (cpus (unlocked l i t)) = length (cpus s)" using a map_eq_imp_length_eq by blast
  have "c_ncli (cpus (unlocked l i t) ! i) = c_ncli (cpus s ! i)"
    using n b len by (metis nth_map)
  moreover have "scan (\<lambda>c. c_apicid c = m_lapicid s) (cpus (unlocked l i t)) = Some i"
    using ok a unfolding cpu_ok_def scan_map [of "\<lambda>a. a = m_lapicid s" c_apicid, symmetric] by simp
  ultimately show "cpu_ok (unlocked l i t) i"
    using ok ifl id by (simp add: cpu_ok_def)
qed

text \<open>
  A critical section on a free lock runs its body and gives the body's result, when the body
  itself leaves the machine fields alone.
\<close>

lemma with_lock_ok:
  assumes ok: "cpu_ok s i" and free: "lk_free l s"
    and f: "f (locked l i s) = Inr (x, t)" and m: "mach t = mach (locked l i s)"
  shows "with_lock l f s = Inr (x, unlocked l i t)"
proof -
  have "release l t = Inr (unlocked l i t)"
    using release_ok [of t i l] locked_ok [OF ok, of l] machD [OF m] cpu_ok_mach [OF m]
    by (simp add: unlocked_def)
  then show ?thesis
    using acquire_ok [OF ok, of l] free f by (simp add: with_lock_def lk_free_def locked_def)
qed

lemma with_lock_error:
  assumes "cpu_ok s i" "lk_free l s" "f (locked l i s) = Inl e"
  shows "with_lock l f s = Inl e"
  using acquire_ok [of s i l] assms by (simp add: with_lock_def lk_free_def locked_def)

text \<open>
  Two machine states that differ at most in the saved interrupt flag of a processor that holds
  no lock and in the owner field of free locks: what a critical section leaves behind.
\<close>

definition mach_sim :: "'a machine_scheme \<Rightarrow> 'b machine_scheme \<Rightarrow> bool" where
  "mach_sim s t \<longleftrightarrow> m_IF t = m_IF s \<and> m_lapicid t = m_lapicid s
     \<and> map c_ncli (cpus t) = map c_ncli (cpus s) \<and> map c_apicid (cpus t) = map c_apicid (cpus s)
     \<and> map c_proc (cpus t) = map c_proc (cpus s) \<and> (\<forall>l. lk_free l t = lk_free l s)"

lemma mach_sim_refl [simp]: "mach_sim s s"
  by (simp add: mach_sim_def)

lemma mach_sim_trans: "mach_sim s t \<Longrightarrow> mach_sim t u \<Longrightarrow> mach_sim s u"
  by (simp add: mach_sim_def)

lemma mach_sim_mach: "mach s = mach t \<Longrightarrow> mach_sim s t"
  by (simp add: mach_sim_def mach_def lk_free_def)

lemma cpu_ok_sim:
  assumes "mach_sim s t"
  shows "cpu_ok t i \<longleftrightarrow> cpu_ok s i"
proof -
  have len: "length (cpus t) = length (cpus s)"
    using assms map_eq_imp_length_eq unfolding mach_sim_def by blast
  have n: "c_ncli (cpus t ! i) = c_ncli (cpus s ! i)" if "i < length (cpus s)"
    using assms that len unfolding mach_sim_def by (metis nth_map)
  have c: "scan (\<lambda>c. c_apicid c = m_lapicid t) (cpus t) = scan (\<lambda>c. c_apicid c = m_lapicid s) (cpus s)"
    using assms unfolding scan_map [of "\<lambda>a. a = m_lapicid t" c_apicid, symmetric]
      scan_map [of "\<lambda>a. a = m_lapicid s" c_apicid, symmetric] by (simp add: mach_sim_def)
  show ?thesis
  proof (cases "i < length (cpus s)")
    case True
    then show ?thesis using n c assms by (simp add: cpu_ok_def mach_sim_def)
  next
    case False
    then show ?thesis using cpu_ok_bound [of s i] cpu_ok_bound [of t i] len by auto
  qed
qed

lemma mach_sim_section:
  assumes "cpu_ok s i" "lk_free l s" "mach t = mach (locked l i s)"
  shows "mach_sim s (unlocked l i t)"
  using mach_unlocked_locked [OF assms] by (simp add: mach_sim_def)

text \<open>\<open>kstate s\<close>: everything that is not part of the machine, the state of the kernel proper.\<close>

definition kstate :: "'a machine_scheme \<Rightarrow> 'a" where
  "kstate s = machine.more s"

lemma kstate_machine [simp]:
  "kstate (pushed i n s) = kstate s" "kstate (popped i n s) = kstate s"
  "kstate (upd_lock l f s) = kstate s" "kstate (upd_cpu i g s) = kstate s"
  "kstate (locked l i s) = kstate s" "kstate (unlocked l i s) = kstate s"
  "kstate (sti s) = kstate s" "kstate (cli s) = kstate s"
  by (simp_all add: kstate_def pushed_def popped_def upd_lock_def upd_cpu_def locked_def
      unlocked_def sti_def cli_def)

text \<open>
  The rule for critical sections: a body that leaves the machine alone and takes the kernel
  state to \<open>K\<close> does so when it is run under the lock.
\<close>

lemma with_lock_kstate:
  assumes "cpu_ok s i" "lk_free l s"
    and "\<And>u. kstate u = kstate s \<Longrightarrow> \<exists>v. f u = Inr (x, v) \<and> mach v = mach u \<and> kstate v = K"
  shows "\<exists>t. with_lock l f s = Inr (x, t) \<and> kstate t = K \<and> mach_sim s t"
proof -
  obtain v where v: "f (locked l i s) = Inr (x, v)" "mach v = mach (locked l i s)" "kstate v = K"
    using assms(3) [of "locked l i s"] by auto
  show ?thesis
    using with_lock_ok [of s i l f x v] assms(1,2) v(1,2) mach_sim_section [OF assms(1,2) v(2)] v(3) by simp
qed

section \<open>Properties\<close>

definition two_cpus :: machine where
  "two_cpus = \<lparr>cpus = [\<lparr>c_apicid = 0, c_ncli = 0, c_intena = False, c_proc = None\<rparr>,
                       \<lparr>c_apicid = 4, c_ncli = 0, c_intena = False, c_proc = None\<rparr>],
     m_lapicid = 0, m_IF = (\<lambda>_. True),
     locks = (\<lambda>_. \<lparr>lk_locked = 0, lk_name = [], lk_cpu = None\<rparr>)\<rparr>"

lemma two_cpus_inv: "locks_inv two_cpus"
  by (simp add: locks_inv_def two_cpus_def)

lemma two_cpus_ok: "cpu_ok two_cpus 0" "lk_locked (locks two_cpus l) = 0"
  by (simp_all add: cpu_ok_def two_cpus_def)

lemmas spinlock_eval = mutex_run.simps acquire_on_def release_on_def acquire_def release_def
  pushcli_def popcli_def holding_def mycpu_def cli_def sti_def upd_cpu_def upd_lock_def
  readeflags_IF_def Let_def

lemma two_cpus_run:
  "\<exists>t. mutex_run acquire_on release_on
     ([] @ Acq 0 PtableLock # [Rel 0 PtableLock] @ Acq 4 PtableLock # []) two_cpus = Inr t"
  by (simp add: spinlock_eval two_cpus_def)

text \<open>
  C13. Mutual exclusion of spinlocks: in every history of acquire and release calls by any
  processors that all return, between two acquisitions of the same lock the first owner has
  released it. (A second acquire before that release panics or spins.)
\<close>

theorem spinlock_exclusion:
  assumes "locks_inv s"
    and "mutex_run acquire_on release_on (xs @ Acq a l # ys @ Acq b l # zs) s = Inr t"
  shows "Rel a l \<in> set ys"
  using assms by (rule spin.exclusion)

theorem spinlock_exclusion_witness:
  "Rel 0 PtableLock \<in> set [Rel (0::u8) PtableLock]
   \<and> mutex_run acquire_on release_on [Acq 0 PtableLock, Acq 4 PtableLock] two_cpus
     = Inl (Spins PtableLock)"
proof -
  obtain t where t: "mutex_run acquire_on release_on
     ([] @ Acq 0 PtableLock # [Rel 0 PtableLock] @ Acq 4 PtableLock # []) two_cpus = Inr t"
    using two_cpus_run by blast
  have "mutex_run acquire_on release_on [Acq 0 PtableLock, Acq 4 PtableLock] two_cpus
     = Inl (Spins PtableLock)"
    by (simp add: spinlock_eval two_cpus_def)
  with spinlock_exclusion [OF two_cpus_inv t] show ?thesis by blast
qed



text \<open>
  C14. A critical section is neutral: acquire of a free lock followed by release gives back
  the interrupt flag and the nesting counts and leaves the lock free, so a bracketed section
  can be taken as one atomic step. Acquiring a lock that this processor holds panics, and
  acquiring one that another processor holds spins.
\<close>

theorem acquire_release_neutral:
  assumes ok: "cpu_ok s i"
  shows "if lk_locked (locks s l) = 0
     then \<exists>t. bindE (acquire l s) (release l) = Inr t \<and> m_IF t = m_IF s
       \<and> map c_ncli (cpus t) = map c_ncli (cpus s)
       \<and> locks t = (locks s)(l := (locks s l)\<lparr>lk_cpu := None, lk_locked := 0\<rparr>)
     else acquire l s = Inl (if lk_cpu (locks s l) = Some i then Panic ''acquire'' else Spins l)"
proof (cases "lk_locked (locks s l) = 0")
  case True
  let ?t = "upd_lock l (\<lambda>k. k\<lparr>lk_locked := 1, lk_cpu := Some i\<rparr>) (pushed i 1 s)"
  let ?u = "upd_lock l (\<lambda>k. k\<lparr>lk_cpu := None, lk_locked := 0\<rparr>) ?t"
  have "cpu_ok ?t i" "0 < c_ncli (cpus ?t ! i)"
    using cpu_ok_pushed [OF ok, of 1] cpu_ok_bound [OF ok] ok
    by (simp_all add: cpu_ok_def upd_lock_def)
  from release_ok [OF this] have r: "release l ?t = Inr (popped i 1 ?u)"
    by (simp add: upd_lock_def)
  have "m_IF (popped i 1 ?u) = m_IF (popped i 1 (pushed i 1 s))"
    "map c_ncli (cpus (popped i 1 ?u)) = map c_ncli (cpus (popped i 1 (pushed i 1 s)))"
    by (simp_all add: popped_def upd_lock_def)
  moreover have "locks (popped i 1 ?u) = (locks s)(l := (locks s l)\<lparr>lk_cpu := None, lk_locked := 0\<rparr>)"
    using True by (simp add: upd_lock_def)
  ultimately show ?thesis
    using r True acquire_ok [OF ok True] popped_pushed [OF ok, of 1] by simp
next
  case False
  then show ?thesis using acquire_held [OF ok] by simp
qed

theorem acquire_release_neutral_witness:
  "\<exists>t. bindE (acquire PtableLock two_cpus) (release PtableLock) = Inr t \<and> m_IF t = m_IF two_cpus"
  using acquire_release_neutral [OF two_cpus_ok(1), of PtableLock] two_cpus_ok(2) by auto

end
