(* ===== verification/Cstring.thy ===== *)
theory Cstring
  imports Prelude
begin

text \<open>
  The memory and string routines of string.c (kernel) and ulib.c (user library).

  Routines that write work on the byte memory. Routines that only read take their pointers
  as functions from an offset to the byte found there: \<open>ptr m a\<close> is the pointer \<open>a\<close> into
  memory \<open>m\<close>, \<open>arr xs\<close> a pointer to a string object with the bytes \<open>xs\<close> and a NUL after
  them.
\<close>

section \<open>Definitions\<close>

type_synonym cptr = "nat \<Rightarrow> u8"

definition ptr :: "memory \<Rightarrow> u32 \<Rightarrow> cptr" where
  "ptr m a = (\<lambda>i. m (a + word_of_nat i))"

definition arr :: "u8 list \<Rightarrow> cptr" where
  "arr xs = (\<lambda>i. if i < length xs then xs ! i else 0)"

text \<open>The x86 string stores \<open>rep stosb\<close> and \<open>rep stosl\<close> of x86.h.\<close>

fun stosb :: "memory \<Rightarrow> u32 \<Rightarrow> u8 \<Rightarrow> nat \<Rightarrow> memory" where
  "stosb m d b 0 = m"
| "stosb m d b (Suc k) = stosb (m(d := b)) (d + 1) b k"

fun stosl :: "memory \<Rightarrow> u32 \<Rightarrow> u32 \<Rightarrow> nat \<Rightarrow> memory" where
  "stosl m d w 0 = m"
| "stosl m d w (Suc k) = stosl (store32 m d w) (d + 4) w k"

text \<open>\<open>(c<<24)|(c<<16)|(c<<8)|c\<close>, the word that holds the byte four times.\<close>

definition spread :: "u32 \<Rightarrow> u32" where
  "spread c = push_bit 24 c OR push_bit 16 c OR push_bit 8 c OR c"

definition memset :: "memory \<Rightarrow> u32 \<Rightarrow> u32 \<Rightarrow> u32 \<Rightarrow> memory" where
  "memset m dst c n =
    (if dst mod 4 = 0 \<and> n mod 4 = 0
     then stosl m dst (spread (c AND 0xFF)) (unat (n div 4))
     else stosb m dst (ucast c) (unat n))"

fun memcmp :: "cptr \<Rightarrow> cptr \<Rightarrow> nat \<Rightarrow> int" where
  "memcmp s1 s2 0 = 0"
| "memcmp s1 s2 (Suc n) =
    (if s1 0 \<noteq> s2 0 then uint (s1 0) - uint (s2 0)
     else memcmp (\<lambda>i. s1 (Suc i)) (\<lambda>i. s2 (Suc i)) n)"

fun copy_up :: "memory \<Rightarrow> u32 \<Rightarrow> u32 \<Rightarrow> nat \<Rightarrow> memory" where
  "copy_up m d s 0 = m"
| "copy_up m d s (Suc n) = copy_up (m(d := m s)) (d + 1) (s + 1) n"

fun copy_down :: "memory \<Rightarrow> u32 \<Rightarrow> u32 \<Rightarrow> nat \<Rightarrow> memory" where
  "copy_down m d s 0 = m"
| "copy_down m d s (Suc n) = copy_down (m(d - 1 := m (s - 1))) (d - 1) (s - 1) n"

definition memmove :: "memory \<Rightarrow> u32 \<Rightarrow> u32 \<Rightarrow> u32 \<Rightarrow> memory" where
  "memmove m dst src n =
    (if src < dst \<and> dst < src + n then copy_down m (dst + n) (src + n) (unat n)
     else copy_up m dst src (unat n))"

fun strncmp :: "cptr \<Rightarrow> cptr \<Rightarrow> nat \<Rightarrow> int" where
  "strncmp p q 0 = 0"
| "strncmp p q (Suc n) =
    (if p 0 \<noteq> 0 \<and> p 0 = q 0 then strncmp (\<lambda>i. p (Suc i)) (\<lambda>i. q (Suc i)) n
     else uint (p 0) - uint (q 0))"

text \<open>
  The first loop of strncpy and the loop of safestrcpy: copy bytes until a NUL has been
  copied or \<open>n\<close> bytes have; the result is the memory, the advanced destination and what is
  left of the count.
\<close>

fun copy_str :: "memory \<Rightarrow> u32 \<Rightarrow> u32 \<Rightarrow> nat \<Rightarrow> memory \<times> u32 \<times> nat" where
  "copy_str m s t 0 = (m, s, 0)"
| "copy_str m s t (Suc n) =
    (let m' = m(s := m t) in
     if m t \<noteq> 0 then copy_str m' (s + 1) (t + 1) n else (m', s + 1, n))"

definition strncpy :: "memory \<Rightarrow> u32 \<Rightarrow> u32 \<Rightarrow> int \<Rightarrow> memory" where
  "strncpy m s t n = (case copy_str m s t (nat n) of (m', s', k) \<Rightarrow> stosb m' s' 0 k)"

definition safestrcpy :: "memory \<Rightarrow> u32 \<Rightarrow> u32 \<Rightarrow> int \<Rightarrow> memory" where
  "safestrcpy m s t n =
    (if n \<le> 0 then m
     else case copy_str m s t (nat (n - 1)) of (m', s', k) \<Rightarrow> m'(s' := 0))"

partial_function (option) strlen_from :: "cptr \<Rightarrow> nat \<Rightarrow> nat option" where
  "strlen_from s n = (if s n = 0 then Some n else strlen_from s (Suc n))"

definition strlen :: "cptr \<Rightarrow> nat option" where
  "strlen s = strlen_from s 0"

text \<open>ulib.c has its own versions; those with another shape than string.c's are below.\<close>

partial_function (option) strcmp :: "cptr \<Rightarrow> cptr \<Rightarrow> int option" where
  "strcmp p q =
    (if p 0 \<noteq> 0 \<and> p 0 = q 0 then strcmp (\<lambda>i. p (Suc i)) (\<lambda>i. q (Suc i))
     else Some (uint (p 0) - uint (q 0)))"

partial_function (option) strchr_from :: "cptr \<Rightarrow> u8 \<Rightarrow> nat \<Rightarrow> nat option option" where
  "strchr_from s c i =
    (if s i = 0 then Some None
     else if s i = c then Some (Some i)
     else strchr_from s c (Suc i))"

definition strchr :: "cptr \<Rightarrow> u8 \<Rightarrow> nat option option" where
  "strchr s c = strchr_from s c 0"

partial_function (option) atoi_from :: "cptr \<Rightarrow> nat \<Rightarrow> int \<Rightarrow> int option" where
  "atoi_from s i n =
    (if 48 \<le> s i \<and> s i \<le> 57
     then atoi_from s (Suc i) (wrap32 (wrap32 (wrap32 (n * 10) + uint (s i)) - 48))
     else Some n)"

definition atoi :: "cptr \<Rightarrow> int option" where
  "atoi s = atoi_from s 0 0"

definition ulib_memset :: "memory \<Rightarrow> u32 \<Rightarrow> u32 \<Rightarrow> u32 \<Rightarrow> memory" where
  "ulib_memset m dst c n = stosb m dst (ucast c) (unat n)"

definition ulib_memmove :: "memory \<Rightarrow> u32 \<Rightarrow> u32 \<Rightarrow> int \<Rightarrow> memory" where
  "ulib_memmove m vdst vsrc n = copy_up m vdst vsrc (nat n)"

section \<open>Ranges of addresses\<close>

lemma unat_u32_less [simp]: "unat (x :: u32) < 4294967296"
proof -
  have "unat x < 2 ^ LENGTH(32)" by (rule unsigned_less)
  then show ?thesis by simp
qed

lemma unat_nat_u32: "i < 4294967296 \<Longrightarrow> unat (word_of_nat i :: u32) = i"
  by (simp add: unat_of_nat)

lemma unat_add_nat:
  fixes a :: u32
  assumes "unat a + i < 4294967296"
  shows "unat (a + word_of_nat i) = unat a + i"
proof -
  have "unat (word_of_nat i :: u32) = i" using assms by (intro unat_nat_u32) linarith
  then show ?thesis using assms unat_plus_if' [of a "word_of_nat i"] by simp
qed

lemma unat_sub_nat:
  fixes x :: u32
  assumes "j < 4294967296"
  shows "unat (x - word_of_nat j) = (if j \<le> unat x then unat x - j else unat x + 4294967296 - j)"
  using unat_sub_if' [of x "word_of_nat j"] unat_nat_u32 [OF assms] by simp

lemma in_range_all: "4294967296 \<le> n \<Longrightarrow> in_range a d n"
  using unat_u32_less [of "a - d"] unfolding in_range_def by linarith

lemma in_range_add:
  assumes "j + k \<le> 4294967296"
  shows "in_range a d (j + k) \<longleftrightarrow> in_range a d j \<or> in_range a (d + word_of_nat j) k"
proof (cases "j = 4294967296")
  case True
  then show ?thesis by (simp add: in_range_all)
next
  case False
  define x where "x = a - d"
  have e: "a - (d + word_of_nat j) = x - word_of_nat j" by (simp add: x_def)
  have j: "j < 4294967296" using False assms by linarith
  have x: "unat x < 4294967296" by simp
  have "unat x < j + k \<longleftrightarrow> unat x < j \<or> unat (x - word_of_nat j) < k"
  proof (cases "j \<le> unat x")
    case True
    then show ?thesis unfolding unat_sub_nat [OF j] by auto
  next
    case False
    then show ?thesis unfolding unat_sub_nat [OF j] using x assms by auto
  qed
  then show ?thesis unfolding in_range_def e x_def [symmetric] .
qed

lemma in_range_0 [simp]: "\<not> in_range a d 0"
  by (simp add: in_range_def)

lemma in_range_1 [simp]: "in_range a d (Suc 0) \<longleftrightarrow> a = d"
  by (auto simp: in_range_def unat_eq_zero)

lemma in_range_Suc:
  assumes "k < 4294967296"
  shows "in_range a d (Suc k) \<longleftrightarrow> a = d \<or> in_range a (d + 1) k"
  using in_range_add [of 1 k a d] assms by simp

lemma in_rangeE:
  assumes "in_range a d n"
  obtains i where "i < n" "a = d + word_of_nat i" "i = unat (a - d)"
proof (rule that)
  show "unat (a - d) < n" using assms by (simp add: in_range_def)
  show "a = d + word_of_nat (unat (a - d))" by simp
qed (rule refl)

section \<open>Filling memory\<close>

definition fill :: "memory \<Rightarrow> u32 \<Rightarrow> u8 \<Rightarrow> nat \<Rightarrow> memory" where
  "fill m d b n = (\<lambda>a. if in_range a d n then b else m a)"

lemma stosb_fill: "n \<le> 4294967296 \<Longrightarrow> stosb m d b n = fill m d b n"
proof (induction n arbitrary: m d)
  case (Suc n)
  then have "stosb m d b (Suc n) = fill (m(d := b)) (d + 1) b n" by simp
  also have "\<dots> = fill m d b (Suc n)"
    using Suc.prems by (auto simp: fill_def in_range_Suc)
  finally show ?case .
qed (simp add: fill_def)

lemma byte_of_spread:
  assumes "k = 0 \<or> k = 8 \<or> k = 16 \<or> k = 24"
  shows "ucast (drop_bit k (spread (c AND 0xFF))) = (ucast c :: u8)"
proof -
  have m: "c AND 0xFF = take_bit 8 c"
    by (simp add: take_bit_eq_mask mask_eq_exp_minus_1)
  have "bit (ucast (drop_bit k (spread (take_bit 8 c))) :: u8) n = bit (ucast c :: u8) n"
    if "n < 8" for n
    using assms that by (elim disjE) (simp_all add: spread_def bit_simps)
  then show ?thesis unfolding m by (intro bit_word_eqI) simp
qed

lemma store32_spread: "store32 m d (spread (c AND 0xFF)) = fill m d (ucast c) 4"
proof -
  have "in_range a d (Suc (Suc (Suc (Suc 0)))) \<longleftrightarrow> a = d \<or> a = d + 1 \<or> a = d + 2 \<or> a = d + 3" for a
    by (simp add: in_range_Suc add.commute)
  then have "in_range a d 4 \<longleftrightarrow> a = d \<or> a = d + 1 \<or> a = d + 2 \<or> a = d + 3" for a
    by (simp add: eval_nat_numeral)
  then show ?thesis
    using byte_of_spread [of 0 c] byte_of_spread [of 8 c] byte_of_spread [of 16 c]
      byte_of_spread [of 24 c]
    by (simp add: store32_def fill_def fun_eq_iff)
qed

lemma stosl_fill:
  "4 * n \<le> 4294967296 \<Longrightarrow> stosl m d (spread (c AND 0xFF)) n = fill m d (ucast c) (4 * n)"
proof (induction n arbitrary: m d)
  case (Suc n)
  then have "stosl m d (spread (c AND 0xFF)) (Suc n)
      = fill (fill m d (ucast c) 4) (d + 4) (ucast c) (4 * n)"
    by (simp add: store32_spread)
  also have "\<dots> = fill m d (ucast c) (4 * Suc n)"
    using Suc.prems in_range_add [of 4 "4 * n" _ d] by (auto simp: fill_def)
  finally show ?case .
qed (simp add: fill_def)

lemma memset_fill: "memset m d c n = fill m d (ucast c) (unat n)"
proof -
  have "4 * unat (n div 4) = unat n" if "n mod 4 = 0"
  proof -
    have "unat n mod 4 = 0" using arg_cong [OF that, of unat] by (simp add: unat_mod)
    then have "4 * (unat n div 4) = unat n" by presburger
    then show ?thesis by (simp add: unat_div)
  qed
  moreover have "unat n \<le> 4294967296" using unat_u32_less [of n] by linarith
  ultimately show ?thesis
    unfolding memset_def by (auto simp: stosl_fill stosb_fill)
qed

section \<open>Copying\<close>

text \<open>The simultaneous copy that memmove is to perform: every byte read is the old one.\<close>

definition moved :: "memory \<Rightarrow> u32 \<Rightarrow> u32 \<Rightarrow> nat \<Rightarrow> memory" where
  "moved m d s n = (\<lambda>a. if in_range a d n then m (s + (a - d)) else m a)"

lemma moved_at:
  assumes "i < n" "n \<le> 4294967296"
  shows "moved m d s n (d + word_of_nat i) = m (s + word_of_nat i)"
  using assms unat_nat_u32 [of i] by (simp add: moved_def in_range_def)

lemma in_range_end:
  assumes "n < 4294967296"
  shows "in_range a d (Suc n) \<longleftrightarrow> in_range a d n \<or> a = d + word_of_nat n"
  using in_range_add [of n 1 a d] assms by simp

lemma copy_up_moved:
  assumes "n \<le> 4294967296"
    and "\<And>i j. i < j \<Longrightarrow> j < n \<Longrightarrow> d + word_of_nat i \<noteq> s + word_of_nat j"
  shows "copy_up m d s n = moved m d s n"
  using assms
proof (induction n arbitrary: m d s)
  case 0
  show ?case by (simp add: moved_def)
next
  case (Suc n)
  have n: "n < 4294967296" using Suc.prems(1) by simp
  have "d + 1 + word_of_nat i \<noteq> s + 1 + word_of_nat j" if "i < j" "j < n" for i j
    using Suc.prems(2) [of "Suc i" "Suc j"] that by (simp add: algebra_simps)
  then have IH: "copy_up m d s (Suc n) = moved (m(d := m s)) (d + 1) (s + 1) n"
    using Suc.IH [of "d + 1" "s + 1"] n by simp
  show ?case
  proof
    fix a
    show "copy_up m d s (Suc n) a = moved m d s (Suc n) a"
    proof (cases "in_range a (d + 1) n")
      case True
      then obtain i where i: "i < n" "a = d + 1 + word_of_nat i" by (rule in_rangeE)
      have "d \<noteq> s + (a - d)"
        using Suc.prems(2) [of 0 "Suc i"] i by (simp add: algebra_simps)
      moreover have "s + 1 + (a - (d + 1)) = s + (a - d)" by simp
      ultimately show ?thesis
        using True in_range_Suc [OF n, of a d] unfolding IH by (simp add: moved_def)
    next
      case False
      then show ?thesis
        using in_range_Suc [OF n, of a d] unfolding IH by (auto simp: moved_def)
    qed
  qed
qed

lemma copy_down_moved:
  assumes "n \<le> 4294967296"
    and "\<And>i j. j < i \<Longrightarrow> i < n \<Longrightarrow> d + word_of_nat i \<noteq> s + word_of_nat j"
  shows "copy_down m (d + word_of_nat n) (s + word_of_nat n) n = moved m d s n"
  using assms
proof (induction n arbitrary: m)
  case 0
  show ?case by (simp add: moved_def)
next
  case (Suc n)
  have n: "n < 4294967296" using Suc.prems(1) by simp
  define m' where "m' = m(d + word_of_nat n := m (s + word_of_nat n))"
  have IH: "copy_down m (d + word_of_nat (Suc n)) (s + word_of_nat (Suc n)) (Suc n) = moved m' d s n"
  proof -
    have "copy_down m' (d + word_of_nat n) (s + word_of_nat n) n = moved m' d s n"
      using n Suc.prems(2) by (intro Suc.IH) simp_all
    moreover have "d + word_of_nat (Suc n) - 1 = d + word_of_nat n"
      "s + word_of_nat (Suc n) - 1 = s + word_of_nat n"
      by (simp_all add: algebra_simps)
    ultimately show ?thesis by (simp only: copy_down.simps m'_def)
  qed
  have last: "\<not> in_range (d + word_of_nat n) d n"
    using n by (simp add: in_range_def unat_nat_u32)
  show ?case
  proof
    fix a
    show "copy_down m (d + word_of_nat (Suc n)) (s + word_of_nat (Suc n)) (Suc n) a
      = moved m d s (Suc n) a"
    proof (cases "in_range a d n")
      case True
      then obtain i where i: "i < n" "a = d + word_of_nat i" by (rule in_rangeE)
      have "d + word_of_nat n \<noteq> s + (a - d)"
        using Suc.prems(2) [of i n] i by simp
      then show ?thesis
        using True in_range_end [OF n, of a d] unfolding IH by (simp add: moved_def m'_def)
    next
      case False
      then show ?thesis
        using in_range_end [OF n, of a d] last unfolding IH by (auto simp: moved_def m'_def)
    qed
  qed
qed

lemma memmove_moved:
  assumes "unat src + unat n < 4294967296" "unat dst + unat n \<le> 4294967296"
  shows "memmove m dst src n = moved m dst src (unat n)"
proof -
  have at: "unat (dst + word_of_nat i) = unat dst + i" "unat (src + word_of_nat i) = unat src + i"
    if "i < unat n" for i
    using that assms by (intro unat_add_nat; linarith)+
  have e: "unat (src + n) = unat src + unat n"
    using assms unat_add_nat [of src "unat n"] by simp
  have less: "src < dst \<longleftrightarrow> unat src < unat dst" "dst < src + n \<longleftrightarrow> unat dst < unat src + unat n"
    by (simp_all add: word_less_nat_alt e)
  have n: "unat n \<le> 4294967296" using unat_u32_less [of n] by linarith
  show ?thesis
  proof (cases "src < dst \<and> dst < src + n")
    case True
    have "dst + word_of_nat i \<noteq> src + word_of_nat j" if "j < i" "i < unat n" for i j
    proof
      assume "dst + word_of_nat i = src + word_of_nat j"
      then have "unat dst + i = unat src + j" using at(1) [of i] at(2) [of j] that by simp
      then show False using True less that by linarith
    qed
    then show ?thesis
      using True copy_down_moved [OF n, of dst src m] by (simp add: memmove_def)
  next
    case False
    have "dst + word_of_nat i \<noteq> src + word_of_nat j" if "i < j" "j < unat n" for i j
    proof
      assume "dst + word_of_nat i = src + word_of_nat j"
      then have "unat dst + i = unat src + j" using at(1) [of i] at(2) [of j] that by simp
      then show False using False less that by linarith
    qed
    then show ?thesis
      using False copy_up_moved [OF n, of dst src m] by (auto simp: memmove_def)
  qed
qed

section \<open>Strings\<close>

text \<open>How many of the first \<open>n\<close> bytes come before the first NUL.\<close>

fun nonnul :: "cptr \<Rightarrow> nat \<Rightarrow> nat" where
  "nonnul p 0 = 0"
| "nonnul p (Suc n) = (if p 0 = 0 then 0 else Suc (nonnul (\<lambda>i. p (Suc i)) n))"

lemma nonnul_le: "nonnul p n \<le> n"
  by (induction p n rule: nonnul.induct) auto

lemma nonnul_before: "i < nonnul p n \<Longrightarrow> p i \<noteq> 0"
  by (induction p n arbitrary: i rule: nonnul.induct)
    (auto split: if_splits simp: less_Suc_eq_0_disj)

lemma nonnul_at: "nonnul p n < n \<Longrightarrow> p (nonnul p n) = 0"
  by (induction p n rule: nonnul.induct) auto

lemma nonnul_cong: "(\<And>i. i < n \<Longrightarrow> p i = q i) \<Longrightarrow> nonnul p n = nonnul q n"
proof (induction p n arbitrary: q rule: nonnul.induct)
  case (2 p n)
  show ?case using "2.IH" [of "\<lambda>i. q (Suc i)"] "2.prems" [of 0] "2.prems" by auto
qed simp

text \<open>strlen returns the position of the first NUL, and returns when there is one.\<close>

lemma strlen_from_first:
  assumes "i \<le> n" "s n = 0" "\<And>j. i \<le> j \<Longrightarrow> j < n \<Longrightarrow> s j \<noteq> 0"
  shows "strlen_from s i = Some n"
  using assms
proof (induction "n - i" arbitrary: i)
  case 0
  then show ?case by (subst strlen_from.simps) simp
next
  case (Suc k)
  then have "i < n" "s i \<noteq> 0" by auto
  moreover have "strlen_from s (Suc i) = Some n"
    using Suc.prems Suc.hyps \<open>i < n\<close> by (intro Suc.hyps(1)) auto
  ultimately show ?case by (subst strlen_from.simps) simp
qed

lemma strlen_from_SomeD:
  assumes "strlen_from s i = Some n"
  shows "i \<le> n \<and> s n = 0 \<and> (\<forall>j. i \<le> j \<longrightarrow> j < n \<longrightarrow> s j \<noteq> 0)"
proof (rule strlen_from.raw_induct
    [of "\<lambda>s i n. i \<le> n \<and> s n = 0 \<and> (\<forall>j. i \<le> j \<longrightarrow> j < n \<longrightarrow> s j \<noteq> 0)", OF _ assms])
  fix f and s :: cptr and i n
  assume IH: "\<And>s i n. f s i = Some n
      \<Longrightarrow> i \<le> n \<and> s n = 0 \<and> (\<forall>j. i \<le> j \<longrightarrow> j < n \<longrightarrow> s j \<noteq> 0)"
    and r: "(if s i = 0 then Some i else f s (Suc i)) = Some n"
  show "i \<le> n \<and> s n = 0 \<and> (\<forall>j. i \<le> j \<longrightarrow> j < n \<longrightarrow> s j \<noteq> 0)"
  proof (cases "s i = 0")
    case True
    with r show ?thesis by simp
  next
    case False
    with r have "f s (Suc i) = Some n" by simp
    from IH [OF this] show ?thesis
      using False by (metis Suc_leD Suc_leI le_neq_implies_less)
  qed
qed

lemma strlen_iff: "strlen s = Some n \<longleftrightarrow> s n = 0 \<and> (\<forall>j < n. s j \<noteq> 0)"
proof
  assume "strlen s = Some n"
  then show "s n = 0 \<and> (\<forall>j < n. s j \<noteq> 0)"
    using strlen_from_SomeD [of s 0 n] by (simp add: strlen_def)
next
  assume "s n = 0 \<and> (\<forall>j < n. s j \<noteq> 0)"
  then show "strlen s = Some n"
    unfolding strlen_def by (intro strlen_from_first) auto
qed

text \<open>copy_str is the byte-by-byte copy of the string and its NUL, cut off after \<open>n\<close> bytes.\<close>

definition cut :: "cptr \<Rightarrow> nat \<Rightarrow> nat" where
  "cut p n = min n (Suc (nonnul p n))"

lemma cut_simps [simp]:
  "cut p 0 = 0"
  "cut p (Suc n) = (if p 0 = 0 then 1 else Suc (cut (\<lambda>i. p (Suc i)) n))"
  using nonnul_le [of p n] by (auto simp: cut_def min_def)

lemma cut_le: "cut p n \<le> n"
  by (simp add: cut_def)

lemma copy_str_copy_up:
  assumes "\<And>i j. i < j \<Longrightarrow> j < n \<Longrightarrow> s + word_of_nat i \<noteq> t + word_of_nat j"
  shows "copy_str m s t n =
    (copy_up m s t (cut (ptr m t) n), s + word_of_nat (cut (ptr m t) n), n - cut (ptr m t) n)"
  using assms
proof (induction n arbitrary: m s t)
  case (Suc n)
  define m1 where "m1 = m(s := m t)"
  have p0: "ptr m t 0 = m t" by (simp add: ptr_def)
  have "ptr m1 (t + 1) i = ptr m t (Suc i)" if "i < n" for i
    using Suc.prems [of 0 "Suc i"] that by (auto simp: ptr_def m1_def add.commute add.left_commute)
  then have c: "cut (ptr m1 (t + 1)) n = cut (\<lambda>i. ptr m t (Suc i)) n"
    using nonnul_cong [of n "ptr m1 (t + 1)" "\<lambda>i. ptr m t (Suc i)"] by (simp add: cut_def)
  have "s + 1 + word_of_nat i \<noteq> t + 1 + word_of_nat j" if "i < j" "j < n" for i j
    using Suc.prems [of "Suc i" "Suc j"] that by (simp add: algebra_simps)
  note IH = Suc.IH [OF this, of m1, unfolded c]
  show ?case
  proof (cases "m t = 0")
    case True
    then show ?thesis using p0 by (simp add: Let_def fun_upd_def)
  next
    case False
    then show ?thesis using IH p0 by (simp add: m1_def [symmetric] Let_def add.assoc)
  qed
qed simp

lemma in_range_disjoint:
  assumes "j + k \<le> 4294967296" "in_range a (d + word_of_nat j) k"
  shows "\<not> in_range a d j"
proof
  assume r: "in_range a d j"
  define x where "x = a - d"
  have x: "unat x < j" using r by (simp add: in_range_def x_def)
  have "unat (x - word_of_nat j) < k"
    using assms(2) by (simp add: in_range_def x_def diff_diff_eq)
  moreover have "0 < k" using calculation by simp
  ultimately show False using unat_sub_nat [of j x] x assms(1) by simp
qed

lemma copy_str_contents:
  fixes m :: memory
  assumes k: "k \<le> 4294967296"
    and sep: "\<And>i j. i < k \<Longrightarrow> j < k \<Longrightarrow> s + word_of_nat i \<noteq> t + word_of_nat j"
  defines "c \<equiv> cut (ptr m t) k"
  shows "copy_str m s t k = (moved m s t c, s + word_of_nat c, k - c)"
    and "moved m s t c = (\<lambda>a. if in_range a s (nonnul (ptr m t) k) then m (t + (a - s))
       else if in_range a s c then 0 else m a)"
proof -
  have c: "c \<le> k" by (simp add: c_def cut_le)
  then have ck: "c \<le> 4294967296" using k by linarith
  have "copy_up m s t c = moved m s t c"
    using sep c by (intro copy_up_moved [OF ck]) auto
  then show "copy_str m s t k = (moved m s t c, s + word_of_nat c, k - c)"
    using copy_str_copy_up [of k s t m] sep unfolding c_def by auto
  show "moved m s t c = (\<lambda>a. if in_range a s (nonnul (ptr m t) k) then m (t + (a - s))
       else if in_range a s c then 0 else m a)"
  proof (cases "nonnul (ptr m t) k < k")
    case True
    define q where "q = nonnul (ptr m t) k"
    have cq: "c = Suc q" using True by (simp add: c_def cut_def q_def)
    have q: "q < 4294967296" using True k by (simp add: q_def)
    have z: "m (t + word_of_nat q) = 0"
      using nonnul_at [OF True] by (simp add: ptr_def q_def)
    show ?thesis
    proof
      fix a
      show "moved m s t c a = (if in_range a s (nonnul (ptr m t) k) then m (t + (a - s))
       else if in_range a s c then 0 else m a)"
        using in_range_end [OF q, of a s] z by (auto simp: moved_def q_def [symmetric] cq)
    qed
  next
    case False
    then have "nonnul (ptr m t) k = k" "c = k"
      using nonnul_le [of "ptr m t" k] by (auto simp: c_def cut_def)
    then show ?thesis by (simp add: moved_def fun_eq_iff)
  qed
qed

lemma strncpy_contents:
  assumes n: "n < 2147483648"
    and sep: "\<And>i j. i < nat n \<Longrightarrow> j < nat n \<Longrightarrow> s + word_of_nat i \<noteq> t + word_of_nat j"
  shows "strncpy m s t n =
    (\<lambda>a. if in_range a s (nonnul (ptr m t) (nat n)) then m (t + (a - s))
         else if in_range a s (nat n) then 0 else m a)"
proof -
  define k where "k = nat n"
  define c where "c = cut (ptr m t) k"
  define q where "q = nonnul (ptr m t) k"
  have k: "k \<le> 4294967296" using n by (simp add: k_def)
  have sep': "\<And>i j. i < k \<Longrightarrow> j < k \<Longrightarrow> s + word_of_nat i \<noteq> t + word_of_nat j"
    using sep by (simp add: k_def)
  note cs = copy_str_contents [OF k sep', of m, folded c_def q_def]
  have c: "c \<le> k" "q \<le> c" using nonnul_le [of "ptr m t" k] by (auto simp: c_def cut_def q_def)
  have e: "strncpy m s t n = fill (moved m s t c) (s + word_of_nat c) 0 (k - c)"
    using cs(1) k c by (simp add: strncpy_def k_def [symmetric] stosb_fill)
  have r: "in_range a s k \<longleftrightarrow> in_range a s c \<or> in_range a (s + word_of_nat c) (k - c)" for a
    using in_range_add [of c "k - c" a s] c k by simp
  have "\<not> (in_range a (s + word_of_nat c) (k - c) \<and> in_range a s c)" for a
    using in_range_disjoint [of c "k - c" a s] c k by auto
  moreover have "in_range a s q \<Longrightarrow> in_range a s c" for a
    using c by (simp add: in_range_def)
  ultimately show ?thesis
    unfolding e k_def [symmetric] q_def [symmetric] fill_def using r
    by (auto simp: cs(2) fun_eq_iff)
qed

lemma safestrcpy_contents:
  assumes n: "0 < n" "n < 2147483648"
    and sep: "\<And>i j. i < nat n \<Longrightarrow> j < nat n \<Longrightarrow> s + word_of_nat i \<noteq> t + word_of_nat j"
  shows "safestrcpy m s t n =
    (\<lambda>a. if in_range a s (nonnul (ptr m t) (nat (n - 1))) then m (t + (a - s))
         else if in_range a s (Suc (cut (ptr m t) (nat (n - 1)))) then 0 else m a)"
proof -
  define k where "k = nat (n - 1)"
  define c where "c = cut (ptr m t) k"
  define q where "q = nonnul (ptr m t) k"
  have k: "k < 4294967296" using n by (simp add: k_def)
  have sep': "\<And>i j. i < k \<Longrightarrow> j < k \<Longrightarrow> s + word_of_nat i \<noteq> t + word_of_nat j"
    using sep by (simp add: k_def)
  note cs = copy_str_contents [OF less_imp_le [OF k] sep', of m, folded c_def q_def]
  have c: "c \<le> k" "q \<le> c" using nonnul_le [of "ptr m t" k] by (auto simp: c_def cut_def q_def)
  then have "c < 4294967296" using k by linarith
  note r = in_range_end [OF this, of _ s]
  have "in_range a s q \<Longrightarrow> a \<noteq> s + word_of_nat c" for a
    using c unat_nat_u32 [OF \<open>c < 4294967296\<close>] by (auto simp: in_range_def)
  then show ?thesis
    unfolding safestrcpy_def k_def [symmetric] c_def [symmetric] q_def [symmetric]
    using cs n r by (auto simp: fun_upd_def)
qed

lemma strncmp_eq_0:
  "strncmp p q n = 0 \<longleftrightarrow> (\<forall>i < n. (\<forall>j < i. p j \<noteq> 0) \<longrightarrow> p i = q i)"
proof (induction p q n rule: strncmp.induct)
  case (2 p q n)
  have all: "(\<forall>i < Suc n. (\<forall>j < i. p j \<noteq> 0) \<longrightarrow> p i = q i) \<longleftrightarrow>
    p 0 = q 0 \<and> (p 0 \<noteq> 0 \<longrightarrow> (\<forall>i < n. (\<forall>j < i. p (Suc j) \<noteq> 0) \<longrightarrow> p (Suc i) = q (Suc i)))"
    by (auto simp: All_less_Suc2)
  show ?case
  proof (cases "p 0 \<noteq> 0 \<and> p 0 = q 0")
    case True
    then show ?thesis unfolding all using "2.IH" by simp
  next
    case False
    then show ?thesis unfolding all by (auto simp: word_uint_eq_iff)
  qed
qed simp

lemma memcmp_eq_0: "memcmp p q n = 0 \<longleftrightarrow> (\<forall>i < n. p i = q i)"
  by (induction p q n rule: memcmp.induct) (auto simp: All_less_Suc2 word_uint_eq_iff)

section \<open>What the routines guarantee\<close>

text \<open>
  memset writes the low byte of \<open>c\<close> to exactly the \<open>n\<close> bytes from \<open>dst\<close> on, on the
  \<open>stosl\<close> path for aligned buffers as well as on the \<open>stosb\<close> path.
\<close>

lemma memset_fills:
  "memset m dst c n a = (if in_range a dst (unat n) then ucast c else m a)"
  by (simp add: memset_fill fill_def)

text \<open>
  C18. memmove leaves at \<open>dst + i\<close> the byte that was at \<open>src + i\<close> before the call, for every
  \<open>i < n\<close> and also when the two buffers overlap in either direction, and changes no byte
  outside the destination, as long as neither buffer runs over the end of the address space.
\<close>

theorem memmove_overlap:
  assumes "unat src + unat n < 2 ^ 32" "unat dst + unat n \<le> 2 ^ 32"
  shows "(\<forall>i < unat n. memmove m dst src n (dst + word_of_nat i) = m (src + word_of_nat i)) \<and>
    (\<forall>a. \<not> in_range a dst (unat n) \<longrightarrow> memmove m dst src n a = m a)"
proof -
  have "memmove m dst src n = moved m dst src (unat n)"
    using assms by (intro memmove_moved) simp_all
  moreover have "unat n \<le> 4294967296" using assms by simp
  ultimately show ?thesis using moved_at [of _ "unat n" m dst src] by (auto simp: moved_def)
qed

theorem memmove_overlap_witness:
  "memmove ucast 102 100 5 104 = (102 :: u8) \<and> memmove ucast 100 102 5 101 = (103 :: u8)
   \<and> memmove ucast 102 100 5 107 = (107 :: u8)"
proof -
  have "\<not> in_range 107 102 5" by (simp add: in_range_def)
  then show ?thesis
    using memmove_overlap [of 100 5 102 ucast]
      memmove_overlap [of 102 5 100 ucast, THEN conjunct1, rule_format, of 1]
    by (auto dest!: spec [of _ "2 :: nat"] spec [of _ "107 :: u32"])
qed

text \<open>
  safestrcpy with \<open>n > 0\<close> and separate buffers copies the bytes before the first NUL of
  the source, at most \<open>n - 1\<close> of them; the byte after them is a NUL, and no byte outside the
  \<open>n\<close> bytes from \<open>s\<close> on is changed.
\<close>

lemma safestrcpy_terminated:
  assumes "0 < n" "n < 2 ^ 31"
    and "\<forall>i < nat n. \<forall>j < nat n. s + word_of_nat i \<noteq> t + word_of_nat j"
  shows "let k = nonnul (ptr m t) (nat (n - 1)); m' = safestrcpy m s t n in
    int k < n \<and> (\<forall>i < k. m' (s + word_of_nat i) = m (t + word_of_nat i)) \<and>
    m' (s + word_of_nat k) = 0 \<and> (\<forall>a. \<not> in_range a s (nat n) \<longrightarrow> m' a = m a)"
proof -
  define k where "k = nonnul (ptr m t) (nat (n - 1))"
  define c where "c = cut (ptr m t) (nat (n - 1))"
  have e: "safestrcpy m s t n = (\<lambda>a. if in_range a s k then m (t + (a - s))
      else if in_range a s (Suc c) then 0 else m a)"
    unfolding k_def c_def using assms by (intro safestrcpy_contents) simp_all
  have k: "k \<le> c" "c \<le> nat (n - 1)"
    using nonnul_le [of "ptr m t" "nat (n - 1)"] by (auto simp: k_def c_def cut_def)
  have "in_range a s (Suc c) \<Longrightarrow> in_range a s (nat n)" "in_range a s k \<Longrightarrow> in_range a s (nat n)" for a
    using k assms(1) by (auto simp: in_range_def)
  moreover have "unat (word_of_nat i :: u32) = i" if "i \<le> k" for i
    using that k assms(2) by (intro unat_nat_u32) simp
  ultimately show ?thesis
    unfolding k_def [symmetric] e using k assms(1) by (auto simp: Let_def in_range_def)
qed

lemma safestrcpy_terminated_at:
  "let m = (\<lambda>a. if a = 102 then 0 else 65) in
   nonnul (ptr m 100) 15 = 2 \<and> safestrcpy m 200 100 16 202 = 0 \<and> safestrcpy m 200 100 16 216 = 65"
proof -
  define m :: memory where "m = (\<lambda>a. if a = 102 then 0 else 65)"
  have sep: "\<forall>i < nat 16. \<forall>j < nat 16. (200 :: u32) + word_of_nat i \<noteq> 100 + word_of_nat j"
  proof (intro allI impI)
    fix i j :: nat assume "i < nat 16" "j < nat 16"
    then have "unat (200 + word_of_nat i :: u32) \<noteq> unat (100 + word_of_nat j :: u32)"
      by (simp add: unat_add_nat)
    then show "(200 :: u32) + word_of_nat i \<noteq> 100 + word_of_nat j" by metis
  qed
  have k: "nonnul (ptr m 100) 15 = 2"
  proof -
    have "(15 :: nat) = Suc (Suc (Suc 12))" by simp
    then show ?thesis by (simp only: nonnul.simps) (simp add: m_def ptr_def)
  qed
  have "\<not> in_range 216 200 16" by (simp add: in_range_def)
  then show ?thesis
    using safestrcpy_terminated [of 16 200 100 m] sep k
    unfolding m_def [symmetric] by (auto simp: Let_def m_def)
qed

end
