(* ===== verification/Kalloc.thy ===== *)
theory Kalloc
  imports Spinlock Cstring
begin

text \<open>
  The physical page allocator (kalloc.c). Physical memory is the byte memory \<open>pmem\<close>, addressed
  by kernel virtual addresses; free pages form a list linked through their first word, as the
  code has it. \<open>kend\<close> and \<open>kdata\<close> are the symbols \<open>end\<close> and \<open>data\<close> of the linker script.

  The abstract allocator is a stack of free pages: \<open>free_pages s ps\<close> says that the linked
  list that starts at \<open>freelist\<close> consists of the pages \<open>ps\<close>.
\<close>

section \<open>State and operations\<close>

record kmem = machine +
  pmem :: memory
  freelist :: u32
  use_lock :: bool
  kend :: u32
  kdata :: u32

definition PGSIZE :: u32 where "PGSIZE = 4096"
definition PHYSTOP :: u32 where "PHYSTOP = 0xE000000"
definition EXTMEM :: u32 where "EXTMEM = 0x100000"
definition DEVSPACE :: u32 where "DEVSPACE = 0xFE000000"

definition V2P :: "u32 \<Rightarrow> u32" where "V2P a = a - KERNBASE"
definition P2V :: "u32 \<Rightarrow> u32" where "P2V a = a + KERNBASE"

definition PGROUNDUP :: "u32 \<Rightarrow> u32" where
  "PGROUNDUP sz = (sz + PGSIZE - 1) AND NOT (PGSIZE - 1)"

definition PGROUNDDOWN :: "u32 \<Rightarrow> u32" where
  "PGROUNDDOWN a = a AND NOT (PGSIZE - 1)"

definition kmem_acquire :: "'a kmem_scheme \<Rightarrow> 'a kmem_scheme result" where
  "kmem_acquire s = (if use_lock s then acquire KmemLock s else Inr s)"

definition kmem_release :: "'a kmem_scheme \<Rightarrow> 'a kmem_scheme result" where
  "kmem_release s = (if use_lock s then release KmemLock s else Inr s)"

definition kfree :: "u32 \<Rightarrow> 'a kmem_scheme \<Rightarrow> 'a kmem_scheme result" where
  "kfree v s =
    (if v mod PGSIZE \<noteq> 0 \<or> v < kend s \<or> PHYSTOP \<le> V2P v then Inl (Panic ''kfree'')
     else
       let s = s\<lparr>pmem := memset (pmem s) v 1 PGSIZE\<rparr> in
       bindE (kmem_acquire s) (\<lambda>s.
       let s = s\<lparr>pmem := store32 (pmem s) v (freelist s)\<rparr>;
           s = s\<lparr>freelist := v\<rparr> in
       kmem_release s))"

definition kalloc :: "'a kmem_scheme \<Rightarrow> (u32 \<times> 'a kmem_scheme) result" where
  "kalloc s =
    bindE (kmem_acquire s) (\<lambda>s.
    let r = freelist s;
        s = (if r \<noteq> 0 then s\<lparr>freelist := load32 (pmem s) r\<rparr> else s) in
    bindE (kmem_release s) (\<lambda>s.
    Inr (r, s)))"

text \<open>
  The loop of freerange ends for all arguments: a page at or above \<open>P2V(PHYSTOP)\<close> makes kfree
  panic, so the loop has at most \<open>PHYSTOP / PGSIZE\<close> rounds.
\<close>

lemma aligned_iff: "p mod PGSIZE = 0 \<longleftrightarrow> unat p mod 4096 = 0"
  by (simp add: PGSIZE_def unat_eq_zero [symmetric] unat_mod)

lemma aligned_V2P: "p mod PGSIZE = 0 \<Longrightarrow> unat (V2P p) mod 4096 = 0"
  unfolding aligned_iff V2P_def KERNBASE_def unat_sub_if' by (auto simp: mod_simps split: if_splits)

lemma kfree_InrD:
  assumes "kfree v s = Inr t"
  shows "v mod PGSIZE = 0" "kend s \<le> v" "unat (KERNBASE + PHYSTOP - (v + PGSIZE)) < unat (KERNBASE + PHYSTOP - v)"
proof -
  from assms have c: "v mod PGSIZE = 0" "\<not> v < kend s" "V2P v < PHYSTOP"
    by (auto simp: kfree_def split: if_splits)
  then show "v mod PGSIZE = 0" "kend s \<le> v" by simp_all
  show "unat (KERNBASE + PHYSTOP - (v + PGSIZE)) < unat (KERNBASE + PHYSTOP - v)"
  proof -
    define x where "x = V2P v"
    have e: "KERNBASE + PHYSTOP - v = PHYSTOP - x" "KERNBASE + PHYSTOP - (v + PGSIZE) = PHYSTOP - (x + PGSIZE)"
      by (simp_all add: x_def V2P_def)
    have x: "unat x < 234881024" "unat x mod 4096 = 0"
      using c(3) aligned_V2P [OF c(1)] by (simp_all add: x_def word_less_nat_alt PHYSTOP_def)
    then obtain j where j: "unat x = 4096 * j" by auto
    then have "Suc j \<le> 57344" using x(1) by simp
    then have x': "unat x + 4096 \<le> 234881024" using j by simp
    then have "unat (x + PGSIZE) = unat x + 4096"
      using unat_plus_if' [of x PGSIZE] by (simp add: PGSIZE_def)
    then show ?thesis
      unfolding e using x x' by (simp add: unat_sub_if' PHYSTOP_def)
  qed
qed

function freerange_from :: "u32 \<Rightarrow> u32 \<Rightarrow> 'a kmem_scheme \<Rightarrow> 'a kmem_scheme result" where
  "freerange_from p vend s =
    (if p + PGSIZE \<le> vend
     then bindE (kfree p s) (\<lambda>s. freerange_from (p + PGSIZE) vend s)
     else Inr s)"
  by pat_completeness auto
termination
  by (relation "measure (\<lambda>(p, vend, s). unat (KERNBASE + PHYSTOP - p))")
    (auto dest: kfree_InrD(3))

declare freerange_from.simps [simp del]

definition freerange :: "u32 \<Rightarrow> u32 \<Rightarrow> 'a kmem_scheme \<Rightarrow> 'a kmem_scheme result" where
  "freerange vstart vend s = freerange_from (PGROUNDUP vstart) vend s"

definition kinit1 :: "u32 \<Rightarrow> u32 \<Rightarrow> 'a kmem_scheme \<Rightarrow> 'a kmem_scheme result" where
  "kinit1 vstart vend s =
    (let s = initlock KmemLock ''kmem'' s;
         s = s\<lparr>use_lock := False\<rparr> in
     freerange vstart vend s)"

definition kinit2 :: "u32 \<Rightarrow> u32 \<Rightarrow> 'a kmem_scheme \<Rightarrow> 'a kmem_scheme result" where
  "kinit2 vstart vend s =
    bindE (freerange vstart vend s) (\<lambda>s. Inr (s\<lparr>use_lock := True\<rparr>))"

section \<open>The free list\<close>

fun chain :: "memory \<Rightarrow> u32 \<Rightarrow> u32 list \<Rightarrow> bool" where
  "chain m r [] \<longleftrightarrow> r = 0"
| "chain m r (p # ps) \<longleftrightarrow> r = p \<and> p \<noteq> 0 \<and> chain m (load32 m p) ps"

definition page_ok :: "'a kmem_scheme \<Rightarrow> u32 \<Rightarrow> bool" where
  "page_ok s p \<longleftrightarrow> p mod PGSIZE = 0 \<and> kend s \<le> p \<and> V2P p < PHYSTOP"

definition free_pages :: "'a kmem_scheme \<Rightarrow> u32 list \<Rightarrow> bool" where
  "free_pages s ps \<longleftrightarrow> chain (pmem s) (freelist s) ps \<and> distinct ps \<and> (\<forall>p \<in> set ps. page_ok s p)"

text \<open>The list that \<open>freelist\<close> starts is determined by the memory.\<close>

lemma chain_unique: "chain m r ps \<Longrightarrow> chain m r qs \<Longrightarrow> ps = qs"
proof (induction ps arbitrary: r qs)
  case Nil
  then show ?case by (cases qs) auto
next
  case (Cons p ps)
  then show ?case by (cases qs) auto
qed

lemma free_pages_unique: "free_pages s ps \<Longrightarrow> free_pages s qs \<Longrightarrow> ps = qs"
  by (auto simp: free_pages_def dest: chain_unique)

lemma page_ok_not_0: "page_ok s p \<Longrightarrow> p \<noteq> 0"
  by (auto simp: page_ok_def V2P_def KERNBASE_def PHYSTOP_def)

definition in_page :: "u32 \<Rightarrow> u32 \<Rightarrow> bool" where
  "in_page a p \<longleftrightarrow> in_range a p 4096"

lemma in_page_base:
  assumes "p mod PGSIZE = 0" "in_page a p"
  shows "unat p = 4096 * (unat a div 4096)"
proof -
  have p: "unat p mod 4096 = 0" using assms(1) by (simp add: aligned_iff)
  obtain k where k: "k < 4096" "a = p + word_of_nat k"
    using assms(2) unfolding in_page_def by (rule in_rangeE)
  obtain j where j: "unat p = 4096 * j" using p by auto
  then have "j < 1048576" using unat_u32_less [of p] by linarith
  then have "unat p + k < 4294967296" using k(1) j by linarith
  then have "unat a = unat p + k" unfolding k(2) by (rule unat_add_nat)
  then show ?thesis using j k(1) by simp
qed

lemma pages_disjoint:
  assumes "p mod PGSIZE = 0" "q mod PGSIZE = 0" "in_page a p" "in_page a q"
  shows "p = q"
  using in_page_base [OF assms(1,3)] in_page_base [OF assms(2,4)] by (simp add: word_unat_eq_iff)

lemma in_page_word: "i < 4 \<Longrightarrow> in_page (p + word_of_nat i) p"
  by (simp add: in_page_def in_range_def unat_nat_u32)

lemma load32_page_cong:
  assumes "\<And>a. in_page a p \<Longrightarrow> m a = m' a"
  shows "load32 m p = load32 m' p"
  using assms in_page_word [of 0 p] in_page_word [of 1 p] in_page_word [of 2 p] in_page_word [of 3 p]
  by (intro load32_cong) simp_all

lemma chain_cong:
  assumes "\<And>p. p \<in> set ps \<Longrightarrow> load32 m p = load32 m' p"
  shows "chain m r ps = chain m' r ps"
  using assms by (induction ps arbitrary: r) simp_all

lemma store32_other_page:
  assumes "\<not> in_page a p"
  shows "store32 m p v a = m a"
  using assms by (intro store32_outside) (simp add: in_page_def in_range_def)

lemma memset_other_page:
  assumes "\<not> in_page a p"
  shows "memset m p c PGSIZE a = m a"
  using assms by (simp add: memset_fill fill_def in_page_def PGSIZE_def)

section \<open>The critical section of the allocator\<close>

definition klock_ok :: "nat \<Rightarrow> 'a kmem_scheme \<Rightarrow> bool" where
  "klock_ok i s \<longleftrightarrow> (use_lock s \<longrightarrow> cpu_ok s i \<and> lk_free KmemLock s)"

definition kview :: "'a kmem_scheme \<Rightarrow> memory \<times> u32 \<times> bool \<times> u32 \<times> u32 \<times> 'a" where
  "kview s = (pmem s, freelist s, use_lock s, kend s, kdata s, kmem.more s)"

lemma kview_machine [simp]:
  "kview (pushed i n s) = kview s" "kview (popped i n s) = kview s" "kview (upd_lock l f s) = kview s"
  "kview (locked l i s) = kview s" "kview (unlocked l i s) = kview s"
  by (simp_all add: kview_def pushed_def popped_def upd_lock_def locked_def unlocked_def)

lemma klock_ok_sim: "mach_sim s t \<Longrightarrow> use_lock t = use_lock s \<Longrightarrow> klock_ok i t = klock_ok i s"
  using cpu_ok_sim [of s t i] by (auto simp: klock_ok_def mach_sim_def)

lemma kmem_section:
  fixes s :: "'a kmem_scheme"
  assumes "klock_ok i s"
  obtains s1 where "kmem_acquire s = Inr s1" "kview s1 = kview s"
    "\<And>t :: 'a kmem_scheme. mach t = mach s1 \<Longrightarrow> use_lock t = use_lock s1 \<Longrightarrow>
       \<exists>u. kmem_release t = Inr u \<and> kview u = kview t \<and> mach_sim s u"
proof (cases "use_lock s")
  case True
  let ?s1 = "locked KmemLock i s"
  have ok: "cpu_ok s i" "lk_free KmemLock s" using assms True by (simp_all add: klock_ok_def)
  have v: "kview ?s1 = kview s" by simp
  then have ul: "use_lock ?s1" using True by (simp add: kview_def)
  show ?thesis
  proof (rule that)
    show "kmem_acquire s = Inr ?s1"
      using True acquire_ok [OF ok(1), of KmemLock] ok(2) by (simp add: kmem_acquire_def lk_free_def locked_def)
    show "kview ?s1 = kview s" by (rule v)
    fix t assume m: "mach t = mach ?s1" and "use_lock t = use_lock ?s1"
    then have "kmem_release t = Inr (unlocked KmemLock i t)"
      using release_ok [of t i KmemLock] locked_ok [OF ok(1), of KmemLock] machD [OF m] cpu_ok_mach [OF m] ul
      by (simp add: unlocked_def kmem_release_def)
    then show "\<exists>u. kmem_release t = Inr u \<and> kview u = kview t \<and> mach_sim s u"
      using mach_sim_section [OF ok m] by simp
  qed
next
  case False
  then show ?thesis
    by (intro that [of s]) (auto simp: kmem_acquire_def kmem_release_def mach_sim_mach)
qed

text \<open>What the two operations do to the stack of free pages.\<close>

lemma kalloc_Nil:
  fixes s :: "'a kmem_scheme"
  assumes "klock_ok i s" "free_pages s []"
  shows "\<exists>t. kalloc s = Inr (0, t) \<and> kview t = kview s \<and> mach_sim s t"
proof -
  obtain s1 where s1: "kmem_acquire s = Inr s1" "kview s1 = kview s"
    and rel: "\<And>t :: 'a kmem_scheme. mach t = mach s1 \<Longrightarrow> use_lock t = use_lock s1 \<Longrightarrow>
       \<exists>u. kmem_release t = Inr u \<and> kview u = kview t \<and> mach_sim s u"
    using kmem_section [OF assms(1)] by metis
  have "freelist s1 = 0" using s1(2) assms(2) by (simp add: kview_def free_pages_def)
  then show ?thesis using s1 rel [of s1] by (auto simp: kalloc_def)
qed

lemma kalloc_Cons:
  fixes s :: "'a kmem_scheme"
  assumes "klock_ok i s" "free_pages s (p # ps)"
  shows "\<exists>t. kalloc s = Inr (p, t) \<and> kview t = kview (s\<lparr>freelist := load32 (pmem s) p\<rparr>)
     \<and> mach_sim s t \<and> free_pages t ps"
proof -
  obtain s1 where s1: "kmem_acquire s = Inr s1" "kview s1 = kview s"
    and rel: "\<And>t :: 'a kmem_scheme. mach t = mach s1 \<Longrightarrow> use_lock t = use_lock s1 \<Longrightarrow>
       \<exists>u. kmem_release t = Inr u \<and> kview u = kview t \<and> mach_sim s u"
    using kmem_section [OF assms(1)] by metis
  let ?t = "s1\<lparr>freelist := load32 (pmem s1) p\<rparr>"
  have f: "freelist s1 = p" "p \<noteq> 0" "pmem s1 = pmem s"
    using s1(2) assms(2) by (simp_all add: kview_def free_pages_def)
  obtain u where u: "kmem_release ?t = Inr u" "kview u = kview ?t" "mach_sim s u"
    using rel [of ?t] by (auto simp: mach_def)
  then have "kalloc s = Inr (p, u)" using s1(1) f by (simp add: kalloc_def)
  moreover have "kview u = kview (s\<lparr>freelist := load32 (pmem s) p\<rparr>)"
    using u(2) s1(2) by (simp add: kview_def)
  ultimately show ?thesis
    using u(3) assms(2) by (auto simp: free_pages_def kview_def page_ok_def)
qed

lemma kfree_ok:
  fixes s :: "'a kmem_scheme"
  assumes "klock_ok i s" "page_ok s v"
  shows "\<exists>t. kfree v s = Inr t \<and> mach_sim s t
     \<and> kview t = kview (s\<lparr>freelist := v, pmem := store32 (memset (pmem s) v 1 PGSIZE) v (freelist s)\<rparr>)"
proof -
  define s0 where "s0 = s\<lparr>pmem := memset (pmem s) v 1 PGSIZE\<rparr>"
  have "mach s0 = mach s" by (simp add: s0_def mach_def)
  then have sim: "mach_sim s s0" by (simp add: mach_sim_mach)
  have "klock_ok i s0" using klock_ok_sim [OF sim] assms(1) by (simp add: s0_def)
  then obtain s1 where s1: "kmem_acquire s0 = Inr s1" "kview s1 = kview s0"
    and rel: "\<And>t :: 'a kmem_scheme. mach t = mach s1 \<Longrightarrow> use_lock t = use_lock s1 \<Longrightarrow>
       \<exists>u. kmem_release t = Inr u \<and> kview u = kview t \<and> mach_sim s0 u"
    using kmem_section [of i s0] by metis
  let ?t = "s1\<lparr>pmem := store32 (pmem s1) v (freelist s1), freelist := v\<rparr>"
  obtain u where u: "kmem_release ?t = Inr u" "kview u = kview ?t" "mach_sim s0 u"
    using rel [of ?t] by (auto simp: mach_def)
  have "kfree v s = Inr u"
    using s1(1) u(1) assms(2) by (auto simp: kfree_def page_ok_def s0_def not_less not_le)
  moreover have "kview u = kview (s\<lparr>freelist := v, pmem := store32 (memset (pmem s) v 1 PGSIZE) v (freelist s)\<rparr>)"
    using u(2) s1(2) by (simp add: kview_def s0_def)
  ultimately show ?thesis using mach_sim_trans [OF sim u(3)] by blast
qed

lemma kfree_free_pages:
  assumes "free_pages s ps" "page_ok s v" "v \<notin> set ps"
    and "kview t = kview (s\<lparr>freelist := v, pmem := store32 (memset (pmem s) v 1 PGSIZE) v (freelist s)\<rparr>)"
  shows "free_pages t (v # ps)"
    "\<And>a. \<not> in_page a v \<Longrightarrow> pmem t a = pmem s a"
proof -
  have t: "pmem t = store32 (memset (pmem s) v 1 PGSIZE) v (freelist s)" "freelist t = v" "kend t = kend s"
    using assms(4) by (simp_all add: kview_def)
  show out: "\<And>a. \<not> in_page a v \<Longrightarrow> pmem t a = pmem s a"
    by (simp add: t store32_other_page memset_other_page)
  have "load32 (pmem t) p = load32 (pmem s) p" if "p \<in> set ps" for p
  proof (rule load32_page_cong)
    fix a assume a: "in_page a p"
    have "p \<noteq> v" using that assms(3) by blast
    then have "\<not> in_page a v"
      using pages_disjoint [of p v a] a that assms(1,2) by (auto simp: free_pages_def page_ok_def)
    then show "pmem t a = pmem s a" by (rule out)
  qed
  then have "chain (pmem t) (freelist s) ps"
    using assms(1) chain_cong [of ps "pmem t" "pmem s"] by (simp add: free_pages_def)
  moreover have "load32 (pmem t) v = freelist s" by (simp add: t)
  ultimately show "free_pages t (v # ps)"
    using assms(1-3) page_ok_not_0 [OF assms(2)] by (simp add: free_pages_def t page_ok_def)
qed

section \<open>Clients of the allocator\<close>

text \<open>
  The contract: \<open>alloc\<close> hands out a page of the free set or 0 when there is none, \<open>free\<close> takes a
  valid page back. \<open>page_run\<close> is a client that makes any sequence of calls and frees only pages
  it owns.
\<close>

datatype page_event = Alloc | Free u32

fun page_run ::
  "('s \<Rightarrow> 'e + (u32 \<times> 's)) \<Rightarrow> (u32 \<Rightarrow> 's \<Rightarrow> 'e + 's) \<Rightarrow> page_event list \<Rightarrow> u32 set \<Rightarrow> 's
   \<Rightarrow> 'e + (u32 set \<times> 's)"
where
  "page_run alloc free [] own s = Inr (own, s)"
| "page_run alloc free (Alloc # es) own s =
    bindE (alloc s) (\<lambda>(p, s). page_run alloc free es (if p = 0 then own else insert p own) s)"
| "page_run alloc free (Free v # es) own s =
    (if v \<in> own then bindE (free v s) (page_run alloc free es (own - {v}))
     else page_run alloc free es own s)"

locale page_allocator =
  fixes alloc :: "'s \<Rightarrow> 'e + (u32 \<times> 's)"
    and free :: "u32 \<Rightarrow> 's \<Rightarrow> 'e + 's"
    and pages :: "'s \<Rightarrow> u32 set"
    and good :: "'s \<Rightarrow> bool"
    and valid :: "'s \<Rightarrow> u32 \<Rightarrow> bool"
  assumes alloc_none: "good s \<Longrightarrow> pages s = {} \<Longrightarrow>
      \<exists>t. alloc s = Inr (0, t) \<and> good t \<and> pages t = {} \<and> valid t = valid s"
    and alloc_some: "good s \<Longrightarrow> pages s \<noteq> {} \<Longrightarrow>
      \<exists>p t. alloc s = Inr (p, t) \<and> good t \<and> p \<in> pages s \<and> pages t = pages s - {p} \<and> valid t = valid s"
    and free_ok: "good s \<Longrightarrow> valid s v \<Longrightarrow> v \<notin> pages s \<Longrightarrow>
      \<exists>t. free v s = Inr t \<and> good t \<and> pages t = insert v (pages s) \<and> valid t = valid s"
    and pages_valid: "good s \<Longrightarrow> p \<in> pages s \<Longrightarrow> valid s p \<and> p \<noteq> 0"
begin

lemma conservation:
  assumes "good s" "own \<inter> pages s = {}" "\<forall>p \<in> own. valid s p"
  shows "\<exists>own' t. page_run alloc free es own s = Inr (own', t) \<and> good t
     \<and> own' \<inter> pages t = {} \<and> own' \<union> pages t = own \<union> pages s"
  using assms
proof (induction es arbitrary: own s)
  case Nil
  then show ?case by simp
next
  case (Cons e es)
  show ?case
  proof (cases e)
    case Alloc
    show ?thesis
    proof (cases "pages s = {}")
      case True
      from alloc_none [OF Cons.prems(1) True] obtain t where
        t: "alloc s = Inr (0, t)" "good t" "pages t = {}" "valid t = valid s" by blast
      show ?thesis using Cons.IH [of t own] Cons.prems t True Alloc by auto
    next
      case False
      from alloc_some [OF Cons.prems(1) False] obtain p t where t: "alloc s = Inr (p, t)"
        "good t" "p \<in> pages s" "pages t = pages s - {p}" "valid t = valid s" by blast
      have "p \<noteq> 0" "valid s p" using pages_valid [OF Cons.prems(1) t(3)] by simp_all
      moreover have "insert p own \<inter> pages t = {}" "insert p own \<union> pages t = own \<union> pages s"
        using t(3,4) Cons.prems(2) by auto
      ultimately show ?thesis using Cons.IH [of t "insert p own"] Cons.prems t Alloc by auto
    qed
  next
    case (Free v)
    show ?thesis
    proof (cases "v \<in> own")
      case True
      then obtain t where t: "free v s = Inr t" "good t" "pages t = insert v (pages s)" "valid t = valid s"
        using free_ok [of s v] Cons.prems by blast
      have "(own - {v}) \<inter> pages t = {}" "own - {v} \<union> pages t = own \<union> pages s"
        using t(3) True Cons.prems(2) by auto
      then show ?thesis using Cons.IH [of t "own - {v}"] Cons.prems t True Free by auto
    next
      case False
      then show ?thesis using Cons.IH [of s own] Cons.prems Free by auto
    qed
  qed
qed

end

definition kmem_good :: "nat \<Rightarrow> 'a kmem_scheme \<Rightarrow> bool" where
  "kmem_good i s \<longleftrightarrow> klock_ok i s \<and> (\<exists>ps. free_pages s ps)"

definition free_set :: "'a kmem_scheme \<Rightarrow> u32 set" where
  "free_set s = {p. \<exists>ps. free_pages s ps \<and> p \<in> set ps}"

lemma free_set_eq: "free_pages s ps \<Longrightarrow> free_set s = set ps"
  using free_pages_unique by (auto simp: free_set_def)

lemma page_ok_kview: "kview t = kview (s\<lparr>freelist := x, pmem := y\<rparr>) \<Longrightarrow> page_ok t = page_ok s"
  by (simp add: kview_def page_ok_def fun_eq_iff)

lemma kmem_good_step:
  assumes "kmem_good i s" "mach_sim s t" "use_lock t = use_lock s" "free_pages t ps"
  shows "kmem_good i t" "free_set t = set ps"
  using assms klock_ok_sim [OF assms(2,3)] by (auto simp: kmem_good_def free_set_eq)

interpretation km: page_allocator kalloc kfree free_set "kmem_good i" page_ok for i
proof
  fix s :: "'a kmem_scheme"
  assume g: "kmem_good i s"
  then obtain ps where ps: "free_pages s ps" and k: "klock_ok i s" by (auto simp: kmem_good_def)
  note set = free_set_eq [OF ps]
  show "\<exists>t. kalloc s = Inr (0, t) \<and> kmem_good i t \<and> free_set t = {} \<and> page_ok t = page_ok s"
    if "free_set s = {}"
  proof -
    have "ps = []" using that set by simp
    with kalloc_Nil [OF k] ps obtain t where t: "kalloc s = Inr (0, t)" "kview t = kview s" "mach_sim s t"
      by auto
    have "free_pages t []" "use_lock t = use_lock s" "page_ok t = page_ok s"
      using t(2) ps \<open>ps = []\<close> by (auto simp: kview_def free_pages_def page_ok_def fun_eq_iff)
    then show ?thesis using kmem_good_step [OF g t(3)] t(1) by fastforce
  qed
  show "\<exists>p t. kalloc s = Inr (p, t) \<and> kmem_good i t \<and> p \<in> free_set s
      \<and> free_set t = free_set s - {p} \<and> page_ok t = page_ok s" if ne: "free_set s \<noteq> {}"
  proof -
    obtain p qs where pq: "ps = p # qs" using ne set by (cases ps) auto
    with kalloc_Cons [OF k] ps obtain t where t: "kalloc s = Inr (p, t)" "mach_sim s t" "free_pages t qs"
      "kview t = kview (s\<lparr>freelist := load32 (pmem s) p\<rparr>)" by blast
    have "use_lock t = use_lock s" "page_ok t = page_ok s"
      using t(4) by (auto simp: kview_def page_ok_def fun_eq_iff)
    moreover have "set qs = free_set s - {p}" using ps pq set by (auto simp: free_pages_def)
    ultimately show ?thesis using kmem_good_step [OF g t(2) _ t(3)] t(1) set pq by auto
  qed
  show "\<exists>t. kfree v s = Inr t \<and> kmem_good i t \<and> free_set t = insert v (free_set s) \<and> page_ok t = page_ok s"
    if v: "page_ok s v" "v \<notin> free_set s" for v
  proof -
    obtain t where t: "kfree v s = Inr t" "mach_sim s t"
      "kview t = kview (s\<lparr>freelist := v, pmem := store32 (memset (pmem s) v 1 PGSIZE) v (freelist s)\<rparr>)"
      using kfree_ok [OF k v(1)] by blast
    have f: "free_pages t (v # ps)" using kfree_free_pages(1) [OF ps v(1) _ t(3)] v(2) set by simp
    have "use_lock t = use_lock s" using t(3) by (simp add: kview_def)
    then show ?thesis using kmem_good_step [OF g t(2) _ f] t(1) set page_ok_kview [OF t(3)] by simp
  qed
  show "page_ok s p \<and> p \<noteq> 0" if "p \<in> free_set s" for p
    using that ps set page_ok_not_0 [of s p] by (auto simp: free_pages_def)
qed

section \<open>Initialisation\<close>

text \<open>The pages that lie entirely between two addresses.\<close>

definition whole_pages :: "u32 \<Rightarrow> u32 \<Rightarrow> u32 set" where
  "whole_pages vstart vend = {p. p mod PGSIZE = 0 \<and> vstart \<le> p \<and> unat p + 4096 \<le> unat vend}"

lemma next_page:
  assumes "unat p + 4096 < 4294967296"
  shows "unat (p + PGSIZE) = unat p + 4096"
  using assms unat_plus_if' [of p PGSIZE] by (simp add: PGSIZE_def)

lemma aligned_less:
  assumes "p mod PGSIZE = 0" "q mod PGSIZE = 0" "unat p < unat q"
  shows "unat p + 4096 \<le> unat q"
proof -
  have "4096 dvd unat p" "4096 dvd unat q" using assms(1,2) by (simp_all add: aligned_iff mod_0_imp_dvd)
  then obtain j k where jk: "unat p = 4096 * j" "unat q = 4096 * k" by (auto simp: dvd_def)
  then have "Suc j \<le> k" using assms(3) by simp
  then show ?thesis using jk by simp
qed

lemma whole_pages_step:
  assumes "p mod PGSIZE = 0" "unat p + 4096 \<le> unat vend"
  shows "whole_pages p vend = insert p (whole_pages (p + PGSIZE) vend)" (is "?l = ?r")
proof (rule set_eqI)
  fix q
  have p': "unat (p + PGSIZE) = unat p + 4096"
    using assms(2) unat_u32_less [of vend] by (intro next_page) linarith
  have "p \<le> q \<longleftrightarrow> q = p \<or> p + PGSIZE \<le> q" if "q mod PGSIZE = 0"
    using aligned_less [OF assms(1) that] p' by (auto simp: word_le_nat_alt le_less word_unat_eq_iff)
  then show "q \<in> ?l \<longleftrightarrow> q \<in> ?r"
    unfolding whole_pages_def insert_iff mem_Collect_eq using assms by (metis order_refl)
qed

lemma freerange_from_pages:
  assumes "kmem_good i s" "p mod PGSIZE = 0" "kend s \<le> p" "KERNBASE \<le> p"
    "unat vend \<le> 2382364672" "unat p \<le> 2382364672" "whole_pages p vend \<inter> free_set s = {}"
  shows "\<exists>t. freerange_from p vend s = Inr t \<and> kmem_good i t
    \<and> free_set t = free_set s \<union> whole_pages p vend"
  using assms
proof (induction p vend s rule: freerange_from.induct)
  case (1 p vend s)
  have lo: "2147483648 \<le> unat p" using "1.prems"(4) by (simp add: KERNBASE_def word_le_nat_alt)
  obtain j where j: "unat p = 4096 * j" using "1.prems"(2) by (auto simp: aligned_iff)
  have j': "j < 1048576" using j unat_u32_less [of p] by linarith
  show ?case
  proof (cases "unat p + 4096 \<le> unat vend")
    case True
    then have p': "unat (p + PGSIZE) = unat p + 4096"
      using "1.prems"(5) by (intro next_page) linarith
    then have c: "p + PGSIZE \<le> vend" using True by (simp add: word_le_nat_alt)
    have "unat (V2P p) = unat p - 2147483648"
      using lo by (simp add: V2P_def KERNBASE_def unat_sub_if')
    then have ok: "page_ok s p"
      using "1.prems"(2,3,5) True lo by (simp add: page_ok_def PHYSTOP_def word_less_nat_alt)
    have new: "p \<in> whole_pages p vend" using True "1.prems"(2) by (simp add: whole_pages_def)
    with "1.prems"(7) have "p \<notin> free_set s" by blast
    then obtain t where t: "kfree p s = Inr t" "kmem_good i t" "free_set t = insert p (free_set s)"
      "page_ok t = page_ok s"
      using km.free_ok [OF "1.prems"(1) ok] by blast
    have kt: "kend t \<le> p + PGSIZE"
    proof -
      have "page_ok t p" using ok t(4) by simp
      then show ?thesis using p' by (simp add: page_ok_def word_le_nat_alt)
    qed
    have al: "(p + PGSIZE) mod PGSIZE = 0" using j by (simp add: aligned_iff p')
    note split = whole_pages_step [OF "1.prems"(2) True]
    have "p \<notin> whole_pages (p + PGSIZE) vend" using p' by (simp add: whole_pages_def word_le_nat_alt)
    then have "whole_pages (p + PGSIZE) vend \<inter> free_set t = {}"
      using "1.prems"(7) split t(3) by auto
    moreover have "KERNBASE \<le> p + PGSIZE" using lo p' by (simp add: KERNBASE_def word_le_nat_alt)
    ultimately obtain u where "freerange_from (p + PGSIZE) vend t = Inr u" "kmem_good i u"
      "free_set u = free_set t \<union> whole_pages (p + PGSIZE) vend"
      using "1.IH" [OF c t(1) t(2) al kt] "1.prems"(5) True p' by fastforce
    then show ?thesis
      using c t split by (subst freerange_from.simps) auto
  next
    case False
    then have e: "whole_pages p vend = {}" by (auto simp: whole_pages_def word_le_nat_alt)
    have "\<not> p + PGSIZE \<le> vend"
      using False next_page [of p] "1.prems"(6) by (simp add: word_le_nat_alt)
    then show ?thesis using "1.prems"(1) e by (subst freerange_from.simps) simp
  qed
qed

lemma unat_PGROUNDDOWN: "unat (PGROUNDDOWN a) = 4096 * (unat a div 4096)"
proof -
  have "PGROUNDDOWN a = push_bit 12 (drop_bit 12 a)"
    unfolding PGROUNDDOWN_def PGSIZE_def
    by (rule bit_word_eqI) (auto simp: bit_simps mask_eq_exp_minus_1 [of 12, where 'a = "32 word", simplified, symmetric])
  then have e: "PGROUNDDOWN a = a - take_bit 12 a"
    using bits_ident [of 12 a] by (simp add: eq_diff_eq)
  have t: "unat (take_bit 12 a) = unat a mod 4096"
    by (simp add: unsigned_take_bit_eq take_bit_eq_mod unat_mod)
  then have "unat (a - take_bit 12 a) = unat a - unat a mod 4096"
    by (simp add: unat_sub_if')
  then show ?thesis unfolding e by (simp add: minus_mod_eq_mult_div)
qed

lemma unat_PGROUNDUP:
  assumes "unat a + 4095 < 4294967296"
  shows "unat (PGROUNDUP a) = 4096 * ((unat a + 4095) div 4096)"
proof -
  have "PGROUNDUP a = PGROUNDDOWN (a + 4095)"
    by (simp add: PGROUNDUP_def PGROUNDDOWN_def PGSIZE_def add.commute)
  moreover have "unat (a + 4095) = unat a + 4095"
    using assms unat_plus_if' [of a 4095] by simp
  ultimately show ?thesis by (simp add: unat_PGROUNDDOWN)
qed

lemma whole_pages_roundup:
  assumes "unat a + 4095 < 4294967296"
  shows "whole_pages (PGROUNDUP a) vend = whole_pages a vend"
proof -
  have "PGROUNDUP a \<le> p \<longleftrightarrow> a \<le> p" if p: "p mod PGSIZE = 0" for p
  proof -
    have "4096 dvd unat p" using p by (simp add: aligned_iff mod_0_imp_dvd)
    then obtain j where "unat p = 4096 * j" by (auto simp: dvd_def)
    then show ?thesis
      unfolding word_le_nat_alt unat_PGROUNDUP [OF assms] by auto
  qed
  then show ?thesis unfolding whole_pages_def by (intro Collect_cong) metis
qed

section \<open>Properties\<close>

definition kmem_ex :: kmem where
  "kmem_ex = \<lparr>cpus = cpus two_cpus, m_lapicid = 0, m_IF = (\<lambda>_. True), locks = locks two_cpus,
     pmem = (\<lambda>_. 0), freelist = 0, use_lock = True, kend = 0x80100000, kdata = 0x80108000\<rparr>"

lemma kmem_ex_good: "kmem_good 0 kmem_ex" "free_set kmem_ex = {}"
proof -
  have f: "free_pages kmem_ex []" by (simp add: free_pages_def kmem_ex_def)
  have "klock_ok 0 kmem_ex"
    by (simp add: klock_ok_def cpu_ok_def lk_free_def kmem_ex_def two_cpus_def)
  with f show "kmem_good 0 kmem_ex" by (auto simp: kmem_good_def)
  from f show "free_set kmem_ex = {}" by (simp add: free_set_eq)
qed

lemma kmem_ex_pages: "page_ok kmem_ex 0x80101000" "page_ok kmem_ex 0x80102000"
  by (simp_all add: page_ok_def kmem_ex_def PGSIZE_def V2P_def KERNBASE_def PHYSTOP_def)

text \<open>
  C16. Pages are neither lost nor handed out twice: for every sequence of kalloc calls and of
  kfree calls on pages the client owns, all calls return, no page is owned and free at the same
  time, and the owned and free pages together are always the same set. The free list is the one
  in memory, linked through the free pages themselves.
\<close>

theorem kalloc_conservation:
  assumes "kmem_good i s" "own \<inter> free_set s = {}" "\<forall>p \<in> own. page_ok s p"
  shows "\<exists>own' t. page_run kalloc kfree es own s = Inr (own', t) \<and> kmem_good i t
     \<and> own' \<inter> free_set t = {} \<and> own' \<union> free_set t = own \<union> free_set s"
  using assms by (rule km.conservation)

theorem kalloc_conservation_witness:
  "\<exists>own' t. page_run kalloc kfree [Free 0x80101000, Free 0x80102000, Alloc] {0x80101000, 0x80102000} kmem_ex
      = Inr (own', t) \<and> own' \<inter> free_set t = {} \<and> own' \<union> free_set t = {0x80101000, 0x80102000}"
  using kalloc_conservation [OF kmem_ex_good(1), of "{0x80101000, 0x80102000}"
      "[Free 0x80101000, Free 0x80102000, Alloc]"] kmem_ex_good(2) kmem_ex_pages by fastforce

text \<open>
  C17. A page that is freed is the next one allocated. Freeing fills it with junk (all bytes 1
  but the link in the first word) and no byte of another page changes.
\<close>

theorem kfree_kalloc:
  assumes "kmem_good i s" "page_ok s v" "v \<notin> free_set s"
  shows "\<exists>t u. kfree v s = Inr t \<and> kalloc t = Inr (v, u) \<and> free_set u = free_set s
    \<and> (\<forall>a. \<not> in_page a v \<longrightarrow> pmem u a = pmem s a)
    \<and> (\<forall>a. in_page a v \<and> \<not> in_range a v 4 \<longrightarrow> pmem u a = 1)"
proof -
  obtain ps where ps: "free_pages s ps" and k: "klock_ok i s" using assms(1) by (auto simp: kmem_good_def)
  have new: "v \<notin> set ps" using assms(3) free_set_eq [OF ps] by simp
  obtain t where t: "kfree v s = Inr t" "mach_sim s t"
    "kview t = kview (s\<lparr>freelist := v, pmem := store32 (memset (pmem s) v 1 PGSIZE) v (freelist s)\<rparr>)"
    using kfree_ok [OF k assms(2)] by blast
  note f = kfree_free_pages [OF ps assms(2) new t(3)]
  have pm: "pmem t = store32 (memset (pmem s) v 1 PGSIZE) v (freelist s)" and "use_lock t = use_lock s"
    using t(3) by (simp_all add: kview_def)
  then have "klock_ok i t" using klock_ok_sim [OF t(2)] k by simp
  then obtain u where u: "kalloc t = Inr (v, u)" "free_pages u ps"
    "kview u = kview (t\<lparr>freelist := load32 (pmem t) v\<rparr>)"
    using kalloc_Cons [OF _ f(1)] by blast
  have "pmem u = pmem t" using u(3) by (simp add: kview_def)
  moreover have "pmem t a = 1" if "in_page a v" "\<not> in_range a v 4" for a
    using that store32_outside [OF that(2)] by (simp add: pm memset_fill fill_def in_page_def PGSIZE_def)
  ultimately show ?thesis
    using t(1) u(1) free_set_eq [OF u(2)] free_set_eq [OF ps] f(2) by auto
qed

theorem kfree_kalloc_witness:
  "\<exists>t u. kfree 0x80101000 kmem_ex = Inr t \<and> kalloc t = Inr (0x80101000, u) \<and> free_set u = {}"
  using kfree_kalloc [OF kmem_ex_good(1) kmem_ex_pages(1)] kmem_ex_good(2) by auto

text \<open>
  freerange puts exactly the pages that lie entirely between its two addresses on the free
  list, whatever the alignment of the addresses, and it returns.
\<close>

lemma freerange_frees:
  assumes "kmem_good i s" "kend s \<le> vstart" "KERNBASE \<le> vstart" "vstart \<le> vend" "vend \<le> P2V PHYSTOP"
    "whole_pages vstart vend \<inter> free_set s = {}"
  shows "\<exists>t. freerange vstart vend s = Inr t \<and> kmem_good i t
    \<and> free_set t = free_set s \<union> whole_pages vstart vend"
proof -
  let ?p = "PGROUNDUP vstart"
  have v: "unat vstart \<le> unat vend" "unat vend \<le> 2382364672"
    using assms(4,5) by (simp_all add: word_le_nat_alt P2V_def PHYSTOP_def KERNBASE_def)
  then have lim: "unat vstart + 4095 < 4294967296" by linarith
  note up = unat_PGROUNDUP [OF lim]
  have "vstart \<le> ?p" unfolding word_le_nat_alt up by linarith
  moreover have "unat ?p \<le> 2382364672"
    unfolding up using v div_le_mono [of "unat vstart + 4095" "2382364672 + 4095" 4096] by simp
  moreover have "?p mod PGSIZE = 0" by (simp add: aligned_iff up)
  ultimately show ?thesis
    unfolding freerange_def whole_pages_roundup [OF lim, symmetric]
    using assms v whole_pages_roundup [OF lim]
    by (intro freerange_from_pages) (auto intro: order_trans)
qed

end
