(* ===== verification/Vm.thy ===== *)
theory Vm
  imports Kalloc
begin

text \<open>
  Page tables (vm.c). A page directory is the kernel address of its page; directory and table
  entries are words of the byte memory \<open>pmem\<close>, read and written where the code reads and writes
  them. A page-table register and the kernel stack pointer of the task state are kept per
  processor. loaduvm reads from a file and is in theory Exec; seginit only fills in segment
  descriptors and is not modelled.

  The loops over pages have fuel \<open>PAGES\<close>, the number of page addresses of the address space plus
  one: a loop that visits each page at most once never uses it up.
\<close>

section \<open>State and page table entries\<close>

record vmem = kmem +
  kpgdir :: u32
  cr3 :: "u8 \<Rightarrow> u32"
  ts_esp0 :: "u8 \<Rightarrow> u32"

definition PAGES :: nat where "PAGES = 1048577"

definition PTE_P :: u32 where "PTE_P = 1"
definition PTE_W :: u32 where "PTE_W = 2"
definition PTE_U :: u32 where "PTE_U = 4"

definition PDX :: "u32 \<Rightarrow> u32" where "PDX va = drop_bit 22 va AND 0x3FF"
definition PTX :: "u32 \<Rightarrow> u32" where "PTX va = drop_bit 12 va AND 0x3FF"
definition PGADDR :: "u32 \<Rightarrow> u32 \<Rightarrow> u32 \<Rightarrow> u32" where
  "PGADDR d t o' = push_bit 22 d OR push_bit 12 t OR o'"
definition PTE_ADDR :: "u32 \<Rightarrow> u32" where "PTE_ADDR pte = pte AND NOT 0xFFF"
definition PTE_FLAGS :: "u32 \<Rightarrow> u32" where "PTE_FLAGS pte = pte AND 0xFFF"

definition present :: "u32 \<Rightarrow> bool" where "present pte \<longleftrightarrow> pte AND PTE_P \<noteq> 0"

section \<open>Operations\<close>

definition walkpgdir :: "u32 \<Rightarrow> u32 \<Rightarrow> bool \<Rightarrow> 'a kmem_scheme \<Rightarrow> (u32 \<times> 'a kmem_scheme) result" where
  "walkpgdir pgdir va alloc s =
    (let pde = pgdir + 4 * PDX va in
     if present (load32 (pmem s) pde)
     then Inr (P2V (PTE_ADDR (load32 (pmem s) pde)) + 4 * PTX va, s)
     else if \<not> alloc then Inr (0, s)
     else bindE (kalloc s) (\<lambda>(pgtab, s).
       if pgtab = 0 then Inr (0, s)
       else let s = s\<lparr>pmem := memset (pmem s) pgtab 0 PGSIZE\<rparr>;
                s = s\<lparr>pmem := store32 (pmem s) pde (V2P pgtab OR PTE_P OR PTE_W OR PTE_U)\<rparr>
         in Inr (pgtab + 4 * PTX va, s)))"

definition mappages ::
  "u32 \<Rightarrow> u32 \<Rightarrow> u32 \<Rightarrow> u32 \<Rightarrow> u32 \<Rightarrow> 'a kmem_scheme \<Rightarrow> (int \<times> 'a kmem_scheme) result"
where
  "mappages pgdir va sz pa perm s =
    (let a = PGROUNDDOWN va; last = PGROUNDDOWN (va + sz - 1) in
     bindE (loopE PAGES (\<lambda>_. True)
       (\<lambda>(a, pa, s).
         bindE (walkpgdir pgdir a True s) (\<lambda>(pte, s).
         if pte = 0 then Inr (Inl (- 1, s))
         else if present (load32 (pmem s) pte) then Inl (Panic ''remap'')
         else let s = s\<lparr>pmem := store32 (pmem s) pte (pa OR perm OR PTE_P)\<rparr> in
           if a = last then Inr (Inl (0, s))
           else Inr (Inr (a + PGSIZE, pa + PGSIZE, s))))
       (a, pa, s))
     (\<lambda>x. case x of Inl r \<Rightarrow> Inr r | Inr (a, pa, s) \<Rightarrow> Inr (0, s)))"

definition deallocuvm :: "u32 \<Rightarrow> u32 \<Rightarrow> u32 \<Rightarrow> 'a kmem_scheme \<Rightarrow> (u32 \<times> 'a kmem_scheme) result" where
  "deallocuvm pgdir oldsz newsz s =
    (if newsz \<ge> oldsz then Inr (oldsz, s)
     else bindE (loopE PAGES (\<lambda>(a, s). a < oldsz)
       (\<lambda>(a, s).
         bindE (walkpgdir pgdir a False s) (\<lambda>(pte, s).
         if pte = 0 then Inr (Inr (PGADDR (PDX a + 1) 0 0 - PGSIZE + PGSIZE, s))
         else if present (load32 (pmem s) pte)
         then let pa = PTE_ADDR (load32 (pmem s) pte) in
           if pa = 0 then Inl (Panic ''kfree'')
           else bindE (kfree (P2V pa) s) (\<lambda>s.
             Inr (Inr (a + PGSIZE, s\<lparr>pmem := store32 (pmem s) pte 0\<rparr>)))
         else Inr (Inr (a + PGSIZE, s))))
       (PGROUNDUP newsz, s))
     (\<lambda>x. case x of Inl r \<Rightarrow> Inr r | Inr (a, s) \<Rightarrow> Inr (newsz, s)))"

definition allocuvm :: "u32 \<Rightarrow> u32 \<Rightarrow> u32 \<Rightarrow> 'a kmem_scheme \<Rightarrow> (u32 \<times> 'a kmem_scheme) result" where
  "allocuvm pgdir oldsz newsz s =
    (if newsz \<ge> KERNBASE then Inr (0, s)
     else if newsz < oldsz then Inr (oldsz, s)
     else bindE (loopE PAGES (\<lambda>(a, s). a < newsz)
       (\<lambda>(a, s).
         bindE (kalloc s) (\<lambda>(mem, s).
         if mem = 0 then
           bindE (deallocuvm pgdir newsz oldsz s) (\<lambda>(_, s). Inr (Inl (0, s)))
         else let s = s\<lparr>pmem := memset (pmem s) mem 0 PGSIZE\<rparr> in
           bindE (mappages pgdir a PGSIZE (V2P mem) (PTE_W OR PTE_U) s) (\<lambda>(r, s).
           if r < 0 then
             bindE (deallocuvm pgdir newsz oldsz s) (\<lambda>(_, s).
             bindE (kfree mem s) (\<lambda>s. Inr (Inl (0, s))))
           else Inr (Inr (a + PGSIZE, s)))))
       (PGROUNDUP oldsz, s))
     (\<lambda>x. case x of Inl r \<Rightarrow> Inr r | Inr (a, s) \<Rightarrow> Inr (newsz, s)))"

text \<open>The loop of freevm over the entries \<open>i\<close>, \<open>i + 1\<close>, ... of the directory.\<close>

fun freevm_tables :: "u32 \<Rightarrow> u32 \<Rightarrow> nat \<Rightarrow> 'a kmem_scheme \<Rightarrow> 'a kmem_scheme result" where
  "freevm_tables pgdir i 0 s = Inr s"
| "freevm_tables pgdir i (Suc n) s =
    bindE (let pde = load32 (pmem s) (pgdir + 4 * i) in
           if present pde then kfree (P2V (PTE_ADDR pde)) s else Inr s)
      (\<lambda>s. freevm_tables pgdir (i + 1) n s)"

definition NPDENTRIES :: nat where "NPDENTRIES = 1024"

definition freevm :: "u32 \<Rightarrow> 'a kmem_scheme \<Rightarrow> 'a kmem_scheme result" where
  "freevm pgdir s =
    (if pgdir = 0 then Inl (Panic ''freevm: no pgdir'')
     else bindE (deallocuvm pgdir KERNBASE 0 s) (\<lambda>(_, s).
       bindE (freevm_tables pgdir 0 NPDENTRIES s) (\<lambda>s.
       kfree pgdir s)))"

text \<open>The table kmap: virtual start, physical start and end, permissions.\<close>

definition kmap :: "'a kmem_scheme \<Rightarrow> (u32 \<times> u32 \<times> u32 \<times> u32) list" where
  "kmap s =
    [(KERNBASE, 0, EXTMEM, PTE_W),
     (KERNBASE + EXTMEM, V2P (KERNBASE + EXTMEM), V2P (kdata s), 0),
     (kdata s, V2P (kdata s), PHYSTOP, PTE_W),
     (DEVSPACE, DEVSPACE, 0, PTE_W)]"

fun setupkvm_maps ::
  "u32 \<Rightarrow> (u32 \<times> u32 \<times> u32 \<times> u32) list \<Rightarrow> 'a kmem_scheme \<Rightarrow> (u32 \<times> 'a kmem_scheme) result"
where
  "setupkvm_maps pgdir [] s = Inr (pgdir, s)"
| "setupkvm_maps pgdir ((virt, phys_start, phys_end, perm) # ks) s =
    bindE (mappages pgdir virt (phys_end - phys_start) phys_start perm s) (\<lambda>(r, s).
    if r < 0 then bindE (freevm pgdir s) (\<lambda>s. Inr (0, s))
    else setupkvm_maps pgdir ks s)"

definition setupkvm :: "'a kmem_scheme \<Rightarrow> (u32 \<times> 'a kmem_scheme) result" where
  "setupkvm s =
    bindE (kalloc s) (\<lambda>(pgdir, s).
    if pgdir = 0 then Inr (0, s)
    else let s = s\<lparr>pmem := memset (pmem s) pgdir 0 PGSIZE\<rparr> in
      if P2V PHYSTOP > DEVSPACE then Inl (Panic ''PHYSTOP too high'')
      else setupkvm_maps pgdir (kmap s) s)"

definition switchkvm :: "'a vmem_scheme \<Rightarrow> 'a vmem_scheme" where
  "switchkvm s = s\<lparr>cr3 := (cr3 s)(m_lapicid s := V2P (kpgdir s))\<rparr>"

definition kvmalloc :: "'a vmem_scheme \<Rightarrow> 'a vmem_scheme result" where
  "kvmalloc s = bindE (setupkvm s) (\<lambda>(d, s). Inr (switchkvm (s\<lparr>kpgdir := d\<rparr>)))"

text \<open>inituvm copies from kernel memory at \<open>init\<close>; it uses the result of kalloc unchecked.\<close>

definition inituvm :: "u32 \<Rightarrow> u32 \<Rightarrow> u32 \<Rightarrow> 'a kmem_scheme \<Rightarrow> 'a kmem_scheme result" where
  "inituvm pgdir init sz s =
    (if sz \<ge> PGSIZE then Inl (Panic ''inituvm: more than a page'')
     else bindE (kalloc s) (\<lambda>(mem, s).
       if mem = 0 then Inl BadAccess
       else let s = s\<lparr>pmem := memset (pmem s) mem 0 PGSIZE\<rparr> in
         bindE (mappages pgdir 0 PGSIZE (V2P mem) (PTE_W OR PTE_U) s) (\<lambda>(_, s).
         Inr (s\<lparr>pmem := memmove (pmem s) mem init sz\<rparr>))))"

definition clearpteu :: "u32 \<Rightarrow> u32 \<Rightarrow> 'a kmem_scheme \<Rightarrow> 'a kmem_scheme result" where
  "clearpteu pgdir uva s =
    bindE (walkpgdir pgdir uva False s) (\<lambda>(pte, s).
    if pte = 0 then Inl (Panic ''clearpteu'')
    else Inr (s\<lparr>pmem := store32 (pmem s) pte (load32 (pmem s) pte AND NOT PTE_U)\<rparr>))"

definition copyuvm :: "u32 \<Rightarrow> u32 \<Rightarrow> 'a kmem_scheme \<Rightarrow> (u32 \<times> 'a kmem_scheme) result" where
  "copyuvm pgdir sz s =
    bindE (setupkvm s) (\<lambda>(d, s).
    if d = 0 then Inr (0, s)
    else let bad = (\<lambda>s. bindE (freevm d s) (\<lambda>s. Inr (Inl (0, s)))) in
      bindE (loopE PAGES (\<lambda>(i, s). i < sz)
       (\<lambda>(i, s).
         bindE (walkpgdir pgdir i False s) (\<lambda>(pte, s).
         if pte = 0 then Inl (Panic ''copyuvm: pte should exist'')
         else if \<not> present (load32 (pmem s) pte) then Inl (Panic ''copyuvm: page not present'')
         else let pa = PTE_ADDR (load32 (pmem s) pte); flags = PTE_FLAGS (load32 (pmem s) pte) in
           bindE (kalloc s) (\<lambda>(mem, s).
           if mem = 0 then bad s
           else let s = s\<lparr>pmem := memmove (pmem s) mem (P2V pa) PGSIZE\<rparr> in
             bindE (mappages d i PGSIZE (V2P mem) flags s) (\<lambda>(r, s).
             if r < 0 then bindE (kfree mem s) bad
             else Inr (Inr (i + PGSIZE, s))))))
       (0, s))
     (\<lambda>x. case x of Inl r \<Rightarrow> Inr r | Inr (i, s) \<Rightarrow> Inr (d, s)))"

text \<open>
  uva2ka reads the entry that walkpgdir returns without a test for null; such a read is outside
  every page table.
\<close>

definition uva2ka :: "u32 \<Rightarrow> u32 \<Rightarrow> 'a kmem_scheme \<Rightarrow> u32 result" where
  "uva2ka pgdir uva s =
    bindE (walkpgdir pgdir uva False s) (\<lambda>(pte, s).
    if pte = 0 then Inl BadAccess
    else if \<not> present (load32 (pmem s) pte) then Inr 0
    else if load32 (pmem s) pte AND PTE_U = 0 then Inr 0
    else Inr (P2V (PTE_ADDR (load32 (pmem s) pte))))"

text \<open>A buffer that is not a page of its own is a list of bytes; \<open>put_bytes\<close> stores it.\<close>

fun put_bytes :: "memory \<Rightarrow> u32 \<Rightarrow> u8 list \<Rightarrow> memory" where
  "put_bytes m a [] = m"
| "put_bytes m a (b # bs) = put_bytes (m(a := b)) (a + 1) bs"

definition copyout :: "u32 \<Rightarrow> u32 \<Rightarrow> u8 list \<Rightarrow> 'a kmem_scheme \<Rightarrow> (int \<times> 'a kmem_scheme) result" where
  "copyout pgdir va p s =
    bindE (loopE PAGES (\<lambda>(va, buf, s). buf \<noteq> [])
      (\<lambda>(va, buf, s).
        let va0 = PGROUNDDOWN va in
        bindE (uva2ka pgdir va0 s) (\<lambda>pa0.
        if pa0 = 0 then Inr (Inl (- 1, s))
        else let n = min (unat (PGSIZE - (va - va0))) (length buf);
                 s = s\<lparr>pmem := put_bytes (pmem s) (pa0 + (va - va0)) (take n buf)\<rparr> in
          Inr (Inr (va0 + PGSIZE, drop n buf, s))))
      (va, p, s))
    (\<lambda>x. case x of Inl r \<Rightarrow> Inr r | Inr (_, _, s) \<Rightarrow> Inr (0, s))"

end
