(* ===== verification/Proc.thy ===== *)
theory Proc
  imports Vm
begin

text \<open>
  The process table and the operations of proc.c that do not call the file system: allocproc,
  growproc, wait, kill, sleep, wakeup, yield and sched. fork, exit, userinit and forkret, which
  do, are in theory Procfile; scheduler and the real-time calls are in theory Sched.

  A process is an entry of \<open>ptable\<close>. Its trap frame and its saved kernel context live on its
  kernel stack in the code and are fields of the entry here; the saved context is represented
  by the point in the kernel at which the process goes on when it is switched to.

  A function that switches context (\<open>swtch\<close>) is split there: \<open>f_enter\<close> is its part up to the
  switch, \<open>f_exit\<close> its part after the process has been switched to again.
\<close>

section \<open>Data\<close>

datatype procstate = UNUSED | EMBRYO | SLEEPING | RUNNABLE | RUNNING | ZOMBIE

record trapframe =
  tf_edi :: u32
  tf_esi :: u32
  tf_ebp :: u32
  tf_oesp :: u32
  tf_ebx :: u32
  tf_edx :: u32
  tf_ecx :: u32
  tf_eax :: u32
  tf_gs :: u16
  tf_fs :: u16
  tf_es :: u16
  tf_ds :: u16
  tf_trapno :: u32
  tf_err :: u32
  tf_eip :: u32
  tf_cs :: u16
  tf_eflags :: u32
  tf_esp :: u32
  tf_ss :: u16

text \<open>
  Where a switched-out process goes on: in forkret for a new process, otherwise behind the
  \<open>swtch\<close> of sched, called by yield, by sleep on lock \<open>lk\<close>, or by exit; the flag is the local
  variable \<open>intena\<close> of sched.
\<close>

datatype kcontext = Forkret | InYield bool | InSleep lockid bool | InExit bool

record proc =
  p_sz :: u32
  p_pgdir :: u32
  p_kstack :: u32
  p_state :: procstate
  p_pid :: int
  p_parent :: "nat option"
  p_tf :: trapframe
  p_context :: kcontext
  p_chan :: "chan option"
  p_killed :: bool
  p_ofile :: "nat option list"
  p_cwd :: "nat option"
  p_name :: string
  p_priority :: int
  p_deadline :: int
  p_sched_policy :: int
  p_execution_time :: int
  p_elapsed_time :: int
  p_arrival_time :: int
  p_rate :: int

definition NPROC :: nat where "NPROC = 64"
definition NOFILE :: nat where "NOFILE = 16"
definition KSTACKSIZE :: u32 where "KSTACKSIZE = 4096"

record procs = vmem +
  ptable :: "proc list"
  nextpid :: int
  initproc :: "nat option"
  utf_edf :: int
  utf_rm :: int
  ticks :: u32
  forkret_first :: bool

definition upd_proc :: "nat \<Rightarrow> (proc \<Rightarrow> proc) \<Rightarrow> 'a procs_scheme \<Rightarrow> 'a procs_scheme" where
  "upd_proc j f s = s\<lparr>ptable := (ptable s)[j := f (ptable s ! j)]\<rparr>"

section \<open>Operations\<close>

definition pinit :: "'a procs_scheme \<Rightarrow> 'a procs_scheme" where
  "pinit s = initlock PtableLock ''ptable'' s"

definition cpuid :: "'a machine_scheme \<Rightarrow> nat result" where
  "cpuid s = mycpu s"

definition myproc :: "'a machine_scheme \<Rightarrow> (nat option \<times> 'a machine_scheme) result" where
  "myproc s =
    bindE (pushcli s) (\<lambda>s.
    bindE (mycpu s) (\<lambda>c.
    let p = c_proc (cpus s ! c) in
    bindE (popcli s) (\<lambda>s.
    Inr (p, s))))"

definition allocproc :: "'a procs_scheme \<Rightarrow> (nat option \<times> 'a procs_scheme) result" where
  "allocproc s =
    bindE (with_lock PtableLock
      (\<lambda>s. case scan (\<lambda>p. p_state p = UNUSED) (ptable s) of
         None \<Rightarrow> Inr (None, s)
       | Some j \<Rightarrow>
         let s' = upd_proc j (\<lambda>p. p\<lparr>p_state := EMBRYO, p_pid := nextpid s, p_priority := 1,
                      p_deadline := 0, p_sched_policy := - 1, p_execution_time := 1,
                      p_elapsed_time := 0\<rparr>) s
         in Inr (Some j, s'\<lparr>nextpid := wrap32 (nextpid s + 1)\<rparr>)) s)
    (\<lambda>(r, s). case r of
       None \<Rightarrow> Inr (None, s)
     | Some j \<Rightarrow>
       bindE (kalloc s) (\<lambda>(k, s).
       let s = upd_proc j (\<lambda>p. p\<lparr>p_kstack := k\<rparr>) s in
       if k = 0 then Inr (None, upd_proc j (\<lambda>p. p\<lparr>p_state := UNUSED\<rparr>) s)
       else Inr (Some j, upd_proc j (\<lambda>p. p\<lparr>p_context := Forkret\<rparr>) s)))"

definition switchuvm :: "nat option \<Rightarrow> 'a procs_scheme \<Rightarrow> 'a procs_scheme result" where
  "switchuvm c s =
    (case c of
       None \<Rightarrow> Inl (Panic ''switchuvm: no process'')
     | Some j \<Rightarrow>
       let p = ptable s ! j in
       if p_kstack p = 0 then Inl (Panic ''switchuvm: no kstack'')
       else if p_pgdir p = 0 then Inl (Panic ''switchuvm: no pgdir'')
       else bindE (pushcli s) (\<lambda>s.
         bindE (mycpu s) (\<lambda>_.
         let s = s\<lparr>ts_esp0 := (ts_esp0 s)(m_lapicid s := p_kstack p + KSTACKSIZE),
                   cr3 := (cr3 s)(m_lapicid s := V2P (p_pgdir p))\<rparr> in
         popcli s)))"

definition growproc :: "int \<Rightarrow> 'a procs_scheme \<Rightarrow> (int \<times> 'a procs_scheme) result" where
  "growproc n s =
    bindE (myproc s) (\<lambda>(c, s). case c of
      None \<Rightarrow> Inl BadAccess
    | Some j \<Rightarrow>
      let p = ptable s ! j; sz = p_sz p in
      bindE (if n > 0 then allocuvm (p_pgdir p) sz (sz + word_of_int n) s
             else if n < 0 then deallocuvm (p_pgdir p) sz (sz + word_of_int n) s
             else Inr (sz, s)) (\<lambda>(sz, s).
      if n \<noteq> 0 \<and> sz = 0 then Inr (- 1, s)
      else bindE (switchuvm c (upd_proc j (\<lambda>p. p\<lparr>p_sz := sz\<rparr>) s)) (\<lambda>s. Inr (0, s))))"

text \<open>
  sched up to the switch; \<open>k\<close> makes the saved context from the saved interrupt flag. The caller
  goes on with \<open>sched_exit\<close>.
\<close>

definition sched_enter :: "(bool \<Rightarrow> kcontext) \<Rightarrow> 'a procs_scheme \<Rightarrow> 'a procs_scheme result" where
  "sched_enter k s =
    bindE (myproc s) (\<lambda>(c, s).
    bindE (holding PtableLock s) (\<lambda>(h, s).
    if \<not> h then Inl (Panic ''sched ptable.lock'')
    else bindE (mycpu s) (\<lambda>i.
    if c_ncli (cpus s ! i) \<noteq> 1 then Inl (Panic ''sched locks'')
    else case c of
      None \<Rightarrow> Inl BadAccess
    | Some j \<Rightarrow>
      if p_state (ptable s ! j) = RUNNING then Inl (Panic ''sched running'')
      else if readeflags_IF s then Inl (Panic ''sched interruptible'')
      else Inr (upd_proc j (\<lambda>p. p\<lparr>p_context := k (c_intena (cpus s ! i))\<rparr>) s))))"

definition sched_exit :: "bool \<Rightarrow> 'a procs_scheme \<Rightarrow> 'a procs_scheme result" where
  "sched_exit intena s =
    bindE (mycpu s) (\<lambda>i. Inr (upd_cpu i (\<lambda>c. c\<lparr>c_intena := intena\<rparr>) s))"

definition yield_enter :: "'a procs_scheme \<Rightarrow> 'a procs_scheme result" where
  "yield_enter s =
    bindE (acquire PtableLock s) (\<lambda>s.
    bindE (myproc s) (\<lambda>(c, s). case c of
      None \<Rightarrow> Inl BadAccess
    | Some j \<Rightarrow> sched_enter InYield (upd_proc j (\<lambda>p. p\<lparr>p_state := RUNNABLE\<rparr>) s)))"

definition yield_exit :: "bool \<Rightarrow> 'a procs_scheme \<Rightarrow> 'a procs_scheme result" where
  "yield_exit intena s = bindE (sched_exit intena s) (release PtableLock)"

definition sleep_enter :: "chan \<Rightarrow> lockid option \<Rightarrow> 'a procs_scheme \<Rightarrow> 'a procs_scheme result" where
  "sleep_enter ch lk s =
    bindE (myproc s) (\<lambda>(c, s). case c of
      None \<Rightarrow> Inl (Panic ''sleep'')
    | Some j \<Rightarrow> (case lk of
        None \<Rightarrow> Inl (Panic ''sleep without lk'')
      | Some l \<Rightarrow>
        bindE (if l \<noteq> PtableLock
               then bindE (acquire PtableLock s) (release l) else Inr s) (\<lambda>s.
        sched_enter (InSleep l)
          (upd_proc j (\<lambda>p. p\<lparr>p_chan := Some ch, p_state := SLEEPING\<rparr>) s))))"

definition sleep_exit :: "nat \<Rightarrow> lockid \<Rightarrow> bool \<Rightarrow> 'a procs_scheme \<Rightarrow> 'a procs_scheme result" where
  "sleep_exit j l intena s =
    bindE (sched_exit intena s) (\<lambda>s.
    let s = upd_proc j (\<lambda>p. p\<lparr>p_chan := None\<rparr>) s in
    if l \<noteq> PtableLock then bindE (release PtableLock s) (acquire l) else Inr s)"

definition wakeup1 :: "chan option \<Rightarrow> 'a procs_scheme \<Rightarrow> 'a procs_scheme" where
  "wakeup1 ch s = s\<lparr>ptable := map (\<lambda>p. if p_state p = SLEEPING \<and> p_chan p = ch
     then p\<lparr>p_state := RUNNABLE\<rparr> else p) (ptable s)\<rparr>"

definition wakeup :: "chan \<Rightarrow> 'a procs_scheme \<Rightarrow> 'a procs_scheme result" where
  "wakeup ch s =
    bindE (with_lock PtableLock (\<lambda>s. Inr ((), wakeup1 (Some ch) s)) s) (\<lambda>(_, s). Inr s)"

definition kill :: "int \<Rightarrow> 'a procs_scheme \<Rightarrow> (int \<times> 'a procs_scheme) result" where
  "kill pid s =
    with_lock PtableLock
      (\<lambda>s. case scan (\<lambda>p. p_pid p = pid) (ptable s) of
         None \<Rightarrow> Inr (- 1, s)
       | Some j \<Rightarrow> Inr (0, upd_proc j (\<lambda>p. p\<lparr>p_killed := True,
           p_state := (if p_state p = SLEEPING then RUNNABLE else p_state p)\<rparr>) s)) s"

text \<open>
  wait: one round of its loop, with ptable.lock held. \<open>Inl\<close> is a return of wait, \<open>Inr\<close> a
  process that has gone to sleep and tries again when it is switched to.
\<close>

definition reap :: "nat \<Rightarrow> 'a procs_scheme \<Rightarrow> (int \<times> 'a procs_scheme) result" where
  "reap j s =
    (let pid = p_pid (ptable s ! j) in
     bindE (kfree (p_kstack (ptable s ! j)) s) (\<lambda>s.
     let s = upd_proc j (\<lambda>p. p\<lparr>p_kstack := 0\<rparr>) s in
     bindE (freevm (p_pgdir (ptable s ! j)) s) (\<lambda>s.
     Inr (pid, upd_proc j (\<lambda>p. p\<lparr>p_pid := 0, p_parent := None, p_name := [], p_killed := False,
                                  p_state := UNUSED\<rparr>) s))))"

definition wait_round ::
  "nat \<Rightarrow> 'a procs_scheme \<Rightarrow> (int \<times> 'a procs_scheme + 'a procs_scheme) result"
where
  "wait_round me s =
    (case scan (\<lambda>p. p_parent p = Some me \<and> p_state p = ZOMBIE) (ptable s) of
       Some j \<Rightarrow>
         bindE (reap j s) (\<lambda>(pid, s).
         bindE (release PtableLock s) (\<lambda>s. Inr (Inl (pid, s))))
     | None \<Rightarrow>
         if scan (\<lambda>p. p_parent p = Some me) (ptable s) = None \<or> p_killed (ptable s ! me)
         then bindE (release PtableLock s) (\<lambda>s. Inr (Inl (- 1, s)))
         else bindE (sleep_enter (ChProc me) (Some PtableLock) s) (\<lambda>s. Inr (Inr s)))"

definition wait_enter :: "'a procs_scheme \<Rightarrow> (int \<times> 'a procs_scheme + 'a procs_scheme) result" where
  "wait_enter s =
    bindE (myproc s) (\<lambda>(c, s). case c of
      None \<Rightarrow> Inl BadAccess
    | Some me \<Rightarrow> bindE (acquire PtableLock s) (wait_round me))"

definition wait_exit ::
  "nat \<Rightarrow> bool \<Rightarrow> 'a procs_scheme \<Rightarrow> (int \<times> 'a procs_scheme + 'a procs_scheme) result"
where
  "wait_exit me intena s = bindE (sleep_exit me PtableLock intena s) (wait_round me)"

section \<open>Kernel state and machine state\<close>

lemma kstate_procs:
  fixes u s :: "'a procs_scheme"
  assumes "kstate u = kstate s"
  shows "ptable u = ptable s" "nextpid u = nextpid s" "initproc u = initproc s"
    "utf_edf u = utf_edf s" "utf_rm u = utf_rm s" "ticks u = ticks s"
    "pmem u = pmem s" "freelist u = freelist s" "use_lock u = use_lock s" "kend u = kend s" "kdata u = kdata s"
  using assms by (cases u; cases s; simp add: kstate_def)+

lemma kstate_update:
  fixes u s :: "'a procs_scheme"
  assumes "kstate u = kstate s"
  shows "kstate (u\<lparr>ptable := x\<rparr>) = kstate (s\<lparr>ptable := x\<rparr>)"
    "kstate (u\<lparr>nextpid := n\<rparr>) = kstate (s\<lparr>nextpid := n\<rparr>)"
    "kstate (u\<lparr>utf_edf := e\<rparr>) = kstate (s\<lparr>utf_edf := e\<rparr>)"
    "kstate (u\<lparr>utf_rm := e\<rparr>) = kstate (s\<lparr>utf_rm := e\<rparr>)"
    "kstate (u\<lparr>ticks := k\<rparr>) = kstate (s\<lparr>ticks := k\<rparr>)"
  using assms by (cases u; cases s; simp add: kstate_def)+

lemma kstate_upd_proc:
  "kstate u = kstate s \<Longrightarrow> kstate (upd_proc j f u) = kstate (upd_proc j f s)"
  using kstate_procs(1) [of u s] kstate_update(1) [of u s] by (simp add: upd_proc_def)

lemma mach_procs [simp]:
  "mach (s\<lparr>ptable := x\<rparr>) = mach s" "mach (s\<lparr>nextpid := n\<rparr>) = mach s"
  "mach (s\<lparr>utf_edf := e\<rparr>) = mach s" "mach (s\<lparr>utf_rm := e\<rparr>) = mach s" "mach (s\<lparr>ticks := k\<rparr>) = mach s"
  "mach (upd_proc j f s) = mach s" "mach (wakeup1 c s) = mach s"
  by (simp_all add: mach_def upd_proc_def wakeup1_def)

lemma upd_proc_sel [simp]:
  "ptable (upd_proc j f s) = (ptable s)[j := f (ptable s ! j)]" "nextpid (upd_proc j f s) = nextpid s"
  "initproc (upd_proc j f s) = initproc s" "utf_edf (upd_proc j f s) = utf_edf s"
  "utf_rm (upd_proc j f s) = utf_rm s" "ticks (upd_proc j f s) = ticks s"
  by (simp_all add: upd_proc_def)

end
