(* ===== verification/Sched.thy ===== *)
theory Sched
  imports Proc Complex_Main "HOL-Library.Product_Lexorder"
begin

text \<open>
  The scheduler with its two real-time policies, and the system calls that set their parameters
  (scheduler, printinfo, sched_policy, exec_time, deadline, rate of proc.c).

  scheduler is an endless loop on every processor; it is split where it switches context:
  \<open>scheduler_top\<close> is the start of a round, \<open>scheduler_next j\<close> the search from table index \<open>j\<close> on,
  up to the switch to the process it selects, and \<open>scheduler_back\<close> what it does when that process
  has switched back. Output on the console does not change the modelled state.
\<close>

section \<open>The choice of a process\<close>

text \<open>
  The inner loop over \<open>p1\<close>: \<open>h\<close> is the index highP, the list holds the indices still to visit,
  and \<open>key\<close> is the field that the policy compares, deadline or priority.
\<close>

fun pick_loop :: "(proc \<Rightarrow> int) \<Rightarrow> proc list \<Rightarrow> nat \<Rightarrow> nat list \<Rightarrow> nat" where
  "pick_loop key ps h [] = h"
| "pick_loop key ps h (i # is) =
    (let p1 = ps ! i; highP = ps ! h in
     if p_state p1 \<noteq> RUNNABLE then pick_loop key ps h is
     else if key p1 \<le> key highP
     then (if key p1 = key highP
           then (if p_pid p1 < p_pid highP then pick_loop key ps i is else pick_loop key ps h is)
           else pick_loop key ps i is)
     else pick_loop key ps h is)"

definition select_proc :: "proc list \<Rightarrow> nat \<Rightarrow> nat" where
  "select_proc ps p =
    (if p_sched_policy (ps ! p) = 0 then pick_loop p_deadline ps p [0..<length ps]
     else if p_sched_policy (ps ! p) = 1 then pick_loop p_priority ps p [0..<length ps]
     else p)"

definition charge :: "proc list \<Rightarrow> nat \<Rightarrow> nat \<Rightarrow> proc list" where
  "charge ps p h =
    (if p_sched_policy (ps ! p) = 0 \<or> p_sched_policy (ps ! p) = 1
     then ps[h := (ps ! h)\<lparr>p_elapsed_time := wrap32 (p_elapsed_time (ps ! h) + 1)\<rparr>]
     else ps)"

section \<open>The scheduler loop\<close>

definition scheduler_start :: "'a procs_scheme \<Rightarrow> (nat \<times> 'a procs_scheme) result" where
  "scheduler_start s =
    bindE (mycpu s) (\<lambda>c. Inr (c, upd_cpu c (\<lambda>c. c\<lparr>c_proc := None\<rparr>) s))"

definition scheduler_top :: "'a procs_scheme \<Rightarrow> 'a procs_scheme result" where
  "scheduler_top s = acquire PtableLock (sti s)"

definition scheduler_next ::
  "nat \<Rightarrow> nat \<Rightarrow> 'a procs_scheme \<Rightarrow> (nat option \<times> 'a procs_scheme) result"
where
  "scheduler_next c j s =
    (case scan (\<lambda>p. p_state p = RUNNABLE) (drop j (ptable s)) of
       None \<Rightarrow> bindE (release PtableLock s) (\<lambda>s. Inr (None, s))
     | Some k \<Rightarrow>
       let p = j + k;
           highP = select_proc (ptable s) p;
           s = s\<lparr>ptable := charge (ptable s) p highP\<rparr>;
           s = upd_cpu c (\<lambda>c. c\<lparr>c_proc := Some highP\<rparr>) s in
       bindE (switchuvm (Some highP) s) (\<lambda>s.
       Inr (Some highP, upd_proc highP (\<lambda>p. p\<lparr>p_state := RUNNING\<rparr>) s)))"

definition scheduler_back :: "nat \<Rightarrow> 'a procs_scheme \<Rightarrow> 'a procs_scheme" where
  "scheduler_back c s = upd_cpu c (\<lambda>c. c\<lparr>c_proc := None\<rparr>) (switchkvm s)"

section \<open>The real-time calls\<close>

text \<open>\<open>idivl\<close>: the signed division instruction, with its exception.\<close>

definition idiv :: "int \<Rightarrow> int \<Rightarrow> int result" where
  "idiv a b = (if b = 0 \<or> a = - (2 ^ 31) \<and> b = - 1 then Inl DivideError else Inr (a sdiv b))"

text \<open>The row that printinfo prints for a process: name, pid, policy, execution time, deadline.\<close>

definition printinfo_rows :: "proc list \<Rightarrow> (procstate \<times> string \<times> int \<times> int \<times> int \<times> int) list" where
  "printinfo_rows ps =
    map (\<lambda>p. (p_state p, p_name p, p_pid p, p_sched_policy p, p_execution_time p, p_deadline p))
      (filter (\<lambda>p. p_state p = SLEEPING \<or> p_state p = RUNNING \<or> p_state p = RUNNABLE) ps)"

definition printinfo ::
  "'a procs_scheme \<Rightarrow> (((procstate \<times> string \<times> int \<times> int \<times> int \<times> int) list \<times> int) \<times> 'a procs_scheme) result"
where
  "printinfo s = with_lock PtableLock (\<lambda>s. Inr ((printinfo_rows (ptable s), 22), s)) (sti s)"

text \<open>The chain of tests on lproc.\<close>

definition rm_bounds :: "int list" where
  "rm_bounds =
    [1000, 828, 779, 756, 743, 734, 728, 724, 720, 717,
     715, 713, 711, 710, 709, 708, 707, 706, 705, 705,
     704, 704, 703, 703, 702, 702, 702, 701, 701, 701,
     700, 700, 700, 700, 700, 699, 699, 699, 699, 699,
     699, 698, 698, 698, 698, 698, 698, 698, 698, 697,
     697, 697, 697, 697, 697, 697, 697, 697, 697, 697,
     697, 697, 696]"

definition rm_bound :: "int \<Rightarrow> int" where
  "rm_bound lproc = (if 1 \<le> lproc \<and> lproc \<le> 63 then rm_bounds ! nat (lproc - 1) else 696)"

text \<open>The body of the branch for policy 0, on process \<open>j\<close>: the flag is \<open>check\<close>.\<close>

definition admit_edf :: "nat \<Rightarrow> 'a procs_scheme \<Rightarrow> (bool \<times> 'a procs_scheme) result" where
  "admit_edf j s =
    (let p = ptable s ! j in
     bindE (idiv (wrap32 (p_execution_time p * 100)) (p_deadline p)) (\<lambda>u.
     let s = s\<lparr>utf_edf := wrap32 (utf_edf s + u)\<rparr> in
     if utf_edf s \<ge> 100
     then Inr (True, upd_proc j (\<lambda>p. p\<lparr>p_killed := True, p_state := ZOMBIE\<rparr>)
                       (s\<lparr>utf_edf := wrap32 (utf_edf s - u)\<rparr>))
     else Inr (False, upd_proc j (\<lambda>p. p\<lparr>p_sched_policy := 0\<rparr>) s)))"

definition admit_rm :: "int \<Rightarrow> nat \<Rightarrow> 'a procs_scheme \<Rightarrow> bool \<times> 'a procs_scheme" where
  "admit_rm lproc j s =
    (let p = ptable s ! j;
         curr_utf_rm = wrap32 (wrap32 (p_execution_time p * p_rate p) * 10);
         tempChk = wrap32 (utf_rm s + curr_utf_rm) in
     if tempChk \<le> rm_bound lproc
     then (False, upd_proc j (\<lambda>p. p\<lparr>p_arrival_time := sint (ticks s), p_sched_policy := 1\<rparr>)
                    (s\<lparr>utf_rm := wrap32 (utf_rm s + curr_utf_rm)\<rparr>))
     else (True, upd_proc j (\<lambda>p. p\<lparr>p_killed := True, p_state := ZOMBIE\<rparr>) s))"

definition sched_policy :: "int \<Rightarrow> int \<Rightarrow> 'a procs_scheme \<Rightarrow> (int \<times> 'a procs_scheme) result" where
  "sched_policy pid policy s =
    (let lproc = wrap32 (pid - 2) in
     bindE (with_lock PtableLock
       (\<lambda>s. case scan (\<lambda>p. p_pid p = pid) (ptable s) of
          None \<Rightarrow> Inr (False, s)
        | Some j \<Rightarrow>
          if policy = 0 then admit_edf j s
          else if policy = 1 then Inr (admit_rm lproc j s)
          else Inr (False, s)) (sti s))
     (\<lambda>(check, s). Inr (if check then - 22 else 0, s)))"

text \<open>exec_time, deadline and rate have the same shape: find the process and set its field.\<close>

definition set_param ::
  "(proc \<Rightarrow> proc) \<Rightarrow> int \<Rightarrow> 'a procs_scheme \<Rightarrow> (int \<times> 'a procs_scheme) result"
where
  "set_param f pid s =
    bindE (with_lock PtableLock
      (\<lambda>s. case scan (\<lambda>p. p_pid p = pid) (ptable s) of
         None \<Rightarrow> Inr (False, s)
       | Some j \<Rightarrow> Inr (True, upd_proc j f s)) (sti s))
    (\<lambda>(found, s). Inr (if \<not> found then - 22 else 0, s))"

definition exec_time :: "int \<Rightarrow> int \<Rightarrow> 'a procs_scheme \<Rightarrow> (int \<times> 'a procs_scheme) result" where
  "exec_time pid time = set_param (\<lambda>p. p\<lparr>p_execution_time := time\<rparr>) pid"

definition deadline :: "int \<Rightarrow> int \<Rightarrow> 'a procs_scheme \<Rightarrow> (int \<times> 'a procs_scheme) result" where
  "deadline pid d = set_param (\<lambda>p. p\<lparr>p_deadline := d\<rparr>) pid"

definition priority_temp :: "int \<Rightarrow> int" where
  "priority_temp r = wrap32 (wrap32 (90 - wrap32 (3 * r)) + 28) sdiv 29"

definition rate :: "int \<Rightarrow> int \<Rightarrow> 'a procs_scheme \<Rightarrow> (int \<times> 'a procs_scheme) result" where
  "rate pid r = set_param (\<lambda>p. p\<lparr>p_rate := r,
     p_priority := (if priority_temp r < 1 then 1 else priority_temp r)\<rparr>) pid"

section \<open>Selection by least rank\<close>

text \<open>
  \<open>rank key p\<close>: what the inner loops compare, the key first and then the pid (ordered
  lexicographically by \<open>HOL-Library.Product_Lexorder\<close>).
\<close>

definition rank :: "(proc \<Rightarrow> int) \<Rightarrow> proc \<Rightarrow> int \<times> int" where
  "rank key p = (key p, p_pid p)"

lemma pick_loop_rank:
  "pick_loop key ps h (i # is) =
    (if p_state (ps ! i) = RUNNABLE \<and> rank key (ps ! i) < rank key (ps ! h)
     then pick_loop key ps i is else pick_loop key ps h is)"
  by (auto simp: rank_def Let_def less_prod_def)

lemma pick_loop_least:
  "pick_loop key ps h is = r \<Longrightarrow>
   (r = h \<or> r \<in> set is \<and> p_state (ps ! r) = RUNNABLE) \<and> rank key (ps ! r) \<le> rank key (ps ! h)
   \<and> (\<forall>i \<in> set is. p_state (ps ! i) = RUNNABLE \<longrightarrow> rank key (ps ! r) \<le> rank key (ps ! i))"
proof (induction "is" arbitrary: h)
  case (Cons i "is")
  show ?case
  proof (cases "p_state (ps ! i) = RUNNABLE \<and> rank key (ps ! i) < rank key (ps ! h)")
    case True
    then have "pick_loop key ps i is = r" using Cons.prems unfolding pick_loop_rank by simp
    from Cons.IH [OF this] True show ?thesis by auto
  next
    case False
    have "pick_loop key ps h is = r" using Cons.prems unfolding pick_loop_rank if_not_P [OF False] .
    from Cons.IH [OF this] False show ?thesis by auto
  qed
qed simp

text \<open>
  A dispatching rule, as the loop of scheduler relies on it: \<open>sel ps p\<close> takes over from the
  runnable process \<open>p\<close> the cursor has found and gives a runnable process of least rank.
\<close>

definition runnable :: "proc list \<Rightarrow> nat \<Rightarrow> bool" where
  "runnable ps i \<longleftrightarrow> i < length ps \<and> p_state (ps ! i) = RUNNABLE"

locale least_rank =
  fixes sel :: "proc list \<Rightarrow> nat \<Rightarrow> nat"
    and key :: "proc \<Rightarrow> int"
    and policy :: int
  assumes sel_runnable: "runnable ps p \<Longrightarrow> p_sched_policy (ps ! p) = policy \<Longrightarrow> runnable ps (sel ps p)"
    and sel_least: "runnable ps p \<Longrightarrow> p_sched_policy (ps ! p) = policy \<Longrightarrow> runnable ps q
      \<Longrightarrow> rank key (ps ! sel ps p) \<le> rank key (ps ! q)"
begin

lemma unique:
  assumes "runnable ps p" "p_sched_policy (ps ! p) = policy" "runnable ps q"
    "p_pid (ps ! q) \<noteq> p_pid (ps ! sel ps p)"
  shows "rank key (ps ! sel ps p) < rank key (ps ! q)"
  using sel_least [OF assms(1,2,3)] assms(4) by (auto simp: rank_def less_le)

text \<open>With distinct pids the choice does not depend on where the cursor stands.\<close>

lemma cursor_independent:
  assumes p: "runnable ps p" "p_sched_policy (ps ! p) = policy"
    and q: "runnable ps q" "p_sched_policy (ps ! q) = policy"
    and distinct: "\<And>i j. runnable ps i \<Longrightarrow> runnable ps j \<Longrightarrow> p_pid (ps ! i) = p_pid (ps ! j) \<Longrightarrow> i = j"
  shows "sel ps p = sel ps q"
proof -
  note rp = sel_runnable [OF p] and rq = sel_runnable [OF q]
  have "rank key (ps ! sel ps p) = rank key (ps ! sel ps q)"
    using sel_least [OF p rq] sel_least [OF q rp] by (rule order_antisym)
  then show ?thesis using distinct [OF rp rq] by (simp add: rank_def)
qed

end

lemma select_proc_least:
  assumes "runnable ps p" "p_sched_policy (ps ! p) = pol" "pol = 0 \<and> key = p_deadline \<or> pol = 1 \<and> key = p_priority"
  shows "runnable ps (select_proc ps p)"
    "runnable ps q \<Longrightarrow> rank key (ps ! select_proc ps p) \<le> rank key (ps ! q)"
proof -
  have "select_proc ps p = pick_loop key ps p [0..<length ps]"
    using assms(2,3) by (auto simp: select_proc_def)
  from pick_loop_least [OF this [symmetric]] assms(1)
  show "runnable ps (select_proc ps p)"
    "runnable ps q \<Longrightarrow> rank key (ps ! select_proc ps p) \<le> rank key (ps ! q)"
    by (auto simp: runnable_def)
qed

interpretation edf: least_rank select_proc p_deadline 0
  using select_proc_least [where pol = 0 and key = p_deadline] by unfold_locales auto

interpretation rm: least_rank select_proc p_priority 1
  using select_proc_least [where pol = 1 and key = p_priority] by unfold_locales auto

lemma select_proc_other:
  "p_sched_policy (ps ! p) \<noteq> 0 \<Longrightarrow> p_sched_policy (ps ! p) \<noteq> 1 \<Longrightarrow> select_proc ps p = p"
  by (simp add: select_proc_def)

lemma select_proc_runnable:
  assumes "runnable ps p"
  shows "runnable ps (select_proc ps p)"
proof (cases "p_sched_policy (ps ! p) = 0 \<or> p_sched_policy (ps ! p) = 1")
  case True
  then show ?thesis using edf.sel_runnable [OF assms] rm.sel_runnable [OF assms] by blast
qed (use assms in \<open>simp add: select_proc_other\<close>)

section \<open>One round of the scheduler\<close>

lemma mycpu_nested: "cpu_ok s i \<Longrightarrow> 0 < c_ncli (cpus s ! i) \<Longrightarrow> mycpu s = Inr i"
  by (intro mycpu_ok) (simp_all add: cpu_ok_def)

lemma switchuvm_nested:
  assumes ok: "cpu_ok s i" and n: "0 < c_ncli (cpus s ! i)"
    and p: "p_kstack (ptable s ! j) \<noteq> 0" "p_pgdir (ptable s ! j) \<noteq> 0"
  shows "switchuvm (Some j) s = Inr (s\<lparr>
      ts_esp0 := (ts_esp0 s)(m_lapicid s := p_kstack (ptable s ! j) + KSTACKSIZE),
      cr3 := (cr3 s)(m_lapicid s := V2P (p_pgdir (ptable s ! j)))\<rparr>)"
proof -
  let ?g = "\<lambda>s :: 'a procs_scheme. s\<lparr>
      ts_esp0 := (ts_esp0 s)(m_lapicid s := p_kstack (ptable s ! j) + KSTACKSIZE),
      cr3 := (cr3 s)(m_lapicid s := V2P (p_pgdir (ptable s ! j)))\<rparr>"
  have t: "ptable (pushed i 1 s) = ptable s" by (simp add: pushed_def)
  have m: "mach (?g (pushed i 1 s)) = mach (pushed i 1 s)" by (simp add: mach_def)
  have ok1: "cpu_ok (pushed i 1 s) i" using cpu_ok_pushed [OF ok] by simp
  have "popcli (?g (pushed i 1 s)) = Inr (popped i 1 (?g (pushed i 1 s)))"
    using ok1 n cpu_ok_bound [OF ok] cpu_ok_mach [OF m] machD [OF m] by (intro popcli_ok) simp_all
  moreover have "popped i 1 (?g (pushed i 1 s)) = ?g s"
  proof -
    have "(m_IF s)(m_lapicid s := False) = m_IF s" using ok n by (simp add: cpu_ok_def fun_upd_idem)
    then show ?thesis using n cpu_ok_bound [OF ok] by (simp add: popped_def pushed_def)
  qed
  moreover have "mycpu (pushed i 1 s) = Inr i" using mycpu_ok [OF ok1] by simp
  ultimately show ?thesis
    using p pushcli_ok [OF ok] by (simp add: switchuvm_def t Let_def)
qed

text \<open>
  \<open>in_scheduler s c\<close>: processor \<open>c\<close> searches the table, with ptable.lock held and interrupts
  off; every runnable process has a kernel stack and a page table.
\<close>

definition in_scheduler :: "'a procs_scheme \<Rightarrow> nat \<Rightarrow> bool" where
  "in_scheduler s c \<longleftrightarrow> cpu_ok s c \<and> 0 < c_ncli (cpus s ! c)
     \<and> lk_locked (locks s PtableLock) \<noteq> 0 \<and> lk_cpu (locks s PtableLock) = Some c
     \<and> (\<forall>q. runnable (ptable s) q \<longrightarrow> p_kstack (ptable s ! q) \<noteq> 0 \<and> p_pgdir (ptable s ! q) \<noteq> 0)"

lemma charge_nth:
  "i < length ps \<Longrightarrow> charge ps p h ! i = (if i = h \<and> (p_sched_policy (ps ! p) = 0 \<or> p_sched_policy (ps ! p) = 1)
     then (ps ! h)\<lparr>p_elapsed_time := wrap32 (p_elapsed_time (ps ! h) + 1)\<rparr> else ps ! i)"
  by (auto simp: charge_def nth_list_update)

lemma charge_simps [simp]:
  "length (charge ps p h) = length ps"
  "h < length ps \<Longrightarrow> p_kstack (charge ps p h ! h) = p_kstack (ps ! h)"
  "h < length ps \<Longrightarrow> p_pgdir (charge ps p h ! h) = p_pgdir (ps ! h)"
  by (auto simp: charge_nth) (simp add: charge_def)

text \<open>The first runnable process at or after the cursor.\<close>

definition cursor_at :: "proc list \<Rightarrow> nat \<Rightarrow> nat \<Rightarrow> bool" where
  "cursor_at ps j p \<longleftrightarrow> j \<le> p \<and> runnable ps p \<and> (\<forall>q. j \<le> q \<and> q < p \<longrightarrow> \<not> runnable ps q)"

lemma scan_cursor:
  assumes "cursor_at ps j p"
  shows "scan (\<lambda>p. p_state p = RUNNABLE) (drop j ps) = Some (p - j)"
  unfolding scan_Some_iff
proof (intro conjI allI impI)
  show "p - j < length (drop j ps)" "p_state (drop j ps ! (p - j)) = RUNNABLE"
    using assms by (auto simp: cursor_at_def runnable_def)
next
  fix i assume i: "i < p - j"
  then have "j \<le> j + i" "j + i < p" by simp_all
  then have "\<not> runnable ps (j + i)" using assms unfolding cursor_at_def by blast
  moreover have "j + i < length ps" using i assms by (auto simp: cursor_at_def runnable_def)
  ultimately show "p_state (drop j ps ! i) \<noteq> RUNNABLE" by (simp add: runnable_def)
qed

lemma scheduler_next_Some:
  assumes s: "in_scheduler s c" and p: "cursor_at (ptable s) j p"
  defines "h \<equiv> select_proc (ptable s) p"
  shows "\<exists>t. scheduler_next c j s = Inr (Some h, t) \<and> c_proc (cpus t ! c) = Some h
    \<and> ptable t = (charge (ptable s) p h)[h := (charge (ptable s) p h ! h)\<lparr>p_state := RUNNING\<rparr>]
    \<and> cr3 t (m_lapicid s) = V2P (p_pgdir (ptable s ! h)) \<and> locks t = locks s"
proof -
  let ?s1 = "upd_cpu c (\<lambda>c. c\<lparr>c_proc := Some h\<rparr>) (s\<lparr>ptable := charge (ptable s) p h\<rparr>)"
  have r: "runnable (ptable s) h"
    using select_proc_runnable p by (simp add: h_def cursor_at_def)
  have b: "c < length (cpus s)" using s by (simp add: in_scheduler_def cpu_ok_bound)
  have "cpu_ok ?s1 c" "0 < c_ncli (cpus ?s1 ! c)"
    using s b by (auto simp: in_scheduler_def cpu_ok_def upd_cpu_def scan_update_same)
  moreover have "p_kstack (ptable ?s1 ! h) \<noteq> 0" "p_pgdir (ptable ?s1 ! h) \<noteq> 0"
    using s r by (auto simp: in_scheduler_def runnable_def upd_cpu_def)
  ultimately have sw: "switchuvm (Some h) ?s1 = Inr (?s1\<lparr>
      ts_esp0 := (ts_esp0 ?s1)(m_lapicid ?s1 := p_kstack (ptable ?s1 ! h) + KSTACKSIZE),
      cr3 := (cr3 ?s1)(m_lapicid ?s1 := V2P (p_pgdir (ptable ?s1 ! h)))\<rparr>)"
    by (rule switchuvm_nested)
  have "j + (p - j) = p" using p by (simp add: cursor_at_def)
  then show ?thesis
    using scan_cursor [OF p] sw b r
    by (simp add: scheduler_next_def h_def [symmetric] Let_def upd_cpu_def upd_proc_def runnable_def)
qed

section \<open>The real-time calls as steps on the table\<close>

text \<open>
  \<open>syscall_ok s i\<close>: a system call runs on processor \<open>i\<close>, holding no lock, and ptable.lock is free.
\<close>

definition syscall_ok :: "'a procs_scheme \<Rightarrow> nat \<Rightarrow> bool" where
  "syscall_ok s i \<longleftrightarrow> cpu_ok s i \<and> c_ncli (cpus s ! i) = 0 \<and> lk_free PtableLock s"

lemma syscall_ok_sti: "syscall_ok s i \<Longrightarrow> cpu_ok (sti s) i \<and> lk_free PtableLock (sti s)"
  by (simp add: syscall_ok_def cpu_ok_def sti_def lk_free_def)

lemma with_ptable_lock:
  assumes "syscall_ok s i"
    and "\<And>u. kstate u = kstate s \<Longrightarrow> ptable u = ptable s \<Longrightarrow>
      \<exists>v. f u = Inr (x, v) \<and> mach v = mach u \<and> kstate v = K"
  shows "\<exists>t. with_lock PtableLock f (sti s) = Inr (x, t) \<and> kstate t = K \<and> mach_sim (sti s) t"
proof (rule with_lock_kstate)
  show "cpu_ok (sti s) i" "lk_free PtableLock (sti s)" using syscall_ok_sti [OF assms(1)] by simp_all
  fix u assume "kstate u = kstate (sti s)"
  then have "kstate u = kstate s" by simp
  then show "\<exists>v. f u = Inr (x, v) \<and> mach v = mach u \<and> kstate v = K"
    using assms(2) kstate_procs(1) by blast
qed

lemma set_param_step:
  assumes "syscall_ok s i"
  shows "\<exists>t. set_param f pid s =
      Inr (case scan (\<lambda>p. p_pid p = pid) (ptable s) of None \<Rightarrow> - 22 | Some j \<Rightarrow> 0, t)
    \<and> kstate t = kstate (case scan (\<lambda>p. p_pid p = pid) (ptable s) of None \<Rightarrow> s | Some j \<Rightarrow> upd_proc j f s)
    \<and> mach_sim (sti s) t"
proof -
  let ?r = "scan (\<lambda>p. p_pid p = pid) (ptable s)"
  have "\<exists>t. with_lock PtableLock
      (\<lambda>s. case scan (\<lambda>p. p_pid p = pid) (ptable s) of
         None \<Rightarrow> Inr (False, s) | Some j \<Rightarrow> Inr (True, upd_proc j f s)) (sti s) = Inr (?r \<noteq> None, t)
      \<and> kstate t = kstate (case ?r of None \<Rightarrow> s | Some j \<Rightarrow> upd_proc j f s) \<and> mach_sim (sti s) t"
    by (rule with_ptable_lock [OF assms]) (auto intro: kstate_upd_proc split: option.split)
  then show ?thesis by (auto simp: set_param_def split: option.split)
qed

text \<open>sched_policy on a process it finds, for the two policies.\<close>

lemma sched_policy_step:
  assumes ok: "syscall_ok s i" and j: "scan (\<lambda>p. p_pid p = pid) (ptable s) = Some j"
    and body: "\<And>u. kstate u = kstate s \<Longrightarrow>
      \<exists>v. (if policy = 0 then admit_edf j u
           else if policy = 1 then Inr (admit_rm (wrap32 (pid - 2)) j u) else Inr (False, u)) = Inr (x, v)
        \<and> mach v = mach u \<and> kstate v = K"
  shows "\<exists>t. sched_policy pid policy s = Inr (if x then - 22 else 0, t) \<and> kstate t = K \<and> mach_sim (sti s) t"
proof -
  have "\<exists>t. with_lock PtableLock
      (\<lambda>s. case scan (\<lambda>p. p_pid p = pid) (ptable s) of
          None \<Rightarrow> Inr (False, s)
        | Some j \<Rightarrow>
          if policy = 0 then admit_edf j s
          else if policy = 1 then Inr (admit_rm (wrap32 (pid - 2)) j s)
          else Inr (False, s)) (sti s) = Inr (x, t) \<and> kstate t = K \<and> mach_sim (sti s) t"
    using body j by (intro with_ptable_lock [OF ok]) simp
  then show ?thesis by (auto simp: sched_policy_def)
qed

lemma admit_edf_eq:
  assumes k: "kstate u = kstate s" and d: "0 < p_deadline (ptable s ! j)"
    and e: "0 \<le> p_execution_time (ptable s ! j)" "p_execution_time (ptable s ! j) * 100 + 100 \<le> 2 ^ 31"
    and utf: "0 \<le> utf_edf s" "utf_edf s < 100"
  defines "w \<equiv> p_execution_time (ptable s ! j) * 100 div p_deadline (ptable s ! j)"
  shows "\<exists>v. admit_edf j u = Inr (utf_edf s + w \<ge> 100, v) \<and> mach v = mach u
    \<and> kstate v = kstate (if utf_edf s + w \<ge> 100
        then upd_proc j (\<lambda>p. p\<lparr>p_killed := True, p_state := ZOMBIE\<rparr>) s
        else upd_proc j (\<lambda>p. p\<lparr>p_sched_policy := 0\<rparr>) (s\<lparr>utf_edf := utf_edf s + w\<rparr>))"
proof -
  define e where "e = p_execution_time (ptable s ! j) * 100"
  define d where "d = p_deadline (ptable s ! j)"
  note ku = kstate_procs [OF k]
  have pos: "0 < d" "0 \<le> e" "e + 100 \<le> 2 ^ 31" using assms(2-4) by (simp_all add: d_def e_def)
  have w: "w = e div d" by (simp add: w_def e_def d_def)
  have "0 \<le> w" unfolding w using pos by (simp add: pos_imp_zdiv_nonneg_iff)
  moreover have "w \<le> e" unfolding w using pos zdiv_mono2 [of e 1 d] by simp
  ultimately have i: "int32 (utf_edf s + w)" "int32 (utf_edf s)" "int32 e"
    using utf pos by (simp_all add: int32_def)
  have dv: "idiv (wrap32 (p_execution_time (ptable u ! j) * 100)) (p_deadline (ptable u ! j)) = Inr w"
    using i pos by (simp add: idiv_def ku w e_def [symmetric] d_def [symmetric])
  show ?thesis
  proof (cases "100 \<le> utf_edf s + w")
    case True
    have "admit_edf j u = Inr (True, upd_proc j (\<lambda>p. p\<lparr>p_killed := True, p_state := ZOMBIE\<rparr>) u)"
      using True i by (simp add: admit_edf_def dv Let_def ku(4) [symmetric])
    then show ?thesis using True k by (auto intro: kstate_upd_proc)
  next
    case False
    have "admit_edf j u = Inr (False, upd_proc j (\<lambda>p. p\<lparr>p_sched_policy := 0\<rparr>) (u\<lparr>utf_edf := utf_edf s + w\<rparr>))"
      using False i ku(4) by (simp add: admit_edf_def dv Let_def)
    then show ?thesis using False k by (auto intro: kstate_upd_proc kstate_update)
  qed
qed

lemma admit_rm_eq:
  assumes k: "kstate u = kstate s"
    and w: "int32 (p_execution_time (ptable s ! j) * p_rate (ptable s ! j) * 10)"
      "int32 (p_execution_time (ptable s ! j) * p_rate (ptable s ! j))"
      "int32 (utf_rm s + p_execution_time (ptable s ! j) * p_rate (ptable s ! j) * 10)"
  defines "w \<equiv> p_execution_time (ptable s ! j) * p_rate (ptable s ! j) * 10"
  shows "\<exists>v. admit_rm l j u = (utf_rm s + w > rm_bound l, v) \<and> mach v = mach u
    \<and> kstate v = kstate (if utf_rm s + w > rm_bound l
        then upd_proc j (\<lambda>p. p\<lparr>p_killed := True, p_state := ZOMBIE\<rparr>) s
        else upd_proc j (\<lambda>p. p\<lparr>p_arrival_time := sint (ticks s), p_sched_policy := 1\<rparr>)
          (s\<lparr>utf_rm := utf_rm s + w\<rparr>))"
proof -
  note ku = kstate_procs [OF k]
  show ?thesis
  proof (cases "utf_rm s + w > rm_bound l")
    case True
    have "admit_rm l j u = (True, upd_proc j (\<lambda>p. p\<lparr>p_killed := True, p_state := ZOMBIE\<rparr>) u)"
      using True w by (simp add: admit_rm_def Let_def ku w_def)
    then show ?thesis using True k by (auto intro: kstate_upd_proc)
  next
    case False
    have "admit_rm l j u = (False, upd_proc j (\<lambda>p. p\<lparr>p_arrival_time := sint (ticks s), p_sched_policy := 1\<rparr>)
          (u\<lparr>utf_rm := utf_rm s + w\<rparr>))"
      using False w by (simp add: admit_rm_def Let_def ku w_def)
    then show ?thesis using False k by (auto intro: kstate_upd_proc kstate_update)
  qed
qed

section \<open>The Liu-Layland bound\<close>

text \<open>
  \<open>n (2^(1/n) - 1)\<close> in thousandths is at least \<open>c\<close> exactly if \<open>(1 + c / 1000 n)^n \<le> 2\<close>. The
  powers are computed in fixed point with 24 binary digits, rounded up or down.
\<close>

definition fx_mul :: "bool \<Rightarrow> int \<Rightarrow> int \<Rightarrow> int" where
  "fx_mul up a b = (a * b + (if up then 16777215 else 0)) div 16777216"

fun fx_pow :: "bool \<Rightarrow> int \<Rightarrow> nat \<Rightarrow> int" where
  "fx_pow up x n =
    (if n = 0 then 16777216
     else let y = fx_pow up x (n div 2); z = fx_mul up y y in
       if even n then z else fx_mul up x z)"

declare fx_pow.simps [simp del]

definition fx_real :: "int \<Rightarrow> real" where
  "fx_real a = real_of_int a / 16777216"

lemma fx_mul_bound:
  assumes "0 \<le> a" "0 \<le> b"
  shows "0 \<le> fx_mul up a b"
    "fx_real a * fx_real b \<le> fx_real (fx_mul True a b)"
    "fx_real (fx_mul False a b) \<le> fx_real a * fx_real b"
proof -
  have "0 \<le> a * b" using assms by simp
  then show "0 \<le> fx_mul up a b" by (simp add: fx_mul_def pos_imp_zdiv_nonneg_iff)
  have "a * b \<le> fx_mul True a b * 16777216" unfolding fx_mul_def by simp
  then have "real_of_int (a * b) \<le> real_of_int (fx_mul True a b * 16777216)" by (simp only: of_int_le_iff)
  then show "fx_real a * fx_real b \<le> fx_real (fx_mul True a b)" by (simp add: fx_real_def)
  have "fx_mul False a b * 16777216 \<le> a * b" unfolding fx_mul_def by simp
  then have "real_of_int (fx_mul False a b * 16777216) \<le> real_of_int (a * b)" by (simp only: of_int_le_iff)
  then show "fx_real (fx_mul False a b) \<le> fx_real a * fx_real b" by (simp add: fx_real_def)
qed

lemma fx_pow_bound:
  assumes "0 \<le> x"
  shows "0 \<le> fx_pow up x n \<and> fx_real x ^ n \<le> fx_real (fx_pow True x n)
    \<and> fx_real (fx_pow False x n) \<le> fx_real x ^ n"
proof (induction n arbitrary: up rule: less_induct)
  case (less n)
  show ?case
  proof (cases "n = 0")
    case True
    then show ?thesis by (simp add: fx_pow.simps fx_real_def)
  next
    case False
    define u where "u up = fx_pow up x (n div 2)" for up
    define z where "z up = fx_mul up (u up) (u up)" for up
    have "n div 2 < n" using False by simp
    note IH = less.IH [OF this, folded u_def]
    have nn: "0 \<le> u up" "0 \<le> z up" "0 \<le> fx_real (u up)" for up
      using IH [of up] fx_mul_bound(1) by (simp_all add: z_def fx_real_def)
    have x0: "0 \<le> fx_real x" using assms by (simp add: fx_real_def)
    have up: "fx_real x ^ (n div 2) * fx_real x ^ (n div 2) \<le> fx_real (z True)"
      using mult_mono [of "fx_real x ^ (n div 2)" "fx_real (u True)"] IH [of True] x0 nn
        fx_mul_bound(2) [of "u True" "u True"] by (force simp: z_def)
    have lo: "fx_real (z False) \<le> fx_real x ^ (n div 2) * fx_real x ^ (n div 2)"
      using mult_mono [of "fx_real (u False)" "fx_real x ^ (n div 2)"] IH [of False] x0 nn
        fx_mul_bound(3) [of "u False" "u False"] by (force simp: z_def)
    have p: "fx_pow up x n = (if even n then z up else fx_mul up x (z up))" for up
      using False by (subst fx_pow.simps) (simp add: Let_def u_def z_def)
    have e: "fx_real x ^ n = (if even n then 1 else fx_real x) * (fx_real x ^ (n div 2) * fx_real x ^ (n div 2))"
      by (auto simp: power_add [symmetric] elim!: evenE oddE simp flip: power_Suc mult_2)
    show ?thesis
      using p nn fx_mul_bound(1) [OF assms nn(2)] fx_mul_bound(2) [OF assms nn(2) [of True]]
        fx_mul_bound(3) [OF assms nn(2) [of False]] mult_left_mono [OF up x0] mult_left_mono [OF lo x0] up lo
      unfolding e by (auto intro: order_trans)
  qed
qed

text \<open>Entry \<open>c\<close> for \<open>n\<close> processes: \<open>(1 + c / 1000 n)^n \<le> 2 < (1 + (c + 1) / 1000 n)^n\<close>.\<close>

definition fx_check :: "nat \<Rightarrow> int \<Rightarrow> bool" where
  "fx_check n c \<longleftrightarrow>
    fx_pow True (((1000 * int n + c) * 16777216 + 1000 * int n - 1) div (1000 * int n)) n \<le> 33554432
    \<and> 33554432 < fx_pow False ((1000 * int n + c + 1) * 16777216 div (1000 * int n)) n"

lemma rm_bounds_checked: "list_all (\<lambda>(n, c). fx_check n c) (zip [1..<64] rm_bounds)"
  by code_simp

lemma fx_check_floor:
  assumes n: "0 < n" and c: "0 \<le> c" and chk: "fx_check n c"
  shows "\<lfloor>1000 * real n * (root n 2 - 1)\<rfloor> = c"
proof -
  define m where "m = 1000 * int n"
  have m: "0 < m" using n by (simp add: m_def)
  define X where "X = ((m + c) * 16777216 + m - 1) div m"
  define Y where "Y = (m + c + 1) * 16777216 div m"
  define y where "y = (real_of_int m + real_of_int c) / real_of_int m"
  define z where "z = (real_of_int m + real_of_int c + 1) / real_of_int m"
  have nn: "0 \<le> X" "0 \<le> Y" using m c by (simp_all add: X_def Y_def pos_imp_zdiv_nonneg_iff)
  have yz: "0 \<le> y" "0 \<le> z" using m c by (simp_all add: y_def z_def)
  have "(m + c) * 16777216 \<le> X * m"
  proof -
    have "(m + c) * 16777216 + m - 1 < X * m + m"
      using pos_mod_bound [OF m, of "(m + c) * 16777216 + m - 1"]
        div_mult_mod_eq [of "(m + c) * 16777216 + m - 1" m] unfolding X_def by linarith
    then show ?thesis by linarith
  qed
  then have "real_of_int ((m + c) * 16777216) \<le> real_of_int (X * m)" by (simp only: of_int_le_iff)
  then have yX: "y \<le> fx_real X" using m by (simp add: y_def fx_real_def field_simps)
  have "Y * m \<le> (m + c + 1) * 16777216"
    using pos_mod_sign [OF m, of "(m + c + 1) * 16777216"]
      div_mult_mod_eq [of "(m + c + 1) * 16777216" m] unfolding Y_def by linarith
  then have "real_of_int (Y * m) \<le> real_of_int ((m + c + 1) * 16777216)" by (simp only: of_int_le_iff)
  then have Yz: "fx_real Y \<le> z" using m by (simp add: z_def fx_real_def field_simps)
  have "fx_real (fx_pow True X n) \<le> 2" "2 < fx_real (fx_pow False Y n)"
    using chk unfolding fx_check_def m_def [symmetric] X_def [symmetric] Y_def [symmetric]
    by (simp_all add: fx_real_def)
  then have "y ^ n \<le> 2" "2 < z ^ n"
    using fx_pow_bound [OF nn(1), of True n] fx_pow_bound [OF nn(2), of False n]
      power_mono [OF yX yz(1), of n] power_mono [OF Yz, of n] nn by (auto simp: fx_real_def)
  then have "y \<le> root n 2" "root n 2 < z"
    using n yz real_root_le_mono [of n "y ^ n" 2] real_root_less_mono [of n 2 "z ^ n"]
    by (simp_all add: real_root_power_cancel)
  then have "real_of_int c \<le> real_of_int m * (root n 2 - 1)" "real_of_int m * (root n 2 - 1) < real_of_int c + 1"
    using m by (simp_all add: y_def z_def field_simps)
  then show ?thesis by (intro floor_unique) (simp_all add: m_def)
qed

lemma rm_bound_floor:
  assumes "1 \<le> n" "n \<le> 63"
  shows "rm_bound (int n) = \<lfloor>1000 * real n * (root n 2 - 1)\<rfloor>"
proof -
  have "length rm_bounds = 63" "list_all (\<lambda>c. 0 \<le> c) rm_bounds" by (simp_all add: rm_bounds_def)
  moreover have "(n, rm_bounds ! (n - 1)) \<in> set (zip [1..<64] rm_bounds)"
    unfolding set_zip using assms \<open>length rm_bounds = 63\<close> by (auto intro!: exI [of _ "n - 1"])
  ultimately have "0 \<le> rm_bounds ! (n - 1)" "fx_check n (rm_bounds ! (n - 1))"
    using rm_bounds_checked assms by (auto simp: list_all_iff)
  moreover have "rm_bound (int n) = rm_bounds ! (n - 1)"
    using assms by (simp add: rm_bound_def nat_diff_distrib)
  ultimately show ?thesis using fx_check_floor [of n "rm_bounds ! (n - 1)"] assms by simp
qed

section \<open>Properties\<close>

definition trapframe0 :: trapframe where
  "trapframe0 = \<lparr>tf_edi = 0, tf_esi = 0, tf_ebp = 0, tf_oesp = 0, tf_ebx = 0, tf_edx = 0, tf_ecx = 0,
     tf_eax = 0, tf_gs = 0, tf_fs = 0, tf_es = 0, tf_ds = 0, tf_trapno = 0, tf_err = 0, tf_eip = 0,
     tf_cs = 0, tf_eflags = 0, tf_esp = 0, tf_ss = 0\<rparr>"

definition proc0 :: proc where
  "proc0 = \<lparr>p_sz = 0, p_pgdir = 0, p_kstack = 0, p_state = UNUSED, p_pid = 0, p_parent = None,
     p_tf = trapframe0, p_context = Forkret, p_chan = None, p_killed = False,
     p_ofile = replicate NOFILE None, p_cwd = None, p_name = [], p_priority = 0, p_deadline = 0,
     p_sched_policy = 0, p_execution_time = 0, p_elapsed_time = 0, p_arrival_time = 0, p_rate = 0\<rparr>"

definition task :: "int \<Rightarrow> int \<Rightarrow> int \<Rightarrow> int \<Rightarrow> proc" where
  "task pid policy d prio = proc0\<lparr>p_state := RUNNABLE, p_pid := pid, p_kstack := 0x80200000,
     p_pgdir := 0x80201000, p_sched_policy := policy, p_deadline := d, p_priority := prio,
     p_execution_time := 3, p_rate := 10\<rparr>"

definition procs_ex :: "proc list \<Rightarrow> procs" where
  "procs_ex ps = \<lparr>cpus = cpus two_cpus, m_lapicid = 0, m_IF = (\<lambda>_. True), locks = locks two_cpus,
     pmem = (\<lambda>_. 0), freelist = 0, use_lock = True, kend = 0x80100000, kdata = 0x80108000,
     kpgdir = 0x80300000, cr3 = (\<lambda>_. 0), ts_esp0 = (\<lambda>_. 0),
     ptable = ps, nextpid = 9, initproc = Some 0, utf_edf = 0, utf_rm = 0, ticks = 0,
     forkret_first = False\<rparr>"

definition table_ex :: "proc list" where
  "table_ex = [task 3 0 9 2, task 4 0 7 3, proc0, task 6 0 7 1, task 7 1 8 1]"

lemma procs_ex_ok: "syscall_ok (procs_ex ps) 0" "cpu_ok (procs_ex ps) 0" "lk_free l (procs_ex ps)"
  by (simp_all add: syscall_ok_def cpu_ok_def lk_free_def procs_ex_def two_cpus_def)

lemma procs_ex_sel [simp]:
  "ptable (procs_ex ps) = ps" "utf_edf (procs_ex ps) = 0" "utf_rm (procs_ex ps) = 0" "ticks (procs_ex ps) = 0"
  by (simp_all add: procs_ex_def)

lemma in_scheduler_ex:
  assumes "\<And>q. runnable ps q \<Longrightarrow> p_kstack (ps ! q) \<noteq> 0 \<and> p_pgdir (ps ! q) \<noteq> 0"
  shows "in_scheduler (locked PtableLock 0 (procs_ex ps)) 0"
  using locked_ok [OF procs_ex_ok(2)] assms kstate_procs(1) [of "locked PtableLock 0 (procs_ex ps)" "procs_ex ps"]
  by (simp add: in_scheduler_def)

lemma table_ex_runnable:
  "runnable table_ex q \<Longrightarrow> p_kstack (table_ex ! q) \<noteq> 0 \<and> p_pgdir (table_ex ! q) \<noteq> 0"
proof -
  assume q: "runnable table_ex q"
  have "\<forall>p \<in> set table_ex. p_state p = RUNNABLE \<longrightarrow> p_kstack p \<noteq> 0 \<and> p_pgdir p \<noteq> 0"
    by (simp add: table_ex_def task_def proc0_def)
  with q show ?thesis by (simp add: runnable_def)
qed

lemma table_ex_nth:
  "runnable table_ex q \<Longrightarrow> q = 0 \<or> q = 1 \<or> q = 3 \<or> q = 4"
  "runnable table_ex 0" "runnable table_ex 1" "runnable table_ex 3" "runnable table_ex 4"
proof -
  assume q: "runnable table_ex q"
  then have "q < 5" "q \<noteq> 2" by (auto simp: runnable_def table_ex_def proc0_def)
  then show "q = 0 \<or> q = 1 \<or> q = 3 \<or> q = 4" by linarith
qed (simp_all add: runnable_def table_ex_def task_def)

text \<open>
  C1. Earliest deadline first: when the cursor of the scheduler stands on a process with policy
  0, the scheduler switches to a runnable process whose deadline is the earliest of all runnable
  processes, the least pid among those with that deadline. That process is charged one unit of
  elapsed time, becomes RUNNING and the current process of the processor, its address space is
  loaded, no other table entry changes, and ptable.lock stays held for the process to release.
\<close>

theorem scheduler_edf:
  assumes "in_scheduler s c" "cursor_at (ptable s) j p" "p_sched_policy (ptable s ! p) = 0"
  shows "\<exists>h t. scheduler_next c j s = Inr (Some h, t) \<and> runnable (ptable s) h
    \<and> (\<forall>q. runnable (ptable s) q \<longrightarrow> p_deadline (ptable s ! h) < p_deadline (ptable s ! q)
         \<or> p_deadline (ptable s ! h) = p_deadline (ptable s ! q) \<and> p_pid (ptable s ! h) \<le> p_pid (ptable s ! q))
    \<and> ptable t = (ptable s)[h := (ptable s ! h)\<lparr>p_elapsed_time := wrap32 (p_elapsed_time (ptable s ! h) + 1),
                                              p_state := RUNNING\<rparr>]
    \<and> c_proc (cpus t ! c) = Some h \<and> cr3 t (m_lapicid s) = V2P (p_pgdir (ptable s ! h))
    \<and> locks t = locks s"
proof -
  let ?h = "select_proc (ptable s) p"
  have p: "runnable (ptable s) p" using assms(2) by (simp add: cursor_at_def)
  have h: "runnable (ptable s) ?h" using edf.sel_runnable [OF p assms(3)] .
  have "p_deadline (ptable s ! ?h) < p_deadline (ptable s ! q)
      \<or> p_deadline (ptable s ! ?h) = p_deadline (ptable s ! q) \<and> p_pid (ptable s ! ?h) \<le> p_pid (ptable s ! q)"
    if "runnable (ptable s) q" for q
    using edf.sel_least [OF p assms(3) that] by (auto simp: rank_def less_eq_prod_def)
  moreover have "charge (ptable s) p ?h
      = (ptable s)[?h := (ptable s ! ?h)\<lparr>p_elapsed_time := wrap32 (p_elapsed_time (ptable s ! ?h) + 1)\<rparr>]"
    using assms(3) by (simp add: charge_def)
  ultimately show ?thesis
    using scheduler_next_Some [OF assms(1,2)] h by (auto simp: runnable_def)
qed

theorem scheduler_edf_witness:
  "\<exists>t. scheduler_next 0 0 (locked PtableLock 0 (procs_ex table_ex)) = Inr (Some 1, t)
    \<and> p_state (ptable t ! 1) = RUNNING"
proof -
  let ?s = "locked PtableLock 0 (procs_ex table_ex)"
  have t: "ptable ?s = table_ex"
    using kstate_procs(1) [of ?s "procs_ex table_ex"] by simp
  have "cursor_at table_ex 0 0"
    by (simp add: cursor_at_def runnable_def table_ex_def task_def)
  moreover have "p_sched_policy (table_ex ! 0) = 0" by (simp add: table_ex_def task_def)
  ultimately obtain h u where h: "scheduler_next 0 0 ?s = Inr (Some h, u)" "runnable table_ex h"
    "\<forall>q. runnable table_ex q \<longrightarrow> p_deadline (table_ex ! h) < p_deadline (table_ex ! q)
         \<or> p_deadline (table_ex ! h) = p_deadline (table_ex ! q) \<and> p_pid (table_ex ! h) \<le> p_pid (table_ex ! q)"
    "ptable u = table_ex[h := (table_ex ! h)\<lparr>p_elapsed_time := wrap32 (p_elapsed_time (table_ex ! h) + 1),
                                              p_state := RUNNING\<rparr>]"
    using scheduler_edf [OF in_scheduler_ex [OF table_ex_runnable], of 0 0] unfolding t by auto
  have "h = 1"
    using table_ex_nth(1) [OF h(2)] h(3) [rule_format, OF table_ex_nth(3)]
    by (auto simp: table_ex_def task_def)
  then show ?thesis using h by (auto simp: table_ex_def)
qed

text \<open>
  C2. Rate monotonic: when the cursor stands on a process with policy 1, the scheduler switches to
  a runnable process whose priority number is the least of all runnable processes, the least pid
  among those with that number; it is charged one unit of elapsed time.
\<close>

theorem scheduler_rm:
  assumes "in_scheduler s c" "cursor_at (ptable s) j p" "p_sched_policy (ptable s ! p) = 1"
  shows "\<exists>h t. scheduler_next c j s = Inr (Some h, t) \<and> runnable (ptable s) h
    \<and> (\<forall>q. runnable (ptable s) q \<longrightarrow> p_priority (ptable s ! h) < p_priority (ptable s ! q)
         \<or> p_priority (ptable s ! h) = p_priority (ptable s ! q) \<and> p_pid (ptable s ! h) \<le> p_pid (ptable s ! q))
    \<and> ptable t = (ptable s)[h := (ptable s ! h)\<lparr>p_elapsed_time := wrap32 (p_elapsed_time (ptable s ! h) + 1),
                                              p_state := RUNNING\<rparr>]
    \<and> c_proc (cpus t ! c) = Some h \<and> locks t = locks s"
proof -
  let ?h = "select_proc (ptable s) p"
  have p: "runnable (ptable s) p" using assms(2) by (simp add: cursor_at_def)
  have h: "runnable (ptable s) ?h" using rm.sel_runnable [OF p assms(3)] .
  have "p_priority (ptable s ! ?h) < p_priority (ptable s ! q)
      \<or> p_priority (ptable s ! ?h) = p_priority (ptable s ! q) \<and> p_pid (ptable s ! ?h) \<le> p_pid (ptable s ! q)"
    if "runnable (ptable s) q" for q
    using rm.sel_least [OF p assms(3) that] by (auto simp: rank_def less_eq_prod_def)
  moreover have "charge (ptable s) p ?h
      = (ptable s)[?h := (ptable s ! ?h)\<lparr>p_elapsed_time := wrap32 (p_elapsed_time (ptable s ! ?h) + 1)\<rparr>]"
    using assms(3) by (simp add: charge_def)
  ultimately show ?thesis
    using scheduler_next_Some [OF assms(1,2)] h by (auto simp: runnable_def)
qed

lemma ptable_locked_ex: "ptable (locked PtableLock 0 (procs_ex ps)) = ps"
  using kstate_procs(1) [of "locked PtableLock 0 (procs_ex ps)" "procs_ex ps"] by simp

theorem scheduler_rm_witness:
  "\<exists>t. scheduler_next 0 4 (locked PtableLock 0 (procs_ex table_ex)) = Inr (Some 3, t)
    \<and> p_elapsed_time (ptable t ! 3) = 1"
proof -
  let ?s = "locked PtableLock 0 (procs_ex table_ex)"
  have "cursor_at table_ex 4 4" using table_ex_nth(5) by (auto simp: cursor_at_def)
  moreover have "p_sched_policy (table_ex ! 4) = 1" by (simp add: table_ex_def task_def)
  ultimately obtain h u where h: "scheduler_next 0 4 ?s = Inr (Some h, u)" "runnable table_ex h"
    "\<forall>q. runnable table_ex q \<longrightarrow> p_priority (table_ex ! h) < p_priority (table_ex ! q)
         \<or> p_priority (table_ex ! h) = p_priority (table_ex ! q) \<and> p_pid (table_ex ! h) \<le> p_pid (table_ex ! q)"
    "ptable u = table_ex[h := (table_ex ! h)\<lparr>p_elapsed_time := wrap32 (p_elapsed_time (table_ex ! h) + 1),
                                              p_state := RUNNING\<rparr>]"
    using scheduler_rm [OF in_scheduler_ex [OF table_ex_runnable], of 4 4] unfolding ptable_locked_ex by auto
  have "h = 3"
    using table_ex_nth(1) [OF h(2)] h(3) [rule_format, OF table_ex_nth(4)] h(3) [rule_format, OF table_ex_nth(5)]
    by (auto simp: table_ex_def task_def)
  moreover have "p_elapsed_time (table_ex ! 3) = 0" "length table_ex = 5"
    by (simp_all add: table_ex_def task_def proc0_def)
  ultimately show ?thesis using h by (auto simp: int32_def)
qed



text \<open>
  C4. EDF admission: for a process with a positive deadline, sched_policy(pid, 0) computes the
  utilisation \<open>e * 100 / d\<close> in percent and admits the process exactly when the sum of the admitted
  utilisations stays below 100; the sum is then increased and the policy set. Otherwise it returns
  -22, leaves the sum as it was and marks the process killed and ZOMBIE. In both cases the sum stays
  in \<open>0..99\<close> and nothing else of the kernel state changes.
\<close>

theorem edf_admission:
  assumes "syscall_ok s i" "scan (\<lambda>p. p_pid p = pid) (ptable s) = Some j"
    and "0 < p_deadline (ptable s ! j)" "0 \<le> p_execution_time (ptable s ! j)"
      "p_execution_time (ptable s ! j) * 100 + 100 \<le> 2 ^ 31" "0 \<le> utf_edf s" "utf_edf s < 100"
  shows "let u = p_execution_time (ptable s ! j) * 100 div p_deadline (ptable s ! j) in
    \<exists>t. sched_policy pid 0 s = Inr (if utf_edf s + u < 100 then 0 else - 22, t)
      \<and> 0 \<le> utf_edf t \<and> utf_edf t < 100
      \<and> kstate t = kstate (if utf_edf s + u < 100
          then upd_proc j (\<lambda>p. p\<lparr>p_sched_policy := 0\<rparr>) (s\<lparr>utf_edf := utf_edf s + u\<rparr>)
          else upd_proc j (\<lambda>p. p\<lparr>p_killed := True, p_state := ZOMBIE\<rparr>) s)"
proof -
  define u where "u = p_execution_time (ptable s ! j) * 100 div p_deadline (ptable s ! j)"
  have u0: "0 \<le> u" using assms(3,4) by (simp add: u_def pos_imp_zdiv_nonneg_iff)
  let ?K = "if 100 \<le> utf_edf s + u
        then upd_proc j (\<lambda>p. p\<lparr>p_killed := True, p_state := ZOMBIE\<rparr>) s
        else upd_proc j (\<lambda>p. p\<lparr>p_sched_policy := 0\<rparr>) (s\<lparr>utf_edf := utf_edf s + u\<rparr>)"
  have "\<exists>t. sched_policy pid 0 s = Inr (if 100 \<le> utf_edf s + u then - 22 else 0, t)
      \<and> kstate t = kstate ?K \<and> mach_sim (sti s) t"
  proof (rule sched_policy_step [OF assms(1,2)])
    fix w assume k: "kstate w = kstate s"
    show "\<exists>v. (if (0 :: int) = 0 then admit_edf j w
        else if (0 :: int) = 1 then Inr (admit_rm (wrap32 (pid - 2)) j w) else Inr (False, w))
        = Inr (100 \<le> utf_edf s + u, v) \<and> mach v = mach w \<and> kstate v = kstate ?K"
      using admit_edf_eq [OF k assms(3-7)] unfolding u_def by simp
  qed
  then obtain t where t: "sched_policy pid 0 s = Inr (if 100 \<le> utf_edf s + u then - 22 else 0, t)"
    "kstate t = kstate ?K" by blast
  have "utf_edf t = (if 100 \<le> utf_edf s + u then utf_edf s else utf_edf s + u)"
    using kstate_procs(4) [OF t(2)] by auto
  then show ?thesis using t u0 assms(6,7) unfolding u_def [symmetric] Let_def by (auto simp: not_less)
qed

theorem edf_admission_witness:
  "(\<exists>t. sched_policy 4 0 (procs_ex table_ex) = Inr (0, t) \<and> utf_edf t = 42) \<and>
   (\<exists>t. sched_policy 4 0 (procs_ex table_ex\<lparr>utf_edf := 60\<rparr>) = Inr (- 22, t) \<and> utf_edf t = 60)"
proof -
  have p: "scan (\<lambda>p. p_pid p = 4) table_ex = Some 1" "p_deadline (table_ex ! 1) = 7" "p_execution_time (table_ex ! 1) = 3"
    by (simp_all add: table_ex_def task_def)
  have ok: "syscall_ok (procs_ex table_ex\<lparr>utf_edf := 60\<rparr>) 0"
    using procs_ex_ok(1) [of table_ex] by (simp add: syscall_ok_def cpu_ok_def lk_free_def)
  show ?thesis
    using edf_admission [OF procs_ex_ok(1), of 4 table_ex 1] edf_admission [OF ok, of 4 1] p
    by (auto simp: Let_def dest: kstate_procs(4))
qed

text \<open>
  C8. A deadline of 0, which is what allocproc gives every new process, makes sched_policy(pid, 0)
  divide by zero inside the kernel.
\<close>

theorem edf_zero_deadline:
  assumes "syscall_ok s i" "scan (\<lambda>p. p_pid p = pid) (ptable s) = Some j" "p_deadline (ptable s ! j) = 0"
  shows "sched_policy pid 0 s = Inl DivideError"
proof -
  let ?u = "locked PtableLock i (sti s)"
  have "ptable ?u = ptable s" using kstate_procs(1) [of ?u s] by simp
  then have "with_lock PtableLock
       (\<lambda>s. case scan (\<lambda>p. p_pid p = pid) (ptable s) of
          None \<Rightarrow> Inr (False, s)
        | Some j \<Rightarrow>
          if (0 :: int) = 0 then admit_edf j s
          else if (0 :: int) = 1 then Inr (admit_rm (wrap32 (pid - 2)) j s)
          else Inr (False, s)) (sti s) = Inl DivideError"
    using syscall_ok_sti [OF assms(1)] assms(2,3)
    by (intro with_lock_error [of _ i]) (simp_all add: admit_edf_def idiv_def)
  then show ?thesis by (simp add: sched_policy_def)
qed

theorem edf_zero_deadline_witness:
  "sched_policy 5 0 (procs_ex [proc0, (task 5 (- 1) 0 1)]) = Inl DivideError"
  by (rule edf_zero_deadline [OF procs_ex_ok(1), of _ _ 1]) (simp_all add: task_def proc0_def)

text \<open>
  C5. RM admission: sched_policy(pid, 1) adds \<open>e * r * 10\<close> (execution time times rate, in
  thousandths) to the sum of the admitted processes and compares it with the bound for \<open>pid - 2\<close>
  processes. If it is within the bound the sum is updated, the arrival time recorded and the policy
  set; otherwise the call returns -22, the sum is unchanged and the process is killed and ZOMBIE.
\<close>

theorem rm_admission:
  assumes "syscall_ok s i" "scan (\<lambda>p. p_pid p = pid) (ptable s) = Some j" "int32 (pid - 2)"
    and "int32 (p_execution_time (ptable s ! j) * p_rate (ptable s ! j) * 10)"
      "int32 (p_execution_time (ptable s ! j) * p_rate (ptable s ! j))"
      "int32 (utf_rm s + p_execution_time (ptable s ! j) * p_rate (ptable s ! j) * 10)"
  shows "let u = p_execution_time (ptable s ! j) * p_rate (ptable s ! j) * 10 in
    \<exists>t. sched_policy pid 1 s = Inr (if utf_rm s + u \<le> rm_bound (pid - 2) then 0 else - 22, t)
      \<and> kstate t = kstate (if utf_rm s + u \<le> rm_bound (pid - 2)
          then upd_proc j (\<lambda>p. p\<lparr>p_arrival_time := sint (ticks s), p_sched_policy := 1\<rparr>) (s\<lparr>utf_rm := utf_rm s + u\<rparr>)
          else upd_proc j (\<lambda>p. p\<lparr>p_killed := True, p_state := ZOMBIE\<rparr>) s)"
proof -
  define u where "u = p_execution_time (ptable s ! j) * p_rate (ptable s ! j) * 10"
  let ?K = "if rm_bound (pid - 2) < utf_rm s + u
        then upd_proc j (\<lambda>p. p\<lparr>p_killed := True, p_state := ZOMBIE\<rparr>) s
        else upd_proc j (\<lambda>p. p\<lparr>p_arrival_time := sint (ticks s), p_sched_policy := 1\<rparr>) (s\<lparr>utf_rm := utf_rm s + u\<rparr>)"
  have "\<exists>t. sched_policy pid 1 s = Inr (if rm_bound (pid - 2) < utf_rm s + u then - 22 else 0, t)
      \<and> kstate t = kstate ?K \<and> mach_sim (sti s) t"
  proof (rule sched_policy_step [OF assms(1,2)])
    fix w assume k: "kstate w = kstate s"
    show "\<exists>v. (if (1 :: int) = 0 then admit_edf j w
        else if (1 :: int) = 1 then Inr (admit_rm (wrap32 (pid - 2)) j w) else Inr (False, w))
        = Inr (rm_bound (pid - 2) < utf_rm s + u, v) \<and> mach v = mach w \<and> kstate v = kstate ?K"
      using admit_rm_eq [OF k assms(4-6), of "pid - 2"] assms(3) unfolding u_def by auto
  qed
  then show ?thesis unfolding u_def [symmetric] Let_def by (auto simp: not_le)
qed

theorem rm_admission_witness:
  "(\<exists>t. sched_policy 4 1 (procs_ex table_ex) = Inr (0, t) \<and> utf_rm t = 300) \<and>
   (\<exists>t. sched_policy 4 1 (procs_ex table_ex\<lparr>utf_rm := 529\<rparr>) = Inr (- 22, t) \<and> utf_rm t = 529)"
proof -
  have p: "scan (\<lambda>p. p_pid p = 4) table_ex = Some 1" "p_rate (table_ex ! 1) = 10" "p_execution_time (table_ex ! 1) = 3"
    by (simp_all add: table_ex_def task_def)
  have ok: "syscall_ok (procs_ex table_ex\<lparr>utf_rm := 529\<rparr>) 0"
    using procs_ex_ok(1) [of table_ex] by (simp add: syscall_ok_def cpu_ok_def lk_free_def)
  have b: "rm_bound 2 = 828" by (simp add: rm_bound_def rm_bounds_def)
  show ?thesis
    using rm_admission [OF procs_ex_ok(1), of 4 table_ex 1] rm_admission [OF ok, of 4 1] p b
    by (auto simp: Let_def int32_def dest: kstate_procs(5))
qed

text \<open>
  C6. The bounds in the chain of tests are the Liu-Layland bound: for \<open>n\<close> from 1 to 63 processes the
  bound is \<open>n (2^(1/n) - 1)\<close> in thousandths, rounded down.
\<close>

theorem rm_bound_liu_layland:
  assumes "1 \<le> n" "n \<le> 63"
  shows "rm_bound (int n) = \<lfloor>1000 * real n * (root n 2 - 1)\<rfloor>"
  using assms by (rule rm_bound_floor)

theorem rm_bound_liu_layland_witness: "\<lfloor>1000 * real 2 * (root 2 2 - 1)\<rfloor> = 828"
  using rm_bound_liu_layland [of 2] by (simp add: rm_bound_def rm_bounds_def)

text \<open>
  rate(pid, r) stores the rate and gives the process the priority \<open>max 1 \<lceil>3 (30 - r) / 29\<rceil>\<close>, which
  for rates from 1 to 30 is 1, 2 or 3; it returns 0, or -22 and changes nothing if no process has
  that pid.
\<close>

lemma rate_sets_priority:
  assumes "syscall_ok s i" "1 \<le> r" "r \<le> 30"
  shows "\<exists>t. rate pid r s = Inr (if scan (\<lambda>p. p_pid p = pid) (ptable s) = None then - 22 else 0, t)
    \<and> kstate t = kstate (case scan (\<lambda>p. p_pid p = pid) (ptable s) of
        None \<Rightarrow> s
      | Some j \<Rightarrow> upd_proc j (\<lambda>p. p\<lparr>p_rate := r, p_priority := max 1 \<lceil>3 * (30 - real_of_int r) / 29\<rceil>\<rparr>) s)
    \<and> max 1 \<lceil>3 * (30 - real_of_int r) / 29\<rceil> \<in> {1, 2, 3}"
proof -
  have w: "priority_temp r = (118 - 3 * r) div 29"
    using assms by (simp add: priority_temp_def int32_def)
  have c: "\<lceil>3 * (30 - real_of_int r) / 29\<rceil> = (118 - 3 * r) div 29"
  proof -
    define q where "q = (118 - 3 * r) div 29"
    have "29 * q \<le> 118 - 3 * r" "118 - 3 * r < 29 * q + 29"
      using pos_mod_sign [of 29 "118 - 3 * r"] pos_mod_bound [of 29 "118 - 3 * r"]
        mult_div_mod_eq [of 29 "118 - 3 * r"] unfolding q_def by linarith+
    then have "real_of_int (29 * q) < real_of_int (119 - 3 * r)" "real_of_int (90 - 3 * r) \<le> real_of_int (29 * q)"
      unfolding of_int_less_iff of_int_le_iff by linarith+
    then show ?thesis
      unfolding q_def [symmetric] by (intro ceiling_unique) (simp_all add: field_simps)
  qed
  have "(118 - 3 * r) div 29 \<in> {0, 1, 2, 3}"
    using assms(2,3) zdiv_mono1 [of 28 "118 - 3 * r" 29] zdiv_mono1 [of "118 - 3 * r" 115 29] by force
  then have m: "max 1 ((118 - 3 * r) div 29) \<in> {1, 2, 3}" by auto
  have f: "(\<lambda>p. p\<lparr>p_rate := r, p_priority := (if priority_temp r < 1 then 1 else priority_temp r)\<rparr>)
     = (\<lambda>p. p\<lparr>p_rate := r, p_priority := max 1 ((118 - 3 * r) div 29)\<rparr>)"
    by (auto simp: w max_def)
  show ?thesis
    unfolding c rate_def f
    using set_param_step [OF assms(1), of "\<lambda>p. p\<lparr>p_rate := r, p_priority := max 1 ((118 - 3 * r) div 29)\<rparr>" pid] m
    by (cases "scan (\<lambda>p. p_pid p = pid) (ptable s)") (simp_all, blast+)
qed

lemma rate_sets_priority_at:
  "(\<exists>t. rate 4 21 (procs_ex table_ex) = Inr (0, t) \<and> p_priority (ptable t ! 1) = 1) \<and>
   (\<exists>t. rate 99 21 (procs_ex table_ex) = Inr (- 22, t) \<and> ptable t = table_ex)"
proof -
  have p: "scan (\<lambda>p. p_pid p = 4) table_ex = Some 1" "scan (\<lambda>p. p_pid p = 99) table_ex = None" "length table_ex = 5"
    by (simp_all add: table_ex_def task_def proc0_def)
  have "\<lceil>27 / 29 :: real\<rceil> = 1" by (simp add: ceiling_eq_iff)
  then show ?thesis
    using rate_sets_priority [OF procs_ex_ok(1), of 21 4 table_ex] rate_sets_priority [OF procs_ex_ok(1), of 21 99 table_ex] p
    by (auto dest!: kstate_procs(1))
qed

section \<open>Consequences worth knowing\<close>

text \<open>
  The inner loop looks at every runnable process, whatever its policy: a process that never asked
  for a policy keeps deadline 0 and wins against every process with a deadline.
\<close>

lemma edf_background_wins:
  "select_proc [task 3 0 9 2, task 4 (- 1) 0 1] 0 = 1"
  by (simp add: select_proc_def task_def upt_rec Let_def)

text \<open>
  Each utilisation is rounded down before it is added: two processes with execution times 199 and 9
  and deadlines 200 and 1000 are both admitted although \<open>199/200 + 9/1000 > 1\<close>.
\<close>

lemma edf_overcommit:
  "\<exists>t u. admit_edf 0 (procs_ex [(task 3 (- 1) 200 1)\<lparr>p_execution_time := 199\<rparr>,
       (task 4 (- 1) 1000 1)\<lparr>p_execution_time := 9\<rparr>]) = Inr (False, t)
     \<and> admit_edf 1 t = Inr (False, u) \<and> 199 / 200 + 9 / 1000 > (1 :: real)"
  by (simp add: admit_edf_def idiv_def Let_def task_def int32_def)

text \<open>
  The sum is kept in an \<open>int\<close>: an execution time of 21474836 with deadline 1 overflows it, and the
  process is admitted with a negative sum.
\<close>

lemma edf_overflow:
  "\<exists>t. admit_edf 0 ((procs_ex [(task 3 (- 1) 1 1)\<lparr>p_execution_time := 21474836\<rparr>])\<lparr>utf_edf := 50\<rparr>) = Inr (False, t)
     \<and> utf_edf t < 0"
  by (simp add: admit_edf_def idiv_def Let_def task_def int32_def wrap32_def)

text \<open>A pid of 0 names a table entry that is not in use.\<close>

lemma unused_entry_is_found:
  "\<exists>t. exec_time 0 5 (procs_ex [task 3 0 9 2, proc0]) = Inr (0, t) \<and> p_state (ptable t ! 1) = UNUSED"
proof -
  have "scan (\<lambda>p. p_pid p = 0) [task 3 0 9 2, proc0] = Some 1" by (simp add: task_def proc0_def)
  then obtain t where "set_param (\<lambda>p. p\<lparr>p_execution_time := 5\<rparr>) 0 (procs_ex [task 3 0 9 2, proc0]) = Inr (0, t)"
    "kstate t = kstate (upd_proc 1 (\<lambda>p. p\<lparr>p_execution_time := 5\<rparr>) (procs_ex [task 3 0 9 2, proc0]))"
    using set_param_step [OF procs_ex_ok(1), of "\<lambda>p. p\<lparr>p_execution_time := 5\<rparr>" 0 "[task 3 0 9 2, proc0]"] by auto
  then show ?thesis by (auto simp: exec_time_def proc0_def dest!: kstate_procs(1))
qed

end
