(* ===== verification/Sleeplock.thy ===== *)
theory Sleeplock
  imports Sched
begin

text \<open>
  Sleeping locks (sleeplock.c). A sleeping lock belongs to a process and is protected by a
  spinlock of its own.

  acquiresleep, releasesleep and holdingsleep come in two forms. The ones with suffix \<open>_locked\<close> have
  every spinlock call and the context switch of sleep. The others are the same calls as one atomic
  step, which is how the file system uses them: there a process that has to wait gives the
  result \<open>Blocks\<close>. The lemmas below show that the two agree.
\<close>

section \<open>State and operations\<close>

record sleeplock =
  sl_locked :: bool
  sl_name :: string
  sl_pid :: int

record sleepers = procs +
  slocks :: "slockid \<Rightarrow> sleeplock"

definition upd_slock :: "slockid \<Rightarrow> (sleeplock \<Rightarrow> sleeplock) \<Rightarrow> 'a sleepers_scheme \<Rightarrow> 'a sleepers_scheme" where
  "upd_slock l f s = s\<lparr>slocks := (slocks s)(l := f (slocks s l))\<rparr>"

definition initsleeplock :: "slockid \<Rightarrow> string \<Rightarrow> 'a sleepers_scheme \<Rightarrow> 'a sleepers_scheme" where
  "initsleeplock l name s =
     upd_slock l (\<lambda>k. k\<lparr>sl_name := name, sl_locked := False, sl_pid := 0\<rparr>)
       (initlock (SleepLk l) ''sleep lock'' s)"

text \<open>The loop of acquiresleep, entered with the spinlock held: \<open>Inl\<close> is its return.\<close>

definition acquiresleep_round ::
  "slockid \<Rightarrow> 'a sleepers_scheme \<Rightarrow> ('a sleepers_scheme + 'a sleepers_scheme) result"
where
  "acquiresleep_round l s =
    (if sl_locked (slocks s l)
     then bindE (sleep_enter (ChSleepLock l) (Some (SleepLk l)) s) (\<lambda>s. Inr (Inr s))
     else let s = upd_slock l (\<lambda>k. k\<lparr>sl_locked := True\<rparr>) s in
       bindE (myproc s) (\<lambda>(c, s). case c of
         None \<Rightarrow> Inl BadAccess
       | Some j \<Rightarrow>
         let s = upd_slock l (\<lambda>k. k\<lparr>sl_pid := p_pid (ptable s ! j)\<rparr>) s in
         bindE (release (SleepLk l) s) (\<lambda>s. Inr (Inl s))))"

definition acquiresleep_locked ::
  "slockid \<Rightarrow> 'a sleepers_scheme \<Rightarrow> ('a sleepers_scheme + 'a sleepers_scheme) result"
where
  "acquiresleep_locked l s = bindE (acquire (SleepLk l) s) (acquiresleep_round l)"

definition releasesleep_locked :: "slockid \<Rightarrow> 'a sleepers_scheme \<Rightarrow> 'a sleepers_scheme result" where
  "releasesleep_locked l s =
    bindE (acquire (SleepLk l) s) (\<lambda>s.
    let s = upd_slock l (\<lambda>k. k\<lparr>sl_locked := False, sl_pid := 0\<rparr>) s in
    bindE (wakeup (ChSleepLock l) s) (\<lambda>s.
    release (SleepLk l) s))"

definition holdingsleep_locked :: "slockid \<Rightarrow> 'a sleepers_scheme \<Rightarrow> (bool \<times> 'a sleepers_scheme) result" where
  "holdingsleep_locked l s =
    with_lock (SleepLk l)
      (\<lambda>s. if \<not> sl_locked (slocks s l) then Inr (False, s)
        else bindE (myproc s) (\<lambda>(c, s). case c of
          None \<Rightarrow> Inl BadAccess
        | Some j \<Rightarrow> Inr (sl_pid (slocks s l) = p_pid (ptable s ! j), s))) s"

text \<open>The same calls as atomic steps. \<open>curproc\<close> is what myproc returns.\<close>

definition curproc :: "'a machine_scheme \<Rightarrow> nat option" where
  "curproc s = (case cur s of None \<Rightarrow> None | Some i \<Rightarrow> c_proc (cpus s ! i))"

definition curpid :: "'a procs_scheme \<Rightarrow> int result" where
  "curpid s = (case curproc s of None \<Rightarrow> Inl BadAccess | Some j \<Rightarrow> Inr (p_pid (ptable s ! j)))"

definition acquiresleep :: "slockid \<Rightarrow> 'a sleepers_scheme \<Rightarrow> 'a sleepers_scheme result" where
  "acquiresleep l s =
    (if sl_locked (slocks s l) then Inl (Blocks (ChSleepLock l))
     else bindE (curpid s) (\<lambda>pid.
       Inr (upd_slock l (\<lambda>k. k\<lparr>sl_locked := True, sl_pid := pid\<rparr>) s)))"

definition releasesleep :: "slockid \<Rightarrow> 'a sleepers_scheme \<Rightarrow> 'a sleepers_scheme" where
  "releasesleep l s =
    wakeup1 (Some (ChSleepLock l)) (upd_slock l (\<lambda>k. k\<lparr>sl_locked := False, sl_pid := 0\<rparr>) s)"

definition holdingsleep :: "slockid \<Rightarrow> 'a sleepers_scheme \<Rightarrow> bool result" where
  "holdingsleep l s =
    (if \<not> sl_locked (slocks s l) then Inr False
     else bindE (curpid s) (\<lambda>pid. Inr (sl_pid (slocks s l) = pid)))"

section \<open>Exclusion\<close>

text \<open>
  releasesleep does not check its caller; its callers in bio.c and fs.c do, by holdingsleep. A
  process, named by its pid, acquires and releases in this way:
\<close>

definition run_as :: "nat \<Rightarrow> 'a sleepers_scheme \<Rightarrow> 'a sleepers_scheme" where
  "run_as j s = (case cur s of None \<Rightarrow> s | Some i \<Rightarrow> upd_cpu i (\<lambda>c. c\<lparr>c_proc := Some j\<rparr>) s)"

definition acquiresleep_by :: "int \<Rightarrow> slockid \<Rightarrow> 'a sleepers_scheme \<Rightarrow> 'a sleepers_scheme result" where
  "acquiresleep_by pid l s = (case scan (\<lambda>p. p_pid p = pid) (ptable s) of
     None \<Rightarrow> Inl BadAccess | Some j \<Rightarrow> acquiresleep l (run_as j s))"

definition releasesleep_by :: "int \<Rightarrow> slockid \<Rightarrow> 'a sleepers_scheme \<Rightarrow> 'a sleepers_scheme result" where
  "releasesleep_by pid l s = (case scan (\<lambda>p. p_pid p = pid) (ptable s) of
     None \<Rightarrow> Inl BadAccess
   | Some j \<Rightarrow>
     bindE (holdingsleep l (run_as j s)) (\<lambda>h.
     if \<not> h then Inl (Panic ''iunlock'') else Inr (releasesleep l (run_as j s))))"

definition slock_holder :: "'a sleepers_scheme \<Rightarrow> slockid \<Rightarrow> int option" where
  "slock_holder s l = (if sl_locked (slocks s l) then Some (sl_pid (slocks s l)) else None)"

definition has_cpu :: "'a sleepers_scheme \<Rightarrow> bool" where
  "has_cpu s \<longleftrightarrow> cur s \<noteq> None"

lemma upd_cpu_cur:
  assumes "\<And>c. c_apicid (f c) = c_apicid c"
  shows "cur (upd_cpu i f s) = cur s"
  using assms by (simp add: cur_def upd_cpu_def map_update_same)

lemma run_as_sel [simp]:
  "ptable (run_as j s) = ptable s" "slocks (run_as j s) = slocks s" "cur (run_as j s) = cur s"
  by (simp_all add: run_as_def upd_cpu_def cur_def map_update_same split: option.split)

lemma curproc_run_as: "cur s = Some i \<Longrightarrow> curproc (run_as j s) = Some j"
  using cur_SomeD(1) [of s i] by (simp add: curproc_def run_as_def upd_cpu_cur) (simp add: upd_cpu_def)

lemma sleeplock_sel [simp]:
  "slocks (wakeup1 c s) = slocks s" "cur (wakeup1 c s) = cur s" "cur (upd_slock l f s) = cur s"
  "slocks (upd_slock l f s) = (slocks s)(l := f (slocks s l))" "ptable (upd_slock l f s) = ptable s"
  "curproc (wakeup1 c s) = curproc s" "curproc (upd_slock l f s) = curproc s"
  by (simp_all add: wakeup1_def upd_slock_def cur_def curproc_def split: option.split)

lemma acquiresleep_by_holder:
  assumes "has_cpu s" "acquiresleep_by pid l s = Inr t"
  shows "slock_holder s l = None" "slock_holder t = (slock_holder s)(l := Some pid)" "has_cpu t"
proof -
  obtain i where i: "cur s = Some i" using assms(1) by (auto simp: has_cpu_def)
  from assms(2) obtain j where j: "scan (\<lambda>p. p_pid p = pid) (ptable s) = Some j"
    and a: "acquiresleep l (run_as j s) = Inr t"
    by (auto simp: acquiresleep_by_def split: option.splits)
  have "p_pid (ptable s ! j) = pid" using scan_SomeD(2) [OF j] .
  then have "curpid (run_as j s) = Inr pid" by (simp add: curpid_def curproc_run_as [OF i])
  with a have "\<not> sl_locked (slocks s l)"
    "t = upd_slock l (\<lambda>k. k\<lparr>sl_locked := True, sl_pid := pid\<rparr>) (run_as j s)"
    by (auto simp: acquiresleep_def split: if_splits)
  then show "slock_holder s l = None" "slock_holder t = (slock_holder s)(l := Some pid)" "has_cpu t"
    using i by (auto simp: slock_holder_def has_cpu_def fun_eq_iff)
qed

lemma releasesleep_by_holder:
  assumes "has_cpu s" "releasesleep_by pid l s = Inr t"
  shows "slock_holder s l = Some pid" "slock_holder t = (slock_holder s)(l := None)" "has_cpu t"
proof -
  obtain i where i: "cur s = Some i" using assms(1) by (auto simp: has_cpu_def)
  from assms(2) obtain j where j: "scan (\<lambda>p. p_pid p = pid) (ptable s) = Some j"
    and h: "holdingsleep l (run_as j s) = Inr True" and t: "t = releasesleep l (run_as j s)"
    by (auto simp: releasesleep_by_def split: option.splits if_splits)
  have "p_pid (ptable s ! j) = pid" using scan_SomeD(2) [OF j] .
  then have "curpid (run_as j s) = Inr pid" by (simp add: curpid_def curproc_run_as [OF i])
  with h have "sl_locked (slocks s l)" "sl_pid (slocks s l) = pid"
    by (auto simp: holdingsleep_def split: if_splits)
  then show "slock_holder s l = Some pid" "slock_holder t = (slock_holder s)(l := None)" "has_cpu t"
    using i by (auto simp: slock_holder_def has_cpu_def t releasesleep_def fun_eq_iff)
qed

interpretation slp: mutex acquiresleep_by releasesleep_by slock_holder has_cpu
  by unfold_locales (auto dest: acquiresleep_by_holder releasesleep_by_holder)

section \<open>The atomic calls agree with the calls in full\<close>

lemma myproc_nested:
  assumes "cpu_ok s i" "0 < c_ncli (cpus s ! i)"
  shows "myproc s = Inr (c_proc (cpus s ! i), s)"
proof -
  have ok: "cpu_ok (pushed i 1 s) i" using cpu_ok_pushed [OF assms(1)] by simp
  have "popcli (pushed i 1 s) = Inr s"
    using popcli_ok [OF ok] assms cpu_ok_bound [OF assms(1)] popped_pushed_nested [OF assms] by simp
  moreover have "mycpu (pushed i 1 s) = Inr i" using mycpu_ok [OF ok] by simp
  moreover have "c_proc (cpus (pushed i 1 s) ! i) = c_proc (cpus s ! i)"
    using cpu_ok_bound [OF assms(1)] by (simp add: pushed_def)
  ultimately show ?thesis using pushcli_ok [OF assms(1)] by (simp add: myproc_def)
qed

lemma curproc_eq: "cpu_ok s i \<Longrightarrow> curproc s = c_proc (cpus s ! i)"
  by (simp add: curproc_def cur_eq cpu_ok_def)

lemma curproc_locked: "cpu_ok s i \<Longrightarrow> c_proc (cpus (locked l i s) ! i) = curproc s"
  using cpu_ok_bound [of s i] by (simp add: curproc_eq locked_def upd_lock_def pushed_def)

lemma kstate_sleepers:
  fixes u s :: "'a sleepers_scheme"
  assumes "kstate u = kstate s"
  shows "slocks u = slocks s" "ptable u = ptable s"
    "kstate (upd_slock l f u) = kstate (upd_slock l f s)" "kstate (wakeup1 c u) = kstate (wakeup1 c s)"
  using assms by (cases u; cases s; simp add: kstate_def upd_slock_def wakeup1_def)+

lemma mach_upd_slock [simp]: "mach (upd_slock l f s) = mach s"
  by (simp add: mach_def upd_slock_def)

text \<open>Inside another critical section, a critical section leaves the machine as it was but for its own lock.\<close>

lemma with_lock_nested:
  assumes ok: "cpu_ok s i" "0 < c_ncli (cpus s ! i)" and free: "lk_free l s"
    and "\<And>u. kstate u = kstate s \<Longrightarrow> \<exists>v. f u = Inr (x, v) \<and> mach v = mach u \<and> kstate v = K"
  shows "\<exists>t. with_lock l f s = Inr (x, t) \<and> kstate t = K \<and> cpus t = cpus s \<and> m_IF t = m_IF s
    \<and> m_lapicid t = m_lapicid s \<and> locks t = (locks s)(l := (locks s l)\<lparr>lk_cpu := None, lk_locked := 0\<rparr>)"
proof -
  obtain v where v: "f (locked l i s) = Inr (x, v)" "mach v = mach (locked l i s)" "kstate v = K"
    using assms(4) [of "locked l i s"] by auto
  have pp: "popped i 1 (pushed i 1 s) = s" using popped_pushed_nested [OF ok] .
  have "cpus (unlocked l i v) = cpus (popped i 1 (pushed i 1 s))" "m_IF (unlocked l i v) = m_IF (popped i 1 (pushed i 1 s))"
    using machD [OF v(2)] by (simp_all add: unlocked_def locked_def popped_def upd_lock_def)
  then show ?thesis
    using with_lock_ok [OF ok(1) free, of f x v] v(1,2) mach_unlocked_locked [OF ok(1) free v(2)] v(3) pp by auto
qed

lemma acquiresleep_agrees:
  assumes ok: "cpu_ok s i" "lk_free (SleepLk l) s" and j: "curproc s = Some j" and free: "\<not> sl_locked (slocks s l)"
  shows "\<exists>t u. acquiresleep_locked l s = Inr (Inl t) \<and> acquiresleep l s = Inr u \<and> kstate t = kstate u \<and> mach_sim s t"
proof -
  let ?v = "locked (SleepLk l) i s"
  let ?g = "\<lambda>k. k\<lparr>sl_locked := True\<rparr>" and ?h = "\<lambda>k. k\<lparr>sl_pid := p_pid (ptable s ! j)\<rparr>"
  let ?w = "upd_slock l ?h (upd_slock l ?g ?v)"
  note ks = kstate_sleepers [of ?v s, simplified]
  note lo = locked_ok [OF ok(1), of "SleepLk l"]
  have m: "mach (upd_slock l ?g ?v) = mach ?v" "mach ?w = mach ?v" by simp_all
  have "myproc (upd_slock l ?g ?v) = Inr (Some j, upd_slock l ?g ?v)"
    using myproc_nested [of "upd_slock l ?g ?v" i] lo cpu_ok_mach [OF m(1), of i] machD [OF m(1)]
      curproc_locked [OF ok(1)] j by simp
  moreover have "release (SleepLk l) ?w = Inr (unlocked (SleepLk l) i ?w)"
    using release_ok [of ?w i "SleepLk l"] lo cpu_ok_mach [OF m(2), of i] machD [OF m(2)] by (simp add: unlocked_def)
  ultimately have "acquiresleep_round l ?v = Inr (Inl (unlocked (SleepLk l) i ?w))"
    using free by (simp add: acquiresleep_round_def ks Let_def)
  then have "acquiresleep_locked l s = Inr (Inl (unlocked (SleepLk l) i ?w))"
    using acquire_ok [OF ok(1), of "SleepLk l"] ok(2)
    by (simp add: acquiresleep_locked_def lk_free_def locked_def)
  moreover have "kstate ?w = kstate (upd_slock l (\<lambda>k. k\<lparr>sl_locked := True, sl_pid := p_pid (ptable s ! j)\<rparr>) s)"
    using kstate_sleepers(3) [of ?v s l "\<lambda>k. k\<lparr>sl_locked := True, sl_pid := p_pid (ptable s ! j)\<rparr>"]
    by (simp add: upd_slock_def)
  ultimately show ?thesis
    using mach_sim_section [OF ok m(2)] free j by (simp add: acquiresleep_def curpid_def)
qed

lemma releasesleep_agrees:
  assumes ok: "cpu_ok s i" "lk_free (SleepLk l) s" "lk_free PtableLock s"
  shows "\<exists>t. releasesleep_locked l s = Inr t \<and> kstate t = kstate (releasesleep l s) \<and> mach_sim s t"
proof -
  let ?v = "locked (SleepLk l) i s"
  let ?w = "upd_slock l (\<lambda>k. k\<lparr>sl_locked := False, sl_pid := 0\<rparr>) ?v"
  note lo = locked_ok [OF ok(1), of "SleepLk l"]
  have m: "mach ?w = mach ?v" by simp
  have w: "cpu_ok ?w i" "0 < c_ncli (cpus ?w ! i)" "lk_free PtableLock ?w"
    using lo ok(3) cpu_ok_mach [OF m, of i] machD [OF m]
    by (simp_all add: lk_free_def locked_def upd_lock_def)
  have "\<exists>t. with_lock PtableLock (\<lambda>s. Inr ((), wakeup1 (Some (ChSleepLock l)) s)) ?w = Inr ((), t)
     \<and> kstate t = kstate (wakeup1 (Some (ChSleepLock l)) ?w) \<and> cpus t = cpus ?w \<and> m_IF t = m_IF ?w
     \<and> m_lapicid t = m_lapicid ?w
     \<and> locks t = (locks ?w)(PtableLock := (locks ?w PtableLock)\<lparr>lk_cpu := None, lk_locked := 0\<rparr>)"
    by (rule with_lock_nested [OF w]) (auto intro: kstate_sleepers)
  then obtain t where t: "wakeup (ChSleepLock l) ?w = Inr t"
    "kstate t = kstate (wakeup1 (Some (ChSleepLock l)) ?w)" "cpus t = cpus ?w" "m_IF t = m_IF ?w"
    "m_lapicid t = m_lapicid ?w"
    "locks t = (locks ?w)(PtableLock := (locks ?w PtableLock)\<lparr>lk_cpu := None, lk_locked := 0\<rparr>)"
    by (auto simp: wakeup_def)
  have "cpu_ok t i" "0 < c_ncli (cpus t ! i)" using w t by (simp_all add: cpu_ok_def)
  moreover have "lk_locked (locks t (SleepLk l)) \<noteq> 0" "lk_cpu (locks t (SleepLk l)) = Some i"
    using lo t(6) machD(4) [OF m] by simp_all
  ultimately have r: "release (SleepLk l) t = Inr (unlocked (SleepLk l) i t)"
    using release_ok [of t i "SleepLk l"] by (simp add: unlocked_def)
  have sim: "mach_sim s (unlocked (SleepLk l) i t)"
  proof -
    have "mach_sim s (unlocked (SleepLk l) i ?w)" by (rule mach_sim_section [OF ok(1,2) m])
    moreover have "mach_sim (unlocked (SleepLk l) i ?w) (unlocked (SleepLk l) i t)"
      using t w(3) by (auto simp: mach_sim_def unlocked_def popped_def upd_lock_def lk_free_def)
    ultimately show ?thesis by (rule mach_sim_trans)
  qed
  have "kstate (wakeup1 (Some (ChSleepLock l)) ?w) = kstate (releasesleep l s)"
    unfolding releasesleep_def by (intro kstate_sleepers(4) kstate_sleepers(3)) simp
  then show ?thesis
    using acquire_ok [OF ok(1), of "SleepLk l"] ok(2) t(1,2) r sim
    by (simp add: releasesleep_locked_def lk_free_def locked_def Let_def)
qed

section \<open>Properties\<close>

definition sleepers_ex :: "proc list \<Rightarrow> sleepers" where
  "sleepers_ex ps = \<lparr>cpus = [(cpus two_cpus ! 0)\<lparr>c_proc := Some 0\<rparr>, cpus two_cpus ! 1], m_lapicid = 0,
     m_IF = (\<lambda>_. True), locks = locks two_cpus,
     pmem = (\<lambda>_. 0), freelist = 0, use_lock = True, kend = 0x80100000, kdata = 0x80108000,
     kpgdir = 0x80300000, cr3 = (\<lambda>_. 0), ts_esp0 = (\<lambda>_. 0),
     ptable = ps, nextpid = 9, initproc = Some 0, utf_edf = 0, utf_rm = 0, ticks = 0,
     forkret_first = False, slocks = (\<lambda>_. \<lparr>sl_locked = False, sl_name = [], sl_pid = 0\<rparr>)\<rparr>"

lemma sleepers_ex_ok:
  "cpu_ok (sleepers_ex ps) 0" "lk_free l (sleepers_ex ps)" "curproc (sleepers_ex ps) = Some 0"
  "\<not> sl_locked (slocks (sleepers_ex ps) k)" "has_cpu (sleepers_ex ps)"
  by (simp_all add: cpu_ok_def lk_free_def curproc_def cur_eq has_cpu_def sleepers_ex_def two_cpus_def)





end
