(* ===== verification/Ide.thy ===== *)
theory Ide
  imports Bytes Sleeplock
begin

unbundle bit_operations_syntax

text \<open>
  The disk driver (ide.c), the memory disk (memide.c) and the disk buffers of buf.h it transfers.
  The drive is what it stores: \<open>disk d n\<close> is sector \<open>n\<close> of drive \<open>d\<close>. A command addresses
  a sector through the registers 0x1f2 to 0x1f6, which \<open>ide_target\<close> decodes the way a drive
  with 28-bit addresses does; \<open>ide_status\<close> is the status register. \<open>dtrace\<close> is the history of
  sector writes, kept to reason about a crash between two of them. A process that waits for a
  transfer in iderw is woken by interrupts, so its wait is a sequence of calls of ideintr.
\<close>

section \<open>Data\<close>

definition BSIZE :: nat where "BSIZE = 512"
definition FSSIZE :: u32 where "FSSIZE = 1000"

record buf =
  b_valid :: bool
  b_dirty :: bool
  b_dev :: u32
  b_blockno :: u32
  b_refcnt :: u32
  b_data :: "u8 list"

record disks = sleepers +
  bufs :: "buf list"
  idequeue :: "nat list"
  havedisk1 :: bool
  disk :: "u32 \<Rightarrow> u32 \<Rightarrow> u8 list"
  ide_status :: u8
  dtrace :: "(u32 \<times> u32 \<times> u8 list) list"

definition upd_buf :: "nat \<Rightarrow> (buf \<Rightarrow> buf) \<Rightarrow> 'a disks_scheme \<Rightarrow> 'a disks_scheme" where
  "upd_buf b f s = s\<lparr>bufs := (bufs s)[b := f (bufs s ! b)]\<rparr>"

section \<open>The drive\<close>

record ide_regs =
  r_count :: u8
  r_lba0 :: u8
  r_lba1 :: u8
  r_lba2 :: u8
  r_device :: u8

definition ide_target :: "ide_regs \<Rightarrow> u32 \<times> u32" where
  "ide_target r =
    (drop_bit 4 (ucast (r_device r)) AND 1,
     ucast (r_lba0 r) OR push_bit 8 (ucast (r_lba1 r)) OR push_bit 16 (ucast (r_lba2 r))
       OR push_bit 24 (ucast (r_device r) AND 0x0f))"

definition disk_write :: "u32 \<times> u32 \<Rightarrow> u8 list \<Rightarrow> 'a disks_scheme \<Rightarrow> 'a disks_scheme" where
  "disk_write a d s = s\<lparr>disk := (disk s)(fst a := (disk s (fst a))(snd a := d)),
     dtrace := dtrace s @ [(fst a, snd a, d)]\<rparr>"

section \<open>The driver\<close>

definition IDE_BSY :: u8 where "IDE_BSY = 0x80"
definition IDE_DRDY :: u8 where "IDE_DRDY = 0x40"
definition IDE_DF :: u8 where "IDE_DF = 0x20"
definition IDE_ERR :: u8 where "IDE_ERR = 0x01"

definition idewait :: "bool \<Rightarrow> 'a disks_scheme \<Rightarrow> int result" where
  "idewait checkerr s =
    (if ide_status s AND (IDE_BSY OR IDE_DRDY) \<noteq> IDE_DRDY then Inl Diverges
     else if checkerr \<and> ide_status s AND (IDE_DF OR IDE_ERR) \<noteq> 0 then Inr (- 1)
     else Inr 0)"

text \<open>\<open>polls\<close> are the values that the thousand reads of the status of disk 1 give.\<close>

definition ideinit :: "u8 list \<Rightarrow> 'a disks_scheme \<Rightarrow> 'a disks_scheme result" where
  "ideinit polls s =
    (let s = initlock IdeLock ''ide'' s in
     bindE (idewait False s) (\<lambda>_.
     Inr (s\<lparr>havedisk1 := havedisk1 s \<or> (\<exists>r \<in> set (take 1000 polls). r \<noteq> 0)\<rparr>)))"

definition ide_select :: "u32 \<Rightarrow> u32 \<Rightarrow> ide_regs" where
  "ide_select dev sector = \<lparr>r_count = 1, r_lba0 = ucast (sector AND 0xff),
     r_lba1 = ucast (drop_bit 8 sector AND 0xff), r_lba2 = ucast (drop_bit 16 sector AND 0xff),
     r_device = ucast (0xe0 OR push_bit 4 (dev AND 1) OR (drop_bit 24 sector AND 0x0f))\<rparr>"

definition idestart :: "nat option \<Rightarrow> 'a disks_scheme \<Rightarrow> 'a disks_scheme result" where
  "idestart c s = (case c of
     None \<Rightarrow> Inl (Panic ''idestart'')
   | Some b \<Rightarrow>
     let x = bufs s ! b in
     if FSSIZE \<le> b_blockno x then Inl (Panic ''incorrect blockno'')
     else bindE (idewait False s) (\<lambda>_.
       let r = ide_select (b_dev x) (b_blockno x) in
       Inr (if b_dirty x then disk_write (ide_target r) (b_data x) s else s)))"

definition ideintr :: "'a disks_scheme \<Rightarrow> 'a disks_scheme result" where
  "ideintr s = (case idequeue s of
     [] \<Rightarrow> Inr s
   | b # q \<Rightarrow>
     let s = s\<lparr>idequeue := q\<rparr>; x = bufs s ! b in
     bindE (if \<not> b_dirty x
            then bindE (idewait True s) (\<lambda>r.
              let (d, n) = ide_target (ide_select (b_dev x) (b_blockno x)) in
              Inr (if r \<ge> 0 then upd_buf b (\<lambda>x. x\<lparr>b_data := disk s d n\<rparr>) s else s))
            else Inr s) (\<lambda>s.
     let s = upd_buf b (\<lambda>x. x\<lparr>b_valid := True, b_dirty := False\<rparr>) s;
         s = wakeup1 (Some (ChBuf b)) s in
     if q \<noteq> [] then idestart (Some (hd q)) s else Inr s))"

definition ide_done :: "nat \<Rightarrow> 'a disks_scheme \<Rightarrow> bool" where
  "ide_done b s \<longleftrightarrow> b_valid (bufs s ! b) \<and> \<not> b_dirty (bufs s ! b)"

definition iderw :: "nat \<Rightarrow> 'a disks_scheme \<Rightarrow> 'a disks_scheme result" where
  "iderw b s =
    bindE (holdingsleep (BufLock b) s) (\<lambda>h.
    if \<not> h then Inl (Panic ''iderw: buf not locked'')
    else if ide_done b s then Inl (Panic ''iderw: nothing to do'')
    else if b_dev (bufs s ! b) \<noteq> 0 \<and> \<not> havedisk1 s then Inl (Panic ''iderw: ide disk 1 not present'')
    else
      let s = s\<lparr>idequeue := idequeue s @ [b]\<rparr> in
      bindE (if hd (idequeue s) = b then idestart (Some b) s else Inr s) (\<lambda>s.
      bindE (loopE (length (idequeue s)) (\<lambda>s. \<not> ide_done b s) (\<lambda>s. bindE (ideintr s) (\<lambda>s. Inr (Inr s))) s) (\<lambda>x.
      case x of Inl s \<Rightarrow> Inr s | Inr s \<Rightarrow> Inr s)))"

section \<open>The memory disk\<close>

text \<open>The linked image has \<open>disksize\<close> blocks; it is drive 1 of the kernel built with it.\<close>

definition memide_iderw :: "u32 \<Rightarrow> nat \<Rightarrow> 'a disks_scheme \<Rightarrow> 'a disks_scheme result" where
  "memide_iderw disksize b s =
    bindE (holdingsleep (BufLock b) s) (\<lambda>h.
    let x = bufs s ! b in
    if \<not> h then Inl (Panic ''iderw: buf not locked'')
    else if ide_done b s then Inl (Panic ''iderw: nothing to do'')
    else if b_dev x \<noteq> 1 then Inl (Panic ''iderw: request not for disk 1'')
    else if disksize \<le> b_blockno x then Inl (Panic ''iderw: block out of range'')
    else
      let s = (if b_dirty x
               then disk_write (1, b_blockno x) (b_data x) (upd_buf b (\<lambda>x. x\<lparr>b_dirty := False\<rparr>) s)
               else upd_buf b (\<lambda>y. y\<lparr>b_data := disk s 1 (b_blockno x)\<rparr>) s) in
      Inr (upd_buf b (\<lambda>x. x\<lparr>b_valid := True\<rparr>) s))"

section \<open>Lemmas\<close>

text \<open>The drive reads from the registers the drive and the sector that the driver means.\<close>

lemma bit_e0: "bit (0xe0 :: int) k \<longleftrightarrow> k = 5 \<or> k = 6 \<or> k = 7"
proof -
  have e: "(0xe0 :: int) = push_bit 5 (mask 3)" by (simp add: mask_eq_exp_minus_1)
  show ?thesis unfolding e by (auto simp: bit_simps)
qed

text \<open>The drive reads from the registers the drive and the sector that the driver means.\<close>

lemma ide_target_select:
  assumes "n < FSSIZE"
  shows "ide_target (ide_select dev n) = (dev AND 1, n)"
proof -
  have un: "unat n < 1000" using assms by (simp add: FSSIZE_def word_less_nat_alt)
  have hi: "drop_bit 16 n = 0" "drop_bit 24 n = 0"
    using un by (simp_all add: word_unat_eq_iff drop_bit_eq_div unat_div)
  have m: "(0xff :: u32) = mask 8" "(0x0f :: u32) = mask 4" "(1 :: u32) = mask 1"
    by (simp_all add: mask_eq_exp_minus_1)
  have f: "drop_bit 4 (ucast (ucast (0xe0 OR push_bit 4 (dev AND 1)) :: u8)) AND 1 = dev AND (1 :: u32)"
    "(ucast (ucast (0xe0 OR push_bit 4 (dev AND 1)) :: u8)) AND 0x0f = (0 :: u32)"
    unfolding m by (rule bit_word_eqI, auto simp: bit_simps bit_e0)+
  have "drop_bit 8 n AND 0xff = drop_bit 8 n"
    using un by (simp add: m(1) flip: take_bit_eq_mask) (simp add: word_unat_eq_iff drop_bit_eq_div take_bit_eq_mod unat_div unat_mod)
  moreover have "ucast (ucast (n AND 0xff) :: u8) OR push_bit 8 (ucast (ucast (drop_bit 8 n AND 0xff) :: u8)) = (take_bit 16 n :: u32)"
    unfolding m by (rule bit_word_eqI) (auto simp: bit_simps)
  moreover have "take_bit 16 n = n" using un by (simp add: word_unat_eq_iff take_bit_eq_mod unat_mod)
  ultimately show ?thesis
    unfolding ide_target_def ide_select_def ide_regs.simps hi using f by simp
qed

definition disk_ok :: "'a disks_scheme \<Rightarrow> bool" where
  "disk_ok s \<longleftrightarrow> ide_status s AND (IDE_BSY OR IDE_DRDY) = IDE_DRDY
     \<and> ide_status s AND (IDE_DF OR IDE_ERR) = 0 \<and> havedisk1 s"

lemma idewait_ok [simp]: "disk_ok s \<Longrightarrow> idewait c s = Inr 0"
  by (simp add: disk_ok_def idewait_def)

lemma disks_sel [simp]:
  "bufs (upd_slock l g s) = bufs s" "idequeue (upd_slock l g s) = idequeue s" "disk (upd_slock l g s) = disk s"
  "dtrace (upd_slock l g s) = dtrace s" "disk_ok (upd_slock l g s) = disk_ok s"
  "bufs (wakeup1 c s) = bufs s" "idequeue (wakeup1 c s) = idequeue s" "disk (wakeup1 c s) = disk s"
  "dtrace (wakeup1 c s) = dtrace s" "disk_ok (wakeup1 c s) = disk_ok s"
  by (simp_all add: upd_slock_def wakeup1_def disk_ok_def)

lemma upd_buf_sel [simp]:
  "bufs (upd_buf b f s) = (bufs s)[b := f (bufs s ! b)]" "idequeue (upd_buf b f s) = idequeue s"
  "disk (upd_buf b f s) = disk s" "dtrace (upd_buf b f s) = dtrace s" "disk_ok (upd_buf b f s) = disk_ok s"
  "slocks (upd_buf b f s) = slocks s" "ptable (upd_buf b f s) = ptable s" "curproc (upd_buf b f s) = curproc s"
  "cur (upd_buf b f s) = cur s"
  by (simp_all add: upd_buf_def disk_ok_def curproc_def cur_def split: option.split)

lemma disk_write_sel [simp]:
  "bufs (disk_write a d s) = bufs s" "idequeue (disk_write a d s) = idequeue s"
  "disk (disk_write a d s) = (disk s)(fst a := (disk s (fst a))(snd a := d))"
  "dtrace (disk_write a d s) = dtrace s @ [(fst a, snd a, d)]" "disk_ok (disk_write a d s) = disk_ok s"
  "slocks (disk_write a d s) = slocks s" "ptable (disk_write a d s) = ptable s"
  "curproc (disk_write a d s) = curproc s" "cur (disk_write a d s) = cur s"
  by (simp_all add: disk_write_def disk_ok_def curproc_def cur_def split: option.split)

lemma idequeue_sel [simp]:
  "disk_ok (s\<lparr>idequeue := q\<rparr>) = disk_ok s" "curproc (s\<lparr>idequeue := q\<rparr>) = curproc s" "cur (s\<lparr>idequeue := q\<rparr>) = cur s"
  by (simp_all add: disk_ok_def curproc_def cur_def split: option.split)

lemma idestart_ok:
  "disk_ok s \<Longrightarrow> b_blockno (bufs s ! b) < FSSIZE \<Longrightarrow> idestart (Some b) s =
    Inr (if b_dirty (bufs s ! b)
         then disk_write (b_dev (bufs s ! b) AND 1, b_blockno (bufs s ! b)) (b_data (bufs s ! b)) s else s)"
  by (simp add: idestart_def Let_def ide_target_select not_le [symmetric])

text \<open>What the interrupt does with the buffer at the head of the queue.\<close>

definition ide_finish :: "nat \<Rightarrow> 'a disks_scheme \<Rightarrow> 'a disks_scheme" where
  "ide_finish b s = wakeup1 (Some (ChBuf b)) (upd_buf b (\<lambda>x. x\<lparr>
     b_data := (if b_dirty x then b_data x else disk s (b_dev x AND 1) (b_blockno x)),
     b_valid := True, b_dirty := False\<rparr>) s)"

lemma ideintr_ok:
  assumes "disk_ok s" "idequeue s = b # q" "b_blockno (bufs s ! b) < FSSIZE" "b < length (bufs s)"
  shows "ideintr s = (let t = ide_finish b (s\<lparr>idequeue := q\<rparr>) in
    if q = [] then Inr t else idestart (Some (hd q)) t)"
  using assms by (simp add: ideintr_def ide_finish_def ide_target_select Let_def)
    (simp add: upd_buf_def wakeup1_def)

lemma ide_finish_sel [simp]:
  "disk_ok (ide_finish b s) = disk_ok s" "idequeue (ide_finish b s) = idequeue s"
  "disk (ide_finish b s) = disk s" "dtrace (ide_finish b s) = dtrace s" "length (bufs (ide_finish b s)) = length (bufs s)"
  "b < length (bufs s) \<Longrightarrow> ide_done b (ide_finish b s)"
  "i \<noteq> b \<Longrightarrow> bufs (ide_finish b s) ! i = bufs s ! i"
  by (simp_all add: ide_finish_def ide_done_def)

lemma ide_finish_key [simp]:
  "b_blockno (bufs (ide_finish b s) ! i) = b_blockno (bufs s ! i)"
  "b_dev (bufs (ide_finish b s) ! i) = b_dev (bufs s ! i)"
proof -
  have "b_blockno (bufs (ide_finish b s) ! i) = b_blockno (bufs s ! i) \<and>
    b_dev (bufs (ide_finish b s) ! i) = b_dev (bufs s ! i)"
  proof (cases "i = b \<and> b < length (bufs s)")
    case False
    then show ?thesis by (auto simp: ide_finish_def nth_list_update list_update_beyond not_less)
  qed (simp add: ide_finish_def)
  then show "b_blockno (bufs (ide_finish b s) ! i) = b_blockno (bufs s ! i)"
    "b_dev (bufs (ide_finish b s) ! i) = b_dev (bufs s ! i)" by simp_all
qed

text \<open>The requests ahead of \<open>b\<close> are served one per interrupt, in order, and then \<open>b\<close> itself.\<close>

definition ide_pending :: "'a disks_scheme \<Rightarrow> nat \<Rightarrow> bool" where
  "ide_pending s b \<longleftrightarrow> b < length (bufs s) \<and> b_blockno (bufs s ! b) < FSSIZE \<and> \<not> ide_done b s"

definition ide_synced :: "nat \<Rightarrow> 'a disks_scheme \<Rightarrow> 'a disks_scheme \<Rightarrow> bool" where
  "ide_synced b s t \<longleftrightarrow>
     ide_done b t \<and> b_dev (bufs t ! b) = b_dev (bufs s ! b) \<and> b_blockno (bufs t ! b) = b_blockno (bufs s ! b)
     \<and> b_data (bufs t ! b) = disk t (b_dev (bufs s ! b) AND 1) (b_blockno (bufs s ! b))
     \<and> (b_dirty (bufs s ! b) \<longrightarrow> b_data (bufs t ! b) = b_data (bufs s ! b))"

definition ide_wait :: "nat \<Rightarrow> nat \<Rightarrow> 'a disks_scheme \<Rightarrow> ('a disks_scheme + 'a disks_scheme) result" where
  "ide_wait n b = loopE n (\<lambda>s. \<not> ide_done b s) (\<lambda>s. bindE (ideintr s) (\<lambda>s. Inr (Inr s)))"

lemma ide_drain:
  assumes "disk_ok s" "idequeue s = q @ [b]" "distinct (q @ [b])" "\<forall>x \<in> set (q @ [b]). ide_pending s x"
    and "q = [] \<and> b_dirty (bufs s ! b) \<longrightarrow>
      disk s (b_dev (bufs s ! b) AND 1) (b_blockno (bufs s ! b)) = b_data (bufs s ! b)"
  shows "\<exists>t. ide_wait (Suc (length q)) b s = Inr (Inr t) \<and> idequeue t = [] \<and> ide_synced b s t"
  using assms
proof (induction q arbitrary: s)
  case Nil
  let ?t = "ide_finish b (s\<lparr>idequeue := []\<rparr>)"
  have b: "b < length (bufs s)" "\<not> ide_done b s" "b_blockno (bufs s ! b) < FSSIZE"
    using Nil.prems(4) by (simp_all add: ide_pending_def)
  have "ideintr s = Inr ?t" using ideintr_ok [OF Nil.prems(1), of b "[]"] Nil.prems(2) b by simp
  moreover have "ide_synced b s ?t" using Nil.prems(5) b by (simp add: ide_synced_def ide_finish_def ide_done_def)
  moreover from this have "ide_done b ?t" by (simp add: ide_synced_def)
  ultimately show ?case using b by (simp add: ide_wait_def)
next
  case (Cons a q)
  let ?u = "ide_finish a (s\<lparr>idequeue := q @ [b]\<rparr>)"
  let ?h = "hd (q @ [b])"
  have a: "a < length (bufs s)" "b_blockno (bufs s ! a) < FSSIZE" using Cons.prems(4) by (simp_all add: ide_pending_def)
  have ne: "a \<noteq> b" "?h \<noteq> a" "?h \<in> set (q @ [b])" using Cons.prems(3) by (cases q; auto)+
  then have h: "b_blockno (bufs ?u ! ?h) < FSSIZE" using Cons.prems(4) by (auto simp: ide_pending_def)
  obtain v where v: "idestart (Some ?h) ?u = Inr v" "disk_ok v" "idequeue v = q @ [b]" "bufs v = bufs ?u"
    "b_dirty (bufs ?u ! ?h) \<longrightarrow> disk v (b_dev (bufs ?u ! ?h) AND 1) (b_blockno (bufs ?u ! ?h)) = b_data (bufs ?u ! ?h)"
    using idestart_ok [of ?u ?h, OF _ h] Cons.prems(1) by simp
  have i: "ideintr s = Inr v" using ideintr_ok [OF Cons.prems(1), of a "q @ [b]"] Cons.prems(2) a v(1) by simp
  have vb: "bufs v ! x = bufs s ! x" if "x \<in> set (q @ [b])" for x
    using that Cons.prems(3) v(4) by (cases "x = a") auto
  have "\<forall>x \<in> set (q @ [b]). ide_pending v x"
    using Cons.prems(4) vb v(4) by (auto simp: ide_pending_def ide_done_def)
  moreover have "q = [] \<and> b_dirty (bufs v ! b) \<longrightarrow>
      disk v (b_dev (bufs v ! b) AND 1) (b_blockno (bufs v ! b)) = b_data (bufs v ! b)"
    using v(4,5) by auto
  ultimately obtain t where t: "ide_wait (Suc (length q)) b v = Inr (Inr t)" "idequeue t = []" "ide_synced b v t"
    using Cons.IH [OF v(2,3)] Cons.prems(3) by auto
  have "\<not> ide_done b s" using Cons.prems(4) by (simp add: ide_pending_def)
  then have "ide_wait (Suc (length (a # q))) b s = Inr (Inr t)" using i t(1) by (simp add: ide_wait_def)
  moreover have "ide_synced b s t" using t(3) vb [of b] by (auto simp: ide_synced_def)
  ultimately show ?case using t(2) by blast
qed

lemma iderw_unfold:
  assumes "holdingsleep (BufLock b) s = Inr True" "\<not> ide_done b s" "disk_ok s"
  shows "iderw b s = (let s = s\<lparr>idequeue := idequeue s @ [b]\<rparr> in
      bindE (if hd (idequeue s) = b then idestart (Some b) s else Inr s) (\<lambda>s.
      bindE (ide_wait (length (idequeue s)) b s) (\<lambda>x. case x of Inl s \<Rightarrow> Inr s | Inr s \<Rightarrow> Inr s)))"
  using assms by (simp add: iderw_def ide_wait_def disk_ok_def)

text \<open>With no request before it, a transfer is one interrupt.\<close>

lemma iderw_idle:
  assumes "holdingsleep (BufLock b) s = Inr True" "disk_ok s" "ide_pending s b" "idequeue s = []"
  shows "iderw b s = Inr (ide_finish b (if b_dirty (bufs s ! b)
     then disk_write (b_dev (bufs s ! b) AND 1, b_blockno (bufs s ! b)) (b_data (bufs s ! b)) s else s))"
proof -
  let ?s = "s\<lparr>idequeue := [b]\<rparr>"
  let ?v = "if b_dirty (bufs s ! b)
     then disk_write (b_dev (bufs s ! b) AND 1, b_blockno (bufs s ! b)) (b_data (bufs s ! b)) ?s else ?s"
  have p: "\<not> ide_done b s" "b < length (bufs s)" "b_blockno (bufs s ! b) < FSSIZE"
    using assms(3) by (simp_all add: ide_pending_def)
  have v: "disk_ok ?v" "idequeue ?v = [b]" "bufs ?v = bufs s" using assms(2) by simp_all
  have "ideintr ?v = Inr (ide_finish b (?v\<lparr>idequeue := []\<rparr>))"
    using ideintr_ok [OF v(1), of b "[]"] p v by simp
  moreover have "ide_done b (ide_finish b (?v\<lparr>idequeue := []\<rparr>))" using p(2) v(3) by simp
  moreover have "\<not> ide_done b ?v" using p(1) unfolding ide_done_def v(3) .
  ultimately have "ide_wait 1 b ?v = Inr (Inr (ide_finish b (?v\<lparr>idequeue := []\<rparr>)))" by (simp add: ide_wait_def)
  moreover have "?v\<lparr>idequeue := []\<rparr> = (if b_dirty (bufs s ! b)
     then disk_write (b_dev (bufs s ! b) AND 1, b_blockno (bufs s ! b)) (b_data (bufs s ! b)) s else s)"
    using assms(4) by (simp add: disk_write_def)
  moreover have "idestart (Some b) ?s = Inr ?v" using idestart_ok [of ?s b] p assms(2) by simp
  ultimately show ?thesis using iderw_unfold [OF assms(1) p(1) assms(2)] assms(4) v(2) by (simp add: Let_def)
qed


definition disks_ex :: "buf list \<Rightarrow> nat list \<Rightarrow> (slockid \<Rightarrow> sleeplock) \<Rightarrow> (u32 \<Rightarrow> u32 \<Rightarrow> u8 list) \<Rightarrow> disks" where
  "disks_ex bs q ls d = \<lparr>cpus = [(cpus two_cpus ! 0)\<lparr>c_proc := Some 0\<rparr>, cpus two_cpus ! 1], m_lapicid = 0,
     m_IF = (\<lambda>_. True), locks = locks two_cpus,
     pmem = (\<lambda>_. 0), freelist = 0, use_lock = True, kend = 0x80100000, kdata = 0x80108000,
     kpgdir = 0x80300000, cr3 = (\<lambda>_. 0), ts_esp0 = (\<lambda>_. 0),
     ptable = table_ex, nextpid = 9, initproc = Some 0, utf_edf = 0, utf_rm = 0, ticks = 0,
     forkret_first = False, slocks = ls,
     bufs = bs, idequeue = q, havedisk1 = True, disk = d, ide_status = 0x50, dtrace = []\<rparr>"

definition held_by :: "int \<Rightarrow> sleeplock" where
  "held_by pid = \<lparr>sl_locked = True, sl_name = ''buffer'', sl_pid = pid\<rparr>"

lemma disks_ex_ok:
  "disk_ok (disks_ex bs q ls d)" "curproc (disks_ex bs q ls d) = Some 0" "curpid (disks_ex bs q ls d) = Inr 3"
  "bufs (disks_ex bs q ls d) = bs" "slocks (disks_ex bs q ls d) = ls" "idequeue (disks_ex bs q ls d) = q"
  "disk (disks_ex bs q ls d) = d" "dtrace (disks_ex bs q ls d) = []"
  by (simp_all add: disk_ok_def disks_ex_def two_cpus_def curproc_def cur_eq curpid_def table_ex_def task_def
      IDE_BSY_def IDE_DRDY_def IDE_DF_def IDE_ERR_def)


text \<open>
  C22. The memory disk is a drop-in replacement of the driver: for a held buffer of a block of
  device 1 that lies on both disks, with no other request queued, iderw of memide.c leaves the
  same buffers, the same disk contents and the same history of writes as iderw of ide.c.
\<close>

theorem memide_refines_ide:
  assumes "holdingsleep (BufLock b) s = Inr True" "disk_ok s" "ide_pending s b" "idequeue s = []"
    and "b_dev (bufs s ! b) = 1" "b_blockno (bufs s ! b) < disksize"
  shows "\<exists>t u. iderw b s = Inr t \<and> memide_iderw disksize b s = Inr u
    \<and> bufs t = bufs u \<and> disk t = disk u \<and> dtrace t = dtrace u"
  using iderw_idle [OF assms(1-4)] assms(1,3,5,6)
  by (cases "bufs s ! b") (auto simp: memide_iderw_def ide_finish_def ide_pending_def Let_def)

theorem memide_refines_ide_witness:
  "\<exists>t u. iderw 0 (disks_ex
      [\<lparr>b_valid = True, b_dirty = True, b_dev = 1, b_blockno = 7, b_refcnt = 1, b_data = [9, 9]\<rparr>]
      [] (\<lambda>_. held_by 3) (\<lambda>_ _. [5, 6])) = Inr t \<and> disk t 1 7 = [9, 9]
    \<and> memide_iderw 1000 0 (disks_ex
      [\<lparr>b_valid = True, b_dirty = True, b_dev = 1, b_blockno = 7, b_refcnt = 1, b_data = [9, 9]\<rparr>]
      [] (\<lambda>_. held_by 3) (\<lambda>_ _. [5, 6])) = Inr u \<and> disk u = disk t"
proof -
  let ?s = "disks_ex
      [\<lparr>b_valid = True, b_dirty = True, b_dev = 1, b_blockno = 7, b_refcnt = 1, b_data = [9, 9]\<rparr>]
      [] (\<lambda>_. held_by 3) (\<lambda>_ _. [5, 6])"
  have "holdingsleep (BufLock 0) ?s = Inr True" "ide_pending ?s 0"
    by (simp_all add: disks_ex_ok holdingsleep_def held_by_def ide_pending_def ide_done_def FSSIZE_def)
  then show ?thesis
    using memide_refines_ide [of 0 ?s 1000] iderw_idle [of 0 ?s] by (auto simp: disks_ex_ok)
qed

end
