(* ===== verification/Bio.thy ===== *)
theory Bio
  imports Ide
begin

unbundle bit_operations_syntax

text \<open>
  The buffer cache (bio.c). The doubly linked list of buffers is \<open>lru\<close>, the buffers in the order
  in which \<open>next\<close> visits them from \<open>bcache.head\<close>, most recently used first; \<open>prev\<close> visits its
  reverse. \<open>bio_inv\<close> is the invariant between calls, and \<open>blk\<close> the contents of a block as
  the rest of the kernel sees it: the cached copy if there is one, otherwise what the disk has.
\<close>

section \<open>Operations\<close>

definition NBUF :: nat where "NBUF = 30"

record bcache = disks +
  lru :: "nat list"

definition binit :: "'a bcache_scheme \<Rightarrow> 'a bcache_scheme" where
  "binit s = fold (\<lambda>b s. (initsleeplock (BufLock b) ''buffer'' s)\<lparr>lru := b # lru s\<rparr>) [0..<NBUF]
     ((initlock BcacheLock ''bcache'' s)\<lparr>lru := []\<rparr>)"

definition bget :: "u32 \<Rightarrow> u32 \<Rightarrow> 'a bcache_scheme \<Rightarrow> (nat \<times> 'a bcache_scheme) result" where
  "bget dev blockno s =
    (case find (\<lambda>b. b_dev (bufs s ! b) = dev \<and> b_blockno (bufs s ! b) = blockno) (lru s) of
       Some b \<Rightarrow>
         bindE (acquiresleep (BufLock b) (upd_buf b (\<lambda>x. x\<lparr>b_refcnt := b_refcnt x + 1\<rparr>) s)) (\<lambda>s. Inr (b, s))
     | None \<Rightarrow>
       (case find (\<lambda>b. b_refcnt (bufs s ! b) = 0 \<and> \<not> b_dirty (bufs s ! b)) (rev (lru s)) of
          Some b \<Rightarrow>
            bindE (acquiresleep (BufLock b) (upd_buf b (\<lambda>x. x\<lparr>b_dev := dev, b_blockno := blockno,
              b_valid := False, b_dirty := False, b_refcnt := 1\<rparr>) s)) (\<lambda>s. Inr (b, s))
        | None \<Rightarrow> Inl (Panic ''bget: no buffers'')))"

definition bread :: "u32 \<Rightarrow> u32 \<Rightarrow> 'a bcache_scheme \<Rightarrow> (nat \<times> 'a bcache_scheme) result" where
  "bread dev blockno s =
    bindE (bget dev blockno s) (\<lambda>(b, s).
    if \<not> b_valid (bufs s ! b) then bindE (iderw b s) (\<lambda>s. Inr (b, s)) else Inr (b, s))"

definition bwrite :: "nat \<Rightarrow> 'a bcache_scheme \<Rightarrow> 'a bcache_scheme result" where
  "bwrite b s =
    bindE (holdingsleep (BufLock b) s) (\<lambda>h.
    if \<not> h then Inl (Panic ''bwrite'')
    else iderw b (upd_buf b (\<lambda>x. x\<lparr>b_dirty := True\<rparr>) s))"

definition brelse :: "nat \<Rightarrow> 'a bcache_scheme \<Rightarrow> 'a bcache_scheme result" where
  "brelse b s =
    bindE (holdingsleep (BufLock b) s) (\<lambda>h.
    if \<not> h then Inl (Panic ''brelse'')
    else
      let s = upd_buf b (\<lambda>x. x\<lparr>b_refcnt := b_refcnt x - 1\<rparr>) (releasesleep (BufLock b) s) in
      Inr (if b_refcnt (bufs s ! b) = 0 then s\<lparr>lru := b # remove1 b (lru s)\<rparr> else s))"

section \<open>Invariant and view\<close>

definition buf_ok :: "'a bcache_scheme \<Rightarrow> nat \<Rightarrow> bool" where
  "buf_ok s i \<longleftrightarrow> (let x = bufs s ! i; l = sl_locked (slocks s (BufLock i)) in
     length (b_data x) = BSIZE \<and> (b_dirty x \<longrightarrow> b_valid x) \<and> (l \<longrightarrow> b_valid x) \<and>
     (b_valid x \<longrightarrow> b_dev x = 1) \<and> (b_dev x = 1 \<longrightarrow> b_blockno x < FSSIZE) \<and>
     b_refcnt x = (if l then 1 else 0) \<and>
     (b_valid x \<and> \<not> b_dirty x \<and> \<not> l \<longrightarrow> b_data x = disk s 1 (b_blockno x)))"

definition keys_distinct :: "buf list \<Rightarrow> bool" where
  "keys_distinct bs \<longleftrightarrow> (\<forall>i < length bs. \<forall>j < length bs. b_dev (bs ! i) = 1 \<and> b_dev (bs ! j) = 1 \<and>
     b_blockno (bs ! i) = b_blockno (bs ! j) \<longrightarrow> i = j)"

definition bio_inv :: "'a bcache_scheme \<Rightarrow> bool" where
  "bio_inv s \<longleftrightarrow> length (bufs s) = NBUF \<and> distinct (lru s) \<and> set (lru s) = {..<NBUF} \<and>
     idequeue s = [] \<and> disk_ok s \<and> (\<forall>n. length (disk s 1 n) = BSIZE) \<and>
     keys_distinct (bufs s) \<and> (\<forall>i < NBUF. buf_ok s i)"

definition caches :: "'a bcache_scheme \<Rightarrow> u32 \<Rightarrow> nat \<Rightarrow> bool" where
  "caches s n i \<longleftrightarrow> i < length (bufs s) \<and> b_dev (bufs s ! i) = 1 \<and> b_blockno (bufs s ! i) = n"

definition blk :: "'a bcache_scheme \<Rightarrow> u32 \<Rightarrow> u8 list" where
  "blk s n = (case find (\<lambda>i. caches s n i \<and> b_valid (bufs s ! i)) [0..<length (bufs s)] of
     Some i \<Rightarrow> b_data (bufs s ! i) | None \<Rightarrow> disk s 1 n)"

definition dirty :: "'a bcache_scheme \<Rightarrow> u32 set" where
  "dirty s = {n. \<exists>i. caches s n i \<and> b_dirty (bufs s ! i)}"

definition owns :: "nat \<Rightarrow> 'a bcache_scheme \<Rightarrow> bool" where
  "owns b s \<longleftrightarrow> sl_locked (slocks s (BufLock b)) \<and> curpid s = Inr (sl_pid (slocks s (BufLock b)))"

lemma holdingsleep_owns: "owns b s \<Longrightarrow> holdingsleep (BufLock b) s = Inr True"
  by (simp add: owns_def holdingsleep_def)

lemma blk_cached:
  assumes "keys_distinct (bufs s)" "caches s n i" "b_valid (bufs s ! i)"
  shows "blk s n = b_data (bufs s ! i)"
proof -
  have "\<exists>k. find (\<lambda>i. caches s n i \<and> b_valid (bufs s ! i)) [0..<length (bufs s)] = Some k"
    using assms(2,3) by (cases "find (\<lambda>i. caches s n i \<and> b_valid (bufs s ! i)) [0..<length (bufs s)]")
      (auto simp: find_None_iff caches_def)
  then obtain k where k: "find (\<lambda>i. caches s n i \<and> b_valid (bufs s ! i)) [0..<length (bufs s)] = Some k" ..
  then have "caches s n k" by (auto simp: find_Some_iff)
  with assms(1,2) have "k = i" by (auto simp: keys_distinct_def caches_def)
  with k show ?thesis by (simp add: blk_def)
qed

lemma blk_uncached: "(\<And>i. caches s n i \<Longrightarrow> \<not> b_valid (bufs s ! i)) \<Longrightarrow> blk s n = disk s 1 n"
  by (auto simp: blk_def find_Some_iff split: option.split)

section \<open>What the operations do\<close>

text \<open>What every operation of the cache leaves alone: the state above it, and who runs.\<close>

definition bio_frame :: "'a bcache_scheme \<Rightarrow> 'a bcache_scheme \<Rightarrow> bool" where
  "bio_frame s t \<longleftrightarrow> bcache.more t = bcache.more s \<and> curproc t = curproc s \<and> cur t = cur s
     \<and> map p_pid (ptable t) = map p_pid (ptable s) \<and> (\<forall>k. slocks t (InodeLock k) = slocks s (InodeLock k))"

lemma bio_frame_refl [simp]: "bio_frame s s"
  by (simp add: bio_frame_def)

lemma bio_frame_trans [trans]: "bio_frame s t \<Longrightarrow> bio_frame t u \<Longrightarrow> bio_frame s u"
  by (simp add: bio_frame_def)

definition proc_running :: "'a procs_scheme \<Rightarrow> bool" where
  "proc_running s \<longleftrightarrow> (\<exists>j. curproc s = Some j \<and> j < length (ptable s))"

lemma curpid_frame:
  assumes "bio_frame s t" "proc_running s"
  shows "curpid t = curpid s" "proc_running t"
proof -
  obtain j where j: "curproc s = Some j" "j < length (ptable s)" using assms(2) by (auto simp: proc_running_def)
  have m: "map p_pid (ptable t) = map p_pid (ptable s)" and c: "curproc t = curproc s"
    using assms(1) by (simp_all add: bio_frame_def)
  from m have l: "length (ptable t) = length (ptable s)" by (metis length_map)
  with m j(2) have "p_pid (ptable t ! j) = p_pid (ptable s ! j)" by (metis nth_map)
  with j c l show "curpid t = curpid s" "proc_running t" by (simp_all add: curpid_def proc_running_def)
qed

definition fetched :: "'a bcache_scheme \<Rightarrow> u32 \<Rightarrow> nat \<Rightarrow> 'a bcache_scheme \<Rightarrow> bool" where
  "fetched s n b t \<longleftrightarrow> b < NBUF \<and> \<not> sl_locked (slocks s (BufLock b)) \<and>
     bufs t = (bufs s)[b := \<lparr>b_valid = True, b_dirty = (n \<in> dirty s), b_dev = 1, b_blockno = n, b_refcnt = 1,
                             b_data = blk s n\<rparr>] \<and>
     slocks t = (slocks s)(BufLock b := slocks t (BufLock b)) \<and> owns b t \<and>
     disk t = disk s \<and> dtrace t = dtrace s \<and> lru t = lru s \<and> idequeue t = [] \<and> disk_ok t \<and> bio_frame s t \<and>
     (\<forall>i. caches s n i \<longrightarrow> i = b) \<and> (caches s n b \<or> \<not> b_dirty (bufs s ! b))"

lemma bcache_sel [simp]:
  "lru (upd_buf b f s) = lru s" "lru (upd_slock l g s) = lru s" "lru (wakeup1 c s) = lru s"
  "lru (disk_write a d s) = lru s" "lru (ide_finish b s) = lru s" "slocks (ide_finish b s) = slocks s"
  by (simp_all add: upd_buf_def upd_slock_def wakeup1_def disk_write_def ide_finish_def)

lemma map_pid_wakeup1 [simp]: "map p_pid (ptable (wakeup1 c s)) = map p_pid (ptable s)"
  by (simp add: wakeup1_def)

lemma bio_frame_ops [simp]:
  "bio_frame s (upd_buf b f s)" "bio_frame s (upd_slock (BufLock b) g s)" "bio_frame s (wakeup1 c s)"
  "bio_frame s (disk_write a d s)" "bio_frame s (ide_finish b s)" "bio_frame s (releasesleep (BufLock b) s)"
  "bio_frame s (s\<lparr>lru := xs\<rparr>)"
proof -
  have m: "bcache.more (upd_buf b f s) = bcache.more s" "bcache.more (upd_slock l g s) = bcache.more s"
    "bcache.more (wakeup1 c s) = bcache.more s" "bcache.more (disk_write a d s) = bcache.more s" for b f l g c a d s
    by (simp_all add: upd_buf_def upd_slock_def wakeup1_def disk_write_def)
  show "bio_frame s (upd_buf b f s)" "bio_frame s (upd_slock (BufLock b) g s)" "bio_frame s (wakeup1 c s)"
    "bio_frame s (disk_write a d s)" "bio_frame s (ide_finish b s)" "bio_frame s (releasesleep (BufLock b) s)"
    by (simp_all add: bio_frame_def m ide_finish_def releasesleep_def)
  show "bio_frame s (s\<lparr>lru := xs\<rparr>)" by (simp add: bio_frame_def curproc_def cur_def split: option.split)
qed

lemma find_unique:
  assumes "i \<in> set xs" "P i" "\<And>j. j \<in> set xs \<Longrightarrow> P j \<Longrightarrow> j = i"
  shows "find P xs = Some i"
proof (cases "find P xs")
  case None
  then show ?thesis using assms(1,2) by (auto simp: find_None_iff)
next
  case (Some k)
  then have "k \<in> set xs" "P k" by (auto simp: find_Some_iff)
  with assms(3) Some show ?thesis by simp
qed

lemma find_ex: "x \<in> set xs \<Longrightarrow> P x \<Longrightarrow> \<exists>i. find P xs = Some i \<and> i \<in> set xs \<and> P i"
  by (cases "find P xs") (auto simp: find_None_iff find_Some_iff)

lemma bio_invD:
  assumes "bio_inv s"
  shows "length (bufs s) = NBUF" "set (lru s) = {..<NBUF}" "idequeue s = []" "disk_ok s" "keys_distinct (bufs s)"
    "i < NBUF \<Longrightarrow> buf_ok s i" "length (disk s 1 n) = BSIZE" "distinct (lru s)"
  using assms by (simp_all add: bio_inv_def)

lemma caches_unique: "keys_distinct (bufs s) \<Longrightarrow> caches s n i \<Longrightarrow> caches s n j \<Longrightarrow> i = j"
  by (auto simp: caches_def keys_distinct_def)

lemma length_blk: "bio_inv s \<Longrightarrow> length (blk s n) = BSIZE"
  by (auto simp: blk_def find_Some_iff caches_def bio_inv_def buf_ok_def Let_def split: option.split)

text \<open>The buffer that bget chooses, locked for the caller.\<close>

definition gotten :: "'a bcache_scheme \<Rightarrow> nat \<Rightarrow> buf \<Rightarrow> int \<Rightarrow> 'a bcache_scheme" where
  "gotten s b x pid = upd_slock (BufLock b) (\<lambda>k. k\<lparr>sl_locked := True, sl_pid := pid\<rparr>) (upd_buf b (\<lambda>_. x) s)"

lemma curpid_upd [simp]: "curpid (upd_buf b f s) = curpid s" "curpid (upd_slock l g s) = curpid s"
  by (simp_all add: curpid_def split: option.split)

lemma bget_cached:
  assumes "bio_inv s" "caches s n b" "\<not> sl_locked (slocks s (BufLock b))" "curpid s = Inr pid"
  shows "bget 1 n s = Inr (b, gotten s b ((bufs s ! b)\<lparr>b_refcnt := 1\<rparr>) pid)"
proof -
  note inv = bio_invD [OF assms(1)]
  have b: "b < NBUF" "b_dev (bufs s ! b) = 1" "b_blockno (bufs s ! b) = n" using assms(2) inv(1) by (simp_all add: caches_def)
  have r: "b_refcnt (bufs s ! b) = 0" using inv(6) [OF b(1)] assms(3) by (simp add: buf_ok_def Let_def)
  have "find (\<lambda>b. b_dev (bufs s ! b) = 1 \<and> b_blockno (bufs s ! b) = n) (lru s) = Some b"
  proof (rule find_unique)
    fix j assume "j \<in> set (lru s)" "b_dev (bufs s ! j) = 1 \<and> b_blockno (bufs s ! j) = n"
    then have "caches s n j" using inv(1,2) by (simp add: caches_def)
    then show "j = b" using caches_unique [OF inv(5) _ assms(2)] by blast
  qed (use b inv(2) in simp_all)
  moreover have "upd_buf b (\<lambda>x. x\<lparr>b_refcnt := b_refcnt x + 1\<rparr>) s = upd_buf b (\<lambda>_. (bufs s ! b)\<lparr>b_refcnt := 1\<rparr>) s"
    using r by (simp add: upd_buf_def)
  ultimately show ?thesis using assms(3,4) by (simp add: bget_def acquiresleep_def gotten_def)
qed

lemma bget_fresh:
  assumes "bio_inv s" "\<And>i. \<not> caches s n i" "i < NBUF" "b_refcnt (bufs s ! i) = 0" "\<not> b_dirty (bufs s ! i)"
    "curpid s = Inr pid"
  shows "\<exists>b < NBUF. \<not> sl_locked (slocks s (BufLock b)) \<and> \<not> b_dirty (bufs s ! b) \<and>
    bget 1 n s = Inr (b, gotten s b ((bufs s ! b)\<lparr>b_dev := 1, b_blockno := n, b_valid := False,
      b_dirty := False, b_refcnt := 1\<rparr>) pid)"
proof -
  note inv = bio_invD [OF assms(1)]
  let ?P = "\<lambda>b. b_refcnt (bufs s ! b) = 0 \<and> \<not> b_dirty (bufs s ! b)"
  have no: "find (\<lambda>b. b_dev (bufs s ! b) = 1 \<and> b_blockno (bufs s ! b) = n) (lru s) = None"
    using assms(2) inv(1,2) by (auto simp: find_None_iff caches_def)
  obtain b where b: "find ?P (rev (lru s)) = Some b" "b < NBUF" "b_refcnt (bufs s ! b) = 0" "\<not> b_dirty (bufs s ! b)"
    using find_ex [of i "rev (lru s)" ?P] assms(3-5) inv(2) by auto
  then have l: "\<not> sl_locked (slocks s (BufLock b))" using inv(6) [OF b(2)] by (auto simp: buf_ok_def Let_def)
  moreover have "upd_buf b (\<lambda>x. x\<lparr>b_dev := 1, b_blockno := n, b_valid := False, b_dirty := False, b_refcnt := 1\<rparr>) s
    = upd_buf b (\<lambda>_. (bufs s ! b)\<lparr>b_dev := 1, b_blockno := n, b_valid := False, b_dirty := False, b_refcnt := 1\<rparr>) s"
    by (simp add: upd_buf_def)
  ultimately have "bget 1 n s = Inr (b, gotten s b ((bufs s ! b)\<lparr>b_dev := 1, b_blockno := n, b_valid := False,
      b_dirty := False, b_refcnt := 1\<rparr>) pid)"
    using no b(1) assms(6) by (simp add: bget_def acquiresleep_def gotten_def)
  with b l show ?thesis by blast
qed

lemma gotten_sel [simp]:
  "bufs (gotten s b x pid) = (bufs s)[b := x]" "idequeue (gotten s b x pid) = idequeue s"
  "disk (gotten s b x pid) = disk s" "dtrace (gotten s b x pid) = dtrace s" "lru (gotten s b x pid) = lru s"
  "disk_ok (gotten s b x pid) = disk_ok s" "bio_frame s (gotten s b x pid)" "curpid (gotten s b x pid) = curpid s"
  "slocks (gotten s b x pid) = (slocks s)(BufLock b := (slocks s (BufLock b))\<lparr>sl_locked := True, sl_pid := pid\<rparr>)"
  by (simp_all add: gotten_def) (rule bio_frame_trans, rule bio_frame_ops(1), rule bio_frame_ops(2))

lemma dirty_iff: "keys_distinct (bufs s) \<Longrightarrow> caches s n i \<Longrightarrow> n \<in> dirty s \<longleftrightarrow> b_dirty (bufs s ! i)"
  by (auto simp: dirty_def dest: caches_unique)

lemma buf_eq: "(x :: buf) = y \<longleftrightarrow> b_valid x = b_valid y \<and> b_dirty x = b_dirty y \<and> b_dev x = b_dev y
    \<and> b_blockno x = b_blockno y \<and> b_refcnt x = b_refcnt y \<and> b_data x = b_data y"
  by (cases x, cases y) simp

lemma bread_fill:
  assumes "bio_inv s" "curpid s = Inr pid" "n < FSSIZE" "bget 1 n s = Inr (b, gotten s b x pid)" "b < NBUF"
    and x: "\<not> b_valid x" "\<not> b_dirty x" "b_dev x = 1" "b_blockno x = n" "b_refcnt x = 1"
  shows "\<exists>t. bread 1 n s = Inr (b, t) \<and> bufs t = (bufs s)[b := \<lparr>b_valid = True, b_dirty = False, b_dev = 1, b_blockno = n,
      b_refcnt = 1, b_data = disk s 1 n\<rparr>] \<and> slocks t = slocks (gotten s b x pid)
    \<and> disk t = disk s \<and> dtrace t = dtrace s \<and> lru t = lru s \<and> idequeue t = [] \<and> disk_ok t \<and> bio_frame s t"
proof -
  note inv = bio_invD [OF assms(1)]
  let ?u = "gotten s b x pid"
  have h: "holdingsleep (BufLock b) ?u = Inr True" using assms(2) by (simp add: holdingsleep_def)
  have "iderw b ?u = Inr (ide_finish b ?u)"
    using iderw_idle [OF h] inv(1,3,4) assms(3,5) x by (simp add: ide_pending_def ide_done_def)
  moreover have e: "x\<lparr>b_data := disk s 1 n, b_valid := True, b_dirty := False\<rparr>
      = \<lparr>b_valid = True, b_dirty = False, b_dev = 1, b_blockno = n, b_refcnt = 1, b_data = disk s 1 n\<rparr>"
    using x by (simp add: buf_eq)
  have "bufs (ide_finish b ?u) = (bufs s)[b := \<lparr>b_valid = True, b_dirty = False, b_dev = 1, b_blockno = n,
      b_refcnt = 1, b_data = disk s 1 n\<rparr>]"
    using x inv(1) assms(5) by (simp add: ide_finish_def e)
  moreover have "bio_frame s (ide_finish b ?u)" by (rule bio_frame_trans [OF gotten_sel(7) bio_frame_ops(5)])
  ultimately show ?thesis
    using assms(4,5) x inv(1,3,4) by (simp add: bread_def)
qed

lemma fetchedI:
  assumes "bufs t = (bufs s)[b := \<lparr>b_valid = True, b_dirty = (n \<in> dirty s), b_dev = 1, b_blockno = n, b_refcnt = 1,
      b_data = blk s n\<rparr>] \<and> slocks t = slocks (gotten s b x pid)
    \<and> disk t = disk s \<and> dtrace t = dtrace s \<and> lru t = lru s \<and> idequeue t = [] \<and> disk_ok t \<and> bio_frame s t"
    and "b < NBUF" "\<not> sl_locked (slocks s (BufLock b))" "\<forall>i. caches s n i \<longrightarrow> i = b"
    "caches s n b \<or> \<not> b_dirty (bufs s ! b)" "proc_running s" "curpid s = Inr pid"
  shows "fetched s n b t"
  using assms curpid_frame(1) [of s t] by (simp add: fetched_def owns_def)

lemma bread_spec:
  assumes "bio_inv s" "proc_running s" "n < FSSIZE"
    and "\<And>i. caches s n i \<Longrightarrow> \<not> sl_locked (slocks s (BufLock i))"
    and "(\<exists>i. caches s n i) \<or> (\<exists>i < NBUF. b_refcnt (bufs s ! i) = 0 \<and> \<not> b_dirty (bufs s ! i))"
  shows "\<exists>b t. bread 1 n s = Inr (b, t) \<and> fetched s n b t"
proof -
  note inv = bio_invD [OF assms(1)]
  obtain pid where pid: "curpid s = Inr pid" using assms(2) by (auto simp: proc_running_def curpid_def)
  note fill = bread_fill [OF assms(1) pid assms(3)]
  note fI = fetchedI [OF _ _ _ _ _ assms(2) pid]
  show ?thesis
  proof (cases "\<exists>i. caches s n i")
    case True
    then obtain b where b: "caches s n b" ..
    let ?x = "(bufs s ! b)\<lparr>b_refcnt := 1\<rparr>"
    have g: "bget 1 n s = Inr (b, gotten s b ?x pid)" by (rule bget_cached [OF assms(1) b assms(4) [OF b] pid])
    have u: "\<forall>i. caches s n i \<longrightarrow> i = b" using caches_unique [OF inv(5) _ b] by blast
    have b': "b < NBUF" "b_dev (bufs s ! b) = 1" "b_blockno (bufs s ! b) = n" using b inv(1) by (simp_all add: caches_def)
    note fI' = fI [OF _ b'(1) assms(4) [OF b] u disjI1 [OF b]]
    show ?thesis
    proof (cases "b_valid (bufs s ! b)")
      case True
      have x: "?x = \<lparr>b_valid = True, b_dirty = (n \<in> dirty s), b_dev = 1, b_blockno = n, b_refcnt = 1, b_data = blk s n\<rparr>"
        using True b' dirty_iff [OF inv(5) b] blk_cached [OF inv(5) b True] by (simp add: buf_eq)
      have "bread 1 n s = Inr (b, gotten s b ?x pid)" using g True b'(1) inv(1) by (simp add: bread_def)
      moreover have "fetched s n b (gotten s b ?x pid)"
        by (rule fI' [of _ ?x]) (use inv(3,4) in \<open>simp add: x [symmetric]\<close>)
      ultimately show ?thesis by blast
    next
      case False
      then have d: "\<not> b_dirty (bufs s ! b)" using inv(6) [OF b'(1)] by (auto simp: buf_ok_def Let_def)
      have e: "blk s n = disk s 1 n" using False caches_unique [OF inv(5) b] by (intro blk_uncached) auto
      have "n \<notin> dirty s" using d dirty_iff [OF inv(5) b] by simp
      moreover obtain t where "bread 1 n s = Inr (b, t)"
        "bufs t = (bufs s)[b := \<lparr>b_valid = True, b_dirty = False, b_dev = 1, b_blockno = n,
          b_refcnt = 1, b_data = disk s 1 n\<rparr>] \<and> slocks t = slocks (gotten s b ?x pid)
        \<and> disk t = disk s \<and> dtrace t = dtrace s \<and> lru t = lru s \<and> idequeue t = [] \<and> disk_ok t \<and> bio_frame s t"
        using fill [OF g b'(1)] False d b' by auto
      ultimately show ?thesis using fI' [of t ?x] e by auto
    qed
  next
    case False
    then obtain b x where b: "b < NBUF" "\<not> sl_locked (slocks s (BufLock b))" "\<not> b_dirty (bufs s ! b)"
      "bget 1 n s = Inr (b, gotten s b x pid)"
      "x = (bufs s ! b)\<lparr>b_dev := 1, b_blockno := n, b_valid := False, b_dirty := False, b_refcnt := 1\<rparr>"
      using bget_fresh [OF assms(1), of n] assms(5) pid by blast
    have "n \<notin> dirty s" using False by (auto simp: dirty_def)
    moreover have e: "blk s n = disk s 1 n" using False by (intro blk_uncached) auto
    moreover obtain t where "bread 1 n s = Inr (b, t)"
        "bufs t = (bufs s)[b := \<lparr>b_valid = True, b_dirty = False, b_dev = 1, b_blockno = n,
          b_refcnt = 1, b_data = disk s 1 n\<rparr>] \<and> slocks t = slocks (gotten s b x pid)
        \<and> disk t = disk s \<and> dtrace t = dtrace s \<and> lru t = lru s \<and> idequeue t = [] \<and> disk_ok t \<and> bio_frame s t"
      using fill [OF b(4,1)] b(5) by auto
    ultimately show ?thesis using fI [of t b n x] b(1-3) False by auto
  qed
qed

lemma blk_eqI:
  assumes "keys_distinct (bufs s)" "keys_distinct (bufs t)" "disk t 1 n = disk s 1 n"
    and "\<And>i. caches s n i \<Longrightarrow> b_valid (bufs s ! i) \<Longrightarrow>
      (caches t n i \<and> b_valid (bufs t ! i) \<and> b_data (bufs t ! i) = b_data (bufs s ! i)) \<or> b_data (bufs s ! i) = disk s 1 n"
    and "\<And>i. caches t n i \<Longrightarrow> b_valid (bufs t ! i) \<Longrightarrow> b_data (bufs t ! i) = blk s n"
  shows "blk t n = blk s n"
proof (cases "\<exists>i. caches t n i \<and> b_valid (bufs t ! i)")
  case True
  then show ?thesis using blk_cached [OF assms(2)] assms(5) by auto
next
  case False
  then have t: "blk t n = disk s 1 n" using assms(3) by (subst blk_uncached) auto
  show ?thesis
  proof (cases "\<exists>i. caches s n i \<and> b_valid (bufs s ! i)")
    case True
    then show ?thesis using assms(4) False blk_cached [OF assms(1)] t by metis
  next
    case False
    then show ?thesis using t by (subst blk_uncached [of s]) auto
  qed
qed

lemma fetched_keys:
  assumes "bio_inv s" "fetched s n b t"
  shows "keys_distinct (bufs t)" "caches t m i \<longleftrightarrow> (if i = b then m = n else caches s m i)"
proof -
  note inv = bio_invD [OF assms(1)]
  from assms(2) have b: "b < NBUF" "\<And>i. caches s n i \<Longrightarrow> i = b" "length (bufs t) = NBUF"
    "bufs t ! b = \<lparr>b_valid = True, b_dirty = (n \<in> dirty s), b_dev = 1, b_blockno = n, b_refcnt = 1, b_data = blk s n\<rparr>"
    "\<And>i. i \<noteq> b \<Longrightarrow> bufs t ! i = bufs s ! i"
    using inv(1) by (simp_all add: fetched_def)
  show c: "caches t m i \<longleftrightarrow> (if i = b then m = n else caches s m i)" for m i
    using b(1,3-5) inv(1) by (auto simp: caches_def)
  have "i = j" if "caches t m i" "caches t m j" for m i j
    using that b(2) caches_unique [OF inv(5), of m i j] unfolding c by metis
  then show "keys_distinct (bufs t)" by (auto simp: keys_distinct_def caches_def)
qed

lemma fetched_blk:
  assumes "bio_inv s" "fetched s n b t"
  shows "blk t = blk s"
proof
  fix m
  note inv = bio_invD [OF assms(1)] and k = fetched_keys [OF assms]
  from assms(2) have b: "b < NBUF" "\<not> sl_locked (slocks s (BufLock b))" "disk t = disk s" "caches s n b \<or> \<not> b_dirty (bufs s ! b)"
    "b_data (bufs t ! b) = blk s n" "b_valid (bufs t ! b)" "\<And>i. i \<noteq> b \<Longrightarrow> bufs t ! i = bufs s ! i"
    using inv(1) by (simp_all add: fetched_def)
  show "blk t m = blk s m"
  proof (rule blk_eqI [OF inv(5) k(1)])
    fix i assume c: "caches s m i" "b_valid (bufs s ! i)"
    show "(caches t m i \<and> b_valid (bufs t ! i) \<and> b_data (bufs t ! i) = b_data (bufs s ! i)) \<or> b_data (bufs s ! i) = disk s 1 m"
    proof (cases "i = b \<and> m \<noteq> n")
      case True
      then have "\<not> b_dirty (bufs s ! b)" using b(4) c(1) by (auto simp: caches_def)
      then show ?thesis using inv(6) [OF b(1)] True c b(2) by (simp add: buf_ok_def Let_def caches_def)
    next
      case False
      then show ?thesis using k(2) [of m i] c b(5-7) blk_cached [OF inv(5) c] by auto
    qed
  next
    fix i assume "caches t m i" "b_valid (bufs t ! i)"
    then show "b_data (bufs t ! i) = blk s m"
      using k(2) [of m i] b(5,7) blk_cached [OF inv(5), of m i] by (cases "i = b") auto
  qed (simp add: b(3))
qed

lemma fetched_inv:
  assumes "bio_inv s" "fetched s n b t" "n < FSSIZE"
  shows "bio_inv t" "dirty t = dirty s" "caches t n b" "owns b t" "b_data (bufs t ! b) = blk s n"
proof -
  note inv = bio_invD [OF assms(1)] and k = fetched_keys [OF assms(1,2)]
  from assms(2) have b: "b < NBUF" "\<not> sl_locked (slocks s (BufLock b))" "disk t = disk s" "caches s n b \<or> \<not> b_dirty (bufs s ! b)"
    "bufs t ! b = \<lparr>b_valid = True, b_dirty = (n \<in> dirty s), b_dev = 1, b_blockno = n, b_refcnt = 1, b_data = blk s n\<rparr>"
    "\<And>i. i \<noteq> b \<Longrightarrow> bufs t ! i = bufs s ! i" "slocks t = (slocks s)(BufLock b := slocks t (BufLock b))" "owns b t"
    "lru t = lru s" "idequeue t = []" "disk_ok t" "length (bufs t) = NBUF" "\<And>i. caches s n i \<Longrightarrow> i = b"
    using inv(1) by (simp_all add: fetched_def)
  have l: "slocks t (BufLock i) = slocks s (BufLock i)" if "i \<noteq> b" for i using b(7) that by (metis fun_upd_other slockid.inject(1))
  have "buf_ok t i" if "i < NBUF" for i
  proof (cases "i = b")
    case True
    then show ?thesis using b(5,8) assms(3) length_blk [OF assms(1)] by (simp add: buf_ok_def owns_def)
  next
    case False
    then show ?thesis using inv(6) [OF that] b(3,6) l by (simp add: buf_ok_def)
  qed
  then show "bio_inv t" using b inv k(1) by (simp add: bio_inv_def)
  have "m \<in> dirty t" if "m \<in> dirty s" for m
  proof -
    from that obtain i where i: "caches s m i" "b_dirty (bufs s ! i)" by (auto simp: dirty_def)
    show ?thesis
    proof (cases "i = b")
      case True
      then have "m = n" using i b(4) by (auto simp: caches_def)
      then show ?thesis using that k(2) [of n b] b(5) unfolding dirty_def [of t] by auto
    next
      case False
      then show ?thesis using i k(2) [of m i] b(6) unfolding dirty_def [of t] by auto
    qed
  qed
  moreover have "m \<in> dirty s" if "m \<in> dirty t" for m
  proof -
    from that obtain i where i: "caches t m i" "b_dirty (bufs t ! i)" by (auto simp: dirty_def)
    then show ?thesis using k(2) [of m i] b(5) b(6) [of i] unfolding dirty_def [of s]
      by (cases "i = b") (auto simp: dirty_def)
  qed
  ultimately show "dirty t = dirty s" by blast
  show "caches t n b" "owns b t" "b_data (bufs t ! b) = blk s n" using k(2) [of n b] b(5,8) by simp_all
qed

text \<open>Changing a held buffer and, if need be, its block on the disk.\<close>

definition held_update :: "'a bcache_scheme \<Rightarrow> nat \<Rightarrow> buf \<Rightarrow> 'a bcache_scheme \<Rightarrow> bool" where
  "held_update s b x t \<longleftrightarrow> b < NBUF \<and> owns b s \<and> bufs t = (bufs s)[b := x] \<and>
     b_dev x = b_dev (bufs s ! b) \<and> b_blockno x = b_blockno (bufs s ! b) \<and> b_refcnt x = b_refcnt (bufs s ! b) \<and>
     b_valid x \<and> length (b_data x) = BSIZE \<and> slocks t = slocks s \<and> lru t = lru s \<and> idequeue t = [] \<and> disk_ok t \<and>
     (\<forall>m. m \<noteq> b_blockno x \<longrightarrow> disk t 1 m = disk s 1 m) \<and> length (disk t 1 (b_blockno x)) = BSIZE"

lemma held_update_caches:
  assumes "held_update s b x t"
  shows "caches t = caches s"
proof (intro ext)
  fix m i
  show "caches t m i = caches s m i" using assms by (cases "i = b") (auto simp: held_update_def caches_def)
qed

lemma held_update_inv:
  assumes "bio_inv s" "held_update s b x t"
  shows "bio_inv t" "blk t = (blk s)(b_blockno x := b_data x)"
    "dirty t = (if b_dirty x then insert (b_blockno x) (dirty s) else dirty s - {b_blockno x})"
proof -
  note inv = bio_invD [OF assms(1)] and c = held_update_caches [OF assms(2)]
  from assms(2) have b: "b < NBUF" "owns b s" "b_dev x = b_dev (bufs s ! b)" "b_blockno x = b_blockno (bufs s ! b)"
     "b_refcnt x = b_refcnt (bufs s ! b)" "b_valid x" "length (b_data x) = BSIZE" "slocks t = slocks s"
     "lru t = lru s" "idequeue t = []" "disk_ok t" "\<And>m. m \<noteq> b_blockno x \<Longrightarrow> disk t 1 m = disk s 1 m"
     "length (disk t 1 (b_blockno x)) = BSIZE" "length (bufs t) = NBUF" "bufs t ! b = x"
     "\<And>i. i \<noteq> b \<Longrightarrow> bufs t ! i = bufs s ! i"
    using inv(1) by (auto simp: held_update_def)
  have v: "b_valid (bufs s ! b)" "b_dev (bufs s ! b) = 1" "b_blockno (bufs s ! b) < FSSIZE" "b_refcnt (bufs s ! b) = 1"
    using inv(6) [OF b(1)] b(2) by (auto simp: buf_ok_def owns_def Let_def)
  then have cb: "caches s (b_blockno x) b" using b(1,4) inv(1) by (simp add: caches_def)
  then have u: "i = b" if "caches s (b_blockno x) i" for i using caches_unique [OF inv(5) that] by simp
  have kd: "keys_distinct (bufs t)"
  proof -
    have "i = j" if "caches t m i" "caches t m j" for m i j using that caches_unique [OF inv(5)] unfolding c by blast
    then show ?thesis by (auto simp: keys_distinct_def caches_def)
  qed
  have "buf_ok t i" if "i < NBUF" for i
  proof (cases "i = b")
    case True
    then show ?thesis using b v by (simp add: buf_ok_def owns_def)
  next
    case False
    then have "b_dev (bufs s ! i) = 1 \<Longrightarrow> b_blockno (bufs s ! i) \<noteq> b_blockno x"
      using u [of i] that inv(1) by (auto simp: caches_def)
    then show ?thesis using inv(6) [OF that] False b(8,12,16) by (auto simp: buf_ok_def Let_def)
  qed
  moreover have "length (disk t 1 m) = BSIZE" for m using b(12,13) inv(7) by (cases "m = b_blockno x") simp_all
  ultimately show "bio_inv t" using b inv kd by (simp add: bio_inv_def)
  show "blk t = (blk s)(b_blockno x := b_data x)"
  proof
    fix m
    show "blk t m = ((blk s)(b_blockno x := b_data x)) m"
    proof (cases "m = b_blockno x")
      case True
      then show ?thesis using blk_cached [OF kd, of m b] cb b(6,15) unfolding c by simp
    next
      case False
      then have ne: "i \<noteq> b" if "caches s m i" for i using that cb by (auto simp: caches_def)
      have "blk t m = blk s m"
        using ne b(16) blk_cached [OF inv(5), of m] b(12) [OF False] unfolding c
        by (intro blk_eqI [OF inv(5) kd]) (simp_all add: c)
      with False show ?thesis by simp
    qed
  qed
  have "m \<in> dirty t \<longleftrightarrow> (if m = b_blockno x then b_dirty x else m \<in> dirty s)" for m
  proof (cases "m = b_blockno x")
    case True
    then show ?thesis using dirty_iff [OF kd, of m b] cb b(15) by (simp add: c)
  next
    case False
    have "b_dirty (bufs t ! i) = b_dirty (bufs s ! i)" if "caches s m i" for i
      using that False cb b(16) [of i] by (cases "i = b") (auto simp: caches_def)
    then show ?thesis using False unfolding dirty_def c by auto
  qed
  then show "dirty t = (if b_dirty x then insert (b_blockno x) (dirty s) else dirty s - {b_blockno x})"
    by (intro set_eqI) simp
qed

lemma upd_data_held:
  assumes "bio_inv s" "b < NBUF" "owns b s" "length d = BSIZE"
  shows "held_update s b ((bufs s ! b)\<lparr>b_data := d\<rparr>) (upd_buf b (\<lambda>x. x\<lparr>b_data := d\<rparr>) s)"
  using bio_invD [OF assms(1)] assms(2-4) bio_invD(6) [OF assms(1,2)]
  by (auto simp: held_update_def buf_ok_def Let_def owns_def)

lemma pin_held:
  assumes "bio_inv s" "b < NBUF" "owns b s"
  shows "held_update s b ((bufs s ! b)\<lparr>b_dirty := True\<rparr>) (upd_buf b (\<lambda>x. x\<lparr>b_dirty := True\<rparr>) s)"
  using bio_invD [OF assms(1)] assms(2-3) bio_invD(6) [OF assms(1,2)]
  by (auto simp: held_update_def buf_ok_def Let_def owns_def)

lemma owns_frame: "bio_frame s t \<Longrightarrow> proc_running s \<Longrightarrow> slocks t (BufLock b) = slocks s (BufLock b) \<Longrightarrow> owns b t = owns b s"
  using curpid_frame(1) [of s t] by (simp add: owns_def)

lemma bwrite_spec:
  assumes "bio_inv s" "b < NBUF" "owns b s"
  shows "\<exists>t. bwrite b s = Inr t \<and> held_update s b ((bufs s ! b)\<lparr>b_dirty := False\<rparr>) t \<and> bio_frame s t
    \<and> disk t = (disk s)(1 := (disk s 1)(b_blockno (bufs s ! b) := b_data (bufs s ! b)))
    \<and> dtrace t = dtrace s @ [(1, b_blockno (bufs s ! b), b_data (bufs s ! b))]"
proof -
  note inv = bio_invD [OF assms(1)]
  let ?x = "bufs s ! b" and ?s = "upd_buf b (\<lambda>x. x\<lparr>b_dirty := True\<rparr>) s"
  let ?w = "disk_write (1, b_blockno ?x) (b_data ?x) ?s"
  have v: "b_valid ?x" "b_dev ?x = 1" "b_blockno ?x < FSSIZE" "length (b_data ?x) = BSIZE"
    using inv(6) [OF assms(2)] assms(3) by (auto simp: buf_ok_def owns_def Let_def)
  have h: "holdingsleep (BufLock b) s = Inr True" by (rule holdingsleep_owns [OF assms(3)])
  have h': "holdingsleep (BufLock b) ?s = Inr True"
    by (rule holdingsleep_owns) (use assms(3) in \<open>simp add: owns_def\<close>)
  have "iderw b ?s = Inr (ide_finish b ?w)"
    using iderw_idle [OF h'] inv(1,3,4) assms(2) v by (simp add: ide_pending_def ide_done_def)
  then have "bwrite b s = Inr (ide_finish b ?w)" using h by (simp add: bwrite_def)
  moreover have bw: "bufs (ide_finish b ?w) = (bufs s)[b := ?x\<lparr>b_dirty := False\<rparr>]"
  proof -
    have e: "?x\<lparr>b_valid := True, b_dirty := False\<rparr> = ?x\<lparr>b_dirty := False\<rparr>" using v(1) by (simp add: buf_eq)
    show ?thesis using inv(1) assms(2) by (simp add: ide_finish_def e)
  qed
  moreover have "bio_frame s (ide_finish b ?w)"
    by (rule bio_frame_trans [OF bio_frame_ops(1) bio_frame_trans [OF bio_frame_ops(4) bio_frame_ops(5)]])
  moreover have "held_update s b (?x\<lparr>b_dirty := False\<rparr>) (ide_finish b ?w)"
    unfolding held_update_def using bw v inv(1,3,4,7) assms(2,3) by simp
  ultimately show ?thesis by auto
qed

lemma disk_ok_lru [simp]: "disk_ok (s\<lparr>lru := xs\<rparr>) = disk_ok s"
  by (simp add: disk_ok_def)

text \<open>Giving a buffer back: what it holds is on the disk, or it is pinned.\<close>

definition released :: "'a bcache_scheme \<Rightarrow> nat \<Rightarrow> 'a bcache_scheme \<Rightarrow> bool" where
  "released s b t \<longleftrightarrow> bufs t = (bufs s)[b := (bufs s ! b)\<lparr>b_refcnt := 0\<rparr>] \<and>
     slocks t = (slocks s)(BufLock b := (slocks s (BufLock b))\<lparr>sl_locked := False, sl_pid := 0\<rparr>) \<and>
     disk t = disk s \<and> dtrace t = dtrace s \<and> lru t = b # remove1 b (lru s) \<and> idequeue t = idequeue s \<and>
     disk_ok t = disk_ok s \<and> bio_frame s t"

lemma brelse_spec:
  assumes "bio_inv s" "b < NBUF" "owns b s"
  shows "\<exists>t. brelse b s = Inr t \<and> released s b t"
proof -
  note inv = bio_invD [OF assms(1)]
  let ?u = "upd_buf b (\<lambda>x. x\<lparr>b_refcnt := b_refcnt x - 1\<rparr>) (releasesleep (BufLock b) s)"
  have r: "b_refcnt (bufs s ! b) = 1" using inv(6) [OF assms(2)] assms(3) by (auto simp: buf_ok_def owns_def Let_def)
  have u: "bufs ?u = (bufs s)[b := (bufs s ! b)\<lparr>b_refcnt := 0\<rparr>]" using r by (simp add: releasesleep_def)
  then have "brelse b s = Inr (?u\<lparr>lru := b # remove1 b (lru s)\<rparr>)"
    using holdingsleep_owns [OF assms(3)] inv(1) assms(2) by (simp add: brelse_def releasesleep_def)
  moreover have "bio_frame s (?u\<lparr>lru := b # remove1 b (lru s)\<rparr>)"
    by (rule bio_frame_trans [OF bio_frame_ops(6) bio_frame_trans [OF bio_frame_ops(1) bio_frame_ops(7)]])
  ultimately show ?thesis
    using u by (simp add: released_def) (simp add: releasesleep_def)
qed

lemma released_caches: "released s b t \<Longrightarrow> caches t = caches s"
proof (intro ext)
  fix m i
  assume "released s b t"
  then show "caches t m i = caches s m i" by (cases "i = b"; cases "b < length (bufs s)") (auto simp: released_def caches_def)
qed

lemma released_bufs:
  assumes "released s b t"
  shows "b_valid (bufs t ! i) = b_valid (bufs s ! i)" "b_dirty (bufs t ! i) = b_dirty (bufs s ! i)"
    "b_data (bufs t ! i) = b_data (bufs s ! i)"
  using assms unfolding released_def
  by (cases "i = b \<and> b < length (bufs s)", simp, cases "i = b", simp_all add: list_update_beyond)+

lemma released_blk:
  assumes "released s b t"
  shows "blk t = blk s" "dirty t = dirty s"
proof -
  have "length (bufs t) = length (bufs s)" "disk t = disk s" using assms by (simp_all add: released_def)
  then show "blk t = blk s" "dirty t = dirty s"
    by (simp_all add: blk_def dirty_def fun_eq_iff released_caches [OF assms] released_bufs [OF assms] split: option.split)
qed

lemma released_inv:
  assumes "bio_inv s" "released s b t" "b < NBUF" "owns b s"
    and "b_dirty (bufs s ! b) \<or> b_data (bufs s ! b) = disk s 1 (b_blockno (bufs s ! b))"
  shows "bio_inv t"
proof -
  note inv = bio_invD [OF assms(1)] and c = released_caches [OF assms(2)]
  have t: "length (bufs t) = NBUF" "disk t = disk s" "lru t = b # remove1 b (lru s)" "idequeue t = []" "disk_ok t"
    "bufs t ! b = (bufs s ! b)\<lparr>b_refcnt := 0\<rparr>" "\<And>i. i \<noteq> b \<Longrightarrow> bufs t ! i = bufs s ! i"
    "\<And>i. sl_locked (slocks t (BufLock i)) \<longleftrightarrow> i \<noteq> b \<and> sl_locked (slocks s (BufLock i))"
    using assms(2,3) inv(1,3,4) by (auto simp: released_def)
  have "i = j" if "caches t m i" "caches t m j" for m i j using that caches_unique [OF inv(5)] unfolding c by blast
  then have "keys_distinct (bufs t)" by (auto simp: keys_distinct_def caches_def)
  moreover have "buf_ok t i" if "i < NBUF" for i
    using inv(6) [OF that] t(2,6,8) t(7) [of i] assms(4,5) by (cases "i = b") (auto simp: buf_ok_def Let_def owns_def)
  ultimately show ?thesis using t(1-5) inv assms(3) by (auto simp: bio_inv_def)
qed

section \<open>The contract of the cache\<close>

text \<open>
  What a client of the cache may rely on, in terms of blocks: \<open>hold s b\<close> is the block in a buffer
  that the caller holds, \<open>view\<close> the contents of the blocks, \<open>dsk\<close> what of them is on the disk,
  \<open>trc\<close> the writes so far and \<open>pinned\<close> the blocks that stay in the cache because they are dirty.
  \<open>setd\<close> stores into the data of a buffer and \<open>pin\<close> sets B_DIRTY, as log_write does.
\<close>

locale block_cache =
  fixes rd :: "u32 \<Rightarrow> 's \<Rightarrow> (nat \<times> 's) result"
    and dat :: "nat \<Rightarrow> 's \<Rightarrow> u8 list"
    and setd :: "nat \<Rightarrow> u8 list \<Rightarrow> 's \<Rightarrow> 's"
    and pin :: "nat \<Rightarrow> 's \<Rightarrow> 's"
    and wr :: "nat \<Rightarrow> 's \<Rightarrow> 's result"
    and rl :: "nat \<Rightarrow> 's \<Rightarrow> 's result"
    and inv :: "'s \<Rightarrow> bool"
    and hold :: "'s \<Rightarrow> nat \<Rightarrow> u32 option"
    and view :: "'s \<Rightarrow> u32 \<Rightarrow> u8 list"
    and dsk :: "'s \<Rightarrow> u32 \<Rightarrow> u8 list"
    and trc :: "'s \<Rightarrow> (u32 \<times> u32 \<times> u8 list) list"
    and pinned :: "'s \<Rightarrow> u32 set"
    and fr :: "'s \<Rightarrow> 's \<Rightarrow> bool"
  assumes fr_trans: "fr s t \<Longrightarrow> fr t u \<Longrightarrow> fr s u"
    and len: "inv s \<Longrightarrow> length (view s n) = BSIZE"
    and data: "inv s \<Longrightarrow> hold s b = Some n \<Longrightarrow> dat b s = view s n"
    and clean: "inv s \<Longrightarrow> n \<notin> pinned s \<Longrightarrow> n \<notin> ran (hold s) \<Longrightarrow> view s n = dsk s n"
    and rd_law: "inv s \<Longrightarrow> n < FSSIZE \<Longrightarrow> n \<notin> ran (hold s) \<Longrightarrow>
      n \<in> pinned s \<or> card (pinned s \<union> ran (hold s)) < NBUF \<Longrightarrow>
      \<exists>b t. rd n s = Inr (b, t) \<and> inv t \<and> hold s b = None \<and> hold t = (hold s)(b \<mapsto> n) \<and> view t = view s
        \<and> dsk t = dsk s \<and> trc t = trc s \<and> pinned t = pinned s \<and> fr s t"
    and setd_law: "inv s \<Longrightarrow> hold s b = Some n \<Longrightarrow> length d = BSIZE \<Longrightarrow>
      inv (setd b d s) \<and> hold (setd b d s) = hold s \<and> view (setd b d s) = (view s)(n := d)
        \<and> dsk (setd b d s) = dsk s \<and> trc (setd b d s) = trc s \<and> pinned (setd b d s) = pinned s \<and> fr s (setd b d s)"
    and pin_law: "inv s \<Longrightarrow> hold s b = Some n \<Longrightarrow>
      inv (pin b s) \<and> hold (pin b s) = hold s \<and> view (pin b s) = view s
        \<and> dsk (pin b s) = dsk s \<and> trc (pin b s) = trc s \<and> pinned (pin b s) = insert n (pinned s) \<and> fr s (pin b s)"
    and wr_law: "inv s \<Longrightarrow> hold s b = Some n \<Longrightarrow>
      \<exists>t. wr b s = Inr t \<and> inv t \<and> hold t = hold s \<and> view t = view s \<and> dsk t = (dsk s)(n := view s n)
        \<and> trc t = trc s @ [(1, n, view s n)] \<and> pinned t = pinned s - {n} \<and> fr s t"
    and rl_law: "inv s \<Longrightarrow> hold s b = Some n \<Longrightarrow> n \<in> pinned s \<or> view s n = dsk s n \<Longrightarrow>
      \<exists>t. rl b s = Inr t \<and> inv t \<and> hold t = (hold s)(b := None) \<and> view t = view s
        \<and> dsk t = dsk s \<and> trc t = trc s \<and> pinned t = pinned s \<and> fr s t"
begin

text \<open>The ways in which log.c and fs.c use a buffer. No buffer is held before or after.\<close>

definition idle :: "'s \<Rightarrow> bool" where
  "idle s \<longleftrightarrow> inv s \<and> hold s = Map.empty"

lemma read_block:
  assumes "idle s" "n < FSSIZE" "n \<in> pinned s \<or> card (pinned s) < NBUF"
  shows "\<exists>b t u. rd n s = Inr (b, t) \<and> dat b t = view s n \<and> fr s t \<and> rl b t = Inr u \<and> idle u \<and> view u = view s
    \<and> dsk u = dsk s \<and> trc u = trc s \<and> pinned u = pinned s \<and> fr s u"
proof -
  obtain b t where t: "rd n s = Inr (b, t)" "inv t" "hold t = [b \<mapsto> n]" "view t = view s"
    "dsk t = dsk s" "trc t = trc s" "pinned t = pinned s" "fr s t"
    using rd_law [of s n] assms by (auto simp: idle_def)
  have "n \<in> pinned s \<or> view s n = dsk s n" using clean [of s n] assms(1) by (auto simp: idle_def)
  then obtain u where u: "rl b t = Inr u" "inv u" "hold u = Map.empty" "view u = view s"
    "dsk u = dsk s" "trc u = trc s" "pinned u = pinned s" "fr t u"
    using rl_law [of t b n] t by auto
  show ?thesis
    by (rule exI [of _ b], rule exI [of _ t], rule exI [of _ u])
      (simp add: idle_def t u data [OF t(2), of b n] fr_trans [OF t(8) u(8)])
qed

lemma write_block:
  assumes "idle s" "n < FSSIZE" "n \<in> pinned s \<or> card (pinned s) < NBUF"
    and "\<And>d. length d = BSIZE \<Longrightarrow> length (f d) = BSIZE"
  shows "\<exists>b t u v. rd n s = Inr (b, t) \<and> fr s t \<and> wr b (setd b (f (dat b t)) t) = Inr u \<and> rl b u = Inr v \<and> idle v
    \<and> view v = (view s)(n := f (view s n)) \<and> dsk v = (dsk s)(n := f (view s n))
    \<and> trc v = trc s @ [(1, n, f (view s n))] \<and> pinned v = pinned s - {n} \<and> fr s v"
proof -
  obtain b t where t: "rd n s = Inr (b, t)" "inv t" "hold t = [b \<mapsto> n]" "view t = view s"
    "dsk t = dsk s" "trc t = trc s" "pinned t = pinned s" "fr s t"
    using rd_law [of s n] assms(1-3) by (auto simp: idle_def)
  let ?d = "f (view s n)" let ?w = "setd b ?d t"
  have d: "dat b t = view s n" using data [OF t(2), of b n] t by simp
  have w: "inv ?w" "hold ?w = [b \<mapsto> n]" "view ?w = (view s)(n := ?d)" "dsk ?w = dsk s" "trc ?w = trc s"
    "pinned ?w = pinned s" "fr t ?w"
    using setd_law [OF t(2), of b n ?d] t len [of s n] assms(1,4) by (auto simp: idle_def)
  obtain u where u: "wr b ?w = Inr u" "inv u" "hold u = [b \<mapsto> n]" "view u = (view s)(n := ?d)"
    "dsk u = (dsk s)(n := ?d)" "trc u = trc s @ [(1, n, ?d)]" "pinned u = pinned s - {n}" "fr ?w u"
    using wr_law [OF w(1), of b n] w by auto
  obtain v where v: "rl b u = Inr v" "inv v" "hold v = Map.empty" "view v = view u"
    "dsk v = dsk u" "trc v = trc u" "pinned v = pinned u" "fr u v"
    using rl_law [of u b n] u by auto
  show ?thesis
    by (rule exI [of _ b], rule exI [of _ t], rule exI [of _ u], rule exI [of _ v])
      (simp add: idle_def t u v d fr_trans [OF t(8) fr_trans [OF w(7) fr_trans [OF u(8) v(8)]]])
qed

text \<open>
  Both copies of log.c: from the buffer of block \<open>src\<close> to that of \<open>dst\<close>, with a write to the
  disk; \<open>p\<close> tells which of the two is read first.
\<close>

lemma copy_tail:
  assumes "inv s" "hold s = [x \<mapsto> src, y \<mapsto> dst]" "x \<noteq> y" "src \<noteq> dst" "src \<in> pinned s \<or> view s src = dsk s src"
  shows "\<exists>t u v. wr y (setd y (dat x s) s) = Inr t \<and> rl x t = Inr u \<and> rl y u = Inr v \<and> idle v
    \<and> view v = (view s)(dst := view s src) \<and> dsk v = (dsk s)(dst := view s src)
    \<and> trc v = trc s @ [(1, dst, view s src)] \<and> pinned v = pinned s - {dst} \<and> fr s v"
proof -
  let ?d = "view s src" let ?w = "setd y ?d s"
  have d: "dat x s = ?d" using data [OF assms(1), of x src] assms(2,3) by simp
  have w: "inv ?w" "hold ?w = [x \<mapsto> src, y \<mapsto> dst]" "view ?w = (view s)(dst := ?d)" "dsk ?w = dsk s" "trc ?w = trc s"
    "pinned ?w = pinned s" "fr s ?w"
    using setd_law [OF assms(1), of y dst ?d] assms len [of s src] by auto
  obtain t where t: "wr y ?w = Inr t" "inv t" "hold t = [x \<mapsto> src, y \<mapsto> dst]" "view t = (view s)(dst := ?d)"
    "dsk t = (dsk s)(dst := ?d)" "trc t = trc s @ [(1, dst, ?d)]" "pinned t = pinned s - {dst}" "fr ?w t"
    using wr_law [OF w(1), of y dst] w by auto
  have c: "src \<in> pinned t \<or> view t src = dsk t src" using t assms(4,5) by auto
  obtain u where u: "rl x t = Inr u" "inv u" "hold u = [y \<mapsto> dst]" "view u = view t"
    "dsk u = dsk t" "trc u = trc t" "pinned u = pinned t" "fr t u"
    using rl_law [OF t(2) _ c, of x] t(3) assms(3) by (auto simp: fun_upd_twist)
  obtain v where v: "rl y u = Inr v" "inv v" "hold v = Map.empty" "view v = view u"
    "dsk v = dsk u" "trc v = trc u" "pinned v = pinned u" "fr u v"
    using rl_law [of u y dst] u t by auto
  show ?thesis
    by (rule exI [of _ t], rule exI [of _ u], rule exI [of _ v])
      (simp add: idle_def t u v d fr_trans [OF w(7) fr_trans [OF t(8) fr_trans [OF u(8) v(8)]]])
qed

lemma read_two:
  assumes "idle s" "m < FSSIZE" "n < FSSIZE" "m \<noteq> n" "m \<in> pinned s \<or> card (pinned s) < NBUF"
    and "n \<in> pinned s \<or> card (insert m (pinned s)) < NBUF"
  shows "\<exists>x t y u. rd m s = Inr (x, t) \<and> fr s t \<and> rd n t = Inr (y, u) \<and> inv u \<and> x \<noteq> y \<and> hold u = [x \<mapsto> m, y \<mapsto> n]
    \<and> view u = view s \<and> dsk u = dsk s \<and> trc u = trc s \<and> pinned u = pinned s \<and> fr s u"
proof -
  obtain x t where t: "rd m s = Inr (x, t)" "inv t" "hold t = [x \<mapsto> m]" "view t = view s"
    "dsk t = dsk s" "trc t = trc s" "pinned t = pinned s" "fr s t"
    using rd_law [of s m] assms(1,2,5) by (auto simp: idle_def)
  obtain y u where u: "rd n t = Inr (y, u)" "inv u" "hold t y = None" "hold u = [x \<mapsto> m, y \<mapsto> n]" "view u = view t"
    "dsk u = dsk t" "trc u = trc t" "pinned u = pinned t" "fr t u"
    using rd_law [OF t(2), of n] assms(3,4,6) t by auto
  have ne: "x \<noteq> y" using u(3) t(3) by auto
  show ?thesis
    by (rule exI [of _ x], rule exI [of _ t], rule exI [of _ y], rule exI [of _ u])
      (simp add: t u ne fr_trans [OF t(8) u(9)])
qed

lemma copy_src_first:
  assumes "idle s" "src < FSSIZE" "dst < FSSIZE" "src \<noteq> dst" "src \<in> pinned s \<or> card (pinned s) < NBUF"
    and "dst \<in> pinned s \<or> card (insert src (pinned s)) < NBUF"
  shows "\<exists>x t y u v w z. rd src s = Inr (x, t) \<and> fr s t \<and> rd dst t = Inr (y, u) \<and> wr y (setd y (dat x u) u) = Inr v
    \<and> rl x v = Inr w \<and> rl y w = Inr z \<and> idle z
    \<and> view z = (view s)(dst := view s src) \<and> dsk z = (dsk s)(dst := view s src)
    \<and> trc z = trc s @ [(1, dst, view s src)] \<and> pinned z = pinned s - {dst} \<and> fr s z"
proof -
  obtain x t y u where u: "rd src s = Inr (x, t)" "fr s t" "rd dst t = Inr (y, u)" "inv u" "x \<noteq> y"
    "hold u = [x \<mapsto> src, y \<mapsto> dst]" "view u = view s" "dsk u = dsk s" "trc u = trc s" "pinned u = pinned s" "fr s u"
    using read_two [OF assms(1-6)] by blast
  have "src \<in> pinned u \<or> view u src = dsk u src"
    using clean [of s src] assms(1) u by (auto simp: idle_def)
  then obtain v w z where z: "wr y (setd y (dat x u) u) = Inr v" "rl x v = Inr w" "rl y w = Inr z" "idle z"
    "view z = (view u)(dst := view u src)" "dsk z = (dsk u)(dst := view u src)"
    "trc z = trc u @ [(1, dst, view u src)]" "pinned z = pinned u - {dst}" "fr u z"
    using copy_tail [OF u(4,6,5) assms(4)] by blast
  show ?thesis
    by (rule exI [of _ x], rule exI [of _ t], rule exI [of _ y], rule exI [of _ u], rule exI [of _ v],
        rule exI [of _ w], rule exI [of _ z]) (simp add: u z fr_trans [OF u(11) z(9)])
qed

lemma copy_dst_first:
  assumes "idle s" "src < FSSIZE" "dst < FSSIZE" "src \<noteq> dst" "dst \<in> pinned s \<or> card (pinned s) < NBUF"
    and "src \<in> pinned s \<or> card (insert dst (pinned s)) < NBUF"
  shows "\<exists>x t y u v w z. rd dst s = Inr (y, t) \<and> fr s t \<and> rd src t = Inr (x, u) \<and> wr y (setd y (dat x u) u) = Inr v
    \<and> rl x v = Inr w \<and> rl y w = Inr z \<and> idle z
    \<and> view z = (view s)(dst := view s src) \<and> dsk z = (dsk s)(dst := view s src)
    \<and> trc z = trc s @ [(1, dst, view s src)] \<and> pinned z = pinned s - {dst} \<and> fr s z"
proof -
  obtain x t y u where u: "rd dst s = Inr (y, t)" "fr s t" "rd src t = Inr (x, u)" "inv u" "x \<noteq> y"
    "hold u = [x \<mapsto> src, y \<mapsto> dst]" "view u = view s" "dsk u = dsk s" "trc u = trc s" "pinned u = pinned s" "fr s u"
    using read_two [OF assms(1,3,2) assms(4) [symmetric] assms(5,6)] by (metis fun_upd_twist)
  have "src \<in> pinned u \<or> view u src = dsk u src"
    using clean [of s src] assms(1) u by (auto simp: idle_def)
  then obtain v w z where z: "wr y (setd y (dat x u) u) = Inr v" "rl x v = Inr w" "rl y w = Inr z" "idle z"
    "view z = (view u)(dst := view u src)" "dsk z = (dsk u)(dst := view u src)"
    "trc z = trc u @ [(1, dst, view u src)]" "pinned z = pinned u - {dst}" "fr u z"
    using copy_tail [OF u(4,6,5) assms(4)] by blast
  show ?thesis
    by (rule exI [of _ x], rule exI [of _ t], rule exI [of _ y], rule exI [of _ u], rule exI [of _ v],
        rule exI [of _ w], rule exI [of _ z]) (simp add: u z fr_trans [OF u(11) z(9)])
qed

end

section \<open>The cache keeps the contract\<close>

text \<open>The caller is the only process that holds buffers.\<close>

definition cache_inv :: "'a bcache_scheme \<Rightarrow> bool" where
  "cache_inv s \<longleftrightarrow> bio_inv s \<and> proc_running s \<and> (\<forall>i < NBUF. sl_locked (slocks s (BufLock i)) \<longrightarrow> owns i s)"

definition buf_hold :: "'a bcache_scheme \<Rightarrow> nat \<Rightarrow> u32 option" where
  "buf_hold s b = (if b < NBUF \<and> sl_locked (slocks s (BufLock b)) then Some (b_blockno (bufs s ! b)) else None)"

definition buf_data :: "nat \<Rightarrow> 'a bcache_scheme \<Rightarrow> u8 list" where
  "buf_data b s = b_data (bufs s ! b)"

definition set_data :: "nat \<Rightarrow> u8 list \<Rightarrow> 'a bcache_scheme \<Rightarrow> 'a bcache_scheme" where
  "set_data b d s = upd_buf b (\<lambda>x. x\<lparr>b_data := d\<rparr>) s"

definition set_dirty :: "nat \<Rightarrow> 'a bcache_scheme \<Rightarrow> 'a bcache_scheme" where
  "set_dirty b s = upd_buf b (\<lambda>x. x\<lparr>b_dirty := True\<rparr>) s"

lemma buf_holdD:
  assumes "cache_inv s" "buf_hold s b = Some n"
  shows "bio_inv s" "b < NBUF" "owns b s" "b_blockno (bufs s ! b) = n" "caches s n b" "b_valid (bufs s ! b)" "n < FSSIZE"
proof -
  show b: "bio_inv s" "b < NBUF" "owns b s" "b_blockno (bufs s ! b) = n"
    using assms by (auto simp: cache_inv_def buf_hold_def split: if_splits)
  show "caches s n b" "b_valid (bufs s ! b)" "n < FSSIZE"
    using bio_invD(6) [OF b(1,2)] b(2-4) bio_invD(1) [OF b(1)] by (auto simp: buf_ok_def Let_def owns_def caches_def)
qed

lemma cache_clean:
  assumes "cache_inv s" "n \<notin> dirty s" "n \<notin> ran (buf_hold s)"
  shows "blk s n = disk s 1 n"
proof (cases "\<exists>i. caches s n i \<and> b_valid (bufs s ! i)")
  case True
  then obtain i where i: "caches s n i" "b_valid (bufs s ! i)" by blast
  have b: "bio_inv s" "i < NBUF" using assms(1) i(1) bio_invD(1) [of s] by (auto simp: cache_inv_def caches_def)
  have "buf_hold s i = Some n" if "sl_locked (slocks s (BufLock i))"
    using that b i(1) by (simp add: buf_hold_def caches_def)
  then have "\<not> sl_locked (slocks s (BufLock i))" using assms(3) by (auto intro: ranI)
  moreover have "\<not> b_dirty (bufs s ! i)" using assms(2) i(1) by (auto simp: dirty_def)
  ultimately have "b_data (bufs s ! i) = disk s 1 n"
    using bio_invD(6) [OF b] i by (auto simp: buf_ok_def Let_def caches_def)
  then show ?thesis using blk_cached [OF bio_invD(5) [OF b(1)] i] by simp
next
  case False
  then show ?thesis by (intro blk_uncached) auto
qed

text \<open>A buffer is free when fewer than \<open>NBUF\<close> blocks are pinned or held.\<close>

lemma cache_room:
  assumes "cache_inv s" "card (dirty s \<union> ran (buf_hold s)) < NBUF"
  shows "\<exists>i < NBUF. b_refcnt (bufs s ! i) = 0 \<and> \<not> b_dirty (bufs s ! i)"
proof (rule ccontr)
  assume no: "\<not> ?thesis"
  have b: "bio_inv s" using assms(1) by (simp add: cache_inv_def)
  note inv = bio_invD [OF b]
  let ?f = "\<lambda>i. b_blockno (bufs s ! i)"
  have ok: "b_dev (bufs s ! i) = 1 \<and> ?f i \<in> dirty s \<union> ran (buf_hold s)" if "i < NBUF" for i
  proof -
    have "b_dirty (bufs s ! i) \<or> sl_locked (slocks s (BufLock i))"
      using no that inv(6) [OF that] by (auto simp: buf_ok_def Let_def split: if_splits)
    moreover from this have "b_dev (bufs s ! i) = 1" using inv(6) [OF that] by (auto simp: buf_ok_def Let_def)
    ultimately show ?thesis using that inv(1) by (auto simp: dirty_def caches_def ran_def buf_hold_def)
  qed
  have "inj_on ?f {..<NBUF}" using ok inv(1,5) unfolding keys_distinct_def by (auto intro!: inj_onI)
  then have "card (?f ` {..<NBUF}) = NBUF" by (simp add: card_image)
  moreover have "finite (dirty s \<union> ran (buf_hold s))"
  proof (rule finite_subset)
    show "dirty s \<union> ran (buf_hold s) \<subseteq> ?f ` {..<NBUF}"
      using inv(1) by (auto simp: dirty_def caches_def ran_def buf_hold_def split: if_splits)
  qed simp
  then have "card (?f ` {..<NBUF}) \<le> card (dirty s \<union> ran (buf_hold s))" using ok by (intro card_mono) auto
  ultimately show False using assms(2) by simp
qed

lemma cache_bread:
  assumes "cache_inv s" "n < FSSIZE" "n \<notin> ran (buf_hold s)" "n \<in> dirty s \<or> card (dirty s \<union> ran (buf_hold s)) < NBUF"
  shows "\<exists>b t. bread 1 n s = Inr (b, t) \<and> cache_inv t \<and> buf_hold s b = None \<and> buf_hold t = (buf_hold s)(b \<mapsto> n) \<and>
    blk t = blk s \<and> disk t 1 = disk s 1 \<and> dtrace t = dtrace s \<and> dirty t = dirty s \<and> bio_frame s t"
proof -
  have inv: "bio_inv s" "proc_running s" using assms(1) by (simp_all add: cache_inv_def)
  have "buf_hold s i = Some n" if "caches s n i" "sl_locked (slocks s (BufLock i))" for i
    using that bio_invD(1) [OF inv(1)] by (simp add: buf_hold_def caches_def)
  then have "\<not> sl_locked (slocks s (BufLock i))" if "caches s n i" for i using assms(3) that by (auto intro: ranI)
  moreover have "(\<exists>i. caches s n i) \<or> (\<exists>i < NBUF. b_refcnt (bufs s ! i) = 0 \<and> \<not> b_dirty (bufs s ! i))"
    using assms(4) cache_room [OF assms(1)] by (auto simp: dirty_def)
  ultimately obtain b t where t: "bread 1 n s = Inr (b, t)" "fetched s n b t"
    using bread_spec [OF inv assms(2)] by blast
  note fi = fetched_inv [OF inv(1) t(2) assms(2)]
  have f: "b < NBUF" "\<not> sl_locked (slocks s (BufLock b))" "bio_frame s t" "disk t = disk s" "dtrace t = dtrace s"
    "\<And>i. i \<noteq> b \<Longrightarrow> bufs t ! i = bufs s ! i" "slocks t = (slocks s)(BufLock b := slocks t (BufLock b))"
    using t(2) by (simp_all add: fetched_def)
  have l: "slocks t (BufLock i) = slocks s (BufLock i)" if "i \<noteq> b" for i using f(7) that by (metis fun_upd_other slockid.inject(1))
  have "buf_hold t i = ((buf_hold s)(b \<mapsto> n)) i" for i
    using l [of i] f(6) [of i] f(1) fi(3,4) by (cases "i = b") (simp_all add: buf_hold_def owns_def caches_def)
  moreover have "owns i t" if "i < NBUF" "sl_locked (slocks t (BufLock i))" for i
    using that l [of i] fi(4) owns_frame [OF f(3) inv(2), of i] assms(1) by (cases "i = b") (auto simp: cache_inv_def)
  moreover have "buf_hold s b = None" using f(2) by (simp add: buf_hold_def)
  ultimately show ?thesis
    using t(1) fi(1,2) f(3-5) fetched_blk [OF inv(1) t(2)] curpid_frame(2) [OF f(3) inv(2)]
    by (intro exI [of _ b] exI [of _ t]) (simp add: cache_inv_def fun_eq_iff)
qed

lemma cache_update:
  assumes "cache_inv s" "buf_hold s b = Some n" "held_update s b x t" "bio_frame s t"
  shows "cache_inv t" "buf_hold t = buf_hold s" "blk t = (blk s)(n := b_data x)"
    "dirty t = (if b_dirty x then insert n (dirty s) else dirty s - {n})"
proof -
  note h = buf_holdD [OF assms(1,2)]
  note u = held_update_inv [OF h(1) assms(3)]
  have f: "b_blockno x = n" "slocks t = slocks s" "bufs t = (bufs s)[b := x]" using assms(3) h(4) by (simp_all add: held_update_def)
  have pr: "proc_running s" using assms(1) by (simp add: cache_inv_def)
  have "owns i t = owns i s" for i using owns_frame [OF assms(4) pr] f(2) by simp
  then show "cache_inv t" using u(1) assms(1) f(2) curpid_frame(2) [OF assms(4) pr] by (simp add: cache_inv_def)
  show "buf_hold t = buf_hold s"
  proof
    fix i
    show "buf_hold t i = buf_hold s i"
      using f h(2,4) bio_invD(1) [OF h(1)] by (cases "i = b") (simp_all add: buf_hold_def)
  qed
  show "blk t = (blk s)(n := b_data x)" "dirty t = (if b_dirty x then insert n (dirty s) else dirty s - {n})"
    using u(2,3) f(1) by simp_all
qed

lemma cache_set_data:
  assumes "cache_inv s" "buf_hold s b = Some n" "length d = BSIZE"
  shows "cache_inv (set_data b d s) \<and> buf_hold (set_data b d s) = buf_hold s \<and> blk (set_data b d s) = (blk s)(n := d)
    \<and> disk (set_data b d s) 1 = disk s 1 \<and> dtrace (set_data b d s) = dtrace s \<and> dirty (set_data b d s) = dirty s
    \<and> bio_frame s (set_data b d s)"
proof -
  note h = buf_holdD [OF assms(1,2)]
  note c = cache_update [OF assms(1,2) upd_data_held [OF h(1-3) assms(3)] bio_frame_ops(1)]
  have "n \<in> dirty s \<longleftrightarrow> b_dirty (bufs s ! b)" using dirty_iff [OF bio_invD(5) [OF h(1)] h(5)] .
  then show ?thesis using c by (auto simp: set_data_def)
qed

lemma cache_set_dirty:
  assumes "cache_inv s" "buf_hold s b = Some n"
  shows "cache_inv (set_dirty b s) \<and> buf_hold (set_dirty b s) = buf_hold s \<and> blk (set_dirty b s) = blk s
    \<and> disk (set_dirty b s) 1 = disk s 1 \<and> dtrace (set_dirty b s) = dtrace s \<and> dirty (set_dirty b s) = insert n (dirty s)
    \<and> bio_frame s (set_dirty b s)"
proof -
  note h = buf_holdD [OF assms(1,2)]
  note c = cache_update [OF assms(1,2) pin_held [OF h(1-3)] bio_frame_ops(1)]
  have "blk s n = b_data (bufs s ! b)" using blk_cached [OF bio_invD(5) [OF h(1)] h(5,6)] .
  then show ?thesis using c by (auto simp: set_dirty_def)
qed

lemma cache_bwrite:
  assumes "cache_inv s" "buf_hold s b = Some n"
  shows "\<exists>t. bwrite b s = Inr t \<and> cache_inv t \<and> buf_hold t = buf_hold s \<and> blk t = blk s \<and>
    disk t 1 = (disk s 1)(n := blk s n) \<and> dtrace t = dtrace s @ [(1, n, blk s n)] \<and> dirty t = dirty s - {n} \<and> bio_frame s t"
proof -
  note h = buf_holdD [OF assms(1,2)]
  have d: "blk s n = b_data (bufs s ! b)" using blk_cached [OF bio_invD(5) [OF h(1)] h(5,6)] .
  obtain t where t: "bwrite b s = Inr t" "held_update s b ((bufs s ! b)\<lparr>b_dirty := False\<rparr>) t" "bio_frame s t"
    "disk t = (disk s)(1 := (disk s 1)(n := blk s n))" "dtrace t = dtrace s @ [(1, n, blk s n)]"
    using bwrite_spec [OF h(1-3)] h(4) d by auto
  note c = cache_update [OF assms t(2,3)]
  have "blk t = blk s" using c(3) by (simp flip: d)
  then show ?thesis using t c by (intro exI [of _ t]) simp
qed

lemma cache_brelse:
  assumes "cache_inv s" "buf_hold s b = Some n" "n \<in> dirty s \<or> blk s n = disk s 1 n"
  shows "\<exists>t. brelse b s = Inr t \<and> cache_inv t \<and> buf_hold t = (buf_hold s)(b := None) \<and> blk t = blk s \<and>
    disk t 1 = disk s 1 \<and> dtrace t = dtrace s \<and> dirty t = dirty s \<and> bio_frame s t"
proof -
  note h = buf_holdD [OF assms(1,2)]
  obtain t where t: "brelse b s = Inr t" "released s b t" using brelse_spec [OF h(1-3)] by blast
  have pr: "proc_running s" using assms(1) by (simp add: cache_inv_def)
  have f: "bio_frame s t" "disk t = disk s" "dtrace t = dtrace s"
    "slocks t = (slocks s)(BufLock b := (slocks s (BufLock b))\<lparr>sl_locked := False, sl_pid := 0\<rparr>)"
    "\<And>i. i \<noteq> b \<Longrightarrow> bufs t ! i = bufs s ! i"
    using t(2) by (simp_all add: released_def)
  have "b_dirty (bufs s ! b) \<or> b_data (bufs s ! b) = disk s 1 (b_blockno (bufs s ! b))"
    using assms(3) dirty_iff [OF bio_invD(5) [OF h(1)] h(5)] blk_cached [OF bio_invD(5) [OF h(1)] h(5,6)] h(4) by auto
  then have "bio_inv t" using released_inv [OF h(1) t(2) h(2,3)] by blast
  moreover have "owns i t" if "i < NBUF" "sl_locked (slocks t (BufLock i))" for i
    using that f(4) owns_frame [OF f(1) pr, of i] assms(1) by (cases "i = b") (auto simp: cache_inv_def)
  moreover have "buf_hold t i = ((buf_hold s)(b := None)) i" for i
    using f(4) f(5) [of i] by (cases "i = b") (simp_all add: buf_hold_def)
  ultimately show ?thesis
    using t(1) f(1-3) released_blk [OF t(2)] curpid_frame(2) [OF f(1) pr]
    by (intro exI [of _ t]) (simp add: cache_inv_def fun_eq_iff)
qed

interpretation bc: block_cache "bread 1" buf_data set_data set_dirty bwrite brelse cache_inv buf_hold blk "\<lambda>s. disk s 1"
  dtrace dirty bio_frame
proof
  fix s :: "'a bcache_scheme" and b n
  assume "cache_inv s" "buf_hold s b = Some n"
  then show "buf_data b s = blk s n"
    using buf_holdD [of s b n] blk_cached [of s n b] bio_invD(5) [of s] by (simp add: buf_data_def)
qed (fact bio_frame_trans cache_clean cache_bread cache_set_data cache_set_dirty cache_bwrite cache_brelse
  | simp add: cache_inv_def length_blk)+

section \<open>The cache after boot\<close>

definition buf0 :: buf where
  "buf0 = \<lparr>b_valid = False, b_dirty = False, b_dev = 0, b_blockno = 0, b_refcnt = 0, b_data = replicate BSIZE 0\<rparr>"

text \<open>The state of a machine before binit: buffers are zero, and the disk is ready.\<close>

definition booted :: "'a bcache_scheme \<Rightarrow> bool" where
  "booted s \<longleftrightarrow> bufs s = replicate NBUF buf0 \<and> idequeue s = [] \<and> disk_ok s \<and> proc_running s
     \<and> (\<forall>n. length (disk s 1 n) = BSIZE)"

lemma proc_running_cong:
  "cpus t = cpus s \<Longrightarrow> m_lapicid t = m_lapicid s \<Longrightarrow> ptable t = ptable s \<Longrightarrow> proc_running t = proc_running s"
  by (simp add: proc_running_def curproc_def cur_def split: option.split)

lemma binit_step:
  fixes s :: "'a bcache_scheme" and b i :: nat and name :: string
  defines "t \<equiv> (initsleeplock (BufLock b) name s)\<lparr>lru := b # lru s\<rparr>"
  shows "bufs t = bufs s" "idequeue t = idequeue s" "disk_ok t = disk_ok s" "disk t = disk s" "dtrace t = dtrace s"
    "proc_running t = proc_running s" "lru t = b # lru s" "bcache.more t = bcache.more s"
    "sl_locked (slocks t (BufLock i)) \<longleftrightarrow> i \<noteq> b \<and> sl_locked (slocks s (BufLock i))"
proof -
  show "proc_running t = proc_running s"
    by (rule proc_running_cong) (simp_all add: t_def initsleeplock_def initlock_def upd_lock_def upd_slock_def)
qed (simp_all add: t_def initsleeplock_def initlock_def upd_lock_def upd_slock_def disk_ok_def)

lemma binit_sel:
  fixes s :: "'a bcache_scheme"
  shows "bufs (binit s) = bufs s" "idequeue (binit s) = idequeue s" "disk_ok (binit s) = disk_ok s"
    "disk (binit s) = disk s" "dtrace (binit s) = dtrace s" "proc_running (binit s) = proc_running s"
    "lru (binit s) = rev [0..<NBUF]" "b < NBUF \<Longrightarrow> \<not> sl_locked (slocks (binit s) (BufLock b))"
    "bcache.more (binit s) = bcache.more s"
proof -
  let ?f = "\<lambda>b s. (initsleeplock (BufLock b) ''buffer'' s)\<lparr>lru := b # lru s\<rparr>"
  let ?P = "\<lambda>n t. bufs t = bufs s \<and> idequeue t = idequeue s \<and> disk_ok t = disk_ok s \<and> disk t = disk s
    \<and> dtrace t = dtrace s \<and> proc_running t = proc_running s \<and> lru t = rev [0..<n]
    \<and> (\<forall>b < n. \<not> sl_locked (slocks t (BufLock b))) \<and> bcache.more t = bcache.more s"
  have step: "?P (Suc n) (?f n u)" if "?P n u" for n and u :: "'a bcache_scheme"
    using that unfolding binit_step by (auto simp: less_Suc_eq)
  have "?P n (fold ?f [0..<n] ((initlock BcacheLock ''bcache'' s)\<lparr>lru := []\<rparr>))" for n
  proof (induction n)
    case 0
    have "proc_running ((initlock BcacheLock ''bcache'' s)\<lparr>lru := []\<rparr>) = proc_running s"
      by (rule proc_running_cong) (simp_all add: initlock_def upd_lock_def)
    then show ?case by (simp add: initlock_def upd_lock_def disk_ok_def)
  next
    case (Suc n)
    then show ?case unfolding upt_Suc_append [OF le0] fold_append using step by simp
  qed
  from this [of NBUF] show "bufs (binit s) = bufs s" "idequeue (binit s) = idequeue s" "disk_ok (binit s) = disk_ok s"
    "disk (binit s) = disk s" "dtrace (binit s) = dtrace s" "proc_running (binit s) = proc_running s"
    "lru (binit s) = rev [0..<NBUF]" "b < NBUF \<Longrightarrow> \<not> sl_locked (slocks (binit s) (BufLock b))"
    "bcache.more (binit s) = bcache.more s"
    by (simp_all add: binit_def)
qed

lemma binit_cache_inv:
  assumes "booted s"
  shows "cache_inv (binit s)" "buf_hold (binit s) = Map.empty" "blk (binit s) = disk s 1" "dirty (binit s) = {}"
proof -
  have z: "bufs s = replicate NBUF buf0" using assms by (simp add: booted_def)
  have nc: "\<not> caches (binit s) n i" for n i
    by (auto simp: caches_def binit_sel z buf0_def)
  show "blk (binit s) = disk s 1" using nc blk_uncached [of "binit s"] by (intro ext) (simp add: binit_sel)
  show "dirty (binit s) = {}" using nc by (simp add: dirty_def)
  show "buf_hold (binit s) = Map.empty" by (simp add: buf_hold_def fun_eq_iff binit_sel)
  have "buf_ok (binit s) i" if "i < NBUF" for i
    using that binit_sel(8) [of i s] by (simp add: buf_ok_def binit_sel(1,4) z buf0_def)
  then show "cache_inv (binit s)"
    using assms binit_sel(8) [of _ s] unfolding cache_inv_def bio_inv_def booted_def
    by (auto simp: binit_sel(1-7) keys_distinct_def buf0_def)
qed

section \<open>Properties\<close>


definition bcache_ex :: "(u32 \<Rightarrow> u32 \<Rightarrow> u8 list) \<Rightarrow> bcache" where
  "bcache_ex d = disks.extend (disks_ex (replicate NBUF buf0) [] (\<lambda>_. \<lparr>sl_locked = False, sl_name = [], sl_pid = 0\<rparr>) d)
     (bcache.fields [])"

lemma bcache_ex_booted: "(\<And>n. length (d 1 n) = BSIZE) \<Longrightarrow> booted (bcache_ex d)"
  by (simp add: booted_def bcache_ex_def disks_ex_def disks.defs bcache.defs disk_ok_def IDE_BSY_def IDE_DRDY_def IDE_DF_def IDE_ERR_def
      proc_running_def curproc_def cur_eq two_cpus_def table_ex_def)


end
