(* ===== verification/Log.thy ===== *)
theory Log
  imports Bio
begin

unbundle bit_operations_syntax

text \<open>
  The log (log.c) and readsb of fs.c. The in-memory header is \<open>lh_n\<close> and the array \<open>lh_block\<close>;
  on the disk it is the block at \<open>log.start\<close>, with the number of logged blocks in its first word and
  the block numbers in the words after it. A call of begin_op that has to wait is \<open>Blocks ChLog\<close>.
  The main result is that a crash between any two disk writes of a commit is harmless: after
  recovery the disk has either none or all of the updates of the transaction.
\<close>

section \<open>Data\<close>

definition LOGSIZE :: nat where "LOGSIZE = 30"
definition MAXOPBLOCKS :: int where "MAXOPBLOCKS = 10"

record superblock =
  sb_size :: u32
  sb_nblocks :: u32
  sb_ninodes :: u32
  sb_nlog :: u32
  sb_logstart :: u32
  sb_inodestart :: u32
  sb_bmapstart :: u32

record logs = bcache +
  log_start :: int
  log_size :: int
  log_outstanding :: int
  log_committing :: bool
  log_dev :: u32
  lh_n :: int
  lh_block :: "u32 list"

text \<open>A loop over the elements of a list, stopped by the first error.\<close>

fun forE :: "('a \<Rightarrow> 's \<Rightarrow> 's result) \<Rightarrow> 'a list \<Rightarrow> 's \<Rightarrow> 's result" where
  "forE f [] s = Inr s"
| "forE f (x # xs) s = bindE (f x s) (forE f xs)"

section \<open>Operations\<close>

definition readsb :: "u32 \<Rightarrow> 'a bcache_scheme \<Rightarrow> (superblock \<times> 'a bcache_scheme) result" where
  "readsb dev s =
    bindE (bread dev 1 s) (\<lambda>(bp, s).
    let d = buf_data bp s;
        sb = \<lparr>sb_size = get32 d 0, sb_nblocks = get32 d 4, sb_ninodes = get32 d 8, sb_nlog = get32 d 12,
              sb_logstart = get32 d 16, sb_inodestart = get32 d 20, sb_bmapstart = get32 d 24\<rparr> in
    bindE (brelse bp s) (\<lambda>s. Inr (sb, s)))"

text \<open>The number of log block \<open>tail\<close>, as the argument of bread.\<close>

definition logblk :: "'a logs_scheme \<Rightarrow> nat \<Rightarrow> u32" where
  "logblk s tail = word_of_int (log_start s + int tail + 1)"

definition install_trans :: "'a logs_scheme \<Rightarrow> 'a logs_scheme result" where
  "install_trans s =
    forE (\<lambda>tail s.
      bindE (bread (log_dev s) (logblk s tail) s) (\<lambda>(lbuf, s).
      bindE (bread (log_dev s) (lh_block s ! tail) s) (\<lambda>(dbuf, s).
      bindE (bwrite dbuf (set_data dbuf (buf_data lbuf s) s)) (\<lambda>s.
      bindE (brelse lbuf s) (\<lambda>s.
      brelse dbuf s))))) [0..<nat (lh_n s)] s"

definition read_head :: "'a logs_scheme \<Rightarrow> 'a logs_scheme result" where
  "read_head s =
    bindE (bread (log_dev s) (word_of_int (log_start s)) s) (\<lambda>(buf, s).
    let lh = buf_data buf s; n = sint (get32 lh 0) in
    if int LOGSIZE < n then Inl BadAccess
    else brelse buf (s\<lparr>lh_n := n,
      lh_block := map (\<lambda>i. get32 lh (4 + 4 * i)) [0..<nat n] @ drop (nat n) (lh_block s)\<rparr>))"

definition write_head :: "'a logs_scheme \<Rightarrow> 'a logs_scheme result" where
  "write_head s =
    bindE (bread (log_dev s) (word_of_int (log_start s)) s) (\<lambda>(buf, s).
    let hb = put32s (put32 (buf_data buf s) 0 (word_of_int (lh_n s))) 4 (take (nat (lh_n s)) (lh_block s)) in
    bindE (bwrite buf (set_data buf hb s)) (\<lambda>s.
    brelse buf s))"

definition recover_from_log :: "'a logs_scheme \<Rightarrow> 'a logs_scheme result" where
  "recover_from_log s =
    bindE (read_head s) (\<lambda>s.
    bindE (install_trans s) (\<lambda>s.
    write_head (s\<lparr>lh_n := 0\<rparr>)))"

definition initlog :: "u32 \<Rightarrow> 'a logs_scheme \<Rightarrow> 'a logs_scheme result" where
  "initlog dev s =
    (if BSIZE \<le> 4 + 4 * LOGSIZE then Inl (Panic ''initlog: too big logheader'')
     else bindE (readsb dev (initlock LogLock ''log'' s)) (\<lambda>(sb, s).
       recover_from_log (s\<lparr>log_start := sint (sb_logstart sb), log_size := sint (sb_nlog sb), log_dev := dev\<rparr>)))"

definition begin_op :: "'a logs_scheme \<Rightarrow> 'a logs_scheme result" where
  "begin_op s =
    (if log_committing s then Inl (Blocks ChLog)
     else if int LOGSIZE < lh_n s + (log_outstanding s + 1) * MAXOPBLOCKS then Inl (Blocks ChLog)
     else Inr (s\<lparr>log_outstanding := log_outstanding s + 1\<rparr>))"

definition write_log :: "'a logs_scheme \<Rightarrow> 'a logs_scheme result" where
  "write_log s =
    forE (\<lambda>tail s.
      bindE (bread (log_dev s) (logblk s tail) s) (\<lambda>(to, s).
      bindE (bread (log_dev s) (lh_block s ! tail) s) (\<lambda>(from, s).
      bindE (bwrite to (set_data to (buf_data from s) s)) (\<lambda>s.
      bindE (brelse from s) (\<lambda>s.
      brelse to s))))) [0..<nat (lh_n s)] s"

definition commit :: "'a logs_scheme \<Rightarrow> 'a logs_scheme result" where
  "commit s =
    (if lh_n s > 0
     then bindE (write_log s) (\<lambda>s.
          bindE (write_head s) (\<lambda>s.
          bindE (install_trans s) (\<lambda>s.
          write_head (s\<lparr>lh_n := 0\<rparr>))))
     else Inr s)"

definition end_op :: "'a logs_scheme \<Rightarrow> 'a logs_scheme result" where
  "end_op s =
    (let s = s\<lparr>log_outstanding := log_outstanding s - 1\<rparr> in
     if log_committing s then Inl (Panic ''log.committing'')
     else if log_outstanding s = 0
     then bindE (commit (s\<lparr>log_committing := True\<rparr>)) (\<lambda>s.
       Inr (wakeup1 (Some ChLog) (s\<lparr>log_committing := False\<rparr>)))
     else Inr (wakeup1 (Some ChLog) s))"

definition log_write :: "nat \<Rightarrow> 'a logs_scheme \<Rightarrow> 'a logs_scheme result" where
  "log_write b s =
    (if int LOGSIZE \<le> lh_n s \<or> log_size s - 1 \<le> lh_n s then Inl (Panic ''too big a transaction'')
     else if log_outstanding s < 1 then Inl (Panic ''log_write outside of trans'')
     else
       let bno = b_blockno (bufs s ! b) in
       Inr (set_dirty b (case scan (\<lambda>x. x = bno) (take (nat (lh_n s)) (lh_block s)) of
         Some i \<Rightarrow> s\<lparr>lh_block := (lh_block s)[i := bno]\<rparr>
       | None \<Rightarrow> s\<lparr>lh_block := (lh_block s)[nat (lh_n s) := bno], lh_n := lh_n s + 1\<rparr>)))"

section \<open>Lemmas\<close>

lemma forE_append: "forE f (xs @ ys) s = bindE (forE f xs s) (forE f ys)"
  by (induction xs arbitrary: s) (simp_all add: bindE_assoc cong: bindE_cong)

lemma forE_upt_rule:
  assumes "P 0 s" "\<And>j u. j < n \<Longrightarrow> P j u \<Longrightarrow> \<exists>v. f j u = Inr v \<and> P (Suc j) v"
  shows "\<exists>t. forE f [0..<n] s = Inr t \<and> P n t"
proof -
  have "\<exists>t. forE f [0..<k] s = Inr t \<and> P k t" if "k \<le> n" for k
    using that
  proof (induction k)
    case (Suc k)
    then obtain t where t: "forE f [0..<k] s = Inr t" "P k t" by auto
    obtain v where v: "f k t = Inr v" "P (Suc k) v" using assms(2) [of k t] Suc.prems t(2) by auto
    show ?case using t v by (simp add: forE_append)
  qed (use assms(1) in simp)
  then show ?thesis by simp
qed

text \<open>A sequence of disk writes, applied to the contents of a drive.\<close>

definition replay :: "(u32 \<times> u32 \<times> u8 list) list \<Rightarrow> (u32 \<Rightarrow> u8 list) \<Rightarrow> u32 \<Rightarrow> u8 list" where
  "replay ws d = fold (\<lambda>(_, n, x) f. f(n := x)) ws d"

lemma replay_simps [simp]:
  "replay [] d = d" "replay (ws @ vs) d = replay vs (replay ws d)" "replay ((k, n, x) # ws) d = replay ws (d(n := x))"
  by (simp_all add: replay_def)

lemma replay_other: "(\<And>k x. (k, n, x) \<notin> set ws) \<Longrightarrow> replay ws d n = d n"
proof (induction ws arbitrary: d)
  case (Cons w ws)
  obtain k m x where w: "w = (k, m, x)" by (cases w)
  then have "m \<noteq> n" using Cons.prems [of k x] by auto
  moreover have "replay ws (d(m := x)) n = (d(m := x)) n" using Cons.prems by (intro Cons.IH) simp
  ultimately show ?case using w by (simp add: replay_def)
qed simp

lemma replay_hit:
  assumes "i < n" "inj_on g {..<n}"
  shows "replay (map (\<lambda>i. (1, g i, h i)) [0..<n]) d (g i) = h i"
  using assms
proof (induction n)
  case (Suc n)
  show ?case
  proof (cases "i = n")
    case False
    then have "i < n" "g i \<noteq> g n" using Suc.prems by (auto simp: inj_on_def)
    then show ?thesis using Suc by (auto simp: inj_on_def)
  qed simp
qed simp

text \<open>The header block: \<open>hb\<close> of write_head.\<close>

definition head_block :: "u8 list \<Rightarrow> u32 list \<Rightarrow> u8 list" where
  "head_block d bs = put32s (put32 d 0 (word_of_int (int (length bs)))) 4 bs"

lemma head_block:
  assumes "length d = BSIZE" "length bs \<le> LOGSIZE"
  shows "length (head_block d bs) = BSIZE" "sint (get32 (head_block d bs) 0) = int (length bs)"
    "i < length bs \<Longrightarrow> get32 (head_block d bs) (4 + 4 * i) = bs ! i"
proof -
  have l: "4 + 4 * length bs \<le> length (put32 d 0 (word_of_int (int (length bs))))" "4 \<le> length d"
    using assms by (simp_all add: BSIZE_def LOGSIZE_def)
  then show "length (head_block d bs) = BSIZE" using assms by (simp add: head_block_def)
  have "get32 (head_block d bs) 0 = word_of_int (int (length bs))"
    using get32_put32s [of 4 bs "put32 d 0 (word_of_int (int (length bs)))" 0] l by (simp add: head_block_def)
  then show "sint (get32 (head_block d bs) 0) = int (length bs)"
    using assms(2) int_word_sint [of "int (length bs)", where 'a = 32] by (simp add: LOGSIZE_def)
  show "i < length bs \<Longrightarrow> get32 (head_block d bs) (4 + 4 * i) = bs ! i"
    using get32_put32s_nth [OF l(1), of i] by (simp add: head_block_def)
qed

lemma log_fields:
  assumes "bio_frame s t"
  shows "log_start t = log_start s" "log_size t = log_size s" "log_outstanding t = log_outstanding s"
    "log_committing t = log_committing s" "log_dev t = log_dev s" "lh_n t = lh_n s" "lh_block t = lh_block s"
    "logs.more t = logs.more s"
  using assms by (cases s; cases t; simp add: bio_frame_def)+

lemma logblk_frame: "bio_frame s t \<Longrightarrow> logblk t = logblk s"
  by (simp add: logblk_def log_fields fun_eq_iff)

section \<open>What the operations do\<close>

definition log_blocks :: "'a logs_scheme \<Rightarrow> u32 list" where
  "log_blocks s = take (nat (lh_n s)) (lh_block s)"

definition loghdr :: "'a logs_scheme \<Rightarrow> u32" where
  "loghdr s = word_of_int (log_start s)"

text \<open>How many blocks the log on the disk has beside its header.\<close>

definition log_cap :: "'a logs_scheme \<Rightarrow> nat" where
  "log_cap s = nat (log_size s - 1)"

definition log_region :: "'a logs_scheme \<Rightarrow> u32 set" where
  "log_region s = insert (loghdr s) (logblk s ` {..<log_cap s})"

text \<open>The log lies on the disk, and the logged blocks are different blocks outside of it.\<close>

definition log_geom :: "'a logs_scheme \<Rightarrow> bool" where
  "log_geom s \<longleftrightarrow> 0 \<le> log_start s \<and> 1 \<le> log_size s \<and> log_start s + log_size s \<le> 1000 \<and> log_dev s = 1
     \<and> length (lh_block s) = LOGSIZE \<and> 0 \<le> lh_n s \<and> lh_n s \<le> int LOGSIZE \<and> lh_n s < log_size s"

definition log_homes :: "'a logs_scheme \<Rightarrow> bool" where
  "log_homes s \<longleftrightarrow> distinct (log_blocks s) \<and> (\<forall>m \<in> set (log_blocks s). m < FSSIZE \<and> m \<notin> log_region s)"

lemma log_frame_sel:
  assumes "bio_frame s t"
  shows "log_blocks t = log_blocks s" "loghdr t = loghdr s" "log_region t = log_region s" "log_geom t = log_geom s"
    "log_homes t = log_homes s"
  by (simp_all add: log_blocks_def loghdr_def log_region_def log_cap_def log_geom_def log_homes_def log_fields [OF assms] logblk_frame [OF assms])

lemma log_geom_bounds:
  assumes "log_geom s"
  shows "loghdr s < FSSIZE" "i < log_cap s \<Longrightarrow> logblk s i < FSSIZE" "inj_on (logblk s) {..<log_cap s}"
    "i < log_cap s \<Longrightarrow> logblk s i \<noteq> loghdr s" "length (log_blocks s) = nat (lh_n s)" "nat (lh_n s) \<le> LOGSIZE"
    "nat (lh_n s) \<le> log_cap s"
proof -
  have g: "0 \<le> log_start s" "1 \<le> log_size s" "log_start s + log_size s \<le> 1000" using assms by (simp_all add: log_geom_def)
  have u: "uint (word_of_int k :: u32) = k" if "0 \<le> k" "k < 1000" for k
    using that by (simp add: uint_word_of_int)
  have h: "uint (loghdr s) = log_start s" using u g by (simp add: loghdr_def)
  have b: "uint (logblk s i) = log_start s + int i + 1" if "i < log_cap s" for i
    using u [of "log_start s + int i + 1"] g that by (simp add: logblk_def log_cap_def)
  show "loghdr s < FSSIZE" using h g by (simp add: word_less_def FSSIZE_def)
  show "i < log_cap s \<Longrightarrow> logblk s i < FSSIZE" using b [of i] g by (simp add: word_less_def FSSIZE_def log_cap_def)
  show "inj_on (logblk s) {..<log_cap s}" using b by (auto intro!: inj_onI) (metis add_right_cancel add_left_cancel of_nat_eq_iff)
  show "i < log_cap s \<Longrightarrow> logblk s i \<noteq> loghdr s" using b [of i] h by auto
  show "length (log_blocks s) = nat (lh_n s)" "nat (lh_n s) \<le> LOGSIZE" "nat (lh_n s) \<le> log_cap s"
    using assms by (auto simp: log_geom_def log_blocks_def log_cap_def)
qed

text \<open>A state reached by the disk writes \<open>ws\<close>, each through the cache.\<close>

definition wrote :: "'a logs_scheme \<Rightarrow> (u32 \<times> u32 \<times> u8 list) list \<Rightarrow> 'a logs_scheme \<Rightarrow> bool" where
  "wrote s ws t \<longleftrightarrow> bc.idle t \<and> bio_frame s t \<and> dtrace t = dtrace s @ ws
     \<and> disk t 1 = replay ws (disk s 1) \<and> blk t = replay ws (blk s)"

lemma wrote_step:
  "wrote s ws t \<Longrightarrow> bc.idle u \<Longrightarrow> bio_frame t u \<Longrightarrow> dtrace u = dtrace t @ [(1, n, x)] \<Longrightarrow> disk u 1 = (disk t 1)(n := x) \<Longrightarrow>
   blk u = (blk t)(n := x) \<Longrightarrow> wrote s (ws @ [(1, n, x)]) u"
  using bio_frame_trans [of s t u] by (simp add: wrote_def)

definition log_writes :: "'a logs_scheme \<Rightarrow> (u32 \<times> u32 \<times> u8 list) list" where
  "log_writes s = map (\<lambda>i. (1, logblk s i, blk s (log_blocks s ! i))) [0..<nat (lh_n s)]"

definition install_writes :: "'a logs_scheme \<Rightarrow> (u32 \<times> u32 \<times> u8 list) list" where
  "install_writes s = map (\<lambda>i. (1, log_blocks s ! i, blk s (logblk s i))) [0..<nat (lh_n s)]"

lemma lh_block_nth: "log_geom s \<Longrightarrow> i < nat (lh_n s) \<Longrightarrow> lh_block s ! i = log_blocks s ! i"
  by (simp add: log_blocks_def)

lemma log_home_nth:
  assumes "log_geom s" "log_homes s" "i < nat (lh_n s)"
  shows "log_blocks s ! i \<in> set (log_blocks s)" "log_blocks s ! i < FSSIZE" "j < log_cap s \<Longrightarrow> log_blocks s ! i \<noteq> logblk s j"
    "log_blocks s ! i \<noteq> loghdr s"
proof -
  show m: "log_blocks s ! i \<in> set (log_blocks s)" using assms(3) log_geom_bounds(5) [OF assms(1)] by simp
  then show "log_blocks s ! i < FSSIZE" "j < log_cap s \<Longrightarrow> log_blocks s ! i \<noteq> logblk s j" "log_blocks s ! i \<noteq> loghdr s"
    using assms(2) by (auto simp: log_homes_def log_region_def)
qed

lemma write_log_spec:
  assumes "bc.idle s" "log_geom s" "log_homes s" "dirty s = set (log_blocks s)" "lh_n s < int NBUF"
  shows "\<exists>t. write_log s = Inr t \<and> wrote s (log_writes s) t \<and> dirty t = dirty s"
proof -
  note g = log_geom_bounds [OF assms(2)] and home = log_home_nth [OF assms(2,3)]
  let ?n = "nat (lh_n s)"
  let ?W = "\<lambda>j. map (\<lambda>i. (1, logblk s i, blk s (log_blocks s ! i))) [0..<j]"
  let ?P = "\<lambda>j t. wrote s (?W j) t \<and> dirty t = dirty s"
  have dev: "log_dev s = 1" using assms(2) by (simp add: log_geom_def)
  have card: "card (dirty s) < NBUF"
    using assms(2,4,5) g(5) card_length [of "log_blocks s"] by (auto simp: log_geom_def)
  have "\<exists>t. write_log s = Inr t \<and> ?P ?n t" unfolding write_log_def
  proof (rule forE_upt_rule [where P = ?P])
    show "?P 0 s" using assms(1) by (simp add: wrote_def)
  next
    fix j u assume j: "j < ?n" and P: "?P j u"
    then have fr: "bio_frame s u" and u: "bc.idle u" "dirty u = dirty s" by (auto simp: wrote_def)
    have jl: "j < log_cap s" using j g(7) by simp
    have src: "blk u (log_blocks s ! j) = blk s (log_blocks s ! j)"
      using P home(3) [OF j] g(7) j by (auto simp: wrote_def intro!: replay_other) (metis less_trans order_less_le_trans)
    have pin: "log_blocks s ! j \<in> dirty u" using home(1) [OF j] u(2) assms(4) by simp
    have "logblk s j \<notin> dirty s" using assms(3,4) jl by (auto simp: log_homes_def log_region_def)
    then obtain x t y v w z k where z: "bread 1 (logblk s j) u = Inr (y, t)" "bio_frame u t"
      "bread 1 (log_blocks s ! j) t = Inr (x, v)" "bwrite y (set_data y (buf_data x v) v) = Inr w" "brelse x w = Inr z"
      "brelse y z = Inr k" "bc.idle k" "blk k = (blk u)(logblk s j := blk s (log_blocks s ! j))"
      "disk k 1 = (disk u 1)(logblk s j := blk s (log_blocks s ! j))"
      "dtrace k = dtrace u @ [(1, logblk s j, blk s (log_blocks s ! j))]" "dirty k = dirty s" "bio_frame u k"
      using bc.copy_dst_first [OF u(1) home(2) [OF j] g(2) [OF jl] home(3) [OF j jl]] card pin u(2) src by auto
    have "bio_frame s t" by (rule bio_frame_trans [OF fr z(2)])
    then show "\<exists>v. bindE (bread (log_dev u) (logblk u j) u) (\<lambda>(to, s).
        bindE (bread (log_dev s) (lh_block s ! j) s) (\<lambda>(from, s).
        bindE (bwrite to (set_data to (buf_data from s) s)) (\<lambda>s. bindE (brelse from s) (brelse to)))) = Inr v
        \<and> ?P (Suc j) v"
      using z(1,3-7,11) wrote_step [OF _ z(7,12,10,9,8), of s "?W j"] P
      by (simp add: log_fields [OF fr] logblk_frame [OF fr] log_fields [of s t] dev lh_block_nth [OF assms(2) j])
  qed
  then show ?thesis by (simp add: log_writes_def)
qed

lemma install_trans_spec:
  assumes "bc.idle s" "log_geom s" "log_homes s" "card (dirty s) < NBUF"
    and pin: "set (log_blocks s) \<subseteq> dirty s \<or> dirty s = {}"
  shows "\<exists>t. install_trans s = Inr t \<and> wrote s (install_writes s) t \<and> dirty t = dirty s - set (log_blocks s)"
proof -
  note g = log_geom_bounds [OF assms(2)] and home = log_home_nth [OF assms(2,3)]
  let ?n = "nat (lh_n s)"
  let ?W = "\<lambda>j. map (\<lambda>i. (1, log_blocks s ! i, blk s (logblk s i))) [0..<j]"
  let ?P = "\<lambda>j t. wrote s (?W j) t \<and> dirty t = dirty s - set (take j (log_blocks s))"
  have dev: "log_dev s = 1" using assms(2) by (simp add: log_geom_def)
  have dist: "distinct (log_blocks s)" using assms(3) by (simp add: log_homes_def)
  have "\<exists>t. install_trans s = Inr t \<and> ?P ?n t" unfolding install_trans_def
  proof (rule forE_upt_rule [where P = ?P])
    show "?P 0 s" using assms(1) by (simp add: wrote_def)
  next
    fix j u assume j: "j < ?n" and P: "?P j u"
    then have fr: "bio_frame s u" and u: "bc.idle u" "dirty u = dirty s - set (take j (log_blocks s))" by (auto simp: wrote_def)
    have jl: "j < log_cap s" using j g(7) by simp
    have src: "blk u (logblk s j) = blk s (logblk s j)"
      using P home(3) [OF _ jl] j by (auto simp: wrote_def intro!: replay_other) (metis less_trans)
    have "card (dirty u) \<le> card (dirty s)"
      using u(2) assms(4) pin by (cases "finite (dirty s)") (auto intro: card_mono)
    then have c: "card (dirty u) < NBUF" using assms(4) by simp
    have "log_blocks s ! j \<notin> set (take j (log_blocks s))"
      using dist j g(5) by (auto simp: in_set_conv_nth distinct_conv_nth)
    then have d: "log_blocks s ! j \<in> dirty u \<or> card (insert (logblk s j) (dirty u)) < NBUF"
      using pin u(2) home(1) [OF j] by (auto simp: NBUF_def)
    have take: "take (Suc j) (log_blocks s) = take j (log_blocks s) @ [log_blocks s ! j]"
      using j g(5) by (simp add: take_Suc_conv_app_nth)
    obtain x t y v w z k where z: "bread 1 (logblk s j) u = Inr (x, t)" "bio_frame u t"
      "bread 1 (log_blocks s ! j) t = Inr (y, v)" "bwrite y (set_data y (buf_data x v) v) = Inr w" "brelse x w = Inr z"
      "brelse y z = Inr k" "bc.idle k" "blk k = (blk u)(log_blocks s ! j := blk s (logblk s j))"
      "disk k 1 = (disk u 1)(log_blocks s ! j := blk s (logblk s j))"
      "dtrace k = dtrace u @ [(1, log_blocks s ! j, blk s (logblk s j))]"
      "dirty k = dirty u - {log_blocks s ! j}" "bio_frame u k"
      using bc.copy_src_first [OF u(1) g(2) [OF jl] home(2) [OF j] home(3) [OF j jl, symmetric]] c d src by auto
    have "bio_frame s t" by (rule bio_frame_trans [OF fr z(2)])
    moreover have "dirty k = dirty s - set (take (Suc j) (log_blocks s))" using z(11) u(2) take by auto
    ultimately show "\<exists>v. bindE (bread (log_dev u) (logblk u j) u) (\<lambda>(lbuf, s).
        bindE (bread (log_dev s) (lh_block s ! j) s) (\<lambda>(dbuf, s).
        bindE (bwrite dbuf (set_data dbuf (buf_data lbuf s) s)) (\<lambda>s. bindE (brelse lbuf s) (brelse dbuf)))) = Inr v
        \<and> ?P (Suc j) v"
      using z(1,3-7) wrote_step [OF _ z(7,12,10,9,8), of s "?W j"] P
      by (simp add: log_fields [OF fr] logblk_frame [OF fr] log_fields [of s t] dev lh_block_nth [OF assms(2) j])
  qed
  then show ?thesis using g(5) by (simp add: install_writes_def)
qed

lemma write_head_spec:
  assumes "bc.idle s" "log_geom s" "card (dirty s) < NBUF"
  shows "\<exists>t. write_head s = Inr t \<and> wrote s [(1, loghdr s, head_block (blk s (loghdr s)) (log_blocks s))] t
    \<and> dirty t = dirty s - {loghdr s}"
proof -
  note g = log_geom_bounds [OF assms(2)]
  let ?f = "\<lambda>d. head_block d (log_blocks s)"
  have dev: "log_dev s = 1" "0 \<le> lh_n s" using assms(2) by (simp_all add: log_geom_def)
  have n: "int (length (log_blocks s)) = lh_n s" using g(5) dev by simp
  have "length (?f d) = BSIZE" if "length d = BSIZE" for d
    using head_block(1) [OF that] g(5,6) by simp
  then obtain b t u v where z: "bread 1 (loghdr s) s = Inr (b, t)" "bio_frame s t"
    "bwrite b (set_data b (?f (buf_data b t)) t) = Inr u" "brelse b u = Inr v" "bc.idle v"
    "blk v = (blk s)(loghdr s := ?f (blk s (loghdr s)))" "disk v 1 = (disk s 1)(loghdr s := ?f (blk s (loghdr s)))"
    "dtrace v = dtrace s @ [(1, loghdr s, ?f (blk s (loghdr s)))]" "dirty v = dirty s - {loghdr s}" "bio_frame s v"
    using bc.write_block [OF assms(1) g(1), of ?f] assms(3) by auto
  have "put32s (put32 (buf_data b t) 0 (word_of_int (lh_n t))) 4 (take (nat (lh_n t)) (lh_block t)) = ?f (buf_data b t)"
    using n by (simp add: head_block_def log_fields [OF z(2)] log_blocks_def)
  then have "write_head s = Inr v"
    unfolding write_head_def dev(1) using z(1,3,4) by (simp add: loghdr_def)
  then show ?thesis using z by (auto simp: wrote_def)
qed

lemma cache_cong:
  fixes s :: "'a bcache_scheme" and t :: "'b bcache_scheme"
  assumes "bufs t = bufs s" "slocks t = slocks s" "lru t = lru s" "idequeue t = idequeue s" "disk t = disk s"
    "disk_ok t = disk_ok s" "curproc t = curproc s" "ptable t = ptable s"
  shows "cache_inv t = cache_inv s" "buf_hold t = buf_hold s" "blk t = blk s" "dirty t = dirty s" "caches t = caches s"
proof -
  have c: "caches t = caches s" using assms(1) by (simp add: caches_def fun_eq_iff)
  have "buf_ok t = buf_ok s" "owns b t = owns b s" for b
    using assms by (simp_all add: buf_ok_def owns_def curpid_def fun_eq_iff split: option.split)
  then show "cache_inv t = cache_inv s" using assms by (simp add: cache_inv_def bio_inv_def proc_running_def)
  show "caches t = caches s" by (rule c)
  show "buf_hold t = buf_hold s" using assms by (simp add: buf_hold_def fun_eq_iff)
  show "blk t = blk s" "dirty t = dirty s" using assms c by (simp_all add: blk_def dirty_def fun_eq_iff split: option.split)
qed

lemma log_upd_sel [simp]:
  "cache_inv (s\<lparr>lh_n := n\<rparr>) = cache_inv s" "buf_hold (s\<lparr>lh_n := n\<rparr>) = buf_hold s" "blk (s\<lparr>lh_n := n\<rparr>) = blk s"
  "dirty (s\<lparr>lh_n := n\<rparr>) = dirty s"
  "cache_inv (s\<lparr>lh_block := ns\<rparr>) = cache_inv s" "buf_hold (s\<lparr>lh_block := ns\<rparr>) = buf_hold s" "blk (s\<lparr>lh_block := ns\<rparr>) = blk s"
  "dirty (s\<lparr>lh_block := ns\<rparr>) = dirty s"
  "cache_inv (s\<lparr>log_committing := c\<rparr>) = cache_inv s" "buf_hold (s\<lparr>log_committing := c\<rparr>) = buf_hold s"
  "blk (s\<lparr>log_committing := c\<rparr>) = blk s" "dirty (s\<lparr>log_committing := c\<rparr>) = dirty s"
  "cache_inv (s\<lparr>log_outstanding := k\<rparr>) = cache_inv s" "buf_hold (s\<lparr>log_outstanding := k\<rparr>) = buf_hold s"
  "blk (s\<lparr>log_outstanding := k\<rparr>) = blk s" "dirty (s\<lparr>log_outstanding := k\<rparr>) = dirty s"
  by (rule cache_cong; simp add: disk_ok_def curproc_def cur_def split: option.split)+

lemma log_upd_idle [simp]:
  "bc.idle (s\<lparr>lh_n := n\<rparr>) = bc.idle s" "bc.idle (s\<lparr>lh_block := ns\<rparr>) = bc.idle s"
  "bc.idle (s\<lparr>log_committing := c\<rparr>) = bc.idle s" "bc.idle (s\<lparr>log_outstanding := k\<rparr>) = bc.idle s"
  by (simp_all add: bc.idle_def)

lemma log_upd_regs [simp]:
  "loghdr (s\<lparr>lh_n := n\<rparr>) = loghdr s" "logblk (s\<lparr>lh_n := n\<rparr>) = logblk s" "log_region (s\<lparr>lh_n := n\<rparr>) = log_region s"
  "loghdr (s\<lparr>lh_block := ns\<rparr>) = loghdr s" "logblk (s\<lparr>lh_block := ns\<rparr>) = logblk s"
  "log_region (s\<lparr>lh_block := ns\<rparr>) = log_region s"
  by (simp_all add: loghdr_def logblk_def log_region_def log_cap_def fun_eq_iff)

text \<open>The header that read_head finds.\<close>

definition head_n :: "u8 list \<Rightarrow> int" where
  "head_n d = sint (get32 d 0)"

definition head_blocks :: "u8 list \<Rightarrow> u32 list" where
  "head_blocks d = map (\<lambda>i. get32 d (4 + 4 * i)) [0..<nat (head_n d)]"

lemma head_head_block:
  assumes "length d = BSIZE" "length bs \<le> LOGSIZE"
  shows "head_n (head_block d bs) = int (length bs)" "head_blocks (head_block d bs) = bs"
proof -
  show n: "head_n (head_block d bs) = int (length bs)" using head_block(2) [OF assms] by (simp add: head_n_def)
  show "head_blocks (head_block d bs) = bs"
    using head_block(3) [OF assms] by (intro nth_equalityI) (simp_all add: head_blocks_def n)
qed

lemma read_head_spec:
  assumes "bc.idle s" "log_geom s" "card (dirty s) < NBUF" "0 \<le> head_n (blk s (loghdr s))" "head_n (blk s (loghdr s)) \<le> int LOGSIZE"
    "head_n (blk s (loghdr s)) < log_size s"
  shows "\<exists>t. read_head s = Inr t \<and> bc.idle t \<and> log_geom t \<and> lh_n t = head_n (blk s (loghdr s))
    \<and> log_blocks t = head_blocks (blk s (loghdr s)) \<and> log_start t = log_start s \<and> log_size t = log_size s
    \<and> blk t = blk s \<and> disk t 1 = disk s 1 \<and> dtrace t = dtrace s \<and> dirty t = dirty s"
proof -
  let ?d = "blk s (loghdr s)" let ?n = "head_n ?d"
  note g = log_geom_bounds [OF assms(2)]
  have geo: "log_dev s = 1" "length (lh_block s) = LOGSIZE" "0 \<le> log_start s" "1 \<le> log_size s" "log_start s + log_size s \<le> 1000"
    using assms(2) by (simp_all add: log_geom_def)
  obtain b t where t: "bread 1 (loghdr s) s = Inr (b, t)" "cache_inv t" "buf_hold t = [b \<mapsto> loghdr s]" "blk t = blk s"
    "disk t 1 = disk s 1" "dtrace t = dtrace s" "dirty t = dirty s" "bio_frame s t"
    using bc.rd_law [of s "loghdr s"] assms(1,3) g(1) by (auto simp: bc.idle_def)
  have d: "buf_data b t = ?d" using bc.data [of t b "loghdr s"] t by simp
  let ?u = "t\<lparr>lh_n := ?n, lh_block := head_blocks ?d @ drop (nat ?n) (lh_block t)\<rparr>"
  have "loghdr s \<in> dirty s \<or> ?d = disk s 1 (loghdr s)"
    using bc.clean [of s "loghdr s"] assms(1) by (auto simp: bc.idle_def)
  then obtain v where v: "brelse b ?u = Inr v" "cache_inv v" "buf_hold v = Map.empty" "blk v = blk s"
    "disk v 1 = disk s 1" "dtrace v = dtrace s" "dirty v = dirty s" "bio_frame ?u v"
    using bc.rl_law [of ?u b "loghdr s"] t by auto
  have "read_head s = Inr v"
    using t(1) v(1) assms(5) d by (simp add: read_head_def loghdr_def geo Let_def head_n_def head_blocks_def)
  moreover have "lh_n v = ?n" "log_start v = log_start s" "log_size v = log_size s" "log_dev v = 1"
    "lh_block v = head_blocks ?d @ drop (nat ?n) (lh_block s)"
    using log_fields [OF v(8)] log_fields [OF t(8)] geo by simp_all
  moreover have "length (head_blocks ?d) = nat ?n" by (simp add: head_blocks_def)
  ultimately show ?thesis
    using v geo assms(4-6) by (auto simp: bc.idle_def log_geom_def log_blocks_def)
qed

section \<open>Commit and recovery\<close>

text \<open>
  The state of the log when commit is called: the logged blocks are the pinned ones, and the
  header on the disk says that there is no transaction.
\<close>

definition log_ready :: "'a logs_scheme \<Rightarrow> bool" where
  "log_ready s \<longleftrightarrow> bc.idle s \<and> log_geom s \<and> log_homes s \<and> dirty s = set (log_blocks s) \<and> lh_n s < int NBUF
     \<and> head_n (blk s (loghdr s)) = 0"

text \<open>The disk writes of a commit, in order: the log, the header, the home locations, the header again.\<close>

definition new_head :: "'a logs_scheme \<Rightarrow> u8 list" where
  "new_head s = head_block (blk s (loghdr s)) (log_blocks s)"

definition home_writes :: "'a logs_scheme \<Rightarrow> (u32 \<times> u32 \<times> u8 list) list" where
  "home_writes s = map (\<lambda>i. (1, log_blocks s ! i, blk s (log_blocks s ! i))) [0..<nat (lh_n s)]"

definition commit_writes :: "'a logs_scheme \<Rightarrow> (u32 \<times> u32 \<times> u8 list) list" where
  "commit_writes s = log_writes s @ [(1, loghdr s, new_head s)] @ home_writes s @ [(1, loghdr s, head_block (new_head s) [])]"

lemma log_writes_other: "log_geom s \<Longrightarrow> m \<notin> log_region s \<or> m = loghdr s \<Longrightarrow> replay (log_writes s) d m = d m"
  using log_geom_bounds(4,7) [of s] by (intro replay_other) (auto simp: log_writes_def log_region_def)

lemma log_writes_hit: "log_geom s \<Longrightarrow> i < nat (lh_n s) \<Longrightarrow> replay (log_writes s) d (logblk s i) = blk s (log_blocks s ! i)"
  using log_geom_bounds(3,7) [of s] unfolding log_writes_def
  by (intro replay_hit [where g = "logblk s"]) (auto intro: inj_on_subset)

lemma install_writes_other: "(\<And>i. i < nat (lh_n s) \<Longrightarrow> log_blocks s ! i \<noteq> m) \<Longrightarrow> replay (install_writes s) d m = d m"
  unfolding install_writes_def by (intro replay_other notI) fastforce

lemma home_writes_other: "log_geom s \<Longrightarrow> log_homes s \<Longrightarrow> m \<notin> set (log_blocks s) \<Longrightarrow> replay (home_writes s) d m = d m"
  using log_home_nth(1) [of s] by (intro replay_other) (auto simp: home_writes_def)

lemma home_writes_hit:
  assumes "log_geom s" "log_homes s" "m \<in> set (log_blocks s)"
  shows "replay (home_writes s) d m = blk s m"
proof -
  have l: "length (log_blocks s) = nat (lh_n s)" by (rule log_geom_bounds(5) [OF assms(1)])
  then obtain i where i: "i < nat (lh_n s)" "m = log_blocks s ! i" using assms(3) by (auto simp: in_set_conv_nth)
  have "inj_on ((!) (log_blocks s)) {..<nat (lh_n s)}"
    using assms(2) l unfolding log_homes_def by (intro inj_on_nth) auto
  then show ?thesis unfolding home_writes_def i(2) by (intro replay_hit i)
qed

lemma commit_spec:
  assumes "log_ready s" "0 < lh_n s"
  shows "\<exists>t. commit s = Inr t \<and> dtrace t = dtrace s @ commit_writes s \<and> disk t 1 = replay (commit_writes s) (disk s 1)
    \<and> log_ready t \<and> lh_n t = 0 \<and> log_start t = log_start s \<and> blk t = replay (commit_writes s) (blk s)"
proof -
  have r: "bc.idle s" "log_geom s" "log_homes s" "dirty s = set (log_blocks s)" "lh_n s < int NBUF"
    using assms(1) by (simp_all add: log_ready_def)
  note g = log_geom_bounds [OF r(2)] and home = log_home_nth [OF r(2,3)]
  have card: "card (dirty s) < NBUF" using assms(2) r(4,5) g(5) card_length [of "log_blocks s"] by simp
  obtain t where t: "write_log s = Inr t" "wrote s (log_writes s) t" "dirty t = dirty s"
    using write_log_spec [OF r(1-5)] by blast
  then have ft: "bio_frame s t" and it: "bc.idle t" by (auto simp: wrote_def)
  have ht: "blk t (loghdr s) = blk s (loghdr s)" using t(2) log_writes_other [OF r(2)] by (simp add: wrote_def)
  obtain u where u: "write_head t = Inr u" "wrote t [(1, loghdr s, new_head s)] u" "dirty u = dirty s - {loghdr s}"
    using write_head_spec [OF it] card t(3) r(2) log_frame_sel [OF ft] ht by (auto simp: new_head_def)
  have "loghdr s \<notin> dirty s" using r(3,4) by (auto simp: log_homes_def log_region_def)
  then have du: "dirty u = dirty s" using u(3) by simp
  have fu: "bio_frame s u" and iu: "bc.idle u" using bio_frame_trans [OF ft, of u] u(2) by (auto simp: wrote_def)
  have "install_writes u = home_writes s"
    using t(2) u(2) g(4,7) log_writes_hit [OF r(2)] unfolding install_writes_def home_writes_def
    by (simp add: log_frame_sel [OF fu] log_fields [OF fu] logblk_frame [OF fu] wrote_def)
  then obtain v where v: "install_trans u = Inr v" "wrote u (home_writes s) v" "dirty v = {}"
    using install_trans_spec [OF iu] r(2-4) card du log_frame_sel [OF fu] by auto
  have fv: "bio_frame s v" and iv: "bc.idle v" using bio_frame_trans [OF fu, of v] v(2) by (auto simp: wrote_def)
  let ?v = "v\<lparr>lh_n := 0\<rparr>"
  have gv: "log_geom ?v" "log_blocks ?v = []" "loghdr ?v = loghdr s"
    using r(2) log_fields [OF fv] log_frame_sel(2) [OF fv] by (auto simp: log_geom_def log_blocks_def)
  have hv: "blk v (loghdr s) = new_head s"
    using v(2) u(2) home_writes_other [OF r(2,3)] r(3) by (auto simp: wrote_def log_homes_def log_region_def)
  obtain w where w: "write_head ?v = Inr w" "wrote ?v [(1, loghdr s, head_block (new_head s) [])] w" "dirty w = {}"
    using write_head_spec [OF _ gv(1)] iv v(3) gv(2,3) hv by (auto simp: NBUF_def)
  have fw: "bio_frame ?v w" and iw: "bc.idle w" using w(2) by (auto simp: wrote_def)
  have "commit s = Inr w" using assms(2) t(1) u(1) v(1) w(1) by (simp add: commit_def)
  moreover have "length (new_head s) = BSIZE"
    using head_block(1) [of "blk s (loghdr s)" "log_blocks s"] bc.len [of s] r(1) g(5,6) by (simp add: new_head_def bc.idle_def)
  then have "log_ready w"
    using iw w(2,3) gv log_frame_sel [OF fw] log_fields [OF fw] head_head_block(1) [of "new_head s" "[]"]
    by (simp add: log_ready_def log_homes_def NBUF_def wrote_def)
  ultimately show ?thesis
    using t(2) u(2) v(2) w(2) log_fields [OF fw] log_fields [OF fv] by (simp add: wrote_def commit_writes_def)
qed

text \<open>Recovery on a machine that has just booted: nothing is pinned and the cache agrees with the disk.\<close>

definition log_booted :: "int \<Rightarrow> int \<Rightarrow> 'a logs_scheme \<Rightarrow> bool" where
  "log_booted start sz s \<longleftrightarrow> bc.idle s \<and> dirty s = {} \<and> blk s = disk s 1 \<and> log_start s = start \<and> log_size s = sz
     \<and> 0 \<le> start \<and> 1 \<le> sz \<and> start + sz \<le> 1000 \<and> log_dev s = 1 \<and> length (lh_block s) = LOGSIZE \<and> lh_n s = 0"

lemma recover_spec:
  assumes "log_booted start sz s" "0 \<le> head_n (disk s 1 (loghdr s))" "head_n (disk s 1 (loghdr s)) \<le> int LOGSIZE"
    "head_n (disk s 1 (loghdr s)) < sz"
    and "distinct (head_blocks (disk s 1 (loghdr s)))"
      "\<forall>m \<in> set (head_blocks (disk s 1 (loghdr s))). m < FSSIZE \<and> m \<notin> log_region s"
  shows "\<exists>t. recover_from_log s = Inr t \<and> bc.idle t \<and> dirty t = {} \<and> lh_n t = 0 \<and> log_start t = start \<and>
    disk t 1 = replay (map (\<lambda>i. (1, head_blocks (disk s 1 (loghdr s)) ! i, disk s 1 (logblk s i)))
        [0..<nat (head_n (disk s 1 (loghdr s)))]
      @ [(1, loghdr s, head_block (disk s 1 (loghdr s)) [])]) (disk s 1)"
proof -
  let ?d = "disk s 1 (loghdr s)"
  have b: "bc.idle s" "dirty s = {}" "blk s = disk s 1" "log_geom s" "log_start s = start" "log_size s = sz"
    using assms(1) by (auto simp: log_booted_def log_geom_def)
  obtain t where t: "read_head s = Inr t" "bc.idle t" "log_geom t" "lh_n t = head_n ?d" "log_blocks t = head_blocks ?d"
    "log_start t = start" "log_size t = sz" "blk t = disk s 1" "disk t 1 = disk s 1" "dirty t = {}"
    using read_head_spec [OF b(1,4)] assms(2-4) b by (auto simp: NBUF_def)
  have rg: "loghdr t = loghdr s" "logblk t = logblk s" "log_region t = log_region s"
    using t(6,7) b(5,6) by (simp_all add: loghdr_def logblk_def log_region_def log_cap_def fun_eq_iff)
  have ht: "log_homes t" using assms(5,6) t(5) rg by (simp add: log_homes_def)
  obtain u where u: "install_trans t = Inr u" "wrote t (install_writes t) u" "dirty u = {}"
    using install_trans_spec [OF t(2,3) ht] t(10) by (auto simp: NBUF_def)
  have fu: "bio_frame t u" and iu: "bc.idle u" using u(2) by (auto simp: wrote_def)
  let ?u = "u\<lparr>lh_n := 0\<rparr>"
  have gu: "log_geom ?u" "log_blocks ?u = []" "loghdr ?u = loghdr s"
    using t(3) log_fields [OF fu] log_frame_sel(2) [OF fu] rg by (auto simp: log_geom_def log_blocks_def)
  have "log_blocks t ! i \<noteq> loghdr s" if "i < nat (lh_n t)" for i using log_home_nth(4) [OF t(3) ht that] rg by simp
  then have "replay (install_writes t) d (loghdr s) = d (loghdr s)" for d by (intro install_writes_other) simp
  then have hu: "blk u (loghdr s) = ?d" using u(2) t(8) by (simp add: wrote_def)
  obtain v where v: "write_head ?u = Inr v" "wrote ?u [(1, loghdr s, head_block ?d [])] v" "dirty v = {}"
    using write_head_spec [OF _ gu(1)] iu u(3) gu(2,3) hu by (auto simp: NBUF_def)
  have fv: "bio_frame ?u v" using v(2) by (simp add: wrote_def)
  have "recover_from_log s = Inr v" using t(1) u(1) v(1) by (simp add: recover_from_log_def)
  moreover have "lh_n v = 0" "log_start v = start" using log_fields [OF fv] log_fields [OF fu] t(6) by simp_all
  ultimately show ?thesis
    using v(2,3) u(2) t(4,5,8,9) rg by (simp add: wrote_def install_writes_def)
qed

lemma log_start_region:
  assumes "log_start r = log_start s" "log_size r = log_size s"
  shows "loghdr r = loghdr s" "logblk r = logblk s" "log_region r = log_region s"
  using assms by (simp_all add: loghdr_def logblk_def log_region_def log_cap_def fun_eq_iff)

text \<open>A header without a transaction: recovery leaves the home locations alone.\<close>

lemma recover_none:
  assumes "log_geom s" "log_booted (log_start s) (log_size s) r" "head_n (disk r 1 (loghdr s)) = 0"
  shows "\<exists>t. recover_from_log r = Inr t \<and> (\<forall>m. m \<notin> log_region s \<longrightarrow> disk t 1 m = disk r 1 m)"
proof -
  have e: "log_start r = log_start s" "log_size r = log_size s" using assms(2) by (simp_all add: log_booted_def)
  note rg = log_start_region [OF e]
  have "1 \<le> log_size s" using assms(1) by (simp add: log_geom_def)
  moreover have "head_blocks (disk r 1 (loghdr s)) = []" using assms(3) by (simp add: head_blocks_def)
  ultimately show ?thesis
    using recover_spec [OF assms(2)] assms(3) unfolding rg by (auto simp: log_region_def)
qed

text \<open>A committed header: recovery installs the logged blocks.\<close>

lemma recover_committed:
  assumes "log_ready s" "log_booted (log_start s) (log_size s) r"
    and "disk r 1 (loghdr s) = new_head s" "\<And>i. i < nat (lh_n s) \<Longrightarrow> disk r 1 (logblk s i) = blk s (log_blocks s ! i)"
    and "\<And>m. m \<notin> log_region s \<Longrightarrow> m \<notin> set (log_blocks s) \<Longrightarrow> disk r 1 m = blk s m"
  shows "\<exists>t. recover_from_log r = Inr t \<and> (\<forall>m. m \<notin> log_region s \<longrightarrow> disk t 1 m = blk s m)"
proof -
  have r: "bc.idle s" "log_geom s" "log_homes s" using assms(1) by (simp_all add: log_ready_def)
  note g = log_geom_bounds [OF r(2)]
  have e: "log_start r = log_start s" "log_size r = log_size s" using assms(2) by (simp_all add: log_booted_def)
  note rg = log_start_region [OF e]
  have l: "length (blk s (loghdr s)) = BSIZE" "length (log_blocks s) \<le> LOGSIZE"
    using bc.len [of s] r(1) g(5,6) by (simp_all add: bc.idle_def)
  have n: "0 \<le> lh_n s" "lh_n s \<le> int LOGSIZE" "lh_n s < log_size s" using r(2) by (simp_all add: log_geom_def)
  have h: "head_n (new_head s) = lh_n s" "head_blocks (new_head s) = log_blocks s"
    using head_head_block [OF l] g(5) n by (simp_all add: new_head_def)
  have w: "map (\<lambda>i. (1, log_blocks s ! i, disk r 1 (logblk s i))) [0..<nat (lh_n s)] = home_writes s"
    using assms(4) by (simp add: home_writes_def)
  obtain t where t: "recover_from_log r = Inr t"
    "disk t 1 = replay (home_writes s @ [(1, loghdr s, head_block (new_head s) [])]) (disk r 1)"
    using recover_spec [OF assms(2), unfolded rg assms(3) h w] n r(3) by (auto simp: log_homes_def)
  have "disk t 1 m = blk s m" if m: "m \<notin> log_region s" for m
  proof (cases "m \<in> set (log_blocks s)")
    case True
    then show ?thesis using t(2) home_writes_hit [OF r(2,3)] m by (auto simp: log_region_def)
  next
    case False
    then show ?thesis using t(2) home_writes_other [OF r(2,3) False] assms(5) [OF m False] m by (auto simp: log_region_def)
  qed
  with t(1) show ?thesis by blast
qed

lemma crash_before:
  assumes "log_ready s" "log_booted (log_start s) (log_size s) r" "k \<le> nat (lh_n s)"
    and "disk r 1 = replay (take k (commit_writes s)) (disk s 1)"
  shows "\<exists>t. recover_from_log r = Inr t \<and> (\<forall>m. m \<notin> log_region s \<longrightarrow> disk t 1 m = disk s 1 m)"
proof -
  have r: "bc.idle s" "log_geom s" "log_homes s" "dirty s = set (log_blocks s)" "head_n (blk s (loghdr s)) = 0"
    using assms(1) by (simp_all add: log_ready_def)
  note g = log_geom_bounds [OF r(2)]
  have k: "take k (commit_writes s) = map (\<lambda>i. (1, logblk s i, blk s (log_blocks s ! i))) [0..<k]"
    using assms(3) by (simp add: commit_writes_def log_writes_def take_map)
  have o: "disk r 1 m = disk s 1 m" if "m \<notin> log_region s \<or> m = loghdr s" for m
    unfolding assms(4) k using that g(4,7) assms(3) by (intro replay_other) (auto simp: log_region_def)
  have "loghdr s \<notin> dirty s" using r(3,4) by (auto simp: log_homes_def log_region_def)
  then have "disk s 1 (loghdr s) = blk s (loghdr s)" using bc.clean [of s "loghdr s"] r(1) by (simp add: bc.idle_def)
  then show ?thesis using recover_none [OF r(2) assms(2)] o r(5) by auto
qed

lemma crash_after:
  assumes "log_ready s" "log_booted (log_start s) (log_size s) r" "nat (lh_n s) < k"
    and "disk r 1 = replay (take k (commit_writes s)) (disk s 1)"
  shows "\<exists>t. recover_from_log r = Inr t \<and> (\<forall>m. m \<notin> log_region s \<longrightarrow> disk t 1 m = blk s m)"
proof -
  have r: "bc.idle s" "log_geom s" "log_homes s" "dirty s = set (log_blocks s)"
    using assms(1) by (simp_all add: log_ready_def)
  note g = log_geom_bounds [OF r(2)] and home = log_home_nth [OF r(2,3)]
  define j where "j = k - Suc (nat (lh_n s))"
  define d where "d = (replay (log_writes s) (disk s 1))(loghdr s := new_head s)"
  have k: "take k (commit_writes s) = log_writes s @ [(1, loghdr s, new_head s)]
      @ take j (home_writes s @ [(1, loghdr s, head_block (new_head s) [])])"
    using assms(3) by (simp add: commit_writes_def log_writes_def j_def take_Cons')
  have clean: "disk s 1 m = blk s m" if "m \<notin> set (log_blocks s)" for m
    using bc.clean [of s m] that r(1,4) by (simp add: bc.idle_def)
  have do: "d m = disk s 1 m" if "m \<notin> log_region s" for m
    using that log_writes_other [OF r(2)] by (auto simp: d_def log_region_def)
  show ?thesis
  proof (cases "j \<le> nat (lh_n s)")
    case True
    then have dr: "disk r 1 = replay (map (\<lambda>i. (1, log_blocks s ! i, blk s (log_blocks s ! i))) [0..<j]) d"
      using assms(4) k by (simp add: d_def home_writes_def take_map)
    have o: "disk r 1 m = d m" if "m \<in> log_region s \<or> m \<notin> set (log_blocks s)" for m
      unfolding dr using that home(1) True r(3)
      by (intro replay_other) (auto simp: log_homes_def dest: less_le_trans)
    show ?thesis
    proof (rule recover_committed [OF assms(1,2)])
      show "disk r 1 (loghdr s) = new_head s" using o [of "loghdr s"] by (simp add: log_region_def d_def)
      show "disk r 1 (logblk s i) = blk s (log_blocks s ! i)" if "i < nat (lh_n s)" for i
        using o [of "logblk s i"] that g(4,7) log_writes_hit [OF r(2) that] by (simp add: log_region_def d_def)
      show "disk r 1 m = blk s m" if "m \<notin> log_region s" "m \<notin> set (log_blocks s)" for m
        using o [of m] that do clean by simp
    qed
  next
    case False
    then have dr: "disk r 1 = (replay (home_writes s) d)(loghdr s := head_block (new_head s) [])"
      using assms(4) k by (simp add: d_def home_writes_def)
    have l: "length (new_head s) = BSIZE"
      using head_block(1) [of "blk s (loghdr s)" "log_blocks s"] bc.len [of s] r(1) g(5,6) by (simp add: new_head_def bc.idle_def)
    have "disk r 1 m = blk s m" if "m \<notin> log_region s" for m
      using dr that home_writes_hit [OF r(2,3)] home_writes_other [OF r(2,3)] do [OF that] clean [of m]
      by (cases "m \<in> set (log_blocks s)") (auto simp: log_region_def)
    then show ?thesis
      using recover_none [OF r(2) assms(2)] dr head_head_block(1) [OF l, of "[]"] by auto
  qed
qed

section \<open>Inside a transaction\<close>

definition log_inv :: "'a logs_scheme \<Rightarrow> bool" where
  "log_inv s \<longleftrightarrow> cache_inv s \<and> log_geom s \<and> log_homes s \<and> dirty s = set (log_blocks s)
     \<and> head_n (disk s 1 (loghdr s)) = 0 \<and> loghdr s \<notin> ran (buf_hold s)"

lemma log_inv_ready:
  assumes "log_inv s" "buf_hold s = Map.empty" "lh_n s < int NBUF"
  shows "log_ready s"
proof -
  have "loghdr s \<notin> dirty s" using assms(1) by (auto simp: log_inv_def log_homes_def log_region_def)
  then have "blk s (loghdr s) = disk s 1 (loghdr s)"
    using bc.clean [of s "loghdr s"] assms(1,2) by (simp add: log_inv_def)
  then show ?thesis using assms by (simp add: log_inv_def log_ready_def bc.idle_def)
qed

text \<open>What log_write does to the in-memory header, apart from pinning the buffer.\<close>

definition log_record :: "u32 \<Rightarrow> 'a logs_scheme \<Rightarrow> 'a logs_scheme" where
  "log_record bno s = (case scan (\<lambda>x. x = bno) (log_blocks s) of
     Some i \<Rightarrow> s\<lparr>lh_block := (lh_block s)[i := bno]\<rparr>
   | None \<Rightarrow> s\<lparr>lh_block := (lh_block s)[nat (lh_n s) := bno], lh_n := lh_n s + 1\<rparr>)"

lemma log_write_eq:
  "log_write b s =
    (if int LOGSIZE \<le> lh_n s \<or> log_size s - 1 \<le> lh_n s then Inl (Panic ''too big a transaction'')
     else if log_outstanding s < 1 then Inl (Panic ''log_write outside of trans'')
     else Inr (set_dirty b (log_record (b_blockno (bufs s ! b)) s)))"
  by (simp add: log_write_def log_record_def log_blocks_def Let_def)

lemma log_record_sel:
  assumes "log_geom s" "lh_n s < int LOGSIZE" "lh_n s < log_size s - 1"
  shows "log_blocks (log_record n s) = (if n \<in> set (log_blocks s) then log_blocks s else log_blocks s @ [n])"
    "log_geom (log_record n s)" "lh_n (log_record n s) = (if n \<in> set (log_blocks s) then lh_n s else lh_n s + 1)"
proof -
  have g: "0 \<le> lh_n s" "length (lh_block s) = LOGSIZE" using assms(1) by (simp_all add: log_geom_def)
  have l: "nat (lh_n s) < LOGSIZE" using assms(2) g(1) by simp
  have "log_blocks (log_record n s) = (if n \<in> set (log_blocks s) then log_blocks s else log_blocks s @ [n]) \<and>
    log_geom (log_record n s) \<and> lh_n (log_record n s) = (if n \<in> set (log_blocks s) then lh_n s else lh_n s + 1)"
  proof (cases "scan (\<lambda>x. x = n) (log_blocks s)")
    case None
    then have n: "n \<notin> set (log_blocks s)" by (auto simp: scan_None_iff)
    have "take (nat (lh_n s + 1)) ((lh_block s)[nat (lh_n s) := n]) = take (nat (lh_n s)) (lh_block s) @ [n]"
      using l g by (simp add: nat_add_distrib take_Suc_conv_app_nth)
    then have "log_blocks (log_record n s) = log_blocks s @ [n]" using None by (simp add: log_record_def log_blocks_def)
    moreover have "log_geom (log_record n s)" "lh_n (log_record n s) = lh_n s + 1"
      using None assms by (simp_all add: log_record_def log_geom_def)
    ultimately show ?thesis using n by simp
  next
    case (Some i)
    then have i: "i < length (log_blocks s)" "log_blocks s ! i = n" using scan_SomeD [OF Some] by simp_all
    then have n: "n \<in> set (log_blocks s)" using nth_mem by metis
    have "lh_block s ! i = n" using i by (simp add: log_blocks_def)
    then have "log_record n s = s" using Some by (simp add: log_record_def) (metis list_update_id logs.surjective logs.update_convs(7))
    then show ?thesis using n assms(1) by simp
  qed
  then show "log_blocks (log_record n s) = (if n \<in> set (log_blocks s) then log_blocks s else log_blocks s @ [n])"
    "log_geom (log_record n s)" "lh_n (log_record n s) = (if n \<in> set (log_blocks s) then lh_n s else lh_n s + 1)" by simp_all
qed

lemma log_record_frame:
  "cache_inv (log_record n s) = cache_inv s" "buf_hold (log_record n s) = buf_hold s" "blk (log_record n s) = blk s"
  "dirty (log_record n s) = dirty s" "disk (log_record n s) = disk s" "dtrace (log_record n s) = dtrace s"
  "loghdr (log_record n s) = loghdr s" "log_region (log_record n s) = log_region s" "bufs (log_record n s) = bufs s"
  "log_start (log_record n s) = log_start s" "log_size (log_record n s) = log_size s"
  "log_outstanding (log_record n s) = log_outstanding s" "log_committing (log_record n s) = log_committing s"
  "logs.more (log_record n s) = logs.more s"
  by (simp_all add: log_record_def split: option.split)

lemma log_write_spec:
  assumes "log_inv s" "buf_hold s b = Some n" "n \<notin> log_region s" "lh_n s < int LOGSIZE" "lh_n s < log_size s - 1"
    "1 \<le> log_outstanding s"
  shows "\<exists>t. log_write b s = Inr t \<and> log_inv t \<and> buf_hold t = buf_hold s \<and> blk t = blk s \<and> disk t 1 = disk s 1
    \<and> dtrace t = dtrace s \<and> log_outstanding t = log_outstanding s \<and> log_size t = log_size s \<and> log_start t = log_start s
    \<and> log_committing t = log_committing s \<and> logs.more t = logs.more s
    \<and> log_blocks t = (if n \<in> set (log_blocks s) then log_blocks s else log_blocks s @ [n])
    \<and> lh_n t = (if n \<in> set (log_blocks s) then lh_n s else lh_n s + 1)"
proof -
  have i: "cache_inv s" "log_geom s" "log_homes s" "dirty s = set (log_blocks s)" using assms(1) by (simp_all add: log_inv_def)
  note h = buf_holdD [OF i(1) assms(2)]
  let ?r = "log_record n s" let ?t = "set_dirty b ?r"
  note sel = log_record_sel [OF i(2) assms(4,5), of n]
  have t: "cache_inv ?t" "buf_hold ?t = buf_hold s" "blk ?t = blk s" "disk ?t 1 = disk s 1" "dtrace ?t = dtrace s"
    "dirty ?t = insert n (dirty s)" "bio_frame ?r ?t"
    using bc.pin_law [of ?r b n] i(1) assms(2) by (auto simp: log_record_frame)
  note f = log_fields [OF t(7)] log_frame_sel [OF t(7)]
  have "dirty ?t = set (log_blocks ?t)" using t(6) i(4) sel(1) f(9) by auto
  moreover have "log_homes ?t"
    using i(3) h(7) assms(3) sel(1) unfolding log_homes_def f log_record_frame by auto
  ultimately have "log_inv ?t"
    using assms(1) t(1-4) sel(2) f by (simp add: log_inv_def log_record_frame)
  moreover have "log_write b s = Inr ?t" using assms(4-6) h(4) by (simp add: log_write_eq)
  ultimately show ?thesis using t sel(1,3) f by (simp add: log_record_frame)
qed

section \<open>Properties\<close>

text \<open>
  C24. Crash atomicity of a commit: commit returns, and the disk writes it makes are some list ws.
  Whatever number k of them has reached the disk when the machine stops, recover_from_log on a
  freshly booted machine with that disk returns, and every block outside the log then has the
  contents from before the transaction when k is at most the number of logged blocks, and the
  contents that the transaction gave it otherwise.
\<close>

theorem commit_crash_atomic:
  fixes s :: "'a logs_scheme"
  assumes "log_ready s" "0 < lh_n s"
  shows "\<exists>t ws. commit s = Inr t \<and> dtrace t = dtrace s @ ws \<and> length ws = 2 * nat (lh_n s) + 2 \<and>
    (\<forall>k \<le> length ws. \<forall>r :: 'a logs_scheme.
      log_booted (log_start s) (log_size s) r \<and> disk r 1 = replay (take k ws) (disk s 1) \<longrightarrow>
      (\<exists>u. recover_from_log r = Inr u \<and>
        (\<forall>m. m \<notin> log_region s \<longrightarrow> disk u 1 m = (if k \<le> nat (lh_n s) then disk s 1 m else blk s m))))"
proof -
  obtain t where "commit s = Inr t" "dtrace t = dtrace s @ commit_writes s" using commit_spec [OF assms] by blast
  moreover have "length (commit_writes s) = 2 * nat (lh_n s) + 2"
    by (simp add: commit_writes_def log_writes_def home_writes_def)
  moreover have "\<exists>u. recover_from_log r = Inr u \<and>
        (\<forall>m. m \<notin> log_region s \<longrightarrow> disk u 1 m = (if k \<le> nat (lh_n s) then disk s 1 m else blk s m))"
    if "log_booted (log_start s) (log_size s) r" "disk r 1 = replay (take k (commit_writes s)) (disk s 1)" for k and r :: "'a logs_scheme"
    using crash_before [OF assms(1) that(1) _ that(2)] crash_after [OF assms(1) that(1) _ that(2)]
    by (cases "k \<le> nat (lh_n s)") auto
  ultimately show ?thesis by blast
qed

text \<open>
  C25. log_write pins and absorbs: for a held buffer of a block outside the log, in a transaction
  with space left, it returns without touching the disk; the block is now one of the logged blocks,
  recorded once, and the pinned blocks are again exactly the logged ones.
\<close>

theorem log_write_absorbs:
  assumes "log_inv s" "buf_hold s b = Some n" "n \<notin> log_region s" "lh_n s < int LOGSIZE" "lh_n s < log_size s - 1"
    "1 \<le> log_outstanding s"
  shows "\<exists>t. log_write b s = Inr t \<and> log_inv t \<and> set (log_blocks t) = insert n (set (log_blocks s))
    \<and> dirty t = set (log_blocks t) \<and> lh_n t \<le> lh_n s + 1 \<and> (n \<in> set (log_blocks s) \<longrightarrow> lh_n t = lh_n s)
    \<and> blk t = blk s \<and> disk t 1 = disk s 1 \<and> dtrace t = dtrace s"
proof -
  obtain t where t: "log_write b s = Inr t" "log_inv t" "blk t = blk s" "disk t 1 = disk s 1" "dtrace t = dtrace s"
    "log_blocks t = (if n \<in> set (log_blocks s) then log_blocks s else log_blocks s @ [n])"
    "lh_n t = (if n \<in> set (log_blocks s) then lh_n s else lh_n s + 1)"
    using log_write_spec [OF assms] by blast
  then show ?thesis by (intro exI [of _ t]) (auto simp: log_inv_def)
qed

section \<open>A concrete transaction\<close>

definition logs_ex :: "(u32 \<Rightarrow> u8 list) \<Rightarrow> logs" where
  "logs_ex d = bcache.extend (binit (bcache_ex (\<lambda>_. d))) (logs.fields 2 30 1 False 1 0 (replicate LOGSIZE 0))"

lemma logs_ex_sel:
  "log_start (logs_ex d) = 2" "log_size (logs_ex d) = 30" "log_outstanding (logs_ex d) = 1" "log_dev (logs_ex d) = 1"
  "lh_n (logs_ex d) = 0" "lh_block (logs_ex d) = replicate LOGSIZE 0" "disk (logs_ex d) 1 = d" "dtrace (logs_ex d) = []"
  by (simp_all add: logs_ex_def bcache.defs logs.defs binit_sel) (simp_all add: bcache_ex_def disks.defs bcache.defs disks_ex_def)

lemma logs_ex_cache:
  assumes "\<And>n. length (d n) = BSIZE"
  shows "cache_inv (logs_ex d)" "buf_hold (logs_ex d) = Map.empty" "blk (logs_ex d) = d" "dirty (logs_ex d) = {}"
proof -
  let ?b = "binit (bcache_ex (\<lambda>_. d))" and ?t = "logs_ex d"
  have b: "booted (bcache_ex (\<lambda>_. d))" using assms by (rule bcache_ex_booted)
  have cp: "curproc ?t = curproc ?b" by (simp add: logs_ex_def bcache.defs curproc_def cur_def split: option.split)
  have c: "cache_inv ?t = cache_inv ?b" "buf_hold ?t = buf_hold ?b" "blk ?t = blk ?b" "dirty ?t = dirty ?b"
    by (rule cache_cong; (rule cp | simp add: logs_ex_def bcache.defs disk_ok_def))+
  have "disk (bcache_ex (\<lambda>_. d)) 1 = d" by (simp add: bcache_ex_def disks_ex_def disks.defs bcache.defs)
  then show "cache_inv (logs_ex d)" "buf_hold (logs_ex d) = Map.empty" "blk (logs_ex d) = d" "dirty (logs_ex d) = {}"
    using c binit_cache_inv [OF b] by simp_all
qed

lemma logs_ex_booted: "(\<And>n. length (d n) = BSIZE) \<Longrightarrow> log_booted 2 30 (logs_ex d)"
  by (simp add: log_booted_def bc.idle_def logs_ex_cache logs_ex_sel LOGSIZE_def)

lemma logs_ex_log_inv: "log_inv (logs_ex (\<lambda>_. replicate BSIZE 0))"
proof -
  have "head_n (replicate BSIZE 0) = 0" by (simp add: head_n_def get32_def slice_def BSIZE_def word32_def)
  then show ?thesis
    by (simp add: log_inv_def logs_ex_cache logs_ex_sel log_geom_def log_homes_def log_blocks_def LOGSIZE_def)
qed

lemma logs_ex_home: "100 \<notin> log_region (logs_ex d)"
proof -
  have "uint (logblk (logs_ex d) i) = int i + 3" if "i < 29" for i
    using that uint_word_of_int [of "2 + int i + 1", where 'a = 32] by (simp add: logblk_def logs_ex_sel)
  then have "logblk (logs_ex d) i \<noteq> 100" if "i < 29" for i using that by force
  then show ?thesis by (auto simp: log_region_def log_cap_def loghdr_def logs_ex_sel)
qed

abbreviation zeros :: "u8 list" where "zeros \<equiv> replicate BSIZE 0"
abbreviation fives :: "u8 list" where "fives \<equiv> replicate BSIZE 5"

lemma logs_ex_read:
  "\<exists>b t. bread 1 100 (logs_ex (\<lambda>_. zeros)) = Inr (b, t) \<and> log_inv (set_data b fives t)
     \<and> buf_hold (set_data b fives t) = [b \<mapsto> 100] \<and> blk (set_data b fives t) = (\<lambda>_. zeros)(100 := fives)
     \<and> disk (set_data b fives t) 1 = (\<lambda>_. zeros) \<and> bio_frame (logs_ex (\<lambda>_. zeros)) (set_data b fives t)"
proof -
  let ?s = "logs_ex (\<lambda>_. zeros)"
  have c: "cache_inv ?s" "buf_hold ?s = Map.empty" "blk ?s = (\<lambda>_. zeros)" "dirty ?s = {}" using logs_ex_cache [of "\<lambda>_. zeros"] by simp_all
  obtain b t where t: "bread 1 100 ?s = Inr (b, t)" "cache_inv t" "buf_hold t = [b \<mapsto> 100]" "blk t = (\<lambda>_. zeros)"
    "disk t 1 = (\<lambda>_. zeros)" "dirty t = {}" "bio_frame ?s t"
    using bc.rd_law [of ?s 100] c by (auto simp: FSSIZE_def NBUF_def logs_ex_sel)
  let ?u = "set_data b fives t"
  have u: "cache_inv ?u" "buf_hold ?u = [b \<mapsto> 100]" "blk ?u = (\<lambda>_. zeros)(100 := fives)" "disk ?u 1 = (\<lambda>_. zeros)" "dirty ?u = {}"
    "bio_frame t ?u"
    using bc.setd_law [OF t(2), of b 100 fives] t by auto
  have f: "bio_frame ?s ?u" by (rule bio_frame_trans [OF t(7) u(6)])
  have "loghdr ?s \<noteq> 100" using logs_ex_home by (auto simp: log_region_def)
  then have "log_inv ?u"
    using logs_ex_log_inv u logs_ex_sel(7) [of "\<lambda>_. zeros"] c unfolding log_inv_def log_frame_sel [OF f] by simp
  with t(1) u f show ?thesis by blast
qed

theorem log_write_absorbs_witness:
  "\<exists>b t u. bread 1 100 (logs_ex (\<lambda>_. zeros)) = Inr (b, t) \<and> log_write b (set_data b fives t) = Inr u
     \<and> set (log_blocks u) = {100} \<and> dirty u = {100}"
proof -
  obtain b t where t: "bread 1 100 (logs_ex (\<lambda>_. zeros)) = Inr (b, t)" "log_inv (set_data b fives t)"
    "buf_hold (set_data b fives t) = [b \<mapsto> 100]" "bio_frame (logs_ex (\<lambda>_. zeros)) (set_data b fives t)"
    using logs_ex_read by blast
  note f = log_fields [OF t(4)] log_frame_sel [OF t(4)]
  obtain u where u: "log_write b (set_data b fives t) = Inr u"
    "set (log_blocks u) = insert 100 (set (log_blocks (set_data b fives t)))" "dirty u = set (log_blocks u)"
    using log_write_absorbs [OF t(2), of b 100] t(3) logs_ex_home f by (auto simp: logs_ex_sel LOGSIZE_def)
  have "log_blocks (set_data b fives t) = []" using f(9) by (simp add: log_blocks_def logs_ex_sel)
  with t(1) u show ?thesis by auto
qed

lemma logs_ex_committed:
  "\<exists>b t u v. bread 1 100 (logs_ex (\<lambda>_. zeros)) = Inr (b, t) \<and> log_write b (set_data b fives t) = Inr u \<and> brelse b u = Inr v
     \<and> log_ready v \<and> lh_n v = 1 \<and> log_start v = 2 \<and> log_size v = 30 \<and> blk v 100 = fives \<and> disk v 1 = (\<lambda>_. zeros)"
proof -
  obtain b t where t: "bread 1 100 (logs_ex (\<lambda>_. zeros)) = Inr (b, t)" "log_inv (set_data b fives t)"
    "buf_hold (set_data b fives t) = [b \<mapsto> 100]" "blk (set_data b fives t) = (\<lambda>_. zeros)(100 := fives)"
    "disk (set_data b fives t) 1 = (\<lambda>_. zeros)" "bio_frame (logs_ex (\<lambda>_. zeros)) (set_data b fives t)"
    using logs_ex_read by blast
  note f = log_fields [OF t(6)] log_frame_sel [OF t(6)]
  have "log_blocks (set_data b fives t) = []" using f(9) by (simp add: log_blocks_def logs_ex_sel)
  then obtain u where u: "log_write b (set_data b fives t) = Inr u" "log_inv u" "buf_hold u = [b \<mapsto> 100]"
    "blk u = (\<lambda>_. zeros)(100 := fives)" "disk u 1 = (\<lambda>_. zeros)" "lh_n u = 1" "log_start u = 2" "log_size u = 30" "log_blocks u = [100]"
    using log_write_spec [OF t(2), of b 100] t(3-5) logs_ex_home f by (auto simp: logs_ex_sel LOGSIZE_def)
  have "100 \<in> dirty u" using u(2,9) by (simp add: log_inv_def)
  then obtain v where v: "brelse b u = Inr v" "cache_inv v" "buf_hold v = Map.empty" "blk v = blk u" "disk v 1 = disk u 1"
    "dirty v = dirty u" "bio_frame u v"
    using bc.rl_law [of u b 100] u(2,3) by (auto simp: log_inv_def)
  have "log_inv v" using u(2) v unfolding log_inv_def log_frame_sel [OF v(7)] by simp
  then have "log_ready v" using v(3) log_fields(6) [OF v(7)] u(6) by (intro log_inv_ready) (simp_all add: NBUF_def)
  then show ?thesis using t(1) u v log_fields [OF v(7)] by auto
qed

lemma replay_length:
  assumes "\<And>n. length (d n) = BSIZE" "\<And>k n x. (k, n, x) \<in> set ws \<Longrightarrow> length x = BSIZE"
  shows "length (replay ws d n) = BSIZE"
  using assms
proof (induction ws arbitrary: d)
  case (Cons w ws)
  obtain k m x where w: "w = (k, m, x)" by (cases w)
  have "length x = BSIZE" using Cons.prems(2) [of k m x] w by simp
  then show ?case using Cons.prems w by (simp, intro Cons.IH) auto
qed simp

lemma commit_writes_length:
  assumes "log_ready s" "(k, n, x) \<in> set (commit_writes s)"
  shows "length x = BSIZE"
proof -
  have r: "\<And>n. length (blk s n) = BSIZE" "log_geom s" using assms(1) bc.len [of s] by (auto simp: log_ready_def bc.idle_def)
  have h: "length (new_head s) = BSIZE" "length (head_block (new_head s) []) = BSIZE"
    using head_block(1) [OF r(1), of "log_blocks s"] head_block(1) [of "new_head s" "[]"] log_geom_bounds(5,6) [OF r(2)]
    by (simp_all add: new_head_def)
  with assms(2) r(1) show ?thesis by (auto simp: commit_writes_def log_writes_def home_writes_def)
qed

theorem commit_crash_atomic_witness:
  "\<exists>b t u v w ws x. bread 1 100 (logs_ex (\<lambda>_. zeros)) = Inr (b, t) \<and> log_write b (set_data b fives t) = Inr u \<and> brelse b u = Inr v
     \<and> commit v = Inr w \<and> dtrace w = dtrace v @ ws
     \<and> recover_from_log (logs_ex (replay (take 2 ws) (\<lambda>_. zeros))) = Inr x \<and> disk x 1 100 = fives"
proof -
  obtain b t u v where v: "bread 1 100 (logs_ex (\<lambda>_. zeros)) = Inr (b, t)" "log_write b (set_data b fives t) = Inr u"
    "brelse b u = Inr v" "log_ready v" "lh_n v = 1" "log_start v = 2" "log_size v = 30" "blk v 100 = fives" "disk v 1 = (\<lambda>_. zeros)"
    using logs_ex_committed by blast
  have home: "100 \<notin> log_region v"
    using logs_ex_home log_start_region(3) [of v "logs_ex (\<lambda>_. zeros)"] v(6,7) by (simp add: logs_ex_sel)
  have n: "0 < lh_n v" using v(5) by simp
  obtain w ws where w: "commit v = Inr w" "dtrace w = dtrace v @ ws" "length ws = 2 * nat (lh_n v) + 2"
    "\<forall>k \<le> length ws. \<forall>r :: logs. log_booted (log_start v) (log_size v) r \<and> disk r 1 = replay (take k ws) (disk v 1) \<longrightarrow>
      (\<exists>u. recover_from_log r = Inr u \<and>
        (\<forall>m. m \<notin> log_region v \<longrightarrow> disk u 1 m = (if k \<le> nat (lh_n v) then disk v 1 m else blk v m)))"
    using commit_crash_atomic [OF v(4) n] by blast
  have "ws = commit_writes v" using commit_spec [OF v(4) n] w(1,2) by auto
  then have "length (replay (take 2 ws) (\<lambda>_. zeros) n) = BSIZE" for n
    using commit_writes_length [OF v(4)] by (intro replay_length) (auto dest: in_set_takeD)
  then have b: "log_booted (log_start v) (log_size v) (logs_ex (replay (take 2 ws) (\<lambda>_. zeros)))"
    using logs_ex_booted v(6,7) by simp
  have "\<exists>x. recover_from_log (logs_ex (replay (take 2 ws) (\<lambda>_. zeros))) = Inr x \<and> disk x 1 100 = fives"
    using w(4) [rule_format, of 2 "logs_ex (replay (take 2 ws) (\<lambda>_. zeros))"] b w(3) v(5,8,9) home by (auto simp: logs_ex_sel)
  with v(1-3) w(1,2) show ?thesis by blast
qed

section \<open>Reservation of log space\<close>

text \<open>Whatever the cache does, if it returns it has left the state above it alone.\<close>

lemma disks_more_simps [simp]:
  "disks.more (upd_buf b f s) = disks.more s" "disks.more (wakeup1 c s) = disks.more s"
  "disks.more (disk_write a d s) = disks.more s" "disks.more (upd_slock l g s) = disks.more s"
  "disks.more (releasesleep l s) = disks.more s"
  by (simp_all add: upd_buf_def wakeup1_def disk_write_def upd_slock_def releasesleep_def)

lemma idestart_more: "idestart c s = Inr t \<Longrightarrow> disks.more t = disks.more s"
  by (auto simp: idestart_def Let_def split: option.splits if_splits)

lemma ideintr_more: "ideintr s = Inr t \<Longrightarrow> disks.more t = disks.more s"
  by (fastforce simp: ideintr_def Let_def split: list.splits if_splits prod.splits dest: idestart_more)

lemma ide_wait_more: "ide_wait n b s = Inr x \<Longrightarrow> x = Inr t \<Longrightarrow> disks.more t = disks.more s"
proof (induction n arbitrary: s)
  case (Suc n)
  show ?case
  proof (cases "ide_done b s")
    case False
    then obtain u where "ideintr s = Inr u" "ide_wait n b u = Inr x" using Suc.prems by (auto simp: ide_wait_def)
    then show ?thesis using Suc.IH Suc.prems(2) ideintr_more by fastforce
  qed (use Suc.prems in \<open>simp add: ide_wait_def\<close>)
qed (simp add: ide_wait_def split: if_splits)

lemma ide_wait_no_return: "ide_wait n b s \<noteq> Inr (Inl t)"
  by (induction n arbitrary: s) (auto simp: ide_wait_def)

lemma iderw_more: "iderw b s = Inr t \<Longrightarrow> disks.more t = disks.more s"
  by (fastforce simp: iderw_def Let_def ide_wait_no_return simp flip: ide_wait_def
      split: if_splits sum.splits dest: idestart_more ide_wait_more)

lemma bcache_more_eq: "disks.more t = disks.more s \<Longrightarrow> bcache.more t = bcache.more s"
  by (cases s; cases t; simp)

lemma bget_more: "bget dev n s = Inr (b, t) \<Longrightarrow> disks.more t = disks.more s"
  by (auto simp: bget_def acquiresleep_def split: option.splits if_splits)

lemma bread_more: "bread dev n s = Inr (b, t) \<Longrightarrow> bcache.more t = bcache.more s"
  by (auto simp: bread_def split: if_splits dest!: bget_more iderw_more intro!: bcache_more_eq)

lemma bwrite_more: "bwrite b s = Inr t \<Longrightarrow> bcache.more t = bcache.more s"
  by (auto simp: bwrite_def split: if_splits dest!: iderw_more intro!: bcache_more_eq)

lemma brelse_more: "brelse b s = Inr t \<Longrightarrow> bcache.more t = bcache.more s"
proof -
  have "bcache.more (upd_buf b f (releasesleep l s)) = bcache.more s" for b f l by (rule bcache_more_eq) simp
  then show "brelse b s = Inr t \<Longrightarrow> bcache.more t = bcache.more s" by (auto simp: brelse_def Let_def split: if_splits)
qed

lemma set_data_more [simp]: "bcache.more (set_data b d s) = bcache.more s" "bcache.more (set_dirty b s) = bcache.more s"
  by (rule bcache_more_eq, simp add: set_data_def set_dirty_def)+

lemma log_more_fields:
  assumes "bcache.more t = bcache.more s"
  shows "log_start t = log_start s" "log_size t = log_size s" "log_outstanding t = log_outstanding s"
    "log_committing t = log_committing s" "log_dev t = log_dev s" "lh_n t = lh_n s" "lh_block t = lh_block s"
  using assms by (cases s; cases t; simp)+

lemma forE_preserves:
  assumes "\<And>x u v. f x u = Inr v \<Longrightarrow> g v = g u"
  shows "forE f xs s = Inr t \<Longrightarrow> g t = g s"
  using assms by (induction xs arbitrary: s) fastforce+

lemma write_log_more: "write_log s = Inr t \<Longrightarrow> bcache.more t = bcache.more s"
  unfolding write_log_def by (erule forE_preserves [where g = bcache.more, rotated]) (fastforce dest: bread_more bwrite_more brelse_more)

lemma install_trans_more: "install_trans s = Inr t \<Longrightarrow> bcache.more t = bcache.more s"
  unfolding install_trans_def by (erule forE_preserves [where g = bcache.more, rotated]) (fastforce dest: bread_more bwrite_more brelse_more)

lemma write_head_more: "write_head s = Inr t \<Longrightarrow> bcache.more t = bcache.more s"
  by (fastforce simp: write_head_def Let_def dest: bread_more bwrite_more brelse_more)

lemma commit_counts:
  assumes "commit s = Inr t"
  shows "lh_n t = (if lh_n s > 0 then 0 else lh_n s)" "log_outstanding t = log_outstanding s" "log_size t = log_size s"
    "log_committing t = log_committing s"
proof -
  have "lh_n t = (if lh_n s > 0 then 0 else lh_n s) \<and> log_outstanding t = log_outstanding s \<and> log_size t = log_size s
    \<and> log_committing t = log_committing s"
  proof (cases "lh_n s > 0")
    case True
    then obtain u v w where "write_log s = Inr u" "write_head u = Inr v" "install_trans v = Inr w"
      "write_head (w\<lparr>lh_n := 0\<rparr>) = Inr t" using assms by (auto simp: commit_def)
    note m = write_log_more [OF this(1)] write_head_more [OF this(2)] install_trans_more [OF this(3)] write_head_more [OF this(4)]
    show ?thesis using log_more_fields [OF m(1)] log_more_fields [OF m(2)] log_more_fields [OF m(3)] log_more_fields [OF m(4)] True by simp
  qed (use assms in \<open>simp add: commit_def\<close>)
  then show "lh_n t = (if lh_n s > 0 then 0 else lh_n s)" "log_outstanding t = log_outstanding s" "log_size t = log_size s"
    "log_committing t = log_committing s" by simp_all
qed

text \<open>
  Histories of the log with the outstanding system calls: \<open>used\<close> has, for each of them, how many
  blocks it has added to the log. A call may add at most MAXOPBLOCKS.
\<close>

inductive log_run :: "'a logs_scheme \<Rightarrow> nat list \<Rightarrow> bool" where
  boot: "lh_n s = 0 \<Longrightarrow> log_outstanding s = 0 \<Longrightarrow> log_run s []"
| begin_op: "log_run s used \<Longrightarrow> begin_op s = Inr t \<Longrightarrow> log_run t (used @ [0])"
| log_write: "log_run s used \<Longrightarrow> i < length used \<Longrightarrow> int (used ! i) < MAXOPBLOCKS \<Longrightarrow> log_write b s = Inr t \<Longrightarrow>
    log_run t (used[i := used ! i + nat (lh_n t - lh_n s)])"
| end_op: "log_run s used \<Longrightarrow> i < length used \<Longrightarrow> end_op s = Inr t \<Longrightarrow> log_run t (take i used @ drop (Suc i) used)"
| other: "log_run s used \<Longrightarrow> lh_n t = lh_n s \<Longrightarrow> log_outstanding t = log_outstanding s \<Longrightarrow> log_run t used"

definition reserved :: "nat list \<Rightarrow> int" where
  "reserved used = sum_list (map (\<lambda>u. MAXOPBLOCKS - int u) used)"

lemma reserved_simps [simp]:
  "reserved [] = 0" "reserved (us @ vs) = reserved us + reserved vs" "reserved (u # us) = MAXOPBLOCKS - int u + reserved us"
  by (simp_all add: reserved_def)

lemma reserved_bounds:
  "\<forall>u \<in> set us. int u \<le> MAXOPBLOCKS \<Longrightarrow> 0 \<le> reserved us" "reserved us \<le> int (length us) * MAXOPBLOCKS"
  by (induction us) (auto simp: algebra_simps)

lemma reserved_split: "i < length us \<Longrightarrow> reserved us = reserved (take i us) + (MAXOPBLOCKS - int (us ! i)) + reserved (drop (Suc i) us)"
  by (subst id_take_nth_drop [of i us]) simp_all

definition run_ok :: "'a logs_scheme \<Rightarrow> nat list \<Rightarrow> bool" where
  "run_ok s used \<longleftrightarrow> log_outstanding s = int (length used) \<and> 0 \<le> lh_n s \<and> lh_n s + reserved used \<le> int LOGSIZE
     \<and> (\<forall>u \<in> set used. int u \<le> MAXOPBLOCKS)"

lemma log_write_counts:
  assumes "log_write b s = Inr t"
  shows "lh_n t = lh_n s \<or> lh_n t = lh_n s + 1" "log_outstanding t = log_outstanding s"
proof -
  have "lh_n (set_dirty b u) = lh_n u \<and> log_outstanding (set_dirty b u) = log_outstanding u" for u :: "'a logs_scheme"
    using log_more_fields [of "set_dirty b u" u] by simp
  then show "lh_n t = lh_n s \<or> lh_n t = lh_n s + 1" "log_outstanding t = log_outstanding s"
    using assms by (auto simp: log_write_eq log_record_def split: if_splits option.splits)
qed

lemma log_run_ok: "log_run s used \<Longrightarrow> run_ok s used"
proof (induction rule: log_run.induct)
  case (begin_op s used t)
  then show ?case using reserved_bounds(2) [of used]
    by (auto simp: begin_op_def run_ok_def algebra_simps split: if_splits) (simp_all add: MAXOPBLOCKS_def)
next
  case (log_write s used i b t)
  let ?d = "nat (lh_n t - lh_n s)"
  note c = log_write_counts [OF log_write.hyps(4)]
  have d: "int ?d = lh_n t - lh_n s" "int ?d \<le> 1" using c(1) by auto
  have "reserved (used[i := used ! i + ?d]) = reserved used - int ?d"
    using log_write.hyps(2) by (simp add: upd_conv_take_nth_drop reserved_split [OF log_write.hyps(2)])
  moreover have "int (used ! i + ?d) \<le> MAXOPBLOCKS" using log_write.hyps(3) d(2) by linarith
  ultimately show ?case
    using log_write.IH c d set_update_subset_insert [of used i "used ! i + ?d"] by (auto simp: run_ok_def)
next
  case (end_op s used i t)
  let ?us = "take i used @ drop (Suc i) used"
  have r: "reserved ?us \<le> reserved used"
    using reserved_split [OF end_op.hyps(2)] end_op.IH end_op.hyps(2) by (simp add: run_ok_def)
  have sub: "\<forall>u \<in> set ?us. int u \<le> MAXOPBLOCKS" using end_op.IH by (auto simp: run_ok_def dest: in_set_takeD in_set_dropD)
  have l: "int (length ?us) = int (length used) - 1" using end_op.hyps(2) by simp
  have "log_outstanding t = log_outstanding s - 1 \<and> (lh_n t = lh_n s \<or> lh_n t = 0)"
    using end_op.hyps(3) by (fastforce simp: end_op_def Let_def wakeup1_def split: if_splits dest: commit_counts)
  then show ?case using end_op.IH r sub l reserved_bounds(1) [OF sub] by (auto simp: run_ok_def)
qed (auto simp: run_ok_def LOGSIZE_def)



text \<open>
  The log that mkfs makes has only LOGSIZE blocks, header included, so that the reservation of
  begin_op promises one block too many: with three system calls admitted and 29 blocks in the log,
  one of the calls still has a block left, and log_write panics.
\<close>

lemma log_one_block_short:
  assumes "log_size s = int LOGSIZE" "lh_n s = int LOGSIZE - 1" "log_outstanding s = 3"
  shows "run_ok s [10, 10, 9]" "log_write b s = Inl (Panic ''too big a transaction'')"
  using assms by (simp_all add: log_write_eq run_ok_def MAXOPBLOCKS_def LOGSIZE_def)

end
