(* ===== verification/Fmt.thy ===== *)
theory Fmt
  imports Cstring
begin

text \<open>
  Formatted output and decimal input as text: printint and the format loop of cprintf (console.c),
  printint and the format loop of printf (printf.c). The variadic arguments are a
  list; taking an argument that is not there is an access outside the argument area. The results
  are the characters in the order in which they are put out.
\<close>

section \<open>Definitions\<close>

text \<open>
  The \<open>do \<dots> while\<close> loop of printint: the digits, least significant first, into a buffer with \<open>k\<close>
  bytes left. The result is \<open>None\<close> when the buffer is too small.
\<close>

fun digits_loop :: "nat \<Rightarrow> nat \<Rightarrow> nat \<Rightarrow> nat list option" where
  "digits_loop 0 base x = None"
| "digits_loop (Suc k) base x =
    (if x div base = 0 then Some [x mod base]
     else map_option ((#) (x mod base)) (digits_loop k base (x div base)))"

definition printint :: "string \<Rightarrow> int \<Rightarrow> nat \<Rightarrow> bool \<Rightarrow> string result" where
  "printint digits xx base sign =
    (let neg = (sign \<and> xx < 0);
         x = unat (word_of_int (if neg then - xx else xx) :: u32) in
     case digits_loop 16 base x of
       None \<Rightarrow> Inl BadAccess
     | Some ds \<Rightarrow>
       let buf = map ((!) digits) ds @ (if neg then ''-'' else []) in
       if 16 < length buf then Inl BadAccess else Inr (rev buf))"

definition cdigits :: string where "cdigits = ''0123456789abcdef''"
definition udigits :: string where "udigits = ''0123456789ABCDEF''"

datatype fmt_arg = Num u32 | Ptr "string option"

definition arg_num :: "fmt_arg list \<Rightarrow> (u32 \<times> fmt_arg list) result" where
  "arg_num as = (case as of Num w # as \<Rightarrow> Inr (w, as) | _ \<Rightarrow> Inl BadAccess)"

definition arg_ptr :: "fmt_arg list \<Rightarrow> (string \<times> fmt_arg list) result" where
  "arg_ptr as = (case as of Ptr p # as \<Rightarrow> Inr (case p of None \<Rightarrow> ''(null)'' | Some t \<Rightarrow> t, as) | _ \<Rightarrow> Inl BadAccess)"

text \<open>What a \<open>%\<close> and the character after it print.\<close>

definition conversion :: "string \<Rightarrow> char \<Rightarrow> fmt_arg list \<Rightarrow> (string \<times> fmt_arg list) result" where
  "conversion digits c as =
    (if c = CHR ''d'' then bindE (arg_num as) (\<lambda>(w, as). bindE (printint digits (sint w) 10 True) (\<lambda>t. Inr (t, as)))
     else if c = CHR ''x'' \<or> c = CHR ''p''
     then bindE (arg_num as) (\<lambda>(w, as). bindE (printint digits (sint w) 16 False) (\<lambda>t. Inr (t, as)))
     else if c = CHR ''s'' then arg_ptr as
     else if c = CHR ''%'' then Inr (''%'', as)
     else Inr ([CHR ''%'', c], as))"

fun cprintf_text :: "string \<Rightarrow> fmt_arg list \<Rightarrow> string result" where
  "cprintf_text [] as = Inr []"
| "cprintf_text (c # cs) as =
    (if c \<noteq> CHR ''%'' then bindE (cprintf_text cs as) (\<lambda>t. Inr (c # t))
     else case cs of
       [] \<Rightarrow> Inr []
     | d # ds \<Rightarrow> bindE (conversion cdigits d as) (\<lambda>(t, as). bindE (cprintf_text ds as) (\<lambda>u. Inr (t @ u))))"

text \<open>printf of the user library keeps the pending \<open>%\<close> in a state variable, and has \<open>%c\<close>.\<close>

fun printf_loop :: "bool \<Rightarrow> string \<Rightarrow> fmt_arg list \<Rightarrow> string result" where
  "printf_loop percent [] as = Inr []"
| "printf_loop percent (c # cs) as =
    (if \<not> percent then
       if c = CHR ''%'' then printf_loop True cs as
       else bindE (printf_loop False cs as) (\<lambda>t. Inr (c # t))
     else
       bindE (if c = CHR ''c'' then bindE (arg_num as) (\<lambda>(w, as). Inr ([char_of (unat w)], as))
              else conversion udigits c as) (\<lambda>(t, as).
       bindE (printf_loop False cs as) (\<lambda>u. Inr (t @ u))))"

definition printf_text :: "string \<Rightarrow> fmt_arg list \<Rightarrow> string result" where
  "printf_text fmt as = printf_loop False fmt as"

section \<open>Lemmas\<close>

definition value_of :: "nat \<Rightarrow> nat list \<Rightarrow> nat" where
  "value_of base ds = foldr (\<lambda>d v. d + base * v) ds 0"

lemma digits_loop_spec:
  assumes "1 < base" "x < base ^ k" "0 < k"
  shows "\<exists>ds. digits_loop k base x = Some ds \<and> ds \<noteq> [] \<and> length ds \<le> k \<and> (\<forall>d \<in> set ds. d < base) \<and> value_of base ds = x"
  using assms
proof (induction k arbitrary: x)
  case (Suc k)
  show ?case
  proof (cases "x div base = 0")
    case True
    then have "x mod base = x" using div_mult_mod_eq [of x base] by simp
    moreover have "x mod base < base" using Suc.prems(1) by simp
    ultimately show ?thesis using True by (simp add: value_of_def)
  next
    case False
    have "x < base * base ^ k" using Suc.prems(2) by simp
    then have d: "x div base < base ^ k" using Suc.prems(1) by (simp add: div_less_iff_less_mult mult.commute)
    moreover have "0 < k" using False d by (cases k) auto
    ultimately obtain ds where ds: "digits_loop k base (x div base) = Some ds" "length ds \<le> k" "\<forall>d \<in> set ds. d < base"
      "value_of base ds = x div base"
      using Suc.IH Suc.prems(1) by blast
    then show ?thesis using False Suc.prems(1) by (auto simp: value_of_def)
  qed
qed simp

lemma digits_loop_mono: "digits_loop k base x = Some ds \<Longrightarrow> digits_loop (k + j) base x = Some ds"
  by (induction k arbitrary: x ds) (auto split: if_splits)

lemma value_of_rev: "value_of base ds = foldl (\<lambda>v d. d + base * v) 0 (rev ds)"
  by (simp add: value_of_def foldr_conv_foldl)

lemma foldl_ge: "1 \<le> base \<Longrightarrow> v \<le> foldl (\<lambda>v d. d + base * v) v (xs :: nat list)"
proof (induction xs arbitrary: v)
  case (Cons x xs)
  have "v \<le> x + base * v" using Cons.prems by (cases base) auto
  also have "\<dots> \<le> foldl (\<lambda>v d. d + base * v) (x + base * v) xs" by (rule Cons.IH [OF Cons.prems])
  finally show ?case by simp
qed simp

lemma atoi_from_digits:
  assumes "i + length xs = length ws" "\<And>j. j < length xs \<Longrightarrow> ws ! (i + j) = word_of_nat (48 + xs ! j)" "\<forall>d \<in> set xs. d < 10"
    and "foldl (\<lambda>v d. d + 10 * v) v xs < 2 ^ 31"
  shows "atoi_from (arr ws) i (int v) = Some (int (foldl (\<lambda>v d. d + 10 * v) v xs))"
  using assms
proof (induction xs arbitrary: i v)
  case Nil
  then show ?case by (subst atoi_from.simps) (simp add: arr_def)
next
  case (Cons x xs)
  let ?v = "x + 10 * v"
  have le: "?v < 2 ^ 31" using foldl_ge [of 10 ?v xs] Cons.prems(4) by simp
  have w: "ws ! i = word_of_nat (48 + x)" "i < length ws" "x < 10" using Cons.prems(1,3) Cons.prems(2) [of 0] by auto
  have "unat (word_of_nat k :: u8) = k" if "k < 256" for k using that by (simp add: unat_of_nat)
  from this [of "48 + x"] have "unat (word_of_nat (48 + x) :: u8) = 48 + x" using w(3) by simp
  then have u: "uint (word_of_nat (48 + x) :: u8) = 48 + int x" by (metis int_ops(3) int_plus of_nat_numeral uint_nat)
  have c: "48 \<le> arr ws i" "arr ws i \<le> 57" "uint (arr ws i) = 48 + int x"
    using w u by (simp_all add: arr_def word_le_def)
  have "wrap32 (int v * 10) = int v * 10" using le by (intro wrap32_id) (simp add: int32_def)
  moreover have "wrap32 (wrap32 (int ?v + 48) - 48) = int ?v" using le by (intro wrap32_sub_cancel) (simp add: int32_def)
  ultimately have "wrap32 (wrap32 (wrap32 (int v * 10) + uint (arr ws i)) - 48) = int ?v"
    using c(3) by (simp add: algebra_simps)
  moreover have "atoi_from (arr ws) (Suc i) (int ?v) = Some (int (foldl (\<lambda>v d. d + 10 * v) ?v xs))"
    using Cons.prems(1,3,4) Cons.prems(2) [of "Suc _"] by (intro Cons.IH) auto
  ultimately show ?case using c by (subst atoi_from.simps) simp
qed

lemma cdigits_code: "d < 10 \<Longrightarrow> of_char (cdigits ! d) = (word_of_nat (48 + d) :: u8)"
proof -
  have "\<forall>d \<in> {0, 1, 2, 3, 4, 5, 6, 7, 8, 9}. of_char (cdigits ! d) = (word_of_nat (48 + d) :: u8)"
    by (simp add: cdigits_def)
  moreover assume "d < 10"
  then have "d \<in> {0, 1, 2, 3, 4, 5, 6, 7, 8, 9}" by auto
  ultimately show ?thesis by blast
qed

section \<open>Properties\<close>

text \<open>
  Printing and reading numbers are inverse: for every non-negative int, printint in base 10
  returns a text without overrunning its buffer of 16 bytes, and atoi of that text is the number.
\<close>

lemma atoi_printint:
  assumes "0 \<le> n" "n < 2 ^ 31"
  shows "\<exists>t. printint cdigits n 10 True = Inr t \<and> length t \<le> 10 \<and> atoi (arr (map of_char t)) = Some n"
proof -
  have u: "unat (word_of_int n :: u32) = nat n"
    using assms by (simp add: unat_eq_nat_uint uint_word_of_int)
  have n: "nat n < 10 ^ 10" using assms by simp
  obtain ds where ds: "digits_loop 10 10 (nat n) = Some ds" "length ds \<le> 10" "\<forall>d \<in> set ds. d < 10" "value_of 10 ds = nat n"
    using digits_loop_spec [of 10 "nat n" 10] n by auto
  let ?t = "rev (map ((!) cdigits) ds)"
  have "digits_loop 16 10 (nat n) = Some ds" using digits_loop_mono [OF ds(1), of 6] by simp
  then have "printint cdigits n 10 True = Inr ?t"
    using assms(1) u ds(2) unfolding printint_def by (simp add: Let_def)
  moreover have "atoi_from (arr (map of_char ?t)) 0 (int 0) = Some (int (foldl (\<lambda>v d. d + 10 * v) 0 (rev ds)))"
  proof (rule atoi_from_digits)
    show "map of_char ?t ! (0 + j) = (word_of_nat (48 + rev ds ! j) :: u8)" if "j < length (rev ds)" for j
      using that ds(3) cdigits_code [of "rev ds ! j"] nth_mem [OF that] by (simp add: rev_nth)
    have "nat n < 2 ^ 31" using assms by simp
    then show "foldl (\<lambda>v d. d + 10 * v) 0 (rev ds) < 2 ^ 31" using ds(4) by (simp add: value_of_rev)
  qed (use ds(3) in auto)
  ultimately show ?thesis using ds(2,4) assms(1) by (simp add: atoi_def value_of_rev)
qed

lemma atoi_printint_at:
  "\<exists>t. printint cdigits 2048 10 True = Inr t \<and> atoi (arr (map of_char t)) = Some 2048"
  using atoi_printint [of 2048] by auto

end
