(* ===== verification/Ring.thy ===== *)
theory Ring
  imports Prelude
begin

text \<open>
  Ring buffers with free-running 32-bit indices, as in the input buffer of the console and in
  pipes: the entry at index \<open>i\<close> is at position \<open>i mod N\<close> of the array, and the indices wrap around at
  \<open>2 ^ 32\<close>. The locale \<open>ring_buffer\<close> is the contract of the array size under which the buffer is a queue.
\<close>

definition ring :: "nat \<Rightarrow> 'a list \<Rightarrow> u32 \<Rightarrow> u32 \<Rightarrow> 'a list" where
  "ring N xs r w = map (\<lambda>k. xs ! ((unat r + k) mod N)) [0..<unat (w - r)]"

lemma length_ring [simp]: "length (ring N xs r w) = unat (w - r)"
  by (simp add: ring_def)

lemma ring_empty: "ring N xs r w = [] \<longleftrightarrow> w = r"
  by (simp add: ring_def unat_eq_zero)

lemma take_ring: "unat (v - r) \<le> unat (w - r) \<Longrightarrow> take (unat (v - r)) (ring N xs r w) = ring N xs r v"
  by (simp add: ring_def take_map)

lemma dist_back:
  fixes w r :: u32
  assumes "w \<noteq> r"
  shows "unat (w - r) = Suc (unat (w - 1 - r))" "unat (w - r) = Suc (unat (w - (r + 1)))"
proof -
  have "w - r \<noteq> 0" using assms by simp
  then have "unat (w - r - 1) = unat (w - r) - 1" "0 < unat (w - r)" by (simp_all add: unat_minus_one unat_gt_0)
  moreover have e: "w - 1 - r = w - r - 1" "w - (r + 1) = w - r - 1" by simp_all
  ultimately show "unat (w - r) = Suc (unat (w - 1 - r))" "unat (w - r) = Suc (unat (w - (r + 1)))"
    unfolding e by linarith+
qed

locale ring_buffer =
  fixes N :: nat
  assumes size_pos: "0 < N"
    and size_small: "N < 2 ^ 32"
    and size_dvd: "N dvd 2 ^ 32"
begin

text \<open>The wrap-around of the indices is harmless.\<close>

lemma index_mod:
  fixes a b :: u32
  shows "unat a mod N = (unat b + unat (a - b)) mod N"
proof -
  have "unat a = (unat b + unat (a - b)) mod 2 ^ 32"
    using unat_word_ariths(1) [of b "a - b"] by simp
  also have "\<dots> mod N = (unat b + unat (a - b)) mod N"
    by (rule mod_mod_cancel) (rule size_dvd)
  finally show ?thesis .
qed

lemma take_back:
  assumes "w \<noteq> r"
  shows "ring N xs r w = ring N xs r (w - 1) @ [xs ! (unat (w - 1) mod N)]"
  using index_mod [of "w - 1" r] by (simp add: ring_def dist_back(1) [OF assms])

lemma pop:
  assumes "w \<noteq> r"
  shows "ring N xs r w = xs ! (unat r mod N) # ring N xs (r + 1) w"
proof -
  have "unat (r + 1) mod N = Suc (unat r) mod N" using index_mod [of "r + 1" r] by simp
  then have "(unat (r + 1) + k) mod N = (unat r + Suc k) mod N" for k
    by (metis add_Suc_right add_Suc mod_add_left_eq)
  then show ?thesis
    unfolding ring_def dist_back(2) [OF assms] by (simp add: map_upt_Suc del: upt_Suc)
qed

lemma dist_push:
  fixes w r :: u32
  assumes "unat (w - r) < N"
  shows "unat (w + 1 - r) = Suc (unat (w - r))"
proof -
  have "w + 1 \<noteq> r"
  proof
    assume "w + 1 = r"
    then have "w - r = - 1" by (simp add: eq_diff_eq flip: \<open>w + 1 = r\<close>)
    then show False using assms size_small by (simp add: unsigned_minus_1_eq_mask mask_eq_exp_minus_1)
  qed
  then show ?thesis using dist_back(1) [of "w + 1" r] by simp
qed

lemma push:
  fixes w r :: u32
  assumes "length xs = N" "unat (w - r) < N"
  shows "ring N (xs[unat w mod N := c]) r (w + 1) = ring N xs r w @ [c]"
proof -
  have ne: "(unat r + k) mod N \<noteq> unat w mod N" if "k < unat (w - r)" for k
  proof
    assume "(unat r + k) mod N = unat w mod N"
    then have "(unat r + unat (w - r)) mod N = (unat r + k) mod N" using index_mod [of w r] by simp
    then have "N dvd unat (w - r) - k" using that mod_eq_dvd_iff_nat [of "unat r + k" "unat r + unat (w - r)" N] by simp
    then show False using that assms(2) dvd_imp_le [of N "unat (w - r) - k"] by linarith
  qed
  have "ring N (xs[unat w mod N := c]) r w = ring N xs r w"
    using ne [THEN not_sym] unfolding ring_def by (intro map_cong) auto
  then show ?thesis
    using index_mod [of w r] assms(1) size_pos by (simp add: ring_def dist_push [OF assms(2)])
qed

end

end
