(* ===== verification/Console.thy ===== *)
theory Console
  imports Log Fmt Ring
begin

unbundle bit_operations_syntax

text \<open>
  The console (console.c) with the serial port (uart.c): output to the serial port and to the
  text screen, the input ring with line editing, and procdump of proc.c. The bytes sent to the serial
  port are kept in \<open>uart_out\<close>; the screen is \<open>crt\<close> with the cursor register \<open>crt_pos\<close>. An input
  interrupt delivers a list of characters, what successive calls of \<open>getc\<close> return.
\<close>

section \<open>State\<close>

datatype device = DevConsole

record cons = logs +
  panicked :: bool
  uart :: bool
  uart_out :: "u8 list"
  crt :: "nat \<Rightarrow> u16"
  crt_pos :: u16
  in_buf :: "u8 list"
  in_r :: u32
  in_w :: u32
  in_e :: u32
  devsw :: "nat \<Rightarrow> device option"

definition BACKSPACE :: int where "BACKSPACE = 0x100"
definition INPUT_BUF :: nat where "INPUT_BUF = 128"
definition NDEV :: int where "NDEV = 10"
definition CONSOLE :: nat where "CONSOLE = 1"

section \<open>Output\<close>

definition uartputc :: "int \<Rightarrow> 'a cons_scheme \<Rightarrow> 'a cons_scheme" where
  "uartputc c s = (if \<not> uart s then s else s\<lparr>uart_out := uart_out s @ [word_of_int c]\<rparr>)"

text \<open>\<open>status\<close> is the line status register: 0xFF when there is no serial port.\<close>

definition uartinit :: "u8 \<Rightarrow> 'a cons_scheme \<Rightarrow> 'a cons_scheme" where
  "uartinit status s =
    (if status = 0xFF then s else fold (\<lambda>c. uartputc (of_char c)) (''xv6...'' @ [CHR 0x0A]) (s\<lparr>uart := True\<rparr>))"

definition cgaputc :: "int \<Rightarrow> 'a cons_scheme \<Rightarrow> 'a cons_scheme result" where
  "cgaputc c s =
    (let p = uint (crt_pos s);
         (p, t) = (if c = 10 then (p + (80 - p mod 80), crt s)
                   else if c = BACKSPACE then (if p > 0 then p - 1 else p, crt s)
                   else (p + 1, (crt s)(nat p := (word_of_int c AND 0xff) OR 0x0700))) in
     if p < 0 \<or> 25 * 80 < p then Inl (Panic ''pos under/overflow'')
     else
       let (p, t) = (if 24 \<le> p div 80
                     then (p - 80, \<lambda>i. if i < 23 * 80 then (if nat (p - 80) \<le> i \<and> i < 24 * 80 then 0 else t (i + 80))
                                       else if nat (p - 80) \<le> i \<and> i < 24 * 80 then 0 else t i)
                     else (p, t)) in
       Inr (s\<lparr>crt_pos := word_of_int p, crt := t(nat p := 0x20 OR 0x0700)\<rparr>))"

definition consputc :: "int \<Rightarrow> 'a cons_scheme \<Rightarrow> 'a cons_scheme result" where
  "consputc c s =
    (if panicked s then Inl Diverges
     else cgaputc c (if c = BACKSPACE then uartputc 8 (uartputc 32 (uartputc 8 s)) else uartputc c s))"

definition consputs :: "string \<Rightarrow> 'a cons_scheme \<Rightarrow> 'a cons_scheme result" where
  "consputs t s = forE (\<lambda>c. consputc (of_char c)) t s"

definition cprintf :: "string \<Rightarrow> fmt_arg list \<Rightarrow> 'a cons_scheme \<Rightarrow> 'a cons_scheme result" where
  "cprintf fmt as s = bindE (cprintf_text fmt as) (\<lambda>t. consputs t s)"

definition state_name :: "procstate \<Rightarrow> string" where
  "state_name st = (case st of UNUSED \<Rightarrow> ''unused'' | EMBRYO \<Rightarrow> ''embryo'' | SLEEPING \<Rightarrow> ''sleep ''
     | RUNNABLE \<Rightarrow> ''runble'' | RUNNING \<Rightarrow> ''run   '' | ZOMBIE \<Rightarrow> ''zombie'')"

text \<open>\<open>pcs j\<close> are the return addresses that getcallerpcs finds on the kernel stack of process \<open>j\<close>.\<close>

definition procdump :: "(nat \<Rightarrow> u32 list) \<Rightarrow> 'a cons_scheme \<Rightarrow> 'a cons_scheme result" where
  "procdump pcs s =
    forE (\<lambda>j s.
      let p = ptable s ! j in
      if p_state p = UNUSED then Inr s
      else bindE (cprintf ''%d %s %s'' [Num (word_of_int (p_pid p)), Ptr (Some (state_name (p_state p))), Ptr (Some (p_name p))] s) (\<lambda>s.
        bindE (if p_state p = SLEEPING
               then forE (\<lambda>pc. cprintf '' %p'' [Num pc]) (takeWhile (\<lambda>pc. pc \<noteq> 0) (take 10 (pcs j))) s
               else Inr s) (\<lambda>s.
        cprintf [CHR 0x0A] [] s))) [0..<length (ptable s)] s"

section \<open>Input\<close>

definition in_at :: "u32 \<Rightarrow> 'a cons_scheme \<Rightarrow> u8" where
  "in_at i s = in_buf s ! (unat i mod INPUT_BUF)"

text \<open>The loop of control-U, with one turn for every character of the ring at most.\<close>

definition kill_line :: "'a cons_scheme \<Rightarrow> 'a cons_scheme result" where
  "kill_line s =
    bindE (loopE (Suc INPUT_BUF) (\<lambda>s. in_e s \<noteq> in_w s \<and> in_at (in_e s - 1) s \<noteq> 10)
      (\<lambda>s. bindE (consputc BACKSPACE (s\<lparr>in_e := in_e s - 1\<rparr>)) (\<lambda>s. Inr (Inr s))) s) (\<lambda>x.
    case x of Inl s \<Rightarrow> Inr s | Inr s \<Rightarrow> Inr s)"

definition cons_char :: "int \<Rightarrow> 'a cons_scheme \<Rightarrow> 'a cons_scheme result" where
  "cons_char c s =
    (if c = 16 then Inr s
     else if c = 21 then kill_line s
     else if c = 8 \<or> c = 0x7f
     then if in_e s \<noteq> in_w s then consputc BACKSPACE (s\<lparr>in_e := in_e s - 1\<rparr>) else Inr s
     else if c \<noteq> 0 \<and> in_e s - in_r s < word_of_nat INPUT_BUF
     then
       let c = (if c = 13 then 10 else c);
           s = s\<lparr>in_buf := (in_buf s)[unat (in_e s) mod INPUT_BUF := word_of_int c], in_e := in_e s + 1\<rparr> in
       bindE (consputc c s) (\<lambda>s.
       if c = 10 \<or> c = 4 \<or> in_e s = in_r s + word_of_nat INPUT_BUF
       then Inr (wakeup1 (Some ChInput) (s\<lparr>in_w := in_e s\<rparr>)) else Inr s)
     else Inr s)"

definition consoleintr :: "(nat \<Rightarrow> u32 list) \<Rightarrow> int list \<Rightarrow> 'a cons_scheme \<Rightarrow> 'a cons_scheme result" where
  "consoleintr pcs cs s =
    (let cs = takeWhile (\<lambda>c. 0 \<le> c) cs in
     bindE (forE cons_char cs s) (\<lambda>s.
     if 16 \<in> set cs then procdump pcs s else Inr s))"

text \<open>
  The loop of consoleread with \<open>n\<close> bytes still wanted. The result has the bytes for the caller, or
  is \<open>None\<close> when the process has been killed.
\<close>

fun consoleread_loop :: "nat \<Rightarrow> nat \<Rightarrow> 'a cons_scheme \<Rightarrow> (u8 list option \<times> 'a cons_scheme) result" where
  "consoleread_loop target 0 s = Inr (Some [], s)"
| "consoleread_loop target (Suc n) s =
    (if in_r s = in_w s then
       case curproc s of
         None \<Rightarrow> Inl BadAccess
       | Some j \<Rightarrow> if p_killed (ptable s ! j) then Inr (None, s) else Inl (Blocks ChInput)
     else
       let c = in_at (in_r s) s; s' = s\<lparr>in_r := in_r s + 1\<rparr> in
       if c = 4 then Inr (Some [], if Suc n < target then s else s')
       else if c = 10 then Inr (Some [c], s')
       else bindE (consoleread_loop target n s') (\<lambda>(r, s). Inr (map_option ((#) c) r, s)))"

definition consoleinit :: "'a cons_scheme \<Rightarrow> 'a cons_scheme" where
  "consoleinit s = (initlock ConsLock ''console'' s)\<lparr>devsw := (devsw s)(CONSOLE := Some DevConsole)\<rparr>"

section \<open>The screen\<close>

definition screen_ok :: "'a cons_scheme \<Rightarrow> bool" where
  "screen_ok s \<longleftrightarrow> \<not> panicked s \<and> uint (crt_pos s) < 24 * 80"

definition cons_more :: "'a cons_scheme \<Rightarrow> 'a cons_scheme \<Rightarrow> bool" where
  "cons_more s t \<longleftrightarrow> (\<exists>o' p q. t = s\<lparr>uart_out := o', crt := p, crt_pos := q\<rparr>)"

lemma uartputc_more: "\<exists>o'. uartputc c s = s\<lparr>uart_out := o'\<rparr>"
  by (cases "uart s") (auto simp: uartputc_def intro: exI [of _ "uart_out s"])

lemma cgaputc_ok:
  assumes "screen_ok s"
  shows "\<exists>t. cgaputc c s = Inr t \<and> screen_ok t \<and> cons_more s t"
proof -
  let ?p = "uint (crt_pos s)"
  have p: "0 \<le> ?p" "?p < 1920" "\<not> panicked s" using assms by (simp_all add: screen_ok_def)
  obtain q t where q: "(q, t) = (if c = 10 then (?p + (80 - ?p mod 80), crt s)
                   else if c = BACKSPACE then (if ?p > 0 then ?p - 1 else ?p, crt s)
                   else (?p + 1, (crt s)(nat ?p := (word_of_int c AND 0xff) OR 0x0700)))" by (cases "c = 10"; cases "c = BACKSPACE") auto
  have d: "80 * (x div 80) \<le> x" "x < 80 * (x div 80) + 80" for x :: int
    using mult_div_mod_eq [of 80 x] pos_mod_bound [of 80 x] pos_mod_sign [of 80 x] by linarith+
  have b: "0 \<le> q \<and> q \<le> 1920"
  proof (cases "c = 10")
    case True
    then have "q = 80 * (?p div 80) + 80" using q by (simp add: minus_mult_div_eq_mod [symmetric])
    moreover have "?p div 80 < 24" using d [of ?p] p(2) by linarith
    ultimately show ?thesis using d [of ?p] p(1) by (intro conjI) linarith+
  next
    case False
    then show ?thesis using q p by (auto split: if_splits)
  qed
  let ?q = "if 24 \<le> q div 80 then q - 80 else q"
  have q': "0 \<le> ?q" "?q < 1920" using b d [of q] by auto
  have u: "uint (word_of_int ?q :: u16) = ?q" using q' by (simp add: uint_word_of_int)
  have "\<exists>v. cgaputc c s = Inr (s\<lparr>crt_pos := word_of_int ?q, crt := v\<rparr>)"
    unfolding cgaputc_def Let_def q [symmetric] using b by (cases "24 \<le> q div 80") auto
  then obtain v where v: "cgaputc c s = Inr (s\<lparr>crt_pos := word_of_int ?q, crt := v\<rparr>)" ..
  moreover have "cons_more s (s\<lparr>crt_pos := word_of_int ?q, crt := v\<rparr>)"
    unfolding cons_more_def by (rule exI [of _ "uart_out s"], rule exI [of _ v], rule exI [of _ "word_of_int ?q"]) simp
  moreover have "screen_ok (s\<lparr>crt_pos := word_of_int ?q, crt := v\<rparr>)"
    unfolding screen_ok_def using p(3) u q'(2) by simp
  ultimately show ?thesis by blast
qed

lemma consputc_ok:
  assumes "screen_ok s"
  shows "\<exists>t. consputc c s = Inr t \<and> screen_ok t \<and> cons_more s t"
proof -
  obtain o' where o': "(if c = BACKSPACE then uartputc 8 (uartputc 32 (uartputc 8 s)) else uartputc c s) = s\<lparr>uart_out := o'\<rparr>"
  proof (cases "uart s")
    case True
    then show ?thesis by (cases "c = BACKSPACE") (auto simp: uartputc_def intro: that)
  next
    case False
    then show ?thesis by (auto simp: uartputc_def intro: that [of "uart_out s"])
  qed
  have ok: "screen_ok (s\<lparr>uart_out := o'\<rparr>)" "\<not> panicked s" using assms by (simp_all add: screen_ok_def)
  obtain t where t: "cgaputc c (s\<lparr>uart_out := o'\<rparr>) = Inr t" "screen_ok t" "cons_more (s\<lparr>uart_out := o'\<rparr>) t"
    using cgaputc_ok [OF ok(1)] by blast
  have "cons_more s t" using t(3) unfolding cons_more_def by auto
  with t(1,2) ok(2) show ?thesis unfolding consputc_def o' by simp
qed

lemma cons_more_sel:
  assumes "cons_more s t"
  shows "in_buf t = in_buf s" "in_r t = in_r s" "in_w t = in_w s" "in_e t = in_e s" "ptable t = ptable s" "curproc t = curproc s"
  using assms by (auto simp: cons_more_def curproc_def cur_def split: option.split)

section \<open>The line discipline\<close>

text \<open>
  What the input ring implements: the bytes of finished lines, ready to be read, and the line
  being edited.
\<close>

definition typed :: "'a cons_scheme \<Rightarrow> u8 list" where
  "typed s = ring INPUT_BUF (in_buf s) (in_r s) (in_e s)"

definition in_ready :: "'a cons_scheme \<Rightarrow> u8 list" where
  "in_ready s = take (unat (in_w s - in_r s)) (typed s)"

definition in_edit :: "'a cons_scheme \<Rightarrow> u8 list" where
  "in_edit s = drop (unat (in_w s - in_r s)) (typed s)"

definition input_ok :: "'a cons_scheme \<Rightarrow> bool" where
  "input_ok s \<longleftrightarrow> length (in_buf s) = INPUT_BUF \<and> unat (in_w s - in_r s) \<le> unat (in_e s - in_r s)
     \<and> unat (in_e s - in_r s) \<le> INPUT_BUF"

fun line_char :: "int \<Rightarrow> u8 list \<times> u8 list \<Rightarrow> u8 list \<times> u8 list" where
  "line_char c (ready, edit) =
    (if c = 16 then (ready, edit)
     else if c = 21 then (ready, rev (dropWhile (\<lambda>x. x \<noteq> 10) (rev edit)))
     else if c = 8 \<or> c = 0x7f then (ready, butlast edit)
     else if c \<noteq> 0 \<and> length ready + length edit < INPUT_BUF
     then
       let c = (if c = 13 then 10 else c); edit = edit @ [word_of_int c] in
       if c = 10 \<or> c = 4 \<or> length ready + length edit = INPUT_BUF then (ready @ edit, []) else (ready, edit)
     else (ready, edit))"

interpretation inp: ring_buffer INPUT_BUF
  by unfold_locales (simp_all add: INPUT_BUF_def)

lemma in_at_last:
  assumes "in_e s \<noteq> in_r s"
  shows "typed s = typed (s\<lparr>in_e := in_e s - 1\<rparr>) @ [in_at (in_e s - 1) s]"
    "unat (in_e s - in_r s) = Suc (unat (in_e s - 1 - in_r s))"
  using inp.take_back [OF assms] dist_back(1) [OF assms] by (simp_all add: typed_def in_at_def)

lemma length_typed [simp]: "length (typed s) = unat (in_e s - in_r s)"
  by (simp add: typed_def)

lemma input_cong:
  assumes "in_buf t = in_buf s" "in_r t = in_r s" "in_w t = in_w s" "in_e t = in_e s"
  shows "input_ok t = input_ok s" "in_ready t = in_ready s" "in_edit t = in_edit s"
  using assms by (simp_all add: input_ok_def in_ready_def in_edit_def typed_def)

lemma in_edit_empty: "input_ok s \<Longrightarrow> in_edit s = [] \<longleftrightarrow> in_e s = in_w s"
proof -
  assume ok: "input_ok s"
  then have "in_edit s = [] \<longleftrightarrow> unat (in_e s - in_r s) = unat (in_w s - in_r s)" by (auto simp: in_edit_def input_ok_def)
  also have "\<dots> \<longleftrightarrow> in_e s = in_w s" by (simp add: word_unat_eq_iff [symmetric])
  finally show ?thesis .
qed

text \<open>Taking one character back from the line that is being edited.\<close>

lemma edit_back:
  assumes "input_ok s" "in_e s \<noteq> in_w s"
  defines "t \<equiv> s\<lparr>in_e := in_e s - 1\<rparr>"
  shows "input_ok t" "in_ready t = in_ready s" "in_edit s = in_edit t @ [in_at (in_e s - 1) s]"
proof -
  have w: "unat (in_w s - in_r s) < unat (in_e s - in_r s)"
    using assms(1) in_edit_empty [OF assms(1)] assms(2) by (auto simp: input_ok_def in_edit_def)
  then have ne: "in_e s \<noteq> in_r s" by auto
  note l = in_at_last [OF ne]
  show "input_ok t" using assms(1) w l(2) by (simp add: input_ok_def t_def)
  show "in_ready t = in_ready s" "in_edit s = in_edit t @ [in_at (in_e s - 1) s]"
    using w l unfolding in_ready_def in_edit_def t_def by simp_all
qed

lemma typed_append:
  fixes c :: u8
  assumes "input_ok s" "unat (in_e s - in_r s) < INPUT_BUF"
  defines "t \<equiv> s\<lparr>in_buf := (in_buf s)[unat (in_e s) mod INPUT_BUF := c], in_e := in_e s + 1\<rparr>"
  shows "typed t = typed s @ [c]" "length (in_buf t) = INPUT_BUF" "unat (in_e t - in_r t) = Suc (unat (in_e s - in_r s))"
  using assms(1) inp.push [OF _ assms(2), of "in_buf s" c] inp.dist_push [OF assms(2)]
  by (simp_all add: input_ok_def typed_def t_def)

lemma outcome_InrD: "outcome (\<lambda>_. False) (\<lambda>_. False) I x \<Longrightarrow> \<exists>t. x = Inr (Inr t) \<and> I t"
  by (cases x; cases "projr x") auto

lemma kill_line_refines:
  assumes "input_ok s" "screen_ok s"
  shows "\<exists>t. kill_line s = Inr t \<and> input_ok t \<and> screen_ok t \<and> in_ready t = in_ready s
    \<and> in_edit t = rev (dropWhile (\<lambda>x. x \<noteq> 10) (rev (in_edit s)))"
proof -
  let ?g = "\<lambda>e. rev (dropWhile (\<lambda>x. x \<noteq> (10 :: u8)) (rev e))"
  let ?c = "\<lambda>s :: 'a cons_scheme. in_e s \<noteq> in_w s \<and> in_at (in_e s - 1) s \<noteq> 10"
  let ?f = "\<lambda>s :: 'a cons_scheme. bindE (consputc BACKSPACE (s\<lparr>in_e := in_e s - 1\<rparr>)) (\<lambda>s. Inr (Inr s)) :: ('a cons_scheme + 'a cons_scheme) result"
  let ?I = "\<lambda>t :: 'a cons_scheme. input_ok t \<and> screen_ok t \<and> in_ready t = in_ready s \<and> ?g (in_edit t) = ?g (in_edit s)"
  have len: "length (in_edit t) < Suc INPUT_BUF" if "input_ok t" for t :: "'a cons_scheme"
    using that by (auto simp: input_ok_def in_edit_def)
  have "outcome (\<lambda>_. False) (\<lambda>_. False) (\<lambda>t. ?I t \<and> \<not> ?c t) (loopE (Suc INPUT_BUF) ?c ?f s)"
  proof (rule loopE_rule [where \<mu> = "\<lambda>t. length (in_edit t)"])
    show "?I s" using assms by simp
    show "length (in_edit s) < Suc INPUT_BUF" by (rule len [OF assms(1)])
  next
    fix u :: "'a cons_scheme" assume I: "?I u" and c: "?c u"
    let ?u = "u\<lparr>in_e := in_e u - 1\<rparr>"
    have b: "input_ok ?u" "in_ready ?u = in_ready u" "in_edit u = in_edit ?u @ [in_at (in_e u - 1) u]"
      using edit_back [of u] I c by blast+
    have "screen_ok ?u" using I by (simp add: screen_ok_def)
    then obtain t where t: "consputc BACKSPACE ?u = Inr t" "screen_ok t" "cons_more ?u t" using consputc_ok by blast
    note k = input_cong [OF cons_more_sel(1-4) [OF t(3)]]
    have "?g (in_edit u) = ?g (in_edit ?u)" unfolding b(3) using c by simp
    then show "outcome (\<lambda>_. False) (\<lambda>_. False) (\<lambda>s'. ?I s' \<and> length (in_edit s') < length (in_edit u)) (?f u)"
      using t(1,2) k I b by simp
  qed
  then obtain t where t: "loopE (Suc INPUT_BUF) ?c ?f s = Inr (Inr t)" "?I t" "\<not> ?c t" using outcome_InrD by blast
  have "?g (in_edit t) = in_edit t"
  proof (cases "in_e t = in_w t")
    case True
    then show ?thesis using in_edit_empty [of t] t(2) by simp
  next
    case False
    then obtain xs where "in_edit t = xs @ [10]" using edit_back(3) [of t] t(2,3) by simp
    then show ?thesis by simp
  qed
  moreover have "kill_line s = Inr t" unfolding kill_line_def t(1) by simp
  ultimately show ?thesis using t(2) by simp
qed

lemma wakeup1_input [simp]:
  "in_buf (wakeup1 c s) = in_buf s" "in_r (wakeup1 c s) = in_r s" "in_w (wakeup1 c s) = in_w s" "in_e (wakeup1 c s) = in_e s"
  "screen_ok (wakeup1 c s) = screen_ok s"
  by (simp_all add: wakeup1_def screen_ok_def)

lemma cons_char_refines:
  assumes "input_ok s" "screen_ok s"
  shows "\<exists>t. cons_char c s = Inr t \<and> input_ok t \<and> screen_ok t \<and> (in_ready t, in_edit t) = line_char c (in_ready s, in_edit s)"
proof -
  have lr: "length (in_ready s) + length (in_edit s) = unat (in_e s - in_r s)" using assms(1) by (simp add: in_ready_def in_edit_def input_ok_def)
  have re: "in_ready s @ in_edit s = typed s" by (simp add: in_ready_def in_edit_def)
  consider (same) "c = 16" | (kill) "c = 21" | (bs) "c = 8 \<or> c = 0x7f" | (chr) "c \<noteq> 16" "c \<noteq> 21" "c \<noteq> 8" "c \<noteq> 0x7f" by blast
  then show ?thesis
  proof cases
    case same
    then show ?thesis using assms by (simp add: cons_char_def)
  next
    case kill
    then show ?thesis using kill_line_refines [OF assms] by (auto simp: cons_char_def)
  next
    case bs
    show ?thesis
    proof (cases "in_e s = in_w s")
      case True
      then show ?thesis using bs assms in_edit_empty [OF assms(1)] by (auto simp: cons_char_def)
    next
      case False
      let ?u = "s\<lparr>in_e := in_e s - 1\<rparr>"
      have "screen_ok ?u" using assms(2) by (simp add: screen_ok_def)
      then obtain t where t: "consputc BACKSPACE ?u = Inr t" "screen_ok t" "cons_more ?u t" using consputc_ok by blast
      note k = input_cong [OF cons_more_sel(1-4) [OF t(3)]]
      show ?thesis using bs False t k edit_back [OF assms(1) False] by (auto simp: cons_char_def)
    qed
  next
    case chr
    have room: "in_e s - in_r s < word_of_nat INPUT_BUF \<longleftrightarrow> length (in_ready s) + length (in_edit s) < INPUT_BUF"
      unfolding lr by (simp add: word_less_nat_alt INPUT_BUF_def)
    show ?thesis
    proof (cases "c \<noteq> 0 \<and> in_e s - in_r s < word_of_nat INPUT_BUF")
      case False
      then show ?thesis using chr assms room by (auto simp: cons_char_def)
    next
      case True
      let ?c = "if c = 13 then 10 else c"
      let ?u = "s\<lparr>in_buf := (in_buf s)[unat (in_e s) mod INPUT_BUF := word_of_int ?c], in_e := in_e s + 1\<rparr>"
      have lt: "unat (in_e s - in_r s) < INPUT_BUF" using True room lr by simp
      note ap = typed_append [OF assms(1) lt, of "word_of_int ?c"]
      have "screen_ok ?u" using assms(2) by (simp add: screen_ok_def)
      then obtain t where t: "consputc ?c ?u = Inr t" "screen_ok t" "cons_more ?u t" using consputc_ok by blast
      note m = cons_more_sel(1-4) [OF t(3)]
      have ty: "typed t = typed s @ [word_of_int ?c]" "length (in_buf t) = INPUT_BUF"
        "unat (in_e t - in_r t) = Suc (unat (in_e s - in_r s))" "in_r t = in_r s" "in_w t = in_w s"
        using ap m by (simp_all add: typed_def)
      have full: "in_e t = in_r t + word_of_nat INPUT_BUF \<longleftrightarrow> Suc (unat (in_e s - in_r s)) = INPUT_BUF"
      proof -
        have "in_e t = in_r t + word_of_nat INPUT_BUF \<longleftrightarrow> in_e t - in_r t = word_of_nat INPUT_BUF" by (auto simp: algebra_simps)
        also have "\<dots> \<longleftrightarrow> unat (in_e t - in_r t) = INPUT_BUF" by (simp add: word_unat_eq_iff INPUT_BUF_def)
        finally show ?thesis using ty(3) by simp
      qed
      have ok: "input_ok t" "in_ready t = in_ready s" "in_edit t = in_edit s @ [word_of_int ?c]"
        using assms(1) ty lt by (auto simp: input_ok_def in_ready_def in_edit_def)
      let ?v = "wakeup1 (Some ChInput) (t\<lparr>in_w := in_e t\<rparr>)"
      have v: "input_ok ?v" "in_ready ?v = in_ready s @ in_edit s @ [word_of_int ?c]" "in_edit ?v = []" "screen_ok ?v"
      proof -
        have ty': "typed ?v = typed t" by (simp add: typed_def)
        show "input_ok ?v" using ty lt by (simp add: input_ok_def)
        have lw: "unat (in_w ?v - in_r ?v) = length (typed t)" by simp
        show "in_ready ?v = in_ready s @ in_edit s @ [word_of_int ?c]" "in_edit ?v = []"
          unfolding in_ready_def [of ?v] in_edit_def [of ?v] ty' lw using ty(1) re by simp_all
        show "screen_ok ?v" unfolding wakeup1_input(5) using t(2) by (simp add: screen_ok_def)
      qed
      have "cons_char c s = (if ?c = 10 \<or> ?c = 4 \<or> in_e t = in_r t + word_of_nat INPUT_BUF then Inr ?v else Inr t)"
        using chr True t(1) by (simp add: cons_char_def Let_def)
      then show ?thesis using chr True room full v ok lr t(2) by (auto simp: Let_def)
    qed
  qed
qed

text \<open>Reading from the finished lines; \<open>None\<close> is a reader that has to wait.\<close>

fun line_read :: "nat \<Rightarrow> nat \<Rightarrow> u8 list \<Rightarrow> (u8 list \<times> u8 list) option" where
  "line_read target 0 rs = Some ([], rs)"
| "line_read target (Suc n) [] = None"
| "line_read target (Suc n) (c # rs) =
    (if c = 4 then Some ([], if Suc n < target then c # rs else rs)
     else if c = 10 then Some ([c], rs)
     else map_option (\<lambda>(bs, rs). (c # bs, rs)) (line_read target n rs))"

lemma read_one:
  assumes "input_ok s" "in_r s \<noteq> in_w s"
  defines "t \<equiv> s\<lparr>in_r := in_r s + 1\<rparr>"
  shows "input_ok t" "in_ready s = in_at (in_r s) s # in_ready t" "in_edit t = in_edit s"
proof -
  note w = dist_back(2) [OF assms(2) [THEN not_sym]]
  have ne: "in_e s \<noteq> in_r s" using w assms(1) by (auto simp: input_ok_def)
  note e = dist_back(2) [OF ne]
  have ty: "typed s = in_at (in_r s) s # typed t"
    using inp.pop [OF ne] by (simp add: typed_def in_at_def t_def)
  show "input_ok t" using assms(1) w e by (simp add: input_ok_def t_def)
  show "in_ready s = in_at (in_r s) s # in_ready t" "in_edit t = in_edit s"
    unfolding in_ready_def in_edit_def ty w by (simp_all add: t_def)
qed

lemma in_ready_empty: "input_ok s \<Longrightarrow> in_ready s = [] \<longleftrightarrow> in_r s = in_w s"
proof -
  assume ok: "input_ok s"
  then have "in_ready s = [] \<longleftrightarrow> unat (in_w s - in_r s) = 0" by (auto simp: in_ready_def input_ok_def) (metis length_0_conv length_typed le_zero_eq)
  also have "\<dots> \<longleftrightarrow> in_r s = in_w s" by (auto simp: unat_eq_0)
  finally show ?thesis .
qed

lemma consoleread_loop_refines:
  assumes "input_ok s" "curproc s = Some j" "\<not> p_killed (ptable s ! j)"
  shows "case line_read target n (in_ready s) of
      None \<Rightarrow> consoleread_loop target n s = Inl (Blocks ChInput)
    | Some (bs, rest) \<Rightarrow> \<exists>t. consoleread_loop target n s = Inr (Some bs, t) \<and> input_ok t \<and> in_ready t = rest \<and> in_edit t = in_edit s"
  using assms
proof (induction n arbitrary: s)
  case (Suc n)
  show ?case
  proof (cases "in_r s = in_w s")
    case True
    then show ?thesis using Suc.prems in_ready_empty [of s] by simp
  next
    case False
    let ?t = "s\<lparr>in_r := in_r s + 1\<rparr>"
    note r = read_one [OF Suc.prems(1) False]
    have c: "curproc ?t = Some j" "\<not> p_killed (ptable ?t ! j)"
      using Suc.prems by (simp_all add: curproc_def cur_def split: option.splits)
    show ?thesis using Suc.IH [OF r(1) c] Suc.prems False r by (auto simp: Let_def split: option.splits)
  qed
qed (simp add: assms)

section \<open>Properties\<close>

text \<open>
  C39. The input ring implements line editing: an input interrupt with any characters but control-P
  returns, keeps the ring well-formed and has on the finished lines and the line being edited the
  effect of the characters in order: a character is appended if there is room, backspace takes one
  back, control-U empties the line, and newline, control-D or a full buffer finish the line.
\<close>

theorem consoleintr_refines:
  assumes "input_ok s" "screen_ok s" "16 \<notin> set cs"
  shows "\<exists>t. consoleintr pcs cs s = Inr t \<and> input_ok t \<and> screen_ok t \<and>
    (in_ready t, in_edit t) = fold line_char (takeWhile (\<lambda>c. 0 \<le> c) cs) (in_ready s, in_edit s)"
proof -
  have chars: "\<exists>t. forE cons_char ds u = Inr t \<and> input_ok t \<and> screen_ok t \<and>
      (in_ready t, in_edit t) = fold line_char ds (in_ready u, in_edit u)" if "input_ok u" "screen_ok u" for ds and u :: "'a cons_scheme"
    using that
  proof (induction ds arbitrary: u)
    case (Cons d ds)
    obtain v where v: "cons_char d u = Inr v" "input_ok v" "screen_ok v" "(in_ready v, in_edit v) = line_char d (in_ready u, in_edit u)"
      using cons_char_refines [OF Cons.prems, of d] by blast
    show ?case using Cons.IH [OF v(2,3)] v(1,4) by (simp del: line_char.simps)
  qed simp
  have "16 \<notin> set (takeWhile (\<lambda>c. 0 \<le> c) cs)" using assms(3) by (auto dest: set_takeWhileD)
  with chars [OF assms(1,2), of "takeWhile (\<lambda>c. 0 \<le> c) cs"] show ?thesis by (auto simp: consoleintr_def Let_def)
qed

text \<open>
  C40. consoleread hands out finished lines in order: for a live process it returns the bytes of the
  first finished line, up to n of them and with its newline, and takes exactly those bytes away; at a
  control-D it stops, keeping the control-D for the next call when it has read something; and it
  waits exactly when there are too few bytes and no end of line.
\<close>

theorem consoleread_refines:
  assumes "input_ok s" "curproc s = Some j" "\<not> p_killed (ptable s ! j)"
  shows "case line_read n n (in_ready s) of
      None \<Rightarrow> consoleread_loop n n s = Inl (Blocks ChInput)
    | Some (bs, rest) \<Rightarrow> \<exists>t. consoleread_loop n n s = Inr (Some bs, t) \<and> input_ok t \<and> in_ready t = rest \<and> in_edit t = in_edit s"
  by (rule consoleread_loop_refines [OF assms])

text \<open>
  Output cannot fall off the screen: from a cursor in the first 24 rows, consputc of any
  character, newline and backspace included, returns, and the cursor is again in those rows.
\<close>

lemma consputc_on_screen:
  assumes "\<not> panicked s" "uint (crt_pos s) < 24 * 80"
  shows "\<exists>t. consputc c s = Inr t \<and> \<not> panicked t \<and> uint (crt_pos t) < 24 * 80"
  using consputc_ok [of s c] assms by (auto simp: screen_ok_def)

definition cons_ex :: cons where
  "cons_ex = logs.extend (bcache.extend (bcache_ex (\<lambda>_ _. zeros)) (logs.fields 2 30 1 False 1 0 (replicate LOGSIZE 0))) (cons.fields False True [] (\<lambda>_. 0) 0 (replicate INPUT_BUF 0) 0 0 0 (\<lambda>_. None))"

lemma cons_ex_ok: "input_ok cons_ex" "screen_ok cons_ex" "in_ready cons_ex = []" "in_edit cons_ex = []"
  by (simp_all add: cons_ex_def logs.defs cons.defs input_ok_def screen_ok_def in_ready_def in_edit_def typed_def ring_def)

theorem consoleintr_refines_witness:
  "\<exists>t. consoleintr (\<lambda>_. []) [104, 105, 8, 13, 111] cons_ex = Inr t \<and> in_ready t = [104, 10] \<and> in_edit t = [111]"
  using consoleintr_refines [OF cons_ex_ok(1,2), of "[104, 105, 8, 13, 111]" "\<lambda>_. []"] cons_ex_ok(3,4)
  by (auto simp: INPUT_BUF_def)

lemma consputc_on_screen_at:
  "\<exists>t. consputc 10 cons_ex = Inr t \<and> uint (crt_pos t) < 24 * 80"
  using consputc_on_screen [of cons_ex 10] cons_ex_ok(2) by (auto simp: screen_ok_def)

theorem consoleread_refines_witness:
  "\<exists>(s :: cons) t. in_ready s = [104, 10, 120, 10] \<and> consoleread_loop (Suc (Suc (Suc 0))) (Suc (Suc (Suc 0))) s = Inr (Some [104, 10], t) \<and> in_ready t = [120, 10]"
proof -
  let ?s = "cons_ex\<lparr>in_buf := [104, 10, 120, 10] @ replicate 124 0, in_w := 4, in_e := 4\<rparr>"
  have ok: "input_ok ?s" "in_ready ?s = [104, 10, 120, 10]"
    by (simp_all add: cons_ex_def logs.defs cons.defs input_ok_def in_ready_def typed_def ring_def INPUT_BUF_def upt_rec)
  have p: "curproc ?s = Some 0" "\<not> p_killed (ptable ?s ! 0)"
    by (simp_all add: cons_ex_def logs.defs cons.defs bcache.defs bcache_ex_def disks.defs disks_ex_def curproc_def cur_eq
        two_cpus_def table_ex_def task_def proc0_def)
  have "line_read (Suc (Suc (Suc 0))) (Suc (Suc (Suc 0))) [104, 10, 120, 10] = Some ([104, 10], [120, 10])" by simp
  with consoleread_refines [OF ok(1) p, of "Suc (Suc (Suc 0))"] ok(2)
  have "\<exists>t. consoleread_loop (Suc (Suc (Suc 0))) (Suc (Suc (Suc 0))) ?s = Inr (Some [104, 10], t) \<and> in_ready t = [120, 10]"
    by (simp del: consoleread_loop.simps) blast
  with ok(2) show ?thesis by blast
qed

end
