(* ===== verification/Fs.thy ===== *)
theory Fs
  imports Console
begin

unbundle bit_operations_syntax

text \<open>
  The file system (fs.c): block allocation, inodes, their contents, directories and path names, and
  the read and write functions of the console device, which take an inode (console.c). On-disk
  structures are read from and written to the bytes of a block with the accessors of \<open>Bytes\<close>.
  readi returns the bytes it copies to its destination and writei takes the bytes of its source. A
  path is the list of its bytes before the terminating NUL. The lock icache.lock is held for single
  steps only and is left out.
\<close>

section \<open>Data\<close>

definition NDIRECT :: nat where "NDIRECT = 12"
definition NINDIRECT :: nat where "NINDIRECT = 128"
definition MAXFILE :: nat where "MAXFILE = NDIRECT + NINDIRECT"
definition IPB :: u32 where "IPB = 8"
definition BPB :: nat where "BPB = 4096"
definition NINODE :: nat where "NINODE = 50"
definition DIRSIZ :: nat where "DIRSIZ = 14"
definition ROOTDEV :: u32 where "ROOTDEV = 1"
definition ROOTINO :: u32 where "ROOTINO = 1"
definition T_DIR :: u16 where "T_DIR = 1"
definition T_FILE :: u16 where "T_FILE = 2"
definition T_DEV :: u16 where "T_DEV = 3"

record inode =
  i_dev :: u32
  i_inum :: u32
  i_ref :: int
  i_valid :: bool
  i_type :: u16
  i_major :: u16
  i_minor :: u16
  i_nlink :: u16
  i_size :: u32
  i_addrs :: "u32 list"

record inodes = cons +
  sb :: superblock
  icache :: "inode list"

record stat =
  st_type :: u16
  st_dev :: u32
  st_ino :: u32
  st_nlink :: u16
  st_size :: u32

definition upd_inode :: "nat \<Rightarrow> (inode \<Rightarrow> inode) \<Rightarrow> 'a inodes_scheme \<Rightarrow> 'a inodes_scheme" where
  "upd_inode ip f s = s\<lparr>icache := (icache s)[ip := f (icache s ! ip)]\<rparr>"

abbreviation inode_at :: "nat \<Rightarrow> 'a inodes_scheme \<Rightarrow> inode" where
  "inode_at ip s \<equiv> icache s ! ip"

section \<open>Blocks\<close>

definition BBLOCK :: "u32 \<Rightarrow> superblock \<Rightarrow> u32" where
  "BBLOCK b sp = b div word_of_nat BPB + sb_bmapstart sp"

definition IBLOCK :: "u32 \<Rightarrow> superblock \<Rightarrow> u32" where
  "IBLOCK i sp = i div IPB + sb_inodestart sp"

definition bit_mask :: "nat \<Rightarrow> u8" where
  "bit_mask bi = push_bit (bi mod 8) 1"

definition bzero :: "u32 \<Rightarrow> u32 \<Rightarrow> 'a inodes_scheme \<Rightarrow> 'a inodes_scheme result" where
  "bzero dev bno s =
    bindE (bread dev bno s) (\<lambda>(bp, s).
    bindE (log_write bp (set_data bp (replicate BSIZE 0) s)) (\<lambda>s.
    brelse bp s))"

definition balloc :: "u32 \<Rightarrow> 'a inodes_scheme \<Rightarrow> (u32 \<times> 'a inodes_scheme) result" where
  "balloc dev s =
    bindE (loopE (Suc (unat (sb_size (sb s)) div BPB)) (\<lambda>(b, s). b < sb_size (sb s))
      (\<lambda>(b, s).
        bindE (bread dev (BBLOCK b (sb s)) s) (\<lambda>(bp, s).
        let d = buf_data bp s in
        case find (\<lambda>bi. b + word_of_nat bi < sb_size (sb s) \<and> d ! (bi div 8) AND bit_mask bi = 0) [0..<BPB] of
          Some bi \<Rightarrow>
            bindE (log_write bp (set_data bp (d[bi div 8 := d ! (bi div 8) OR bit_mask bi]) s)) (\<lambda>s.
            bindE (brelse bp s) (\<lambda>s.
            bindE (bzero dev (b + word_of_nat bi) s) (\<lambda>s.
            Inr (Inl (b + word_of_nat bi, s)))))
        | None \<Rightarrow> bindE (brelse bp s) (\<lambda>s. Inr (Inr (b + word_of_nat BPB, s))))) (0, s)) (\<lambda>x.
    case x of Inl r \<Rightarrow> Inr r | Inr _ \<Rightarrow> Inl (Panic ''balloc: out of blocks''))"

definition bfree :: "u32 \<Rightarrow> u32 \<Rightarrow> 'a inodes_scheme \<Rightarrow> 'a inodes_scheme result" where
  "bfree dev b s =
    bindE (bread dev (BBLOCK b (sb s)) s) (\<lambda>(bp, s).
    let d = buf_data bp s; bi = unat b mod BPB in
    if d ! (bi div 8) AND bit_mask bi = 0 then Inl (Panic ''freeing free block'')
    else bindE (log_write bp (set_data bp (d[bi div 8 := d ! (bi div 8) AND NOT (bit_mask bi)]) s)) (\<lambda>s.
      brelse bp s))"

section \<open>Inodes\<close>

definition iinit :: "u32 \<Rightarrow> 'a inodes_scheme \<Rightarrow> 'a inodes_scheme result" where
  "iinit dev s =
    (let s = fold (\<lambda>i. initsleeplock (InodeLock i) ''inode'') [0..<NINODE] (initlock IcacheLock ''icache'' s) in
     bindE (readsb dev s) (\<lambda>(b, s).
     cprintf (''sb: size %d nblocks %d ninodes %d nlog %d logstart %d inodestart %d bmap start %d'' @ [CHR 0x0A])
       [Num (sb_size b), Num (sb_nblocks b), Num (sb_ninodes b), Num (sb_nlog b), Num (sb_logstart b),
        Num (sb_inodestart b), Num (sb_bmapstart b)] (s\<lparr>sb := b\<rparr>)))"

text \<open>The fields of a \<open>struct dinode\<close> at offset \<open>o\<close> of a block.\<close>

definition dinode_off :: "u32 \<Rightarrow> nat" where
  "dinode_off inum = unat (inum mod IPB) * 64"

definition put_dinode :: "u8 list \<Rightarrow> nat \<Rightarrow> inode \<Rightarrow> u8 list" where
  "put_dinode d o' i = put32s (put32 (put16 (put16 (put16 (put16 d o' (i_type i)) (o' + 2) (i_major i)) (o' + 4) (i_minor i))
     (o' + 6) (i_nlink i)) (o' + 8) (i_size i)) (o' + 12) (i_addrs i)"

definition get_dinode :: "u8 list \<Rightarrow> nat \<Rightarrow> inode \<Rightarrow> inode" where
  "get_dinode d o' i = i\<lparr>i_type := get16 d o', i_major := get16 d (o' + 2), i_minor := get16 d (o' + 4),
     i_nlink := get16 d (o' + 6), i_size := get32 d (o' + 8),
     i_addrs := map (\<lambda>k. get32 d (o' + 12 + 4 * k)) [0..<NDIRECT + 1]\<rparr>"

definition iget :: "u32 \<Rightarrow> u32 \<Rightarrow> 'a inodes_scheme \<Rightarrow> (nat \<times> 'a inodes_scheme) result" where
  "iget dev inum s =
    (case scan (\<lambda>i. 0 < i_ref i \<and> i_dev i = dev \<and> i_inum i = inum) (icache s) of
       Some ip \<Rightarrow> Inr (ip, upd_inode ip (\<lambda>i. i\<lparr>i_ref := i_ref i + 1\<rparr>) s)
     | None \<Rightarrow>
       (case scan (\<lambda>i. i_ref i = 0) (icache s) of
          None \<Rightarrow> Inl (Panic ''iget: no inodes'')
        | Some ip \<Rightarrow>
          Inr (ip, upd_inode ip (\<lambda>i. i\<lparr>i_dev := dev, i_inum := inum, i_ref := 1, i_valid := False\<rparr>) s)))"

definition ialloc :: "u32 \<Rightarrow> u16 \<Rightarrow> 'a inodes_scheme \<Rightarrow> (nat \<times> 'a inodes_scheme) result" where
  "ialloc dev ty s =
    bindE (loopE (unat (sb_ninodes (sb s))) (\<lambda>(inum, s). inum < sb_ninodes (sb s))
      (\<lambda>(inum, s).
        bindE (bread dev (IBLOCK inum (sb s)) s) (\<lambda>(bp, s).
        let d = buf_data bp s; o' = dinode_off inum in
        if get16 d o' = 0
        then bindE (log_write bp (set_data bp (put16 (splice_at d o' (replicate 64 0)) o' ty) s)) (\<lambda>s.
          bindE (brelse bp s) (\<lambda>s.
          bindE (iget dev inum s) (\<lambda>r.
          Inr (Inl r))))
        else bindE (brelse bp s) (\<lambda>s. Inr (Inr (inum + 1, s))))) (1, s)) (\<lambda>x.
    case x of Inl r \<Rightarrow> Inr r | Inr _ \<Rightarrow> Inl (Panic ''ialloc: no inodes''))"

definition iupdate :: "nat \<Rightarrow> 'a inodes_scheme \<Rightarrow> 'a inodes_scheme result" where
  "iupdate ip s =
    bindE (bread (i_dev (inode_at ip s)) (IBLOCK (i_inum (inode_at ip s)) (sb s)) s) (\<lambda>(bp, s).
    let i = inode_at ip s in
    bindE (log_write bp (set_data bp (put_dinode (buf_data bp s) (dinode_off (i_inum i)) i) s)) (\<lambda>s.
    brelse bp s))"

definition idup :: "nat option \<Rightarrow> 'a inodes_scheme \<Rightarrow> (nat \<times> 'a inodes_scheme) result" where
  "idup c s = (case c of
     None \<Rightarrow> Inl BadAccess
   | Some ip \<Rightarrow> Inr (ip, upd_inode ip (\<lambda>i. i\<lparr>i_ref := i_ref i + 1\<rparr>) s))"

definition ilock :: "nat option \<Rightarrow> 'a inodes_scheme \<Rightarrow> 'a inodes_scheme result" where
  "ilock c s = (case c of
     None \<Rightarrow> Inl (Panic ''ilock'')
   | Some ip \<Rightarrow>
     if i_ref (inode_at ip s) < 1 then Inl (Panic ''ilock'')
     else bindE (acquiresleep (InodeLock ip) s) (\<lambda>s.
       if \<not> i_valid (inode_at ip s)
       then bindE (bread (i_dev (inode_at ip s)) (IBLOCK (i_inum (inode_at ip s)) (sb s)) s) (\<lambda>(bp, s).
         let s = upd_inode ip (get_dinode (buf_data bp s) (dinode_off (i_inum (inode_at ip s)))) s in
         bindE (brelse bp s) (\<lambda>s.
         let s = upd_inode ip (\<lambda>i. i\<lparr>i_valid := True\<rparr>) s in
         if i_type (inode_at ip s) = 0 then Inl (Panic ''ilock: no type'') else Inr s))
       else Inr s))"

definition iunlock :: "nat option \<Rightarrow> 'a inodes_scheme \<Rightarrow> 'a inodes_scheme result" where
  "iunlock c s = (case c of
     None \<Rightarrow> Inl (Panic ''iunlock'')
   | Some ip \<Rightarrow>
     bindE (holdingsleep (InodeLock ip) s) (\<lambda>h.
     if \<not> h \<or> i_ref (inode_at ip s) < 1 then Inl (Panic ''iunlock'')
     else Inr (releasesleep (InodeLock ip) s)))"

section \<open>Contents of inodes\<close>

definition bmap :: "nat \<Rightarrow> u32 \<Rightarrow> 'a inodes_scheme \<Rightarrow> (u32 \<times> 'a inodes_scheme) result" where
  "bmap ip bn s =
    (let dev = i_dev (inode_at ip s) in
     if unat bn < NDIRECT
     then
       let addr = i_addrs (inode_at ip s) ! unat bn in
       if addr = 0
       then bindE (balloc dev s) (\<lambda>(addr, s).
         Inr (addr, upd_inode ip (\<lambda>i. i\<lparr>i_addrs := (i_addrs i)[unat bn := addr]\<rparr>) s))
       else Inr (addr, s)
     else if unat bn - NDIRECT < NINDIRECT
     then
       let k = unat bn - NDIRECT in
       bindE (if i_addrs (inode_at ip s) ! NDIRECT = 0
              then bindE (balloc dev s) (\<lambda>(addr, s).
                Inr (addr, upd_inode ip (\<lambda>i. i\<lparr>i_addrs := (i_addrs i)[NDIRECT := addr]\<rparr>) s))
              else Inr (i_addrs (inode_at ip s) ! NDIRECT, s)) (\<lambda>(addr, s).
       bindE (bread dev addr s) (\<lambda>(bp, s).
       bindE (if get32 (buf_data bp s) (4 * k) = 0
              then bindE (balloc dev s) (\<lambda>(addr, s).
                bindE (log_write bp (set_data bp (put32 (buf_data bp s) (4 * k) addr) s)) (\<lambda>s.
                Inr (addr, s)))
              else Inr (get32 (buf_data bp s) (4 * k), s)) (\<lambda>(addr, s).
       bindE (brelse bp s) (\<lambda>s. Inr (addr, s)))))
     else Inl (Panic ''bmap: out of range''))"

definition itrunc :: "nat \<Rightarrow> 'a inodes_scheme \<Rightarrow> 'a inodes_scheme result" where
  "itrunc ip s =
    bindE (forE (\<lambda>i s.
      if i_addrs (inode_at ip s) ! i \<noteq> 0
      then bindE (bfree (i_dev (inode_at ip s)) (i_addrs (inode_at ip s) ! i) s) (\<lambda>s.
        Inr (upd_inode ip (\<lambda>n. n\<lparr>i_addrs := (i_addrs n)[i := 0]\<rparr>) s))
      else Inr s) [0..<NDIRECT] s) (\<lambda>s.
    bindE (if i_addrs (inode_at ip s) ! NDIRECT \<noteq> 0
           then bindE (bread (i_dev (inode_at ip s)) (i_addrs (inode_at ip s) ! NDIRECT) s) (\<lambda>(bp, s).
             bindE (forE (\<lambda>j s.
               if get32 (buf_data bp s) (4 * j) \<noteq> 0
               then bfree (i_dev (inode_at ip s)) (get32 (buf_data bp s) (4 * j)) s else Inr s) [0..<NINDIRECT] s) (\<lambda>s.
             bindE (brelse bp s) (\<lambda>s.
             bindE (bfree (i_dev (inode_at ip s)) (i_addrs (inode_at ip s) ! NDIRECT) s) (\<lambda>s.
             Inr (upd_inode ip (\<lambda>n. n\<lparr>i_addrs := (i_addrs n)[NDIRECT := 0]\<rparr>) s)))))
           else Inr s) (\<lambda>s.
    iupdate ip (upd_inode ip (\<lambda>n. n\<lparr>i_size := 0\<rparr>) s)))"

definition iput :: "nat \<Rightarrow> 'a inodes_scheme \<Rightarrow> 'a inodes_scheme result" where
  "iput ip s =
    bindE (acquiresleep (InodeLock ip) s) (\<lambda>s.
    bindE (if i_valid (inode_at ip s) \<and> i_nlink (inode_at ip s) = 0 \<and> i_ref (inode_at ip s) = 1
           then bindE (itrunc ip s) (\<lambda>s.
             bindE (iupdate ip (upd_inode ip (\<lambda>i. i\<lparr>i_type := 0\<rparr>) s)) (\<lambda>s.
             Inr (upd_inode ip (\<lambda>i. i\<lparr>i_valid := False\<rparr>) s)))
           else Inr s) (\<lambda>s.
    Inr (upd_inode ip (\<lambda>i. i\<lparr>i_ref := i_ref i - 1\<rparr>) (releasesleep (InodeLock ip) s))))"

definition iunlockput :: "nat \<Rightarrow> 'a inodes_scheme \<Rightarrow> 'a inodes_scheme result" where
  "iunlockput ip s = bindE (iunlock (Some ip) s) (iput ip)"

definition stati :: "nat \<Rightarrow> 'a inodes_scheme \<Rightarrow> stat" where
  "stati ip s = (let i = inode_at ip s in
     \<lparr>st_type = i_type i, st_dev = i_dev i, st_ino = i_inum i, st_nlink = i_nlink i, st_size = i_size i\<rparr>)"

text \<open>The console as a device file. The first part of a result is what the C function returns.\<close>

definition consoleread :: "nat \<Rightarrow> nat \<Rightarrow> 'a inodes_scheme \<Rightarrow> ((int \<times> u8 list) \<times> 'a inodes_scheme) result" where
  "consoleread ip n s =
    bindE (iunlock (Some ip) s) (\<lambda>s.
    bindE (consoleread_loop n n s) (\<lambda>(r, s).
    bindE (ilock (Some ip) s) (\<lambda>s.
    Inr (case r of None \<Rightarrow> (- 1, []) | Some bs \<Rightarrow> (int (length bs), bs), s))))"

definition consolewrite :: "nat \<Rightarrow> u8 list \<Rightarrow> 'a inodes_scheme \<Rightarrow> (int \<times> 'a inodes_scheme) result" where
  "consolewrite ip bs s =
    bindE (iunlock (Some ip) s) (\<lambda>s.
    bindE (forE (\<lambda>b. consputc (uint b)) bs s) (\<lambda>s.
    bindE (ilock (Some ip) s) (\<lambda>s.
    Inr (int (length bs), s))))"

definition device_of :: "nat \<Rightarrow> 'a inodes_scheme \<Rightarrow> device option" where
  "device_of ip s = (let m = sint (i_major (inode_at ip s)) in
     if m < 0 \<or> NDEV \<le> m then None else devsw s (nat m))"

definition readi_step ::
  "nat \<Rightarrow> u32 \<Rightarrow> u32 \<times> u32 \<times> u8 list \<times> 'a inodes_scheme \<Rightarrow> ('r + u32 \<times> u32 \<times> u8 list \<times> 'a inodes_scheme) result"
where
  "readi_step ip n = (\<lambda>(tot, off, bs, s).
    bindE (bmap ip (off div word_of_nat BSIZE) s) (\<lambda>(addr, s).
    bindE (bread (i_dev (inode_at ip s)) addr s) (\<lambda>(bp, s).
    let o' = off mod word_of_nat BSIZE; m = min (n - tot) (word_of_nat BSIZE - o');
        bs = bs @ slice (buf_data bp s) (unat o') (unat m) in
    bindE (brelse bp s) (\<lambda>s. Inr (Inr (tot + m, off + m, bs, s))))))"

definition readi :: "nat \<Rightarrow> u32 \<Rightarrow> u32 \<Rightarrow> 'a inodes_scheme \<Rightarrow> ((int \<times> u8 list) \<times> 'a inodes_scheme) result" where
  "readi ip off n s =
    (if i_type (inode_at ip s) = T_DEV
     then case device_of ip s of
        None \<Rightarrow> Inr ((- 1, []), s)
      | Some DevConsole \<Rightarrow> consoleread ip (nat (sint n)) s
     else
       let sz = i_size (inode_at ip s) in
       if sz < off \<or> off + n < off then Inr ((- 1, []), s)
       else
         let n = (if sz < off + n then sz - off else n) in
         bindE (loopE (unat n) (\<lambda>(tot, off, bs, s). tot < n) (readi_step ip n) (0, off, [], s)) (\<lambda>x.
         case x of
           Inl r \<Rightarrow> Inr r
         | Inr (_, _, bs, s) \<Rightarrow> Inr ((sint n, bs), s)))"

definition writei_step ::
  "nat \<Rightarrow> u8 list \<Rightarrow> u32 \<Rightarrow> u32 \<times> u32 \<times> 'a inodes_scheme \<Rightarrow> ('r + u32 \<times> u32 \<times> 'a inodes_scheme) result"
where
  "writei_step ip src n = (\<lambda>(tot, off, s).
    bindE (bmap ip (off div word_of_nat BSIZE) s) (\<lambda>(addr, s).
    bindE (bread (i_dev (inode_at ip s)) addr s) (\<lambda>(bp, s).
    let o' = off mod word_of_nat BSIZE; m = min (n - tot) (word_of_nat BSIZE - o') in
    bindE (log_write bp (set_data bp (splice_at (buf_data bp s) (unat o') (slice src (unat tot) (unat m))) s)) (\<lambda>s.
    bindE (brelse bp s) (\<lambda>s. Inr (Inr (tot + m, off + m, s)))))))"

definition writei :: "nat \<Rightarrow> u8 list \<Rightarrow> u32 \<Rightarrow> u32 \<Rightarrow> 'a inodes_scheme \<Rightarrow> (int \<times> 'a inodes_scheme) result" where
  "writei ip src off n s =
    (if i_type (inode_at ip s) = T_DEV
     then case device_of ip s of
        None \<Rightarrow> Inr (- 1, s)
      | Some DevConsole \<Rightarrow> consolewrite ip (take (nat (sint n)) src) s
     else if i_size (inode_at ip s) < off \<or> off + n < off then Inr (- 1, s)
     else if word_of_nat (MAXFILE * BSIZE) < off + n then Inr (- 1, s)
     else
       bindE (loopE (unat n) (\<lambda>(tot, off, s). tot < n) (writei_step ip src n) (0, off, s)) (\<lambda>x.
       case x of
         Inl r \<Rightarrow> Inr r
       | Inr (_, off, s) \<Rightarrow>
         if 0 < n \<and> i_size (inode_at ip s) < off
         then bindE (iupdate ip (upd_inode ip (\<lambda>i. i\<lparr>i_size := off\<rparr>) s)) (\<lambda>s. Inr (sint n, s))
         else Inr (sint n, s)))"

section \<open>Directories\<close>

definition namecmp :: "u8 list \<Rightarrow> u8 list \<Rightarrow> int" where
  "namecmp s t = strncmp (arr s) (arr t) DIRSIZ"

definition DIRENT :: u32 where "DIRENT = 16"

definition de_inum :: "u8 list \<Rightarrow> u16" where
  "de_inum de = get16 de 0"

definition de_name :: "u8 list \<Rightarrow> u8 list" where
  "de_name de = slice de 2 DIRSIZ"

definition mk_dirent :: "u8 list \<Rightarrow> u16 \<Rightarrow> u8 list" where
  "mk_dirent name inum = bytes16 inum @ take DIRSIZ (takeWhile (\<lambda>c. c \<noteq> 0) name @ replicate DIRSIZ 0)"

definition dirlookup :: "nat \<Rightarrow> u8 list \<Rightarrow> 'a inodes_scheme \<Rightarrow> ((nat \<times> u32) option \<times> 'a inodes_scheme) result" where
  "dirlookup dp name s =
    (if i_type (inode_at dp s) \<noteq> T_DIR then Inl (Panic ''dirlookup not DIR'')
     else
       bindE (loopE (Suc (unat (i_size (inode_at dp s)) div 16)) (\<lambda>(off, s). off < i_size (inode_at dp s))
         (\<lambda>(off, s).
           bindE (readi dp off DIRENT s) (\<lambda>((r, de), s).
           if r \<noteq> uint DIRENT then Inl (Panic ''dirlookup read'')
           else if de_inum de = 0 then Inr (Inr (off + DIRENT, s))
           else if namecmp name (de_name de) = 0
           then bindE (iget (i_dev (inode_at dp s)) (ucast (de_inum de)) s) (\<lambda>(ip, s). Inr (Inl (Some (ip, off), s)))
           else Inr (Inr (off + DIRENT, s)))) (0, s)) (\<lambda>x.
       case x of Inl r \<Rightarrow> Inr r | Inr (_, s) \<Rightarrow> Inr (None, s)))"

definition dirlink :: "nat \<Rightarrow> u8 list \<Rightarrow> u32 \<Rightarrow> 'a inodes_scheme \<Rightarrow> (int \<times> 'a inodes_scheme) result" where
  "dirlink dp name inum s =
    bindE (dirlookup dp name s) (\<lambda>(r, s). case r of
      Some (ip, _) \<Rightarrow> bindE (iput ip s) (\<lambda>s. Inr (- 1, s))
    | None \<Rightarrow>
      bindE (loopE (Suc (unat (i_size (inode_at dp s)) div 16)) (\<lambda>(off, s). off < i_size (inode_at dp s))
        (\<lambda>(off, s).
          bindE (readi dp off DIRENT s) (\<lambda>((r, de), s).
          if r \<noteq> uint DIRENT then Inl (Panic ''dirlink read'')
          else if de_inum de = 0 then Inr (Inl (off, s))
          else Inr (Inr (off + DIRENT, s)))) (0, s)) (\<lambda>x.
      case (case x of Inl r \<Rightarrow> r | Inr r \<Rightarrow> r) of (off, s) \<Rightarrow>
      bindE (writei dp (mk_dirent name (ucast inum)) off DIRENT s) (\<lambda>(r, s).
      if r \<noteq> uint DIRENT then Inl (Panic ''dirlink'') else Inr (0, s))))"

section \<open>Path names\<close>

abbreviation slash :: u8 where "slash \<equiv> 47"

definition skipelem :: "u8 list \<Rightarrow> (u8 list \<times> u8 list) option" where
  "skipelem path =
    (let path = dropWhile (\<lambda>c. c = slash) path in
     if path = [] then None
     else
       let s = takeWhile (\<lambda>c. c \<noteq> slash) path; path = dropWhile (\<lambda>c. c \<noteq> slash) path;
           name = (if DIRSIZ \<le> length s then take DIRSIZ s else s) in
       Some (name, dropWhile (\<lambda>c. c = slash) path))"

fun namex_loop ::
  "nat \<Rightarrow> bool \<Rightarrow> nat \<Rightarrow> u8 list \<Rightarrow> u8 list \<Rightarrow> 'a inodes_scheme \<Rightarrow> ((nat \<times> u8 list) option \<times> 'a inodes_scheme) result"
where
  "namex_loop 0 parent ip path name s = Inl Diverges"
| "namex_loop (Suc k) parent ip path name s =
    (case skipelem path of
       None \<Rightarrow>
         if parent then bindE (iput ip s) (\<lambda>s. Inr (None, s)) else Inr (Some (ip, name), s)
     | Some (name, path) \<Rightarrow>
         bindE (ilock (Some ip) s) (\<lambda>s.
         if i_type (inode_at ip s) \<noteq> T_DIR then bindE (iunlockput ip s) (\<lambda>s. Inr (None, s))
         else if parent \<and> path = [] then bindE (iunlock (Some ip) s) (\<lambda>s. Inr (Some (ip, name), s))
         else bindE (dirlookup ip name s) (\<lambda>(r, s).
           bindE (iunlockput ip s) (\<lambda>s.
           case r of None \<Rightarrow> Inr (None, s) | Some (next, _) \<Rightarrow> namex_loop k parent next path name s))))"

definition namex :: "u8 list \<Rightarrow> bool \<Rightarrow> 'a inodes_scheme \<Rightarrow> ((nat \<times> u8 list) option \<times> 'a inodes_scheme) result" where
  "namex path parent s =
    bindE (if path \<noteq> [] \<and> hd path = slash then iget ROOTDEV ROOTINO s
           else case curproc s of None \<Rightarrow> Inl BadAccess | Some j \<Rightarrow> idup (p_cwd (ptable s ! j)) s) (\<lambda>(ip, s).
    namex_loop (Suc (length path)) parent ip path [] s)"

definition namei :: "u8 list \<Rightarrow> 'a inodes_scheme \<Rightarrow> (nat option \<times> 'a inodes_scheme) result" where
  "namei path s = bindE (namex path False s) (\<lambda>(r, s). Inr (map_option fst r, s))"

definition nameiparent :: "u8 list \<Rightarrow> 'a inodes_scheme \<Rightarrow> ((nat \<times> u8 list) option \<times> 'a inodes_scheme) result" where
  "nameiparent path s = namex path True s"

end
