(* ===== verification/Txn.thy ===== *)
theory Txn
  imports Fs
begin

unbundle bit_operations_syntax

text \<open>
  Blocks inside a transaction: what the file system relies on of the log and the buffer cache.
  \<open>in_txn k\<close> holds between the block operations of a transaction that may still log \<open>k\<close> blocks;
  \<open>txn_read\<close> and \<open>txn_write\<close> are the two ways in which fs.c uses a block. The theory ends with a
  small file system on a concrete disk, the state of the examples.
\<close>

section \<open>Blocks inside a transaction\<close>

text \<open>
  The state between two operations of a transaction that may still log \<open>k\<close> more blocks, and what all
  operations on blocks leave alone.
\<close>

definition in_txn :: "nat \<Rightarrow> 'a logs_scheme \<Rightarrow> bool" where
  "in_txn k s \<longleftrightarrow> log_inv s \<and> buf_hold s = Map.empty \<and> 1 \<le> log_outstanding s
     \<and> lh_n s + int k \<le> log_size s - 1 \<and> log_size s \<le> int LOGSIZE"

definition fs_frame :: "'a logs_scheme \<Rightarrow> 'a logs_scheme \<Rightarrow> bool" where
  "fs_frame s t \<longleftrightarrow> logs.more t = logs.more s \<and> curproc t = curproc s \<and> map p_pid (ptable t) = map p_pid (ptable s)
     \<and> (\<forall>k. slocks t (InodeLock k) = slocks s (InodeLock k)) \<and> log_region t = log_region s"

lemma fs_frame_refl [simp]: "fs_frame s s"
  by (simp add: fs_frame_def)

lemma fs_frame_trans: "fs_frame s t \<Longrightarrow> fs_frame t u \<Longrightarrow> fs_frame s u"
  by (simp add: fs_frame_def)

lemma bio_frame_fs: "bio_frame s t \<Longrightarrow> fs_frame s t"
  using log_fields(8) [of s t] log_frame_sel(3) [of s t] by (simp add: fs_frame_def bio_frame_def)

lemma fs_frame_sel:
  fixes s t :: "'a inodes_scheme"
  assumes "fs_frame s t"
  shows "sb t = sb s" "icache t = icache s" "in_r t = in_r s" "inodes.more t = inodes.more s"
  using assms by (cases s; cases t; simp add: fs_frame_def)+

lemma in_txn_mono: "in_txn k s \<Longrightarrow> j \<le> k \<Longrightarrow> in_txn j s"
  by (simp add: in_txn_def)

lemma in_txn_room:
  assumes "in_txn k s"
  shows "card (dirty s) + k < NBUF" "lh_n s < int NBUF"
proof -
  have g: "dirty s = set (log_blocks s)" "log_geom s" using assms by (simp_all add: in_txn_def log_inv_def)
  have "length (log_blocks s) \<le> nat (lh_n s)" by (simp add: log_blocks_def)
  then have "card (dirty s) \<le> nat (lh_n s)" using card_length [of "log_blocks s"] g(1) by simp
  moreover have "lh_n s + int k \<le> 29" "0 \<le> lh_n s" using assms g(2) by (simp_all add: in_txn_def LOGSIZE_def log_geom_def)
  ultimately show "card (dirty s) + k < NBUF" "lh_n s < int NBUF" by (simp_all add: NBUF_def)
qed

text \<open>States with the same log, and the same blocks on disk and pinned in the cache.\<close>

definition log_same :: "'a logs_scheme \<Rightarrow> 'a logs_scheme \<Rightarrow> bool" where
  "log_same s t \<longleftrightarrow> log_start t = log_start s \<and> log_size t = log_size s \<and> log_outstanding t = log_outstanding s
     \<and> log_dev t = log_dev s \<and> lh_n t = lh_n s \<and> lh_block t = lh_block s \<and> dirty t = dirty s \<and> disk t 1 = disk s 1"

lemma log_same_trans: "log_same s t \<Longrightarrow> log_same t u \<Longrightarrow> log_same s u"
  by (simp add: log_same_def)

lemma log_same_frame: "bio_frame s t \<Longrightarrow> dirty t = dirty s \<Longrightarrow> disk t 1 = disk s 1 \<Longrightarrow> log_same s t"
  by (simp add: log_same_def log_fields)

lemma log_sameD:
  assumes "log_same s t"
  shows "log_region t = log_region s" "in_txn k s \<Longrightarrow> cache_inv t \<Longrightarrow> buf_hold t = Map.empty \<Longrightarrow> in_txn k t"
proof -
  have l: "log_blocks t = log_blocks s" "loghdr t = loghdr s" "logblk t = logblk s" "log_geom t = log_geom s"
    using assms by (simp_all add: log_same_def log_blocks_def loghdr_def logblk_def log_geom_def fun_eq_iff)
  then show r: "log_region t = log_region s" using assms by (simp add: log_same_def log_region_def log_cap_def)
  have "log_homes t = log_homes s" using l r by (simp add: log_homes_def)
  then show "in_txn k s \<Longrightarrow> cache_inv t \<Longrightarrow> buf_hold t = Map.empty \<Longrightarrow> in_txn k t"
    using assms l by (simp add: log_same_def in_txn_def log_inv_def)
qed

text \<open>The locks and the cache of the inodes do not matter for the blocks.\<close>

lemma cache_inert:
  fixes s t :: "'a bcache_scheme"
  assumes "bufs t = bufs s" "lru t = lru s" "idequeue t = idequeue s" "disk t = disk s" "disk_ok t = disk_ok s"
    "\<And>b. slocks t (BufLock b) = slocks s (BufLock b)" "curproc t = curproc s" "map p_pid (ptable t) = map p_pid (ptable s)"
  shows "cache_inv t = cache_inv s" "buf_hold t = buf_hold s" "blk t = blk s" "dirty t = dirty s"
proof -
  have l: "length (ptable t) = length (ptable s)" using assms(8) map_eq_imp_length_eq by blast
  have c: "caches t = caches s" using assms(1) by (simp add: caches_def fun_eq_iff)
  show "buf_hold t = buf_hold s" using assms(1,6) by (simp add: buf_hold_def fun_eq_iff)
  show "blk t = blk s" "dirty t = dirty s" using assms(1,4) c by (simp_all add: blk_def dirty_def fun_eq_iff split: option.split)
  have b: "buf_ok t = buf_ok s" using assms(1,4,6) by (simp add: buf_ok_def fun_eq_iff)
  have "owns b t = owns b s" if r: "proc_running s" for b
  proof -
    obtain j where j: "curproc s = Some j" "j < length (ptable s)" using r by (auto simp: proc_running_def)
    then have "p_pid (ptable t ! j) = p_pid (ptable s ! j)" using assms(8) l by (metis nth_map)
    then show ?thesis using j assms(6,7) by (simp add: owns_def curpid_def)
  qed
  then show "cache_inv t = cache_inv s" using assms l b by (auto simp: cache_inv_def bio_inv_def proc_running_def)
qed

definition inert :: "'a logs_scheme \<Rightarrow> 'a logs_scheme \<Rightarrow> bool" where
  "inert s t \<longleftrightarrow> bufs t = bufs s \<and> lru t = lru s \<and> idequeue t = idequeue s \<and> disk t = disk s \<and> disk_ok t = disk_ok s
     \<and> (\<forall>b. slocks t (BufLock b) = slocks s (BufLock b)) \<and> curproc t = curproc s \<and> map p_pid (ptable t) = map p_pid (ptable s)
     \<and> log_start t = log_start s \<and> log_size t = log_size s \<and> log_outstanding t = log_outstanding s \<and> log_dev t = log_dev s
     \<and> lh_n t = lh_n s \<and> lh_block t = lh_block s"

lemma inertD:
  assumes "inert s t"
  shows "cache_inv t = cache_inv s" "buf_hold t = buf_hold s" "blk t = blk s" "log_same s t" "log_region t = log_region s"
    "in_txn k s \<Longrightarrow> in_txn k t" "curproc t = curproc s" "map p_pid (ptable t) = map p_pid (ptable s)"
proof -
  have c: "cache_inv t = cache_inv s" "buf_hold t = buf_hold s" "blk t = blk s" "dirty t = dirty s"
    by (rule cache_inert; use assms in \<open>simp add: inert_def\<close>)+
  then show "cache_inv t = cache_inv s" "buf_hold t = buf_hold s" "blk t = blk s" by simp_all
  show l: "log_same s t" using assms c(4) by (simp add: inert_def log_same_def)
  then show "log_region t = log_region s" by (rule log_sameD)
  show "in_txn k s \<Longrightarrow> in_txn k t" using log_sameD(2) [OF l, of k] c by (simp add: in_txn_def log_inv_def)
  show "curproc t = curproc s" "map p_pid (ptable t) = map p_pid (ptable s)" using assms by (simp_all add: inert_def)
qed

lemma inert_ops:
  "inert s (upd_inode ip f s)" "inert s (s\<lparr>icache := ic\<rparr>)" "inert s (upd_slock (InodeLock i) g s)" "inert s (wakeup1 c s)"
  by (simp_all add: inert_def upd_inode_def upd_slock_def wakeup1_def disk_ok_def curproc_def cur_def split: option.split)

lemma inert_refl [simp]: "inert s s"
  by (simp add: inert_def)

lemma inert_trans: "inert s t \<Longrightarrow> inert t u \<Longrightarrow> inert s u"
  by (simp add: inert_def)

lemma inert_releasesleep:
  fixes s :: "'a inodes_scheme"
  shows "inert s (releasesleep (InodeLock i) s)"
  unfolding releasesleep_def by (rule inert_trans [OF inert_ops(3) inert_ops(4)])

lemma txn_read:
  assumes "in_txn k s" "n < FSSIZE"
  shows "\<exists>b t. bread 1 n s = Inr (b, t) \<and> buf_data b t = blk s n \<and> fs_frame s t
    \<and> (\<forall>t'. inert t t' \<longrightarrow> (\<exists>u. brelse b t' = Inr u \<and> in_txn k u \<and> blk u = blk s \<and> fs_frame t' u))"
proof -
  have c: "cache_inv s" "buf_hold s = Map.empty" using assms(1) by (simp_all add: in_txn_def log_inv_def)
  have "card (dirty s) < NBUF" using in_txn_room [OF assms(1)] by simp
  then obtain b t where t: "bread 1 n s = Inr (b, t)" "cache_inv t" "buf_hold t = [b \<mapsto> n]" "blk t = blk s"
    "disk t 1 = disk s 1" "dirty t = dirty s" "bio_frame s t"
    using bc.rd_law [OF c(1) assms(2)] c(2) by auto
  have d: "n \<in> dirty s \<or> blk s n = disk s 1 n" using bc.clean [OF c(1), of n] c(2) by auto
  have "\<exists>u. brelse b t' = Inr u \<and> in_txn k u \<and> blk u = blk s \<and> fs_frame t' u" if "inert t t'" for t'
  proof -
    note i = inertD [OF that]
    have l: "log_same s t'" using log_same_trans [OF log_same_frame [OF t(7,6,5)] i(4)] .
    obtain u where u: "brelse b t' = Inr u" "cache_inv u" "buf_hold u = Map.empty" "blk u = blk s" "disk u 1 = disk t' 1"
      "dirty u = dirty t'" "bio_frame t' u"
      using bc.rl_law [of t' b n] i t d l by (auto simp: log_same_def)
    have "in_txn k u" using log_sameD(2) [OF log_same_trans [OF l log_same_frame [OF u(7,6,5)]] assms(1) u(2,3)] .
    then show ?thesis using u bio_frame_fs [OF u(7)] by blast
  qed
  then show ?thesis using t(1) bc.data [OF t(2), of b n] t(3,4) bio_frame_fs [OF t(7)] by auto
qed

lemma log_record_fs: "fs_frame s (log_record n s)"
  by (auto simp: log_record_def fs_frame_def log_region_def log_cap_def loghdr_def logblk_def curproc_def cur_def
      split: option.split)

lemma log_write_frame:
  assumes "log_write b s = Inr t" "cache_inv s" "buf_hold s b = Some n"
  shows "fs_frame s t"
proof -
  have "t = set_dirty b (log_record n s)"
    using assms(1) buf_holdD(4) [OF assms(2,3)] by (auto simp: log_write_eq split: if_splits)
  moreover have "bio_frame (log_record n s) (set_dirty b (log_record n s))"
    using bc.pin_law [of "log_record n s" b n] assms(2,3) by (auto simp: log_record_frame)
  ultimately show ?thesis using fs_frame_trans [OF _ bio_frame_fs] log_record_fs by blast
qed

lemma txn_write:
  assumes "in_txn (Suc k) s" "n < FSSIZE" "n \<notin> log_region s"
  shows "\<exists>b t. bread 1 n s = Inr (b, t) \<and> buf_data b t = blk s n \<and> fs_frame s t
    \<and> (\<forall>d. length d = BSIZE \<longrightarrow> (\<exists>u v. log_write b (set_data b d t) = Inr u \<and> brelse b u = Inr v \<and> in_txn k v
         \<and> blk v = (blk s)(n := d) \<and> fs_frame s v))"
proof -
  have i: "log_inv s" "buf_hold s = Map.empty" "1 \<le> log_outstanding s" "lh_n s + 1 + int k \<le> log_size s - 1" "log_size s \<le> int LOGSIZE"
    using assms(1) by (simp_all add: in_txn_def)
  then have c: "cache_inv s" by (simp add: log_inv_def)
  obtain b t where t: "bread 1 n s = Inr (b, t)" "cache_inv t" "buf_hold t = [b \<mapsto> n]" "blk t = blk s"
    "disk t 1 = disk s 1" "dirty t = dirty s" "bio_frame s t"
    using bc.rd_law [OF c assms(2)] i(2) in_txn_room(1) [OF assms(1)] by auto
  note f = log_fields [OF t(7)] log_frame_sel [OF t(7)]
  have "\<exists>u v. log_write b (set_data b d t) = Inr u \<and> brelse b u = Inr v \<and> in_txn k v
         \<and> blk v = (blk s)(n := d) \<and> fs_frame s v" if d: "length d = BSIZE" for d
  proof -
    let ?t = "set_data b d t"
    have s: "cache_inv ?t" "buf_hold ?t = [b \<mapsto> n]" "blk ?t = (blk s)(n := d)" "disk ?t 1 = disk s 1" "dirty ?t = dirty s"
      "bio_frame t ?t" using bc.setd_law [OF t(2) _ d, of b n] t by auto
    note g = log_fields [OF s(6)] log_frame_sel [OF s(6)]
    have "loghdr s \<noteq> n" using assms(3) by (auto simp: log_region_def)
    then have li: "log_inv ?t" using i(1,2) s f g by (simp add: log_inv_def)
    have r: "n \<notin> log_region ?t" "lh_n ?t < int LOGSIZE" "lh_n ?t < log_size ?t - 1" "1 \<le> log_outstanding ?t"
      using assms(3) i(3-5) f g by simp_all
    obtain u where u: "log_write b ?t = Inr u" "log_inv u" "buf_hold u = buf_hold ?t" "blk u = blk ?t" "log_outstanding u = log_outstanding ?t"
      "log_size u = log_size ?t" "lh_n u \<le> lh_n ?t + 1" "n \<in> dirty u" "disk u 1 = disk ?t 1"
      using log_write_spec [OF li _ r, of b] s(2) by (auto simp: log_inv_def split: if_splits)
    have fu: "fs_frame s u"
      using fs_frame_trans [OF fs_frame_trans [OF bio_frame_fs [OF t(7)] bio_frame_fs [OF s(6)]] log_write_frame [OF u(1) s(1)]]
        s(2) by simp
    obtain v where v: "brelse b u = Inr v" "cache_inv v" "buf_hold v = Map.empty" "blk v = blk u" "disk v 1 = disk u 1"
      "dirty v = dirty u" "bio_frame u v"
      using bc.rl_law [of u b n] u s(2) by (auto simp: log_inv_def)
    have "log_inv v" using u(2) v log_fields [OF v(7)] log_frame_sel [OF v(7)] by (simp add: log_inv_def)
    then have "in_txn k v" using i(3-5) u v(3) f g log_fields [OF v(7)] by (simp add: in_txn_def)
    then show ?thesis using u(1,4) v(1,4) s(3) fs_frame_trans [OF fu bio_frame_fs [OF v(7)]] by auto
  qed
  then show ?thesis using t(1) bc.data [OF t(2), of b n] t(3,4) bio_frame_fs [OF t(7)] by auto
qed

section \<open>A concrete file system state\<close>

definition sb_ex :: superblock where
  "sb_ex = \<lparr>sb_size = 1000, sb_nblocks = 941, sb_ninodes = 200, sb_nlog = 30, sb_logstart = 2, sb_inodestart = 32,
     sb_bmapstart = 58\<rparr>"

definition inodes_ex :: "(u32 \<Rightarrow> u8 list) \<Rightarrow> inode list \<Rightarrow> inodes" where
  "inodes_ex d ic = cons.extend (logs.extend (logs_ex d) (cons.fields False True [] (\<lambda>_. 0) 0 (replicate INPUT_BUF 0) 0 0 0
     (\<lambda>_. None))) (inodes.fields sb_ex ic)"

lemma inodes_ex_sel: "sb (inodes_ex d ic) = sb_ex" "icache (inodes_ex d ic) = ic"
  by (simp_all add: inodes_ex_def cons.defs inodes.defs)

definition bitmap_ex :: "u8 list" where
  "bitmap_ex = replicate 7 255 @ [7] @ replicate 504 0"

definition disk_ex :: "u32 \<Rightarrow> u8 list" where
  "disk_ex n = (if n = 58 then bitmap_ex else replicate BSIZE 0)"

definition inode_ex :: inode where
  "inode_ex = \<lparr>i_dev = 1, i_inum = 1, i_ref = 1, i_valid = True, i_type = T_FILE, i_major = 0, i_minor = 0, i_nlink = 1,
     i_size = 0, i_addrs = replicate 13 0\<rparr>"

lemma disk_ex_length: "length (disk_ex n) = BSIZE"
  by (simp add: disk_ex_def bitmap_ex_def BSIZE_def)

lemma inodes_ex_txn:
  assumes "k \<le> 29"
  shows "in_txn k (inodes_ex disk_ex ic)" "blk (inodes_ex disk_ex ic) = disk_ex" "log_region (inodes_ex disk_ex ic) = log_region (logs_ex disk_ex)"
    "slocks (inodes_ex disk_ex ic) = slocks (logs_ex disk_ex)"
proof -
  let ?l = "logs_ex disk_ex" let ?s = "inodes_ex disk_ex ic"
  have cp: "curproc ?s = curproc ?l" by (simp add: inodes_ex_def cons.defs inodes.defs logs.defs curproc_def cur_def split: option.split)
  have c: "cache_inv ?s = cache_inv ?l" "buf_hold ?s = buf_hold ?l" "blk ?s = blk ?l" "dirty ?s = dirty ?l"
    by (rule cache_cong; (rule cp | simp add: inodes_ex_def cons.defs inodes.defs logs.defs disk_ok_def))+
  have f: "log_start ?s = 2" "log_size ?s = 30" "log_outstanding ?s = 1" "log_dev ?s = 1" "lh_n ?s = 0" "lh_block ?s = replicate LOGSIZE 0"
    "disk ?s 1 = disk_ex" "slocks ?s = slocks ?l"
    using logs_ex_sel [of disk_ex] by (simp_all add: inodes_ex_def cons.defs inodes.defs logs.defs)
  note l = logs_ex_cache [OF disk_ex_length]
  show "blk ?s = disk_ex" "slocks ?s = slocks ?l" using c l f by simp_all
  show "log_region ?s = log_region ?l"
    using f by (simp add: log_region_def log_cap_def loghdr_def logblk_def logs_ex_sel)
  have "head_n (disk_ex 2) = 0" by (simp add: disk_ex_def head_n_def get32_def slice_def BSIZE_def word32_def)
  then have "log_inv ?s"
    using c l f by (simp add: log_inv_def log_geom_def log_homes_def log_blocks_def LOGSIZE_def loghdr_def)
  then show "in_txn k ?s" using assms c l f by (simp add: in_txn_def LOGSIZE_def)
qed

lemma log_region_ex: "b \<in> log_region (logs_ex d) \<Longrightarrow> 2 \<le> unat b \<and> unat b < 32"
proof -
  assume "b \<in> log_region (logs_ex d)"
  moreover have "unat (logblk (logs_ex d) i) = i + 3" if "i < 29" for i
    using that uint_word_of_int [of "2 + int i + 1", where 'a = 32] by (simp add: logblk_def logs_ex_sel unat_eq_nat_uint)
  ultimately show ?thesis by (auto simp: log_region_def log_cap_def loghdr_def logs_ex_sel)
qed

lemma unlocked_ex: "\<not> sl_locked (slocks (logs_ex d) (InodeLock j))"
proof -
  have "slocks (fold (\<lambda>b s. (initsleeplock (BufLock b) ''buffer'' s)\<lparr>lru := b # lru s\<rparr>) xs s) (InodeLock j) = slocks s (InodeLock j)"
    for xs and s :: bcache
    by (induction xs arbitrary: s) (simp_all add: initsleeplock_def upd_slock_def initlock_def upd_lock_def)
  then have "slocks (logs_ex d) (InodeLock j) = slocks (bcache_ex (\<lambda>_. d)) (InodeLock j)"
    by (simp add: logs_ex_def bcache.defs binit_def initlock_def upd_lock_def)
  then show ?thesis by (simp add: bcache_ex_def disks_ex_def disks.defs bcache.defs)
qed

end
