(* ===== verification/File.thy ===== *)
theory File
  imports Txn Ring
begin

unbundle bit_operations_syntax

text \<open>
  Open files (file.c) and pipes (pipe.c). A \<open>struct pipe *\<close> is the address of the page that holds
  the pipe; the pipe itself is kept in \<open>pipes\<close>. The data that a call reads or writes is passed as a
  list of bytes. A call that has to wait for the other end of a pipe is \<open>Blocks\<close>; for pipewrite,
  \<open>pipewrite_loop\<close> also says how far it has come when it goes to sleep.
\<close>

section \<open>Data\<close>

definition NFILE :: nat where "NFILE = 100"
definition PIPESIZE :: nat where "PIPESIZE = 512"

datatype fdtype = FD_NONE | FD_PIPE | FD_INODE

record openfile =
  f_type :: fdtype
  f_ref :: int
  f_readable :: bool
  f_writable :: bool
  f_pipe :: u32
  f_ip :: "nat option"
  f_off :: u32

record pipe =
  pi_data :: "u8 list"
  pi_nread :: u32
  pi_nwrite :: u32
  pi_readopen :: bool
  pi_writeopen :: bool

record files = inodes +
  ftable :: "openfile list"
  pipes :: "u32 \<Rightarrow> pipe"

definition upd_file :: "nat \<Rightarrow> (openfile \<Rightarrow> openfile) \<Rightarrow> 'a files_scheme \<Rightarrow> 'a files_scheme" where
  "upd_file f g s = s\<lparr>ftable := (ftable s)[f := g (ftable s ! f)]\<rparr>"

definition upd_pipe :: "u32 \<Rightarrow> (pipe \<Rightarrow> pipe) \<Rightarrow> 'a files_scheme \<Rightarrow> 'a files_scheme" where
  "upd_pipe p g s = s\<lparr>pipes := (pipes s)(p := g (pipes s p))\<rparr>"

abbreviation file_at :: "nat \<Rightarrow> 'a files_scheme \<Rightarrow> openfile" where
  "file_at f s \<equiv> ftable s ! f"

definition killed :: "'a procs_scheme \<Rightarrow> bool result" where
  "killed s = (case curproc s of None \<Rightarrow> Inl BadAccess | Some j \<Rightarrow> Inr (p_killed (ptable s ! j)))"

section \<open>Pipes\<close>

definition pipeclose :: "u32 \<Rightarrow> bool \<Rightarrow> 'a files_scheme \<Rightarrow> 'a files_scheme result" where
  "pipeclose p writable s =
    (let s = (if writable then wakeup1 (Some (ChPipeRead p)) (upd_pipe p (\<lambda>x. x\<lparr>pi_writeopen := False\<rparr>) s)
              else wakeup1 (Some (ChPipeWrite p)) (upd_pipe p (\<lambda>x. x\<lparr>pi_readopen := False\<rparr>) s)) in
     if \<not> pi_readopen (pipes s p) \<and> \<not> pi_writeopen (pipes s p) then kfree p s else Inr s)"

definition pipe_full :: "pipe \<Rightarrow> bool" where
  "pipe_full x \<longleftrightarrow> pi_nwrite x = pi_nread x + word_of_nat PIPESIZE"

definition pipe_push :: "u8 \<Rightarrow> pipe \<Rightarrow> pipe" where
  "pipe_push b x = x\<lparr>pi_data := (pi_data x)[unat (pi_nwrite x) mod PIPESIZE := b], pi_nwrite := pi_nwrite x + 1\<rparr>"

text \<open>The loop of pipewrite stops because all is written, because of an error, or to sleep.\<close>

datatype pipe_stop = PipeDone | PipeError | PipeSleep

fun pipewrite_loop :: "u32 \<Rightarrow> u8 list \<Rightarrow> 'a files_scheme \<Rightarrow> (pipe_stop \<times> u8 list \<times> 'a files_scheme) result" where
  "pipewrite_loop p [] s = Inr (PipeDone, [], s)"
| "pipewrite_loop p (b # bs) s =
    (if pipe_full (pipes s p)
     then bindE (killed s) (\<lambda>k.
       if \<not> pi_readopen (pipes s p) \<or> k then Inr (PipeError, b # bs, s)
       else Inr (PipeSleep, b # bs, wakeup1 (Some (ChPipeRead p)) s))
     else pipewrite_loop p bs (upd_pipe p (pipe_push b) s))"

definition pipewrite :: "u32 \<Rightarrow> u8 list \<Rightarrow> 'a files_scheme \<Rightarrow> (int \<times> 'a files_scheme) result" where
  "pipewrite p bs s =
    bindE (pipewrite_loop p bs s) (\<lambda>(st, rest, s). case st of
      PipeDone \<Rightarrow> Inr (int (length bs), wakeup1 (Some (ChPipeRead p)) s)
    | PipeError \<Rightarrow> Inr (- 1, s)
    | PipeSleep \<Rightarrow> Inl (Blocks (ChPipeWrite p)))"

fun piperead_loop :: "nat \<Rightarrow> pipe \<Rightarrow> u8 list \<times> pipe" where
  "piperead_loop 0 x = ([], x)"
| "piperead_loop (Suc n) x =
    (if pi_nread x = pi_nwrite x then ([], x)
     else
       let b = pi_data x ! (unat (pi_nread x) mod PIPESIZE);
           (bs, x) = piperead_loop n (x\<lparr>pi_nread := pi_nread x + 1\<rparr>) in
       (b # bs, x))"

definition piperead :: "u32 \<Rightarrow> nat \<Rightarrow> 'a files_scheme \<Rightarrow> ((int \<times> u8 list) \<times> 'a files_scheme) result" where
  "piperead p n s =
    (if pi_nread (pipes s p) = pi_nwrite (pipes s p) \<and> pi_writeopen (pipes s p)
     then bindE (killed s) (\<lambda>k. if k then Inr ((- 1, []), s) else Inl (Blocks (ChPipeRead p)))
     else
       let (bs, x) = piperead_loop n (pipes s p) in
       Inr ((int (length bs), bs), wakeup1 (Some (ChPipeWrite p)) (upd_pipe p (\<lambda>_. x) s)))"

section \<open>Files\<close>

definition fileinit :: "'a files_scheme \<Rightarrow> 'a files_scheme" where
  "fileinit s = initlock FtableLock ''ftable'' s"

definition filealloc :: "'a files_scheme \<Rightarrow> nat option \<times> 'a files_scheme" where
  "filealloc s = (case scan (\<lambda>f. f_ref f = 0) (ftable s) of
     None \<Rightarrow> (None, s)
   | Some f \<Rightarrow> (Some f, upd_file f (\<lambda>x. x\<lparr>f_ref := 1\<rparr>) s))"

definition filedup :: "nat \<Rightarrow> 'a files_scheme \<Rightarrow> 'a files_scheme result" where
  "filedup f s =
    (if f_ref (file_at f s) < 1 then Inl (Panic ''filedup'')
     else Inr (upd_file f (\<lambda>x. x\<lparr>f_ref := f_ref x + 1\<rparr>) s))"

definition fileclose :: "nat \<Rightarrow> 'a files_scheme \<Rightarrow> 'a files_scheme result" where
  "fileclose f s =
    (if f_ref (file_at f s) < 1 then Inl (Panic ''fileclose'')
     else
       let s = upd_file f (\<lambda>x. x\<lparr>f_ref := f_ref x - 1\<rparr>) s in
       if f_ref (file_at f s) > 0 then Inr s
       else
         let ff = file_at f s; s = upd_file f (\<lambda>x. x\<lparr>f_ref := 0, f_type := FD_NONE\<rparr>) s in
         case f_type ff of
           FD_PIPE \<Rightarrow> pipeclose (f_pipe ff) (f_writable ff) s
         | FD_INODE \<Rightarrow>
             bindE (begin_op s) (\<lambda>s.
             bindE (case f_ip ff of None \<Rightarrow> Inl BadAccess | Some ip \<Rightarrow> iput ip s) end_op)
         | FD_NONE \<Rightarrow> Inr s)"

definition pipe0 :: pipe where
  "pipe0 = \<lparr>pi_data = replicate PIPESIZE 0, pi_nread = 0, pi_nwrite = 0, pi_readopen = True, pi_writeopen = True\<rparr>"

text \<open>The pipe is in a fresh page, whose bytes kalloc leaves as they are.\<close>

definition pipealloc :: "'a files_scheme \<Rightarrow> ((nat \<times> nat) option \<times> 'a files_scheme) result" where
  "pipealloc s =
    (case filealloc s of
       (None, s) \<Rightarrow> Inr (None, s)
     | (Some f0, s) \<Rightarrow>
       (case filealloc s of
          (None, s) \<Rightarrow> bindE (fileclose f0 s) (\<lambda>s. Inr (None, s))
        | (Some f1, s) \<Rightarrow>
          bindE (kalloc s) (\<lambda>(p, s).
          if p = 0
          then bindE (fileclose f0 s) (\<lambda>s. bindE (fileclose f1 s) (\<lambda>s. Inr (None, s)))
          else
            let s = upd_pipe p (\<lambda>x. x\<lparr>pi_readopen := True, pi_writeopen := True, pi_nwrite := 0, pi_nread := 0\<rparr>) s;
                s = initlock (PipeLock p) ''pipe'' s;
                s = upd_file f0 (\<lambda>x. x\<lparr>f_type := FD_PIPE, f_readable := True, f_writable := False, f_pipe := p\<rparr>) s;
                s = upd_file f1 (\<lambda>x. x\<lparr>f_type := FD_PIPE, f_readable := False, f_writable := True, f_pipe := p\<rparr>) s in
            Inr (Some (f0, f1), s))))"

definition filestat :: "nat \<Rightarrow> 'a files_scheme \<Rightarrow> (stat option \<times> 'a files_scheme) result" where
  "filestat f s =
    (if f_type (file_at f s) = FD_INODE
     then bindE (ilock (f_ip (file_at f s)) s) (\<lambda>s.
       case f_ip (file_at f s) of
         None \<Rightarrow> Inl BadAccess
       | Some ip \<Rightarrow> let st = stati ip s in bindE (iunlock (Some ip) s) (\<lambda>s. Inr (Some st, s)))
     else Inr (None, s))"

definition fileread :: "nat \<Rightarrow> int \<Rightarrow> 'a files_scheme \<Rightarrow> ((int \<times> u8 list) \<times> 'a files_scheme) result" where
  "fileread f n s =
    (let x = file_at f s in
     if \<not> f_readable x then Inr ((- 1, []), s)
     else case f_type x of
       FD_PIPE \<Rightarrow> piperead (f_pipe x) (nat n) s
     | FD_INODE \<Rightarrow>
         bindE (ilock (f_ip x) s) (\<lambda>s.
         case f_ip x of
           None \<Rightarrow> Inl BadAccess
         | Some ip \<Rightarrow>
           bindE (readi ip (f_off (file_at f s)) (word_of_int n) s) (\<lambda>((r, bs), s).
           let s = (if r > 0 then upd_file f (\<lambda>x. x\<lparr>f_off := f_off x + word_of_int r\<rparr>) s else s) in
           bindE (iunlock (Some ip) s) (\<lambda>s. Inr ((r, bs), s))))
     | FD_NONE \<Rightarrow> Inl (Panic ''fileread''))"

definition filewrite_max :: int where
  "filewrite_max = ((MAXOPBLOCKS - 1 - 1 - 2) div 2) * 512"

text \<open>One turn of the loop of filewrite with \<open>i\<close> bytes written: \<open>Inl\<close> is the \<open>break\<close>.\<close>

definition filewrite_step ::
  "nat \<Rightarrow> u8 list \<Rightarrow> int \<Rightarrow> int \<times> 'a files_scheme \<Rightarrow> ((int \<times> 'a files_scheme) + (int \<times> 'a files_scheme)) result"
where
  "filewrite_step f src n = (\<lambda>(i, s).
    let n1 = min (n - i) filewrite_max in
    bindE (begin_op s) (\<lambda>s.
    bindE (ilock (f_ip (file_at f s)) s) (\<lambda>s.
    case f_ip (file_at f s) of
      None \<Rightarrow> Inl BadAccess
    | Some ip \<Rightarrow>
      bindE (writei ip (drop (nat i) src) (f_off (file_at f s)) (word_of_int n1) s) (\<lambda>(r, s).
      let s = (if r > 0 then upd_file f (\<lambda>x. x\<lparr>f_off := f_off x + word_of_int r\<rparr>) s else s) in
      bindE (iunlock (Some ip) s) (\<lambda>s.
      bindE (end_op s) (\<lambda>s.
      if r < 0 then Inr (Inl (i, s))
      else if r \<noteq> n1 then Inl (Panic ''short filewrite'')
      else Inr (Inr (i + r, s))))))))"

definition filewrite :: "nat \<Rightarrow> u8 list \<Rightarrow> int \<Rightarrow> 'a files_scheme \<Rightarrow> (int \<times> 'a files_scheme) result" where
  "filewrite f src n s =
    (let x = file_at f s in
     if \<not> f_writable x then Inr (- 1, s)
     else case f_type x of
       FD_PIPE \<Rightarrow> pipewrite (f_pipe x) (take (nat n) src) s
     | FD_INODE \<Rightarrow>
         bindE (loopE (nat n) (\<lambda>(i, s). i < n) (filewrite_step f src n) (0, s)) (\<lambda>r.
         case (case r of Inl q \<Rightarrow> q | Inr q \<Rightarrow> q) of (i, s) \<Rightarrow> Inr (if i = n then n else - 1, s))
     | FD_NONE \<Rightarrow> Inl (Panic ''filewrite''))"

section \<open>A pipe is a bounded queue\<close>

interpretation pip: ring_buffer PIPESIZE
  by unfold_locales (simp_all add: PIPESIZE_def)

definition pipe_queue :: "pipe \<Rightarrow> u8 list" where
  "pipe_queue x = ring PIPESIZE (pi_data x) (pi_nread x) (pi_nwrite x)"

definition pipe_ok :: "pipe \<Rightarrow> bool" where
  "pipe_ok x \<longleftrightarrow> length (pi_data x) = PIPESIZE \<and> length (pipe_queue x) \<le> PIPESIZE"

text \<open>How many of \<open>m\<close> bytes there is room for.\<close>

definition pipe_room :: "pipe \<Rightarrow> nat \<Rightarrow> nat" where
  "pipe_room x m = min m (PIPESIZE - length (pipe_queue x))"

lemma pipe_full_iff: "pipe_ok x \<Longrightarrow> pipe_full x \<longleftrightarrow> length (pipe_queue x) = PIPESIZE"
proof -
  have "pipe_full x \<longleftrightarrow> pi_nwrite x - pi_nread x = word_of_nat PIPESIZE" by (auto simp: pipe_full_def algebra_simps)
  also have "\<dots> \<longleftrightarrow> unat (pi_nwrite x - pi_nread x) = PIPESIZE"
    by (simp add: word_unat_eq_iff PIPESIZE_def)
  finally show ?thesis by (simp add: pipe_queue_def)
qed

lemma pipe_push_queue:
  assumes "pipe_ok x" "\<not> pipe_full x"
  shows "pipe_queue (pipe_push b x) = pipe_queue x @ [b]" "pipe_ok (pipe_push b x)"
    "pi_readopen (pipe_push b x) = pi_readopen x" "pi_writeopen (pipe_push b x) = pi_writeopen x"
proof -
  have "length (pipe_queue x) < PIPESIZE" using assms pipe_full_iff [OF assms(1)] by (auto simp: pipe_ok_def)
  then have "unat (pi_nwrite x - pi_nread x) < PIPESIZE" by (simp add: pipe_queue_def)
  from pip.push [OF _ this, of "pi_data x" b]
  show q: "pipe_queue (pipe_push b x) = pipe_queue x @ [b]" using assms(1) by (simp add: pipe_queue_def pipe_push_def pipe_ok_def)
  show "pipe_ok (pipe_push b x)"
    using assms(1) \<open>length (pipe_queue x) < PIPESIZE\<close> unfolding pipe_ok_def q by (simp add: pipe_push_def)
qed (simp_all add: pipe_push_def)

lemma piperead_loop_queue:
  assumes "pipe_ok x" "piperead_loop n x = (bs, y)"
  shows "bs = take n (pipe_queue x)" "pipe_queue y = drop n (pipe_queue x)" "pipe_ok y"
    "pi_readopen y = pi_readopen x" "pi_writeopen y = pi_writeopen x"
proof -
  have "bs = take n (pipe_queue x) \<and> pipe_queue y = drop n (pipe_queue x) \<and> pipe_ok y
    \<and> pi_readopen y = pi_readopen x \<and> pi_writeopen y = pi_writeopen x"
    using assms
  proof (induction n arbitrary: x bs y)
    case (Suc n)
    show ?case
    proof (cases "pi_nread x = pi_nwrite x")
      case True
      then show ?thesis using Suc.prems ring_empty [of PIPESIZE "pi_data x" "pi_nread x" "pi_nwrite x"]
        by (simp add: pipe_queue_def)
    next
      case False
      let ?z = "x\<lparr>pi_nread := pi_nread x + 1\<rparr>"
      obtain cs where cs: "piperead_loop n ?z = (cs, y)" "bs = pi_data x ! (unat (pi_nread x) mod PIPESIZE) # cs"
        using Suc.prems(2) False by (auto simp: Let_def split: prod.splits)
      have q: "pipe_queue x = pi_data x ! (unat (pi_nread x) mod PIPESIZE) # pipe_queue ?z"
        using pip.pop [of "pi_nwrite x" "pi_nread x" "pi_data x"] False by (simp add: pipe_queue_def)
      then have "pipe_ok ?z" using Suc.prems(1) by (simp add: pipe_ok_def)
      from Suc.IH [OF this cs(1)] show ?thesis unfolding q cs(2) by simp
    qed
  qed simp
  then show "bs = take n (pipe_queue x)" "pipe_queue y = drop n (pipe_queue x)" "pipe_ok y"
    "pi_readopen y = pi_readopen x" "pi_writeopen y = pi_writeopen x" by simp_all
qed

lemma pipes_upd [simp]:
  "pipes (upd_pipe p g s) = (pipes s)(p := g (pipes s p))" "curproc (upd_pipe p g s) = curproc s"
  "ptable (upd_pipe p g s) = ptable s" "pipes (wakeup1 c s) = pipes s" "curproc (wakeup1 c s) = curproc s"
  "cur (upd_pipe p g s) = cur s" "cur (wakeup1 c s) = cur s"
  by (simp_all add: upd_pipe_def wakeup1_def curproc_def cur_def split: option.split)

text \<open>What pipewrite appends, where it stops, and why.\<close>

definition pipe_outcome :: "pipe \<Rightarrow> bool \<Rightarrow> nat \<Rightarrow> pipe_stop" where
  "pipe_outcome x k m =
    (if pipe_room x m = m then PipeDone else if \<not> pi_readopen x \<or> k then PipeError else PipeSleep)"

lemma map_killed_wakeup1: "map p_killed (ptable (wakeup1 c s)) = map p_killed (ptable s)"
  by (simp add: wakeup1_def)

lemma pipewrite_loop_queue:
  assumes "pipe_ok (pipes s p)" "killed s = Inr k"
  shows "\<exists>t. pipewrite_loop p bs s = Inr (pipe_outcome (pipes s p) k (length bs), drop (pipe_room (pipes s p) (length bs)) bs, t)
    \<and> pipe_ok (pipes t p) \<and> pipe_queue (pipes t p) = pipe_queue (pipes s p) @ take (pipe_room (pipes s p) (length bs)) bs
    \<and> pi_readopen (pipes t p) = pi_readopen (pipes s p) \<and> pi_writeopen (pipes t p) = pi_writeopen (pipes s p)
    \<and> (\<forall>q. q \<noteq> p \<longrightarrow> pipes t q = pipes s q) \<and> cur t = cur s \<and> map p_killed (ptable t) = map p_killed (ptable s)"
  using assms
proof (induction bs arbitrary: s)
  case Nil
  then show ?case by (simp add: pipe_outcome_def pipe_room_def)
next
  case (Cons b bs)
  show ?case
  proof (cases "pipe_full (pipes s p)")
    case True
    then have "pipe_room (pipes s p) (length (b # bs)) = 0"
      using pipe_full_iff [OF Cons.prems(1)] by (simp add: pipe_room_def)
    then show ?thesis using True Cons.prems by (simp add: pipe_outcome_def map_killed_wakeup1)
  next
    case False
    let ?s = "upd_pipe p (pipe_push b) s"
    note q = pipe_push_queue [OF Cons.prems(1) False, of b]
    have r: "pipe_room (pipes s p) (length (b # bs)) = Suc (pipe_room (pipe_push b (pipes s p)) (length bs))"
      using Cons.prems(1) False pipe_full_iff [OF Cons.prems(1)] q(1) by (auto simp: pipe_room_def pipe_ok_def)
    have "killed ?s = Inr k" using Cons.prems(2) by (simp add: killed_def split: option.splits)
    from Cons.IH [OF _ this] obtain t where "pipewrite_loop p bs ?s
        = Inr (pipe_outcome (pipes ?s p) k (length bs), drop (pipe_room (pipes ?s p) (length bs)) bs, t)"
      "pipe_ok (pipes t p)" "pipe_queue (pipes t p) = pipe_queue (pipes ?s p) @ take (pipe_room (pipes ?s p) (length bs)) bs"
      "pi_readopen (pipes t p) = pi_readopen (pipes ?s p)" "pi_writeopen (pipes t p) = pi_writeopen (pipes ?s p)"
      "\<forall>q. q \<noteq> p \<longrightarrow> pipes t q = pipes ?s q" "cur t = cur ?s" "map p_killed (ptable t) = map p_killed (ptable ?s)" using q(2) by auto
    then show ?thesis using False q r by (simp add: pipe_outcome_def)
  qed
qed

text \<open>
  Processes using the two ends of a pipe: each event is a call by process \<open>j\<close>, run until it returns or goes
  to sleep. The result has the bytes that writers have put into the pipe and those that readers have got.
\<close>

datatype pipe_event = PWrite nat "u8 list" | PRead nat nat

fun pipe_run :: "u32 \<Rightarrow> pipe_event list \<Rightarrow> 'a files_scheme \<Rightarrow> (u8 list \<times> u8 list \<times> 'a files_scheme) result" where
  "pipe_run p [] s = Inr ([], [], s)"
| "pipe_run p (PWrite j bs # es) s =
    bindE (pipewrite_loop p bs (run_as j s)) (\<lambda>(_, rest, s).
    bindE (pipe_run p es s) (\<lambda>(sent, got, s).
    Inr (take (length bs - length rest) bs @ sent, got, s)))"
| "pipe_run p (PRead j n # es) s =
    (case piperead p n (run_as j s) of
       Inl (Blocks _) \<Rightarrow> pipe_run p es s
     | Inl e \<Rightarrow> Inl e
     | Inr ((_, bs), s) \<Rightarrow> bindE (pipe_run p es s) (\<lambda>(sent, got, s). Inr (sent, bs @ got, s)))"

lemma piperead_queue:
  assumes "pipe_ok (pipes s p)" "curproc s = Some j"
  shows "if pipe_queue (pipes s p) = [] \<and> pi_writeopen (pipes s p)
    then piperead p n s = (if p_killed (ptable s ! j) then Inr ((- 1, []), s) else Inl (Blocks (ChPipeRead p)))
    else \<exists>t. piperead p n s = Inr ((int (length (take n (pipe_queue (pipes s p)))), take n (pipe_queue (pipes s p))), t)
      \<and> pipe_ok (pipes t p) \<and> pipe_queue (pipes t p) = drop n (pipe_queue (pipes s p))
      \<and> (\<forall>q. q \<noteq> p \<longrightarrow> pipes t q = pipes s q) \<and> cur t = cur s"
proof -
  obtain bs x where "piperead_loop n (pipes s p) = (bs, x)" by (cases "piperead_loop n (pipes s p)")
  note l = this piperead_loop_queue [OF assms(1) this]
  have "pipe_queue (pipes s p) = [] \<longleftrightarrow> pi_nread (pipes s p) = pi_nwrite (pipes s p)"
    by (auto simp: pipe_queue_def ring_empty)
  then show ?thesis using l assms(2) by (simp add: piperead_def killed_def)
qed

lemma run_as_pipe [simp]: "pipes (run_as j s) = pipes s"
  by (simp add: run_as_def upd_cpu_def split: option.split)

lemma pipe_run_queue:
  assumes "pipe_ok (pipes s p)" "cur s = Some i"
  shows "\<exists>sent got t. pipe_run p es s = Inr (sent, got, t) \<and> pipe_ok (pipes t p)
    \<and> pipe_queue (pipes s p) @ sent = got @ pipe_queue (pipes t p)"
  using assms
proof (induction es arbitrary: s)
  case (Cons e es)
  show ?case
  proof (cases e)
    case (PWrite j bs)
    have "killed (run_as j s) = Inr (p_killed (ptable s ! j))"
      using curproc_run_as [OF Cons.prems(2), of j] by (simp add: killed_def)
    from pipewrite_loop_queue [OF _ this, of p bs] Cons.prems obtain st t where
      w: "pipewrite_loop p bs (run_as j s) = Inr (st, drop (pipe_room (pipes s p) (length bs)) bs, t)"
      "pipe_ok (pipes t p)" "pipe_queue (pipes t p) = pipe_queue (pipes s p) @ take (pipe_room (pipes s p) (length bs)) bs"
      "cur t = cur s" by auto
    moreover have "length bs - length (drop (pipe_room (pipes s p) (length bs)) bs) = pipe_room (pipes s p) (length bs)"
      by (simp add: pipe_room_def)
    ultimately show ?thesis using Cons.IH [of t] Cons.prems(2) PWrite by fastforce
  next
    case (PRead j n)
    have "(\<exists>c. piperead p n (run_as j s) = Inl (Blocks c)) \<or> (\<exists>r bs t. piperead p n (run_as j s) = Inr ((r, bs), t)
        \<and> pipe_ok (pipes t p) \<and> pipe_queue (pipes s p) = bs @ pipe_queue (pipes t p) \<and> cur t = Some i)"
      using piperead_queue [of "run_as j s" p j n] Cons.prems curproc_run_as [OF Cons.prems(2), of j]
      by (auto split: if_splits)
    then show ?thesis
    proof
      assume "\<exists>c. piperead p n (run_as j s) = Inl (Blocks c)"
      then show ?thesis using Cons.IH [OF Cons.prems] PRead by auto
    next
      assume "\<exists>r bs t. piperead p n (run_as j s) = Inr ((r, bs), t)
        \<and> pipe_ok (pipes t p) \<and> pipe_queue (pipes s p) = bs @ pipe_queue (pipes t p) \<and> cur t = Some i"
      then obtain r bs t where r: "piperead p n (run_as j s) = Inr ((r, bs), t)" "pipe_ok (pipes t p)"
        "pipe_queue (pipes s p) = bs @ pipe_queue (pipes t p)" "cur t = Some i" by auto
      from Cons.IH [OF r(2,4)] show ?thesis using r PRead by auto
    qed
  qed
qed simp

text \<open>
  C12. A pipe is a bounded first-in first-out queue. A writer appends as many of its bytes as fit and
  returns when all are in, fails when the read end is closed or it has been killed, and goes to sleep
  otherwise; a reader takes bytes from the front, and only waits when the pipe is empty and the write
  end open. Over any sequence of calls by any processes, the bytes read are the bytes
  written, in order, and none is lost or duplicated, also when the 32-bit counters wrap around.
\<close>

theorem pipe_refines:
  assumes "pipe_ok (pipes s p)" "curproc s = Some j"
  shows "(\<exists>t. pipewrite_loop p bs s = Inr (pipe_outcome (pipes s p) (p_killed (ptable s ! j)) (length bs),
             drop (pipe_room (pipes s p) (length bs)) bs, t)
           \<and> pipe_queue (pipes t p) = pipe_queue (pipes s p) @ take (pipe_room (pipes s p) (length bs)) bs
           \<and> (\<forall>q. q \<noteq> p \<longrightarrow> pipes t q = pipes s q))
       \<and> (if pipe_queue (pipes s p) = [] \<and> pi_writeopen (pipes s p)
          then piperead p n s = (if p_killed (ptable s ! j) then Inr ((- 1, []), s) else Inl (Blocks (ChPipeRead p)))
          else \<exists>t. piperead p n s = Inr ((int (length (take n (pipe_queue (pipes s p)))), take n (pipe_queue (pipes s p))), t)
            \<and> pipe_queue (pipes t p) = drop n (pipe_queue (pipes s p)) \<and> (\<forall>q. q \<noteq> p \<longrightarrow> pipes t q = pipes s q))
       \<and> (\<exists>sent got t. pipe_run p es s = Inr (sent, got, t) \<and> pipe_ok (pipes t p)
           \<and> pipe_queue (pipes s p) @ sent = got @ pipe_queue (pipes t p))"
proof -
  obtain i where i: "cur s = Some i" using assms(2) by (auto simp: curproc_def split: option.splits)
  have k: "killed s = Inr (p_killed (ptable s ! j))" using assms(2) by (simp add: killed_def)
  have "\<exists>t. piperead p n s = Inr ((int (length (take n (pipe_queue (pipes s p)))), take n (pipe_queue (pipes s p))), t)
      \<and> pipe_queue (pipes t p) = drop n (pipe_queue (pipes s p)) \<and> (\<forall>q. q \<noteq> p \<longrightarrow> pipes t q = pipes s q)"
    if "\<not> (pipe_queue (pipes s p) = [] \<and> pi_writeopen (pipes s p))"
    using piperead_queue [OF assms, of n] unfolding if_not_P [OF that] by blast
  then show ?thesis
    using pipewrite_loop_queue [OF assms(1) k, of bs] piperead_queue [OF assms, of n] pipe_run_queue [OF assms(1) i, of es]
    by auto
qed

definition files_ex :: files where
  "files_ex = inodes.extend (cons.extend cons_ex (inodes.fields sb_ex [])) (files.fields [] (\<lambda>_. pipe0))"

lemma files_ex_sel: "pipes files_ex = (\<lambda>_. pipe0)" "curproc files_ex = Some 0" "pipe_ok pipe0" "pipe_queue pipe0 = []"
proof -
  show "pipes files_ex = (\<lambda>_. pipe0)" by (simp add: files_ex_def inodes.defs files.defs)
  show "pipe_ok pipe0" "pipe_queue pipe0 = []" by (simp_all add: pipe_ok_def pipe_queue_def ring_def pipe0_def)
  show "curproc files_ex = Some 0"
    by (simp add: files_ex_def cons_ex_def logs.defs cons.defs inodes.defs files.defs bcache.defs bcache_ex_def disks.defs
        disks_ex_def curproc_def cur_eq two_cpus_def)
qed

theorem pipe_refines_witness:
  "\<exists>sent got t. pipe_run 0x80400000 [PWrite 0 [1, 2, 3], PRead 1 2] files_ex = Inr (sent, got, t)
     \<and> sent = got @ pipe_queue (pipes t 0x80400000)"
proof -
  have "pipe_ok (pipes files_ex 0x80400000)" by (simp add: files_ex_sel)
  from pipe_refines [OF this files_ex_sel(2), of "[]" 0 "[PWrite 0 [1, 2, 3], PRead 1 2]"] show ?thesis
    unfolding files_ex_sel by auto
qed

end
