(* ===== verification/Procfile.thy ===== *)
theory Procfile
  imports File
begin

unbundle bit_operations_syntax

text \<open>
  The operations of proc.c that use the file system: userinit, fork, exit and forkret. exit does not
  return: \<open>exit_enter\<close> is what it does up to the switch to the scheduler.
\<close>

section \<open>Operations\<close>

text \<open>What safestrcpy leaves of a name in the 16 bytes of \<open>p->name\<close>.\<close>

definition proc_name :: "string \<Rightarrow> string" where
  "proc_name n = take 15 n"

definition SEG_UCODE :: u16 where "SEG_UCODE = 3"
definition SEG_UDATA :: u16 where "SEG_UDATA = 4"
definition DPL_USER :: u16 where "DPL_USER = 3"
definition FL_IF :: u32 where "FL_IF = 0x200"

definition user_tf :: trapframe where
  "user_tf = \<lparr>tf_edi = 0, tf_esi = 0, tf_ebp = 0, tf_oesp = 0, tf_ebx = 0, tf_edx = 0, tf_ecx = 0, tf_eax = 0,
     tf_gs = 0, tf_fs = 0, tf_es = push_bit 3 SEG_UDATA OR DPL_USER, tf_ds = push_bit 3 SEG_UDATA OR DPL_USER,
     tf_trapno = 0, tf_err = 0, tf_eip = 0, tf_cs = push_bit 3 SEG_UCODE OR DPL_USER, tf_eflags = FL_IF,
     tf_esp = PGSIZE, tf_ss = push_bit 3 SEG_UDATA OR DPL_USER\<rparr>"

text \<open>The image of initcode.S is linked into the kernel: \<open>isz\<close> bytes at address \<open>code\<close>.\<close>

definition userinit :: "u32 \<Rightarrow> u32 \<Rightarrow> 'a files_scheme \<Rightarrow> 'a files_scheme result" where
  "userinit code isz s =
    bindE (allocproc s) (\<lambda>(p, s).
    let s = s\<lparr>initproc := p\<rparr> in
    case p of
      None \<Rightarrow> Inl BadAccess
    | Some j \<Rightarrow>
      bindE (setupkvm s) (\<lambda>(d, s).
      let s = upd_proc j (\<lambda>p. p\<lparr>p_pgdir := d\<rparr>) s in
      if d = 0 then Inl (Panic ''userinit: out of memory?'')
      else bindE (inituvm d code isz s) (\<lambda>s.
        let s = upd_proc j (\<lambda>p. p\<lparr>p_sz := PGSIZE, p_tf := user_tf, p_name := proc_name ''initcode''\<rparr>) s in
        bindE (namei [slash] s) (\<lambda>(ip, s).
        let s = upd_proc j (\<lambda>p. p\<lparr>p_cwd := ip\<rparr>) s in
        bindE (with_lock PtableLock (\<lambda>s. Inr ((), upd_proc j (\<lambda>p. p\<lparr>p_state := RUNNABLE\<rparr>) s)) s) (\<lambda>(_, s).
        Inr s)))))"

definition fork_file :: "nat \<Rightarrow> nat \<Rightarrow> nat \<Rightarrow> 'a files_scheme \<Rightarrow> 'a files_scheme result" where
  "fork_file me np i s =
    (case p_ofile (ptable s ! me) ! i of
       None \<Rightarrow> Inr s
     | Some f \<Rightarrow> bindE (filedup f s) (\<lambda>s. Inr (upd_proc np (\<lambda>p. p\<lparr>p_ofile := (p_ofile p)[i := Some f]\<rparr>) s)))"

definition fork :: "'a files_scheme \<Rightarrow> (int \<times> 'a files_scheme) result" where
  "fork s =
    bindE (myproc s) (\<lambda>(c, s). case c of
      None \<Rightarrow> Inl BadAccess
    | Some me \<Rightarrow>
      bindE (allocproc s) (\<lambda>(r, s). case r of
        None \<Rightarrow> Inr (- 1, s)
      | Some np \<Rightarrow>
        let cp = ptable s ! me in
        bindE (copyuvm (p_pgdir cp) (p_sz cp) s) (\<lambda>(d, s).
        let s = upd_proc np (\<lambda>p. p\<lparr>p_pgdir := d\<rparr>) s in
        if d = 0
        then bindE (kfree (p_kstack (ptable s ! np)) s) (\<lambda>s.
          Inr (- 1, upd_proc np (\<lambda>p. p\<lparr>p_kstack := 0, p_state := UNUSED\<rparr>) s))
        else
          let s = upd_proc np (\<lambda>p. p\<lparr>p_sz := p_sz cp, p_parent := Some me, p_tf := (p_tf cp)\<lparr>tf_eax := 0\<rparr>\<rparr>) s in
          bindE (forE (fork_file me np) [0..<NOFILE] s) (\<lambda>s.
          bindE (idup (p_cwd cp) s) (\<lambda>(ip, s).
          let s = upd_proc np (\<lambda>p. p\<lparr>p_cwd := Some ip, p_name := proc_name (p_name cp)\<rparr>) s;
              pid = p_pid (ptable s ! np) in
          bindE (with_lock PtableLock (\<lambda>s. Inr ((), upd_proc np (\<lambda>p. p\<lparr>p_state := RUNNABLE\<rparr>) s)) s) (\<lambda>(_, s).
          Inr (pid, s)))))))"

definition exit_file :: "nat \<Rightarrow> nat \<Rightarrow> 'a files_scheme \<Rightarrow> 'a files_scheme result" where
  "exit_file me fd s =
    (case p_ofile (ptable s ! me) ! fd of
       None \<Rightarrow> Inr s
     | Some f \<Rightarrow> bindE (fileclose f s) (\<lambda>s. Inr (upd_proc me (\<lambda>p. p\<lparr>p_ofile := (p_ofile p)[fd := None]\<rparr>) s)))"

text \<open>The loop that passes abandoned children to init, at entry \<open>j\<close>.\<close>

definition reparent :: "nat \<Rightarrow> nat \<Rightarrow> 'a procs_scheme \<Rightarrow> 'a procs_scheme" where
  "reparent me j s =
    (if p_parent (ptable s ! j) = Some me
     then let s = upd_proc j (\<lambda>p. p\<lparr>p_parent := initproc s\<rparr>) s in
       if p_state (ptable s ! j) = ZOMBIE then wakeup1 (map_option ChProc (initproc s)) s else s
     else s)"

definition exit_enter :: "'a files_scheme \<Rightarrow> 'a files_scheme result" where
  "exit_enter s =
    bindE (myproc s) (\<lambda>(c, s).
    if c = initproc s then Inl (Panic ''init exiting'')
    else case c of
      None \<Rightarrow> Inl BadAccess
    | Some me \<Rightarrow>
      bindE (forE (exit_file me) [0..<NOFILE] s) (\<lambda>s.
      bindE (begin_op s) (\<lambda>s.
      bindE (case p_cwd (ptable s ! me) of None \<Rightarrow> Inl BadAccess | Some ip \<Rightarrow> iput ip s) (\<lambda>s.
      bindE (end_op s) (\<lambda>s.
      let s = upd_proc me (\<lambda>p. p\<lparr>p_cwd := None\<rparr>) s in
      bindE (acquire PtableLock s) (\<lambda>s.
      let s = wakeup1 (map_option ChProc (p_parent (ptable s ! me))) s;
          s = fold (reparent me) [0..<NPROC] s;
          s = upd_proc me (\<lambda>p. p\<lparr>p_state := ZOMBIE\<rparr>) s in
      sched_enter InExit s))))))"

definition forkret :: "'a files_scheme \<Rightarrow> 'a files_scheme result" where
  "forkret s =
    bindE (release PtableLock s) (\<lambda>s.
    if forkret_first s
    then bindE (iinit ROOTDEV (s\<lparr>forkret_first := False\<rparr>)) (\<lambda>s. initlog ROOTDEV s)
    else Inr s)"

end
