(* ===== verification/Exec.thy ===== *)
theory Exec
  imports Procfile
begin

unbundle bit_operations_syntax

text \<open>
  exec (exec.c) with the ELF structures it reads (elf.h) and loaduvm (vm.c). A path and an argument
  are the bytes before the terminating NUL. Every jump to \<open>bad\<close> is a call of \<open>exec_bad\<close>.
\<close>

section \<open>Data\<close>

definition MAXARG :: nat where "MAXARG = 32"
definition ELF_MAGIC :: u32 where "ELF_MAGIC = 0x464C457F"
definition ELF_PROG_LOAD :: u32 where "ELF_PROG_LOAD = 1"

text \<open>The fields that exec reads of the 52 bytes of an ELF header and the 32 bytes of a program header.\<close>

record elfhdr =
  e_magic :: u32
  e_entry :: u32
  e_phoff :: u32
  e_phnum :: u16

record proghdr =
  ph_type :: u32
  ph_off :: u32
  ph_vaddr :: u32
  ph_filesz :: u32
  ph_memsz :: u32

definition get_elfhdr :: "u8 list \<Rightarrow> elfhdr" where
  "get_elfhdr d = \<lparr>e_magic = get32 d 0, e_entry = get32 d 24, e_phoff = get32 d 28, e_phnum = get16 d 44\<rparr>"

definition get_proghdr :: "u8 list \<Rightarrow> proghdr" where
  "get_proghdr d = \<lparr>ph_type = get32 d 0, ph_off = get32 d 4, ph_vaddr = get32 d 8, ph_filesz = get32 d 16,
     ph_memsz = get32 d 20\<rparr>"

section \<open>Operations\<close>

definition loaduvm :: "u32 \<Rightarrow> u32 \<Rightarrow> nat \<Rightarrow> u32 \<Rightarrow> u32 \<Rightarrow> 'a inodes_scheme \<Rightarrow> (int \<times> 'a inodes_scheme) result" where
  "loaduvm pgdir addr ip offset sz s =
    (if addr mod PGSIZE \<noteq> 0 then Inl (Panic ''loaduvm: addr must be page aligned'')
     else
       bindE (loopE PAGES (\<lambda>(i, s). i < sz)
         (\<lambda>(i, s).
           bindE (walkpgdir pgdir (addr + i) False s) (\<lambda>(pte, s).
           if pte = 0 then Inl (Panic ''loaduvm: address should exist'')
           else
             let pa = PTE_ADDR (load32 (pmem s) pte); n = (if sz - i < PGSIZE then sz - i else PGSIZE) in
             bindE (readi ip (offset + i) n s) (\<lambda>((r, bs), s).
             let s = s\<lparr>pmem := put_bytes (pmem s) (P2V pa) bs\<rparr> in
             if word_of_int r \<noteq> n then Inr (Inl (- 1, s)) else Inr (Inr (i + PGSIZE, s))))) (0, s)) (\<lambda>x.
       case x of Inl r \<Rightarrow> Inr r | Inr (_, s) \<Rightarrow> Inr (0, s)))"

text \<open>One program header: \<open>None\<close> is a jump to \<open>bad\<close>, otherwise the new size.\<close>

definition exec_segment :: "u32 \<Rightarrow> nat \<Rightarrow> u32 \<Rightarrow> u32 \<Rightarrow> 'a inodes_scheme \<Rightarrow> (u32 option \<times> 'a inodes_scheme) result" where
  "exec_segment pgdir ip off sz s =
    bindE (readi ip off 32 s) (\<lambda>((r, d), s).
    let ph = get_proghdr d in
    if r \<noteq> 32 then Inr (None, s)
    else if ph_type ph \<noteq> ELF_PROG_LOAD then Inr (Some sz, s)
    else if ph_memsz ph < ph_filesz ph then Inr (None, s)
    else if ph_vaddr ph + ph_memsz ph < ph_vaddr ph then Inr (None, s)
    else bindE (allocuvm pgdir sz (ph_vaddr ph + ph_memsz ph) s) (\<lambda>(sz, s).
      if sz = 0 then Inr (None, s)
      else if ph_vaddr ph mod PGSIZE \<noteq> 0 then Inr (None, s)
      else bindE (loaduvm pgdir (ph_vaddr ph) ip (ph_off ph) (ph_filesz ph) s) (\<lambda>(r, s).
        if r < 0 then Inr (None, s) else Inr (Some sz, s))))"

fun exec_load :: "u32 \<Rightarrow> nat \<Rightarrow> nat \<Rightarrow> u32 \<Rightarrow> u32 \<Rightarrow> 'a inodes_scheme \<Rightarrow> (u32 option \<times> 'a inodes_scheme) result" where
  "exec_load pgdir ip 0 off sz s = Inr (Some sz, s)"
| "exec_load pgdir ip (Suc k) off sz s =
    bindE (exec_segment pgdir ip off sz s) (\<lambda>(r, s). case r of
      None \<Rightarrow> Inr (None, s)
    | Some sz \<Rightarrow> exec_load pgdir ip k (off + 32) sz s)"

text \<open>The loop over the arguments; \<open>us\<close> is \<open>ustack[3..3+argc-1]\<close>.\<close>

fun exec_args ::
  "u32 \<Rightarrow> u8 list list \<Rightarrow> u32 \<Rightarrow> u32 list \<Rightarrow> 'a kmem_scheme \<Rightarrow> ((u32 \<times> u32 list) option \<times> 'a kmem_scheme) result"
where
  "exec_args pgdir [] sp us s = Inr (Some (sp, us), s)"
| "exec_args pgdir (a # as) sp us s =
    (if MAXARG \<le> length us then Inr (None, s)
     else
       let sp = (sp - word_of_nat (length a + 1)) AND NOT 3 in
       bindE (copyout pgdir sp (a @ [0]) s) (\<lambda>(r, s).
       if r < 0 then Inr (None, s) else exec_args pgdir as sp (us @ [sp]) s))"

definition ustack :: "u32 \<Rightarrow> u32 list \<Rightarrow> u32 list" where
  "ustack sp us = 0xffffffff # word_of_nat (length us) # (sp - word_of_nat ((length us + 1) * 4)) # us @ [0]"

definition exec_bad :: "u32 \<Rightarrow> nat option \<Rightarrow> 'a files_scheme \<Rightarrow> (int \<times> 'a files_scheme) result" where
  "exec_bad pgdir ip s =
    bindE (if pgdir \<noteq> 0 then freevm pgdir s else Inr s) (\<lambda>s.
    bindE (case ip of None \<Rightarrow> Inr s | Some i \<Rightarrow> bindE (iunlockput i s) end_op) (\<lambda>s.
    Inr (- 1, s)))"

definition last_elem :: "u8 list \<Rightarrow> string" where
  "last_elem path = map (\<lambda>b. char_of (unat b)) (rev (takeWhile (\<lambda>c. c \<noteq> slash) (rev path)))"

text \<open>The second half of exec: the stack, and the switch to the new image.\<close>

definition exec_stack :: "nat \<Rightarrow> u8 list \<Rightarrow> u8 list list \<Rightarrow> elfhdr \<Rightarrow> u32 \<Rightarrow> u32 \<Rightarrow> 'a files_scheme \<Rightarrow> (int \<times> 'a files_scheme) result" where
  "exec_stack me path argv elf pgdir sz s =
    (let sz = PGROUNDUP sz in
     bindE (allocuvm pgdir sz (sz + 2 * PGSIZE) s) (\<lambda>(sz, s).
     if sz = 0 then exec_bad pgdir None s
     else bindE (clearpteu pgdir (sz - 2 * PGSIZE) s) (\<lambda>s.
       bindE (exec_args pgdir argv sz [] s) (\<lambda>(r, s). case r of
         None \<Rightarrow> exec_bad pgdir None s
       | Some (sp, us) \<Rightarrow>
         let sp' = sp - word_of_nat ((3 + length us + 1) * 4) in
         bindE (copyout pgdir sp' (concat (map bytes32 (ustack sp us))) s) (\<lambda>(r, s).
         if r < 0 then exec_bad pgdir None s
         else
           let oldpgdir = p_pgdir (ptable s ! me);
               s = upd_proc me (\<lambda>p. p\<lparr>p_name := proc_name (last_elem path), p_pgdir := pgdir, p_sz := sz,
                     p_tf := (p_tf p)\<lparr>tf_eip := e_entry elf, tf_esp := sp'\<rparr>\<rparr>) s in
           bindE (switchuvm (Some me) s) (\<lambda>s.
           bindE (freevm oldpgdir s) (\<lambda>s.
           Inr (0, s))))))))"

definition exec :: "u8 list \<Rightarrow> u8 list list \<Rightarrow> 'a files_scheme \<Rightarrow> (int \<times> 'a files_scheme) result" where
  "exec path argv s =
    bindE (myproc s) (\<lambda>(c, s). case c of
      None \<Rightarrow> Inl BadAccess
    | Some me \<Rightarrow>
      bindE (begin_op s) (\<lambda>s.
      bindE (namei path s) (\<lambda>(r, s). case r of
        None \<Rightarrow>
          bindE (end_op s) (\<lambda>s. bindE (cprintf (''exec: fail'' @ [CHR 0x0A]) [] s) (\<lambda>s. Inr (- 1, s)))
      | Some ip \<Rightarrow>
        bindE (ilock (Some ip) s) (\<lambda>s.
        bindE (readi ip 0 52 s) (\<lambda>((r, d), s).
        let elf = get_elfhdr d in
        if r \<noteq> 52 then exec_bad 0 (Some ip) s
        else if e_magic elf \<noteq> ELF_MAGIC then exec_bad 0 (Some ip) s
        else bindE (setupkvm s) (\<lambda>(pgdir, s).
          if pgdir = 0 then exec_bad 0 (Some ip) s
          else bindE (exec_load pgdir ip (unat (e_phnum elf)) (e_phoff elf) 0 s) (\<lambda>(r, s). case r of
            None \<Rightarrow> exec_bad pgdir (Some ip) s
          | Some sz \<Rightarrow>
            bindE (iunlockput ip s) (\<lambda>s.
            bindE (end_op s) (\<lambda>s.
            exec_stack me path argv elf pgdir sz s)))))))))"

end
