(* ===== verification/Syscall.thy ===== *)
theory Syscall
  imports Exec Fcntl
begin

unbundle bit_operations_syntax

text \<open>
  System calls: fetching arguments from user memory (syscall.c), the calls of sysproc.c and
  sysfile.c, and the dispatch by number.

  The kernel reads and writes user memory through the page table of the running processor. Such an
  access to a page that is not mapped, or a write to one that is not writable, is a page fault in
  kernel mode, for which trap panics.

  An argument that a C function returns through a pointer is an option value, \<open>None\<close> where the
  function returns -1. A string argument is the bytes before its NUL.
\<close>

section \<open>User memory\<close>

definition user_ka :: "bool \<Rightarrow> u32 \<Rightarrow> 'a vmem_scheme \<Rightarrow> u32 result" where
  "user_ka write va s =
    bindE (walkpgdir (P2V (cr3 s (m_lapicid s))) va False s) (\<lambda>(pte, s).
    if pte = 0 \<or> \<not> present (load32 (pmem s) pte) \<or> (write \<and> load32 (pmem s) pte AND PTE_W = 0)
    then Inl (Panic ''trap'')
    else Inr (P2V (PTE_ADDR (load32 (pmem s) pte)) + (va AND 0xFFF)))"

fun user_bytes :: "nat \<Rightarrow> u32 \<Rightarrow> 'a vmem_scheme \<Rightarrow> u8 list result" where
  "user_bytes 0 va s = Inr []"
| "user_bytes (Suc n) va s =
    bindE (user_ka False va s) (\<lambda>a.
    bindE (user_bytes n (va + 1) s) (\<lambda>bs.
    Inr (pmem s a # bs)))"

fun user_put :: "u8 list \<Rightarrow> u32 \<Rightarrow> 'a vmem_scheme \<Rightarrow> 'a vmem_scheme result" where
  "user_put [] va s = Inr s"
| "user_put (b # bs) va s =
    bindE (user_ka True va s) (\<lambda>a.
    user_put bs (va + 1) (s\<lparr>pmem := (pmem s)(a := b)\<rparr>))"

section \<open>Arguments\<close>

definition this_proc :: "'a procs_scheme \<Rightarrow> proc result" where
  "this_proc s = (case curproc s of None \<Rightarrow> Inl BadAccess | Some j \<Rightarrow> Inr (ptable s ! j))"

definition fetchint :: "u32 \<Rightarrow> 'a procs_scheme \<Rightarrow> u32 option result" where
  "fetchint addr s =
    bindE (this_proc s) (\<lambda>p.
    if p_sz p \<le> addr \<or> p_sz p < addr + 4 then Inr None
    else bindE (user_bytes 4 addr s) (\<lambda>bs. Inr (Some (get32 bs 0))))"

text \<open>The loop of fetchstr with \<open>n\<close> bytes left before \<open>ep\<close>.\<close>

fun fetchstr_loop :: "nat \<Rightarrow> u32 \<Rightarrow> 'a vmem_scheme \<Rightarrow> u8 list option result" where
  "fetchstr_loop 0 a s = Inr None"
| "fetchstr_loop (Suc n) a s =
    bindE (user_ka False a s) (\<lambda>k.
    if pmem s k = 0 then Inr (Some [])
    else bindE (fetchstr_loop n (a + 1) s) (\<lambda>r. Inr (map_option ((#) (pmem s k)) r)))"

definition fetchstr :: "u32 \<Rightarrow> 'a procs_scheme \<Rightarrow> u8 list option result" where
  "fetchstr addr s =
    bindE (this_proc s) (\<lambda>p.
    if p_sz p \<le> addr then Inr None
    else fetchstr_loop (unat (p_sz p - addr)) addr s)"

definition argint :: "nat \<Rightarrow> 'a procs_scheme \<Rightarrow> u32 option result" where
  "argint n s =
    bindE (this_proc s) (\<lambda>p.
    fetchint (tf_esp (p_tf p) + 4 + 4 * word_of_nat n) s)"

definition argptr :: "nat \<Rightarrow> int \<Rightarrow> 'a procs_scheme \<Rightarrow> u32 option result" where
  "argptr n sz s =
    bindE (this_proc s) (\<lambda>p.
    bindE (argint n s) (\<lambda>r. case r of
      None \<Rightarrow> Inr None
    | Some i \<Rightarrow>
      if sz < 0 \<or> p_sz p \<le> i \<or> p_sz p < i + word_of_int sz then Inr None
      else Inr (Some i)))"

definition argstr :: "nat \<Rightarrow> 'a procs_scheme \<Rightarrow> u8 list option result" where
  "argstr n s =
    bindE (argint n s) (\<lambda>r. case r of None \<Rightarrow> Inr None | Some addr \<Rightarrow> fetchstr addr s)"

text \<open>A call that returns -1 when one of its arguments cannot be fetched.\<close>

definition with_arg ::
  "('s \<Rightarrow> 'x option result) \<Rightarrow> ('x \<Rightarrow> 's \<Rightarrow> (int \<times> 's) result) \<Rightarrow> 's \<Rightarrow> (int \<times> 's) result"
where
  "with_arg f g s = bindE (f s) (\<lambda>r. case r of None \<Rightarrow> Inr (- 1, s) | Some x \<Rightarrow> g x s)"

section \<open>Calls on processes\<close>

text \<open>
  A call that can switch to another process returns \<open>None\<close> then; what it does after the process has been
  switched to again is a separate definition, with \<open>exit\<close> in its name.
\<close>

definition returns :: "(int \<times> 's) result \<Rightarrow> (int option \<times> 's) result" where
  "returns r = bindE r (\<lambda>(v, s). Inr (Some v, s))"

definition sys_fork :: "'a files_scheme \<Rightarrow> (int \<times> 'a files_scheme) result" where
  "sys_fork s = fork s"

definition sys_exit :: "'a files_scheme \<Rightarrow> (int option \<times> 'a files_scheme) result" where
  "sys_exit s = bindE (exit_enter s) (\<lambda>s. Inr (None, s))"

definition wait_returns :: "(int \<times> 's + 's) result \<Rightarrow> (int option \<times> 's) result" where
  "wait_returns r = bindE r (\<lambda>x. case x of Inl (v, s) \<Rightarrow> Inr (Some v, s) | Inr s \<Rightarrow> Inr (None, s))"

definition sys_wait :: "'a procs_scheme \<Rightarrow> (int option \<times> 'a procs_scheme) result" where
  "sys_wait s = wait_returns (wait_enter s)"

definition sys_wait_exit :: "nat \<Rightarrow> bool \<Rightarrow> 'a procs_scheme \<Rightarrow> (int option \<times> 'a procs_scheme) result" where
  "sys_wait_exit me intena s = wait_returns (wait_exit me intena s)"

definition sys_kill :: "'a procs_scheme \<Rightarrow> (int \<times> 'a procs_scheme) result" where
  "sys_kill = with_arg (argint 0) (\<lambda>pid. kill (sint pid))"

definition sys_getpid :: "'a procs_scheme \<Rightarrow> (int \<times> 'a procs_scheme) result" where
  "sys_getpid s = bindE (this_proc s) (\<lambda>p. Inr (p_pid p, s))"

definition sys_sbrk :: "'a procs_scheme \<Rightarrow> (int \<times> 'a procs_scheme) result" where
  "sys_sbrk = with_arg (argint 0) (\<lambda>n s.
    bindE (this_proc s) (\<lambda>p.
    bindE (growproc (sint n) s) (\<lambda>(r, s).
    Inr (if r < 0 then - 1 else sint (p_sz p), s))))"

text \<open>The loop of sys_sleep with tickslock held. The comparison is one of unsigned numbers.\<close>

definition sleep_round :: "u32 \<Rightarrow> u32 \<Rightarrow> 'a procs_scheme \<Rightarrow> (int option \<times> 'a procs_scheme) result" where
  "sleep_round ticks0 n s =
    (if ticks s - ticks0 < n
     then bindE (this_proc s) (\<lambda>p.
       if p_killed p then bindE (release TicksLock s) (\<lambda>s. Inr (Some (- 1), s))
       else bindE (sleep_enter ChTicks (Some TicksLock) s) (\<lambda>s. Inr (None, s)))
     else bindE (release TicksLock s) (\<lambda>s. Inr (Some 0, s)))"

definition sys_sleep :: "'a procs_scheme \<Rightarrow> (int option \<times> 'a procs_scheme) result" where
  "sys_sleep s =
    bindE (argint 0 s) (\<lambda>r. case r of
      None \<Rightarrow> Inr (Some (- 1), s)
    | Some n \<Rightarrow> bindE (acquire TicksLock s) (\<lambda>s. sleep_round (ticks s) n s))"

definition sys_sleep_exit ::
  "nat \<Rightarrow> u32 \<Rightarrow> u32 \<Rightarrow> bool \<Rightarrow> 'a procs_scheme \<Rightarrow> (int option \<times> 'a procs_scheme) result"
where
  "sys_sleep_exit me ticks0 n intena s = bindE (sleep_exit me TicksLock intena s) (sleep_round ticks0 n)"

definition sys_uptime :: "'a procs_scheme \<Rightarrow> (int \<times> 'a procs_scheme) result" where
  "sys_uptime s = with_lock TicksLock (\<lambda>s. Inr (sint (ticks s), s)) s"

definition print_row :: "procstate \<times> string \<times> int \<times> int \<times> int \<times> int \<Rightarrow> 'a cons_scheme \<Rightarrow> 'a cons_scheme result" where
  "print_row = (\<lambda>(st, name, pid, pol, ex, dl).
    cprintf (''Process State - '' @ (if st = SLEEPING then ''SLEEPING'' else if st = RUNNING then ''RUNNING'' else ''RUNNABLE'')
      @ '', Process Name - %s, Process Id - %d, Policy - %d, Exec time - %d, Deadline - %d'' @ [CHR 0x0A])
      [Ptr (Some name), Num (word_of_int pid), Num (word_of_int pol), Num (word_of_int ex), Num (word_of_int dl)])"

definition sys_printinfo :: "'a cons_scheme \<Rightarrow> (int \<times> 'a cons_scheme) result" where
  "sys_printinfo s =
    bindE (printinfo s) (\<lambda>((rows, r), s).
    bindE (forE print_row rows s) (\<lambda>s. Inr (r, s)))"

text \<open>
  The real-time calls ignore the result of argint: an argument that cannot be fetched keeps the value
  that happens to be on the kernel stack, \<open>junk\<close>.
\<close>

definition arg_or :: "int \<Rightarrow> nat \<Rightarrow> 'a procs_scheme \<Rightarrow> int result" where
  "arg_or junk n s = bindE (argint n s) (\<lambda>r. Inr (case r of None \<Rightarrow> junk | Some v \<Rightarrow> sint v))"

definition two_args ::
  "int \<times> int \<Rightarrow> (int \<Rightarrow> int \<Rightarrow> 'a procs_scheme \<Rightarrow> (int \<times> 'a procs_scheme) result) \<Rightarrow> 'a procs_scheme
   \<Rightarrow> (int \<times> 'a procs_scheme) result"
where
  "two_args junk f s =
    bindE (arg_or (fst junk) 0 s) (\<lambda>a.
    bindE (arg_or (snd junk) 1 s) (\<lambda>b.
    f a b s))"

definition sys_sched_policy :: "int \<times> int \<Rightarrow> 'a procs_scheme \<Rightarrow> (int \<times> 'a procs_scheme) result" where
  "sys_sched_policy junk = two_args junk sched_policy"

definition sys_exec_time :: "int \<times> int \<Rightarrow> 'a procs_scheme \<Rightarrow> (int \<times> 'a procs_scheme) result" where
  "sys_exec_time junk = two_args junk exec_time"

definition sys_deadline :: "int \<times> int \<Rightarrow> 'a procs_scheme \<Rightarrow> (int \<times> 'a procs_scheme) result" where
  "sys_deadline junk = two_args junk deadline"

definition sys_rate :: "int \<times> int \<Rightarrow> 'a procs_scheme \<Rightarrow> (int \<times> 'a procs_scheme) result" where
  "sys_rate junk = two_args junk rate"

section \<open>Calls on files\<close>

text \<open>The descriptor with the file it stands for.\<close>

definition argfd :: "nat \<Rightarrow> 'a procs_scheme \<Rightarrow> (nat \<times> nat) option result" where
  "argfd n s =
    bindE (argint n s) (\<lambda>r. case r of
      None \<Rightarrow> Inr None
    | Some v \<Rightarrow>
      let fd = sint v in
      bindE (this_proc s) (\<lambda>p.
      if fd < 0 \<or> int NOFILE \<le> fd then Inr None
      else Inr (map_option (Pair (nat fd)) (p_ofile p ! nat fd))))"

definition fdalloc :: "nat \<Rightarrow> 'a procs_scheme \<Rightarrow> (nat option \<times> 'a procs_scheme) result" where
  "fdalloc f s =
    (case curproc s of
       None \<Rightarrow> Inl BadAccess
     | Some j \<Rightarrow>
       (case find (\<lambda>fd. p_ofile (ptable s ! j) ! fd = None) [0..<NOFILE] of
          None \<Rightarrow> Inr (None, s)
        | Some fd \<Rightarrow> Inr (Some fd, upd_proc j (\<lambda>p. p\<lparr>p_ofile := (p_ofile p)[fd := Some f]\<rparr>) s)))"

definition fdclear :: "nat \<Rightarrow> 'a procs_scheme \<Rightarrow> 'a procs_scheme result" where
  "fdclear fd s =
    (case curproc s of
       None \<Rightarrow> Inl BadAccess
     | Some j \<Rightarrow> Inr (upd_proc j (\<lambda>p. p\<lparr>p_ofile := (p_ofile p)[fd := None]\<rparr>) s))"

definition sys_dup :: "'a files_scheme \<Rightarrow> (int \<times> 'a files_scheme) result" where
  "sys_dup = with_arg (argfd 0) (\<lambda>(_, f) s.
    bindE (fdalloc f s) (\<lambda>(r, s). case r of
      None \<Rightarrow> Inr (- 1, s)
    | Some fd \<Rightarrow> bindE (filedup f s) (\<lambda>s. Inr (int fd, s))))"

text \<open>The data of a read is stored in user memory, and the data of a write fetched from it, in one piece.\<close>

definition sys_read :: "'a files_scheme \<Rightarrow> (int \<times> 'a files_scheme) result" where
  "sys_read = with_arg (argfd 0) (\<lambda>(_, f). with_arg (argint 2) (\<lambda>n. with_arg (argptr 1 (sint n)) (\<lambda>p s.
    bindE (fileread f (sint n) s) (\<lambda>((r, bs), s).
    bindE (user_put bs p s) (\<lambda>s. Inr (r, s))))))"

definition sys_write :: "'a files_scheme \<Rightarrow> (int \<times> 'a files_scheme) result" where
  "sys_write = with_arg (argfd 0) (\<lambda>(_, f). with_arg (argint 2) (\<lambda>n. with_arg (argptr 1 (sint n)) (\<lambda>p s.
    bindE (user_bytes (nat (sint n)) p s) (\<lambda>bs.
    filewrite f bs (sint n) s))))"

definition sys_close :: "'a files_scheme \<Rightarrow> (int \<times> 'a files_scheme) result" where
  "sys_close = with_arg (argfd 0) (\<lambda>(fd, f) s.
    bindE (fdclear fd s) (\<lambda>s.
    bindE (fileclose f s) (\<lambda>s. Inr (0, s))))"

text \<open>The stores of stati into a \<open>struct stat\<close> of 20 bytes.\<close>

definition put_stat :: "stat \<Rightarrow> u32 \<Rightarrow> 'a vmem_scheme \<Rightarrow> 'a vmem_scheme result" where
  "put_stat st p s =
    bindE (user_put (bytes32 (st_dev st)) (p + 4) s) (\<lambda>s.
    bindE (user_put (bytes32 (st_ino st)) (p + 8) s) (\<lambda>s.
    bindE (user_put (bytes16 (st_type st)) p s) (\<lambda>s.
    bindE (user_put (bytes16 (st_nlink st)) (p + 12) s) (\<lambda>s.
    user_put (bytes32 (st_size st)) (p + 16) s))))"

definition sys_fstat :: "'a files_scheme \<Rightarrow> (int \<times> 'a files_scheme) result" where
  "sys_fstat = with_arg (argfd 0) (\<lambda>(_, f). with_arg (argptr 1 20) (\<lambda>p s.
    bindE (filestat f s) (\<lambda>(r, s). case r of
      None \<Rightarrow> Inr (- 1, s)
    | Some st \<Rightarrow> bindE (put_stat st p s) (\<lambda>s. Inr (0, s)))))"

definition add_nlink :: "u16 \<Rightarrow> inode \<Rightarrow> inode" where
  "add_nlink d i = i\<lparr>i_nlink := i_nlink i + d\<rparr>"

text \<open>A transaction that has failed: end_op, and the result -1.\<close>

definition op_fail :: "'a logs_scheme \<Rightarrow> (int \<times> 'a logs_scheme) result" where
  "op_fail s = bindE (end_op s) (\<lambda>s. Inr (- 1, s))"

definition link_bad :: "nat \<Rightarrow> 'a files_scheme \<Rightarrow> (int \<times> 'a files_scheme) result" where
  "link_bad ip s =
    bindE (ilock (Some ip) s) (\<lambda>s.
    bindE (iupdate ip (upd_inode ip (add_nlink (- 1)) s)) (\<lambda>s.
    bindE (iunlockput ip s) op_fail))"

definition sys_link :: "'a files_scheme \<Rightarrow> (int \<times> 'a files_scheme) result" where
  "sys_link = with_arg (argstr 0) (\<lambda>old. with_arg (argstr 1) (\<lambda>new s.
    bindE (begin_op s) (\<lambda>s.
    bindE (namei old s) (\<lambda>(r, s). case r of
      None \<Rightarrow> op_fail s
    | Some ip \<Rightarrow>
      bindE (ilock (Some ip) s) (\<lambda>s.
      if i_type (inode_at ip s) = T_DIR then bindE (iunlockput ip s) op_fail
      else
        bindE (iupdate ip (upd_inode ip (add_nlink 1) s)) (\<lambda>s.
        bindE (iunlock (Some ip) s) (\<lambda>s.
        bindE (nameiparent new s) (\<lambda>(r, s). case r of
          None \<Rightarrow> link_bad ip s
        | Some (dp, name) \<Rightarrow>
          bindE (ilock (Some dp) s) (\<lambda>s.
          bindE (if i_dev (inode_at dp s) \<noteq> i_dev (inode_at ip s) then Inr (- 1, s)
                 else dirlink dp name (i_inum (inode_at ip s)) s) (\<lambda>(l, s).
          bindE (iunlockput dp s) (\<lambda>s.
          if l < 0 then link_bad ip s
          else bindE (iput ip s) (\<lambda>s.
            bindE (end_op s) (\<lambda>s. Inr (0, s))))))))))))))"

definition isdirempty :: "nat \<Rightarrow> 'a inodes_scheme \<Rightarrow> (bool \<times> 'a inodes_scheme) result" where
  "isdirempty dp s =
    bindE (loopE (Suc (unat (i_size (inode_at dp s)) div 16)) (\<lambda>(off, s). off < i_size (inode_at dp s))
      (\<lambda>(off, s).
        bindE (readi dp off DIRENT s) (\<lambda>((r, de), s).
        if r \<noteq> uint DIRENT then Inl (Panic ''isdirempty: readi'')
        else if de_inum de \<noteq> 0 then Inr (Inl (False, s))
        else Inr (Inr (off + DIRENT, s)))) (2 * DIRENT, s)) (\<lambda>x.
    case x of Inl r \<Rightarrow> Inr r | Inr (_, s) \<Rightarrow> Inr (True, s))"

text \<open>sys_unlink with \<open>dp\<close> and the entry's inode \<open>ip\<close> locked.\<close>

definition unlink_entry :: "nat \<Rightarrow> nat \<Rightarrow> u32 \<Rightarrow> 'a files_scheme \<Rightarrow> (int \<times> 'a files_scheme) result" where
  "unlink_entry dp ip off s =
    bindE (writei dp (replicate 16 0) off DIRENT s) (\<lambda>(r, s).
    if r \<noteq> uint DIRENT then Inl (Panic ''unlink: writei'')
    else
      bindE (if i_type (inode_at ip s) = T_DIR then iupdate dp (upd_inode dp (add_nlink (- 1)) s) else Inr s) (\<lambda>s.
      bindE (iunlockput dp s) (\<lambda>s.
      bindE (iupdate ip (upd_inode ip (add_nlink (- 1)) s)) (\<lambda>s.
      bindE (iunlockput ip s) (\<lambda>s.
      bindE (end_op s) (\<lambda>s. Inr (0, s)))))))"

definition sys_unlink :: "'a files_scheme \<Rightarrow> (int \<times> 'a files_scheme) result" where
  "sys_unlink = with_arg (argstr 0) (\<lambda>path s.
    bindE (begin_op s) (\<lambda>s.
    bindE (nameiparent path s) (\<lambda>(r, s). case r of
      None \<Rightarrow> op_fail s
    | Some (dp, name) \<Rightarrow>
      bindE (ilock (Some dp) s) (\<lambda>s.
      if namecmp name [46] = 0 \<or> namecmp name [46, 46] = 0 then bindE (iunlockput dp s) op_fail
      else bindE (dirlookup dp name s) (\<lambda>(r, s). case r of
        None \<Rightarrow> bindE (iunlockput dp s) op_fail
      | Some (ip, off) \<Rightarrow>
        bindE (ilock (Some ip) s) (\<lambda>s.
        if sint (i_nlink (inode_at ip s)) < 1 then Inl (Panic ''unlink: nlink < 1'')
        else bindE (if i_type (inode_at ip s) = T_DIR then isdirempty ip s else Inr (True, s)) (\<lambda>(e, s).
          if \<not> e then bindE (iunlockput ip s) (\<lambda>s. bindE (iunlockput dp s) op_fail)
          else unlink_entry dp ip off s)))))))"

text \<open>create returns the inode locked, or \<open>None\<close>.\<close>

definition create_dots :: "nat \<Rightarrow> nat \<Rightarrow> 'a files_scheme \<Rightarrow> 'a files_scheme result" where
  "create_dots dp ip s =
    bindE (iupdate dp (upd_inode dp (add_nlink 1) s)) (\<lambda>s.
    bindE (dirlink ip [46] (i_inum (inode_at ip s)) s) (\<lambda>(r, s).
    if r < 0 then Inl (Panic ''create dots'')
    else bindE (dirlink ip [46, 46] (i_inum (inode_at dp s)) s) (\<lambda>(r, s).
      if r < 0 then Inl (Panic ''create dots'') else Inr s)))"

definition create :: "u8 list \<Rightarrow> u16 \<Rightarrow> u16 \<Rightarrow> u16 \<Rightarrow> 'a files_scheme \<Rightarrow> (nat option \<times> 'a files_scheme) result" where
  "create path ty major minor s =
    bindE (nameiparent path s) (\<lambda>(r, s). case r of
      None \<Rightarrow> Inr (None, s)
    | Some (dp, name) \<Rightarrow>
      bindE (ilock (Some dp) s) (\<lambda>s.
      bindE (dirlookup dp name s) (\<lambda>(r, s). case r of
        Some (ip, _) \<Rightarrow>
          bindE (iunlockput dp s) (\<lambda>s.
          bindE (ilock (Some ip) s) (\<lambda>s.
          if ty = T_FILE \<and> i_type (inode_at ip s) = T_FILE then Inr (Some ip, s)
          else bindE (iunlockput ip s) (\<lambda>s. Inr (None, s))))
      | None \<Rightarrow>
          bindE (ialloc (i_dev (inode_at dp s)) ty s) (\<lambda>(ip, s).
          bindE (ilock (Some ip) s) (\<lambda>s.
          bindE (iupdate ip (upd_inode ip (\<lambda>i. i\<lparr>i_major := major, i_minor := minor, i_nlink := 1\<rparr>) s)) (\<lambda>s.
          bindE (if ty = T_DIR then create_dots dp ip s else Inr s) (\<lambda>s.
          bindE (dirlink dp name (i_inum (inode_at ip s)) s) (\<lambda>(r, s).
          if r < 0 then Inl (Panic ''create: dirlink'')
          else bindE (iunlockput dp s) (\<lambda>s. Inr (Some ip, s))))))))))"

text \<open>sys_open after the inode has been found or made and is locked.\<close>

definition open_inode :: "nat \<Rightarrow> u32 \<Rightarrow> 'a files_scheme \<Rightarrow> (int \<times> 'a files_scheme) result" where
  "open_inode ip omode s =
    (case filealloc s of
       (None, s) \<Rightarrow> bindE (iunlockput ip s) op_fail
     | (Some f, s) \<Rightarrow>
       bindE (fdalloc f s) (\<lambda>(r, s). case r of
         None \<Rightarrow> bindE (fileclose f s) (\<lambda>s. bindE (iunlockput ip s) op_fail)
       | Some fd \<Rightarrow>
         bindE (iunlock (Some ip) s) (\<lambda>s.
         bindE (end_op s) (\<lambda>s.
         Inr (int fd, upd_file f (\<lambda>x. x\<lparr>f_type := FD_INODE, f_ip := Some ip, f_off := 0,
           f_readable := omode AND O_WRONLY = 0,
           f_writable := (omode AND O_WRONLY \<noteq> 0 \<or> omode AND O_RDWR \<noteq> 0)\<rparr>) s)))))"

definition sys_open :: "'a files_scheme \<Rightarrow> (int \<times> 'a files_scheme) result" where
  "sys_open = with_arg (argstr 0) (\<lambda>path. with_arg (argint 1) (\<lambda>omode s.
    bindE (begin_op s) (\<lambda>s.
    if omode AND O_CREATE \<noteq> 0
    then bindE (create path T_FILE 0 0 s) (\<lambda>(r, s). case r of
        None \<Rightarrow> op_fail s
      | Some ip \<Rightarrow> open_inode ip omode s)
    else bindE (namei path s) (\<lambda>(r, s). case r of
        None \<Rightarrow> op_fail s
      | Some ip \<Rightarrow>
        bindE (ilock (Some ip) s) (\<lambda>s.
        if i_type (inode_at ip s) = T_DIR \<and> omode \<noteq> O_RDONLY then bindE (iunlockput ip s) op_fail
        else open_inode ip omode s)))))"

text \<open>The common end of sys_mkdir and sys_mknod.\<close>

definition made :: "nat option \<times> 'a files_scheme \<Rightarrow> (int \<times> 'a files_scheme) result" where
  "made = (\<lambda>(r, s). case r of
     None \<Rightarrow> op_fail s
   | Some ip \<Rightarrow> bindE (iunlockput ip s) (\<lambda>s. bindE (end_op s) (\<lambda>s. Inr (0, s))))"

definition sys_mkdir :: "'a files_scheme \<Rightarrow> (int \<times> 'a files_scheme) result" where
  "sys_mkdir s =
    bindE (begin_op s) (\<lambda>s.
    bindE (argstr 0 s) (\<lambda>a. case a of
      None \<Rightarrow> op_fail s
    | Some path \<Rightarrow> bindE (create path T_DIR 0 0 s) made))"

definition sys_mknod :: "'a files_scheme \<Rightarrow> (int \<times> 'a files_scheme) result" where
  "sys_mknod s =
    bindE (begin_op s) (\<lambda>s.
    bindE (argstr 0 s) (\<lambda>a. case a of
      None \<Rightarrow> op_fail s
    | Some path \<Rightarrow>
      bindE (argint 1 s) (\<lambda>a. case a of
        None \<Rightarrow> op_fail s
      | Some major \<Rightarrow>
        bindE (argint 2 s) (\<lambda>a. case a of
          None \<Rightarrow> op_fail s
        | Some minor \<Rightarrow> bindE (create path T_DEV (ucast major) (ucast minor) s) made))))"

definition sys_chdir :: "'a files_scheme \<Rightarrow> (int \<times> 'a files_scheme) result" where
  "sys_chdir s =
    bindE (begin_op s) (\<lambda>s.
    bindE (argstr 0 s) (\<lambda>a. case a of
      None \<Rightarrow> op_fail s
    | Some path \<Rightarrow>
      bindE (namei path s) (\<lambda>(r, s). case r of
        None \<Rightarrow> op_fail s
      | Some ip \<Rightarrow>
        bindE (ilock (Some ip) s) (\<lambda>s.
        if i_type (inode_at ip s) \<noteq> T_DIR then bindE (iunlockput ip s) op_fail
        else
          bindE (iunlock (Some ip) s) (\<lambda>s.
          case curproc s of
            None \<Rightarrow> Inl BadAccess
          | Some me \<Rightarrow>
            bindE (case p_cwd (ptable s ! me) of None \<Rightarrow> Inl BadAccess | Some cwd \<Rightarrow> iput cwd s) (\<lambda>s.
            bindE (end_op s) (\<lambda>s.
            Inr (0, upd_proc me (\<lambda>p. p\<lparr>p_cwd := Some ip\<rparr>) s))))))))"

text \<open>The loop of sys_exec with room for \<open>k\<close> more arguments.\<close>

fun exec_argv :: "nat \<Rightarrow> u32 \<Rightarrow> 'a procs_scheme \<Rightarrow> u8 list list option result" where
  "exec_argv 0 a s = Inr None"
| "exec_argv (Suc k) a s =
    bindE (fetchint a s) (\<lambda>r. case r of
      None \<Rightarrow> Inr None
    | Some uarg \<Rightarrow>
      if uarg = 0 then Inr (Some [])
      else bindE (fetchstr uarg s) (\<lambda>r. case r of
          None \<Rightarrow> Inr None
        | Some arg \<Rightarrow> bindE (exec_argv k (a + 4) s) (\<lambda>r. Inr (map_option ((#) arg) r))))"

definition sys_exec :: "'a files_scheme \<Rightarrow> (int \<times> 'a files_scheme) result" where
  "sys_exec = with_arg (argstr 0) (\<lambda>path. with_arg (argint 1) (\<lambda>uargv. with_arg (exec_argv MAXARG uargv) (\<lambda>argv.
    exec path argv)))"

definition sys_pipe :: "'a files_scheme \<Rightarrow> (int \<times> 'a files_scheme) result" where
  "sys_pipe = with_arg (argptr 0 8) (\<lambda>fd s.
    bindE (pipealloc s) (\<lambda>(r, s). case r of
      None \<Rightarrow> Inr (- 1, s)
    | Some (rf, wrf) \<Rightarrow>
      bindE (fdalloc rf s) (\<lambda>(r0, s). case r0 of
        None \<Rightarrow> bindE (fileclose rf s) (\<lambda>s. bindE (fileclose wrf s) (\<lambda>s. Inr (- 1, s)))
      | Some fd0 \<Rightarrow>
        bindE (fdalloc wrf s) (\<lambda>(r1, s). case r1 of
          None \<Rightarrow>
            bindE (fdclear fd0 s) (\<lambda>s.
            bindE (fileclose rf s) (\<lambda>s. bindE (fileclose wrf s) (\<lambda>s. Inr (- 1, s))))
        | Some fd1 \<Rightarrow>
            bindE (user_put (bytes32 (word_of_nat fd0)) fd s) (\<lambda>s.
            bindE (user_put (bytes32 (word_of_nat fd1)) (fd + 4) s) (\<lambda>s. Inr (0, s)))))))"

section \<open>Dispatch\<close>

text \<open>The table \<open>syscalls\<close> by call number (syscall.h).\<close>

definition syscalls :: "int \<times> int \<Rightarrow> ('a files_scheme \<Rightarrow> (int option \<times> 'a files_scheme) result) option list" where
  "syscalls junk =
    [None, Some (returns \<circ> sys_fork), Some sys_exit, Some sys_wait, Some (returns \<circ> sys_pipe),
     Some (returns \<circ> sys_read), Some (returns \<circ> sys_kill), Some (returns \<circ> sys_exec), Some (returns \<circ> sys_fstat),
     Some (returns \<circ> sys_chdir), Some (returns \<circ> sys_dup), Some (returns \<circ> sys_getpid), Some (returns \<circ> sys_sbrk),
     Some sys_sleep, Some (returns \<circ> sys_uptime), Some (returns \<circ> sys_open), Some (returns \<circ> sys_write),
     Some (returns \<circ> sys_mknod), Some (returns \<circ> sys_unlink), Some (returns \<circ> sys_link), Some (returns \<circ> sys_mkdir),
     Some (returns \<circ> sys_close), Some (returns \<circ> sys_printinfo), Some (returns \<circ> sys_sched_policy junk),
     Some (returns \<circ> sys_exec_time junk), Some (returns \<circ> sys_deadline junk), Some (returns \<circ> sys_rate junk)]"

definition set_eax :: "nat \<Rightarrow> int \<Rightarrow> 'a procs_scheme \<Rightarrow> 'a procs_scheme" where
  "set_eax me v = upd_proc me (\<lambda>p. p\<lparr>p_tf := (p_tf p)\<lparr>tf_eax := word_of_int v\<rparr>\<rparr>)"

definition syscall_of :: "int \<times> int \<Rightarrow> int \<Rightarrow> ('a files_scheme \<Rightarrow> (int option \<times> 'a files_scheme) result) option" where
  "syscall_of junk num =
    (let t = syscalls junk in if 0 < num \<and> num < int (length t) then t ! nat num else None)"

text \<open>The result is false when the call has switched to another process.\<close>

definition syscall :: "int \<times> int \<Rightarrow> 'a files_scheme \<Rightarrow> (bool \<times> 'a files_scheme) result" where
  "syscall junk s =
    bindE (myproc s) (\<lambda>(c, s). case c of
      None \<Rightarrow> Inl BadAccess
    | Some me \<Rightarrow>
      (let p = ptable s ! me; num = sint (tf_eax (p_tf p)) in
       case syscall_of junk num of
         Some h \<Rightarrow> bindE (h s) (\<lambda>(r, s). case r of None \<Rightarrow> Inr (False, s) | Some v \<Rightarrow> Inr (True, set_eax me v s))
       | None \<Rightarrow>
           bindE (cprintf (''%d %s: unknown sys call %d'' @ [CHR 0x0A])
             [Num (word_of_int (p_pid p)), Ptr (Some (p_name p)), Num (word_of_int num)] s) (\<lambda>s.
           Inr (True, set_eax me (- 1) s))))"

section \<open>Arguments lie in the memory of the process\<close>

lemma fetchstr_loop_spec:
  "fetchstr_loop n a s = Inr (Some t) \<Longrightarrow>
   length t < n \<and> 0 \<notin> set t \<and> user_bytes (length t + 1) a s = Inr (t @ [0])"
proof (induction n arbitrary: a t)
  case (Suc n)
  from Suc.prems obtain k where k: "user_ka False a s = Inr k" by auto
  show ?case
  proof (cases "pmem s k = 0")
    case True
    then show ?thesis using Suc.prems k by simp
  next
    case False
    then obtain u where u: "fetchstr_loop n (a + 1) s = Inr (Some u)" "t = pmem s k # u" using Suc.prems k by auto
    then show ?thesis using Suc.IH [OF u(1)] False k by simp
  qed
qed simp

text \<open>
  C31. What a system call takes from user memory lies in the memory of the process. For a process below KERNBASE, argptr accepts a
  pointer exactly when the whole range of bytes is below the size of the process, whatever 32-bit
  pointer and size the caller gives; an integer argument is read from below that size, and a string argument with its NUL lies
  below it and is what the memory holds.
\<close>

theorem args_in_process:
  assumes "this_proc s = Inr p" "unat (p_sz p) \<le> 2147483648" "sz < 2147483648"
  shows "(\<forall>a. argptr n sz s = Inr (Some a) \<longrightarrow> 0 \<le> sz \<and> unat a < unat (p_sz p) \<and> unat a + nat sz \<le> unat (p_sz p))
    \<and> (\<forall>i. argint n s = Inr (Some i) \<longrightarrow> argptr n sz s
         = Inr (if 0 \<le> sz \<and> unat i < unat (p_sz p) \<and> unat i + nat sz \<le> unat (p_sz p) then Some i else None))
    \<and> (\<forall>a w. fetchint a s = Inr (Some w) \<longrightarrow> unat a + 4 \<le> unat (p_sz p))
    \<and> (\<forall>a t. fetchstr a s = Inr (Some t) \<longrightarrow> unat a + length t < unat (p_sz p) \<and> 0 \<notin> set t
         \<and> user_bytes (length t + 1) a s = Inr (t @ [0]))"
proof -
  have sum: "unat (i + word_of_int sz) = unat i + nat sz" if "0 \<le> sz" "unat i < unat (p_sz p)" for i :: u32
  proof -
    have "unat (word_of_int sz :: u32) = nat sz" using that(1) assms(3) by (simp add: unat_eq_nat_uint uint_word_of_int)
    then show ?thesis using that assms(2,3) by (simp add: unat_word_ariths)
  qed
  have chk: "sz < 0 \<or> p_sz p \<le> i \<or> p_sz p < i + word_of_int sz
      \<longleftrightarrow> \<not> (0 \<le> sz \<and> unat i < unat (p_sz p) \<and> unat i + nat sz \<le> unat (p_sz p))" for i :: u32
    using sum [of i] by (cases "unat i < unat (p_sz p)"; cases "0 \<le> sz") (auto simp: word_le_nat_alt word_less_nat_alt)
  have ptr: "argptr n sz s = Inr (if 0 \<le> sz \<and> unat i < unat (p_sz p) \<and> unat i + nat sz \<le> unat (p_sz p) then Some i else None)"
    if "argint n s = Inr (Some i)" for i
    using that assms(1) unfolding argptr_def by (simp add: chk)
  have "0 \<le> sz \<and> unat a < unat (p_sz p) \<and> unat a + nat sz \<le> unat (p_sz p)" if a: "argptr n sz s = Inr (Some a)" for a
  proof -
    obtain i where i: "argint n s = Inr (Some i)" using a by (auto simp: argptr_def split: option.splits)
    then show ?thesis using ptr [OF i] a by (auto split: if_splits)
  qed
  moreover have "unat a + 4 \<le> unat (p_sz p)" if "fetchint a s = Inr (Some w)" for a w
  proof -
    have "\<not> p_sz p \<le> a" "\<not> p_sz p < a + 4" using that assms(1) by (auto simp: fetchint_def split: if_splits)
    then have "unat a < unat (p_sz p)" "unat (a + 4) \<le> unat (p_sz p)" by (simp_all add: word_le_nat_alt word_less_nat_alt)
    then show ?thesis using assms(2) by (simp add: unat_word_ariths)
  qed
  moreover have "unat a + length t < unat (p_sz p) \<and> 0 \<notin> set t \<and> user_bytes (length t + 1) a s = Inr (t @ [0])"
    if f: "fetchstr a s = Inr (Some t)" for a t
  proof -
    have "\<not> p_sz p \<le> a" "fetchstr_loop (unat (p_sz p - a)) a s = Inr (Some t)"
      using f assms(1) by (auto simp: fetchstr_def split: if_splits)
    moreover from this(1) have "unat (p_sz p - a) = unat (p_sz p) - unat a" by (simp add: unat_sub)
    ultimately show ?thesis using fetchstr_loop_spec by (fastforce simp: word_le_nat_alt)
  qed
  ultimately show ?thesis using ptr by blast
qed

text \<open>A process of one page, whose first argument is the address 16 of the string \<open>hi\<close>.\<close>

definition user_pmem :: memory where
  "user_pmem = store32 (store32 (store32 (store32 (\<lambda>_. 0) 0x80001000 0x2007) 0x80002000 0x3007) 0x80003004 16) 0x80003010 0x6968"

definition user_ex :: procs where
  "user_ex = (procs_ex [(task 3 0 9 2)\<lparr>p_sz := 4096\<rparr>])
     \<lparr>cpus := [(cpus two_cpus ! 0)\<lparr>c_proc := Some 0\<rparr>, cpus two_cpus ! 1], cr3 := (\<lambda>_. 0x1000), pmem := user_pmem\<rparr>"

theorem args_in_process_witness:
  "argptr 0 8 user_ex = Inr (Some 16) \<and> argstr 0 user_ex = Inr (Some [0x68, 0x69])"
proof -
  have p: "this_proc user_ex = Inr ((task 3 0 9 2)\<lparr>p_sz := 4096\<rparr>)"
    by (simp add: this_proc_def user_ex_def curproc_def cur_eq procs_ex_def two_cpus_def)
  have sel: "pmem user_ex = user_pmem" "cr3 user_ex (m_lapicid user_ex) = 0x1000" by (simp_all add: user_ex_def)
  have ld: "load32 user_pmem 0x80001000 = 0x2007" "load32 user_pmem 0x80002000 = 0x3007"
    by (simp_all add: load32_def user_pmem_def store32_def)
  have ka: "user_ka False va user_ex = Inr (0x80003000 + va)" if "va \<in> {4, 5, 6, 7, 16, 17, 18}" for va
    using that by (auto simp: user_ka_def walkpgdir_def sel ld PDX_def PTX_def P2V_def KERNBASE_def present_def PTE_P_def PTE_ADDR_def Let_def)
  have bt: "user_pmem 0x80003004 = 16" "user_pmem 0x80003005 = 0" "user_pmem 0x80003006 = 0" "user_pmem 0x80003007 = 0"
    "user_pmem 0x80003010 = 0x68" "user_pmem 0x80003011 = 0x69" "user_pmem 0x80003012 = 0"
    by (simp_all add: user_pmem_def store32_def)
  have ub: "user_bytes 4 4 user_ex = Inr [16, 0, 0, 0]" by (simp add: numeral_eq_Suc ka sel bt del: One_nat_def) 
  have i: "argint 0 user_ex = Inr (Some 16)"
    by (simp add: argint_def p fetchint_def task_def proc0_def trapframe0_def ub get32_def word32_def slice_def)
  have "fetchstr_loop (Suc (Suc (Suc k))) 16 user_ex = Inr (Some [0x68, 0x69])" for k by (simp add: ka sel bt)
  from this [of 4077] have "argstr 0 user_ex = Inr (Some [0x68, 0x69])" by (simp add: argstr_def i fetchstr_def p)
  then show ?thesis using args_in_process [OF p, of 8 0] i by simp
qed

end
