(* ===== verification/Kbd.thy ===== *)
theory Kbd
  imports Prelude
begin

unbundle bit_operations_syntax

text \<open>
  The keyboard driver (kbd.c, kbd.h): from scan codes to characters. \<open>kbdgetc\<close> takes what the status
  and data ports read as, and the static variable \<open>shift\<close>. Characters in the key maps are given by
  their codes.
\<close>

section \<open>Key maps\<close>

definition SHIFT :: u32 where "SHIFT = 1"
definition CTL :: u32 where "CTL = 2"
definition ALT :: u32 where "ALT = 4"
definition CAPSLOCK :: u32 where "CAPSLOCK = 8"
definition NUMLOCK :: u32 where "NUMLOCK = 16"
definition SCROLLLOCK :: u32 where "SCROLLLOCK = 32"
definition E0ESC :: u32 where "E0ESC = 64"

text \<open>An array of 256 entries: its first ones, then some at given places, zero elsewhere.\<close>

definition keymap :: "u8 list \<Rightarrow> (nat \<times> u8) list \<Rightarrow> nat \<Rightarrow> u8" where
  "keymap xs ys k = (case map_of ys k of Some c \<Rightarrow> c | None \<Rightarrow> if k < length xs then xs ! k else 0)"

definition shiftcode :: "nat \<Rightarrow> u32" where
  "shiftcode k = (if k = 0x1D then CTL else if k = 0x2A then SHIFT else if k = 0x36 then SHIFT
     else if k = 0x38 then ALT else if k = 0x9D then CTL else if k = 0xB8 then ALT else 0)"

definition togglecode :: "nat \<Rightarrow> u32" where
  "togglecode k = (if k = 0x3A then CAPSLOCK else if k = 0x45 then NUMLOCK else if k = 0x46 then SCROLLLOCK else 0)"

definition normalmap :: "nat \<Rightarrow> u8" where
  "normalmap = keymap
    [0, 27, 49, 50, 51, 52, 53, 54, 55, 56, 57, 48, 45, 61, 8, 9,
     113, 119, 101, 114, 116, 121, 117, 105, 111, 112, 91, 93, 10, 0, 97, 115,
     100, 102, 103, 104, 106, 107, 108, 59, 39, 96, 0, 92, 122, 120, 99, 118,
     98, 110, 109, 44, 46, 47, 0, 42, 0, 32, 0, 0, 0, 0, 0, 0,
     0, 0, 0, 0, 0, 0, 0, 55, 56, 57, 45, 52, 53, 54, 43, 49,
     50, 51, 48, 46, 0, 0, 0, 0]
    [(0x9C, 0x0A), (0xB5, 0x2F), (0xC8, 0xE2), (0xD0, 0xE3), (0xC9, 0xE6), (0xD1, 0xE7), (0xCB, 0xE4), (0xCD, 0xE5), (0x97, 0xE0), (0xCF, 0xE1), (0xD2, 0xE8), (0xD3, 0xE9)]"

definition shiftmap :: "nat \<Rightarrow> u8" where
  "shiftmap = keymap
    [0, 27, 33, 64, 35, 36, 37, 94, 38, 42, 40, 41, 95, 43, 8, 9,
     81, 87, 69, 82, 84, 89, 85, 73, 79, 80, 123, 125, 10, 0, 65, 83,
     68, 70, 71, 72, 74, 75, 76, 58, 34, 126, 0, 124, 90, 88, 67, 86,
     66, 78, 77, 60, 62, 63, 0, 42, 0, 32, 0, 0, 0, 0, 0, 0,
     0, 0, 0, 0, 0, 0, 0, 55, 56, 57, 45, 52, 53, 54, 43, 49,
     50, 51, 48, 46, 0, 0, 0, 0]
    [(0x9C, 0x0A), (0xB5, 0x2F), (0xC8, 0xE2), (0xD0, 0xE3), (0xC9, 0xE6), (0xD1, 0xE7), (0xCB, 0xE4), (0xCD, 0xE5), (0x97, 0xE0), (0xCF, 0xE1), (0xD2, 0xE8), (0xD3, 0xE9)]"

definition ctlmap :: "nat \<Rightarrow> u8" where
  "ctlmap = keymap
    [0, 0, 0, 0, 0, 0, 0, 0, 0, 0, 0, 0, 0, 0, 0, 0,
     17, 23, 5, 18, 20, 25, 21, 9, 15, 16, 0, 0, 13, 0, 1, 19,
     4, 6, 7, 8, 10, 11, 12, 0, 0, 0, 0, 28, 26, 24, 3, 22,
     2, 14, 13, 0, 0, 239, 0, 0]
    [(0x9C, 0x0D), (0xB5, 0xEF), (0xC8, 0xE2), (0xD0, 0xE3), (0xC9, 0xE6), (0xD1, 0xE7), (0xCB, 0xE4), (0xCD, 0xE5), (0x97, 0xE0), (0xCF, 0xE1), (0xD2, 0xE8), (0xD3, 0xE9)]"

definition charcode :: "u32 \<Rightarrow> nat \<Rightarrow> u8" where
  "charcode m = (if m = 0 then normalmap else if m = 1 then shiftmap else ctlmap)"

section \<open>The driver\<close>

definition swap_case :: "u8 \<Rightarrow> u8" where
  "swap_case c = (if 97 \<le> c \<and> c \<le> 122 then c - 32 else if 65 \<le> c \<and> c \<le> 90 then c + 32 else c)"

definition KBS_DIB :: u8 where "KBS_DIB = 1"

definition kbdgetc :: "u8 \<times> u8 \<Rightarrow> u32 \<Rightarrow> int \<times> u32" where
  "kbdgetc = (\<lambda>(st, data) shift.
    if st AND KBS_DIB = 0 then (- 1, shift)
    else if data = 0xE0 then (0, shift OR E0ESC)
    else if data AND 0x80 \<noteq> 0 then
      let data = (if shift AND E0ESC \<noteq> 0 then data else data AND 0x7F) in
      (0, shift AND NOT (shiftcode (unat data) OR E0ESC))
    else
      let (data, shift) = (if shift AND E0ESC \<noteq> 0 then (data OR 0x80, shift AND NOT E0ESC) else (data, shift));
          shift = (shift OR shiftcode (unat data)) XOR togglecode (unat data);
          c = charcode (shift AND (CTL OR SHIFT)) (unat data) in
      (uint (if shift AND CAPSLOCK \<noteq> 0 then swap_case c else c), shift))"

text \<open>The characters of successive calls while the controller delivers \<open>ports\<close>.\<close>

fun kbd_chars :: "(u8 \<times> u8) list \<Rightarrow> u32 \<Rightarrow> int list \<times> u32" where
  "kbd_chars [] shift = ([], shift)"
| "kbd_chars (p # ps) shift =
    (let (c, shift) = kbdgetc p shift in
     if c < 0 then ([], shift) else let (cs, shift) = kbd_chars ps shift in (c # cs, shift))"

end
