(* ===== verification/Trap.thy ===== *)
theory Trap
  imports Syscall Kbd
begin

unbundle bit_operations_syntax

text \<open>
  Traps and interrupts (trap.c), with the interrupt handlers of the keyboard and the serial port
  (kbd.c, uart.c). What the devices deliver during an interrupt, and the values that are only
  printed, are given by a \<open>trap_env\<close>. The acknowledgement of an interrupt to the local APIC changes
  nothing that is modelled.
\<close>

section \<open>Data\<close>

definition T_SYSCALL :: u32 where "T_SYSCALL = 64"
definition T_IRQ0 :: u32 where "T_IRQ0 = 32"
definition IRQ_TIMER :: u32 where "IRQ_TIMER = 0"
definition IRQ_KBD :: u32 where "IRQ_KBD = 1"
definition IRQ_COM1 :: u32 where "IRQ_COM1 = 4"
definition IRQ_IDE :: u32 where "IRQ_IDE = 14"
definition IRQ_SPURIOUS :: u32 where "IRQ_SPURIOUS = 31"

record kernel = files +
  kbd_shift :: u32

record trap_env =
  te_junk :: "int \<times> int"
  te_kbd :: "(u8 \<times> u8) list"
  te_uart :: "(u8 \<times> u8) list"
  te_pcs :: "nat \<Rightarrow> u32 list"
  te_cr2 :: u32

section \<open>Interrupts\<close>

definition kbdintr :: "trap_env \<Rightarrow> 'a kernel_scheme \<Rightarrow> 'a kernel_scheme result" where
  "kbdintr e s =
    (let (cs, sh) = kbd_chars (te_kbd e) (kbd_shift s) in consoleintr (te_pcs e) cs (s\<lparr>kbd_shift := sh\<rparr>))"

definition uartgetc :: "u8 \<times> u8 \<Rightarrow> 'a cons_scheme \<Rightarrow> int" where
  "uartgetc = (\<lambda>(lsr, rbr) s. if \<not> uart s then - 1 else if lsr AND 1 = 0 then - 1 else uint rbr)"

definition uartintr :: "trap_env \<Rightarrow> 'a cons_scheme \<Rightarrow> 'a cons_scheme result" where
  "uartintr e s = consoleintr (te_pcs e) (map (\<lambda>p. uartgetc p s) (te_uart e)) s"

definition timerintr :: "'a procs_scheme \<Rightarrow> 'a procs_scheme result" where
  "timerintr s =
    bindE (cpuid s) (\<lambda>c.
    if c = 0
    then bindE (acquire TicksLock s) (\<lambda>s.
      bindE (wakeup ChTicks (s\<lparr>ticks := ticks s + 1\<rparr>)) (\<lambda>s.
      release TicksLock s))
    else Inr s)"

section \<open>Traps\<close>

text \<open>The cases of the switch of trap; the default case panics for a trap in the kernel and marks the process killed otherwise.\<close>

definition trap_default :: "trap_env \<Rightarrow> trapframe \<Rightarrow> 'a cons_scheme \<Rightarrow> 'a cons_scheme result" where
  "trap_default e tf s =
    bindE (myproc s) (\<lambda>(c, s).
    bindE (cpuid s) (\<lambda>i.
    case c of
      None \<Rightarrow> Inl (Panic ''trap'')
    | Some me \<Rightarrow>
      if tf_cs tf AND 3 = 0 then Inl (Panic ''trap'')
      else
        bindE (cprintf (''pid %d %s: trap %d err %d on cpu %d eip 0x%x addr 0x%x--kill proc'' @ [CHR 0x0A])
          [Num (word_of_int (p_pid (ptable s ! me))), Ptr (Some (p_name (ptable s ! me))), Num (tf_trapno tf),
           Num (tf_err tf), Num (word_of_nat i), Num (tf_eip tf), Num (te_cr2 e)] s) (\<lambda>s.
        Inr (upd_proc me (\<lambda>p. p\<lparr>p_killed := True\<rparr>) s))))"

definition trap_irq :: "trap_env \<Rightarrow> trapframe \<Rightarrow> 'a kernel_scheme \<Rightarrow> 'a kernel_scheme result" where
  "trap_irq e tf s =
    (let n = tf_trapno tf in
     if n = T_IRQ0 + IRQ_TIMER then timerintr s
     else if n = T_IRQ0 + IRQ_IDE then ideintr s
     else if n = T_IRQ0 + IRQ_IDE + 1 then Inr s
     else if n = T_IRQ0 + IRQ_KBD then kbdintr e s
     else if n = T_IRQ0 + IRQ_COM1 then uartintr e s
     else if n = T_IRQ0 + 7 \<or> n = T_IRQ0 + IRQ_SPURIOUS then
       bindE (cpuid s) (\<lambda>i.
       cprintf (''cpu%d: spurious interrupt at %x:%x'' @ [CHR 0x0A])
         [Num (word_of_nat i), Num (ucast (tf_cs tf)), Num (tf_eip tf)] s)
     else trap_default e tf s)"

text \<open>
  \<open>if(myproc() && myproc()->killed && (tf->cs&3) == DPL_USER) exit();\<close> As for the whole of trap, the
  result is false when the process has been switched out and does not return from here.
\<close>

definition exit_if_killed :: "trapframe \<Rightarrow> 'a files_scheme \<Rightarrow> (bool \<times> 'a files_scheme) result" where
  "exit_if_killed tf s =
    bindE (myproc s) (\<lambda>(c, s). case c of
      None \<Rightarrow> Inr (True, s)
    | Some me \<Rightarrow>
      if p_killed (ptable s ! me) \<and> tf_cs tf AND 3 = DPL_USER
      then bindE (exit_enter s) (\<lambda>s. Inr (False, s)) else Inr (True, s))"

text \<open>What a clock tick does to the running process.\<close>

definition trap_tick :: "trapframe \<Rightarrow> 'a files_scheme \<Rightarrow> (bool \<times> 'a files_scheme) result" where
  "trap_tick tf s =
    bindE (myproc s) (\<lambda>(c, s). case c of
      None \<Rightarrow> Inr (True, s)
    | Some me \<Rightarrow>
      let p = ptable s ! me in
      if p_state p = RUNNING \<and> tf_trapno tf = T_IRQ0 + IRQ_TIMER
      then
        if 0 \<le> p_sched_policy p \<and> p_execution_time p \<le> p_elapsed_time p
        then bindE (cprintf (''The arrival time and pid value of the completed process is %d %d'' @ [CHR 0x0A])
               [Num (word_of_int (p_arrival_time p)), Num (word_of_int (p_pid p))] s) (\<lambda>s.
             bindE (exit_enter s) (\<lambda>s. Inr (False, s)))
        else bindE (yield_enter s) (\<lambda>s. Inr (False, s))
      else Inr (True, s))"

text \<open>A system call: the first test of killed, the call, and the test behind it.\<close>

definition trap_killed :: "'a files_scheme \<Rightarrow> (bool \<times> 'a files_scheme) result" where
  "trap_killed s =
    bindE (myproc s) (\<lambda>(c, s). case c of
      None \<Rightarrow> Inl BadAccess
    | Some me \<Rightarrow>
      if p_killed (ptable s ! me) then bindE (exit_enter s) (\<lambda>s. Inr (False, s)) else Inr (True, s))"

definition and_then ::
  "(bool \<times> 's) result \<Rightarrow> ('s \<Rightarrow> (bool \<times> 's) result) \<Rightarrow> (bool \<times> 's) result"
where
  "and_then r f = bindE r (\<lambda>(b, s). if b then f s else Inr (False, s))"

definition set_tf :: "trapframe \<Rightarrow> 'a procs_scheme \<Rightarrow> (bool \<times> 'a procs_scheme) result" where
  "set_tf tf s =
    bindE (myproc s) (\<lambda>(c, s). case c of
      None \<Rightarrow> Inl BadAccess
    | Some me \<Rightarrow> Inr (True, upd_proc me (\<lambda>p. p\<lparr>p_tf := tf\<rparr>) s))"

definition trap :: "trap_env \<Rightarrow> trapframe \<Rightarrow> 'a kernel_scheme \<Rightarrow> (bool \<times> 'a kernel_scheme) result" where
  "trap e tf s =
    (if tf_trapno tf = T_SYSCALL
     then and_then (and_then (and_then (trap_killed s) (set_tf tf)) (syscall (te_junk e))) trap_killed
     else
       bindE (trap_irq e tf s) (\<lambda>s.
       and_then (and_then (exit_if_killed tf s) (trap_tick tf)) (exit_if_killed tf)))"

text \<open>A process that has given up the processor in \<open>trap_tick\<close> goes on here.\<close>

definition trap_resume :: "trapframe \<Rightarrow> bool \<Rightarrow> 'a files_scheme \<Rightarrow> (bool \<times> 'a files_scheme) result" where
  "trap_resume tf intena s = bindE (yield_exit intena s) (exit_if_killed tf)"

text \<open>The gates of tvinit: whether a gate is a trap gate, and its privilege level.\<close>

definition tvinit_gate :: "nat \<Rightarrow> bool \<times> u16" where
  "tvinit_gate i = (if i = unat T_SYSCALL then (True, DPL_USER) else (False, 0))"

definition tvinit :: "'a machine_scheme \<Rightarrow> 'a machine_scheme" where
  "tvinit s = initlock TicksLock ''time'' s"

section \<open>The clock interrupt\<close>

text \<open>myproc leaves the kernel state alone.\<close>

lemma myproc_ok:
  assumes "cpu_ok s c"
  shows "\<exists>t. myproc s = Inr (c_proc (cpus s ! c), t) \<and> kstate t = kstate s \<and> mach_sim s t"
proof -
  let ?u = "pushed c 1 s"
  have b: "c < length (cpus s)" "0 \<le> c_ncli (cpus s ! c)" using assms cpu_ok_bound by (auto simp: cpu_ok_def)
  have u: "cpu_ok ?u c" "0 < c_ncli (cpus ?u ! c)" using cpu_ok_pushed [OF assms, of 1] b by simp_all
  have m: "mycpu ?u = Inr c" using mycpu_ok [OF u(1)] by simp
  have p: "c_proc (cpus ?u ! c) = c_proc (cpus s ! c)" using b by (simp add: pushed_def)
  have "myproc s = Inr (c_proc (cpus s ! c), popped c 1 ?u)"
    using pushcli_ok [OF assms] m popcli_ok [OF u] p by (simp add: myproc_def Let_def)
  moreover have "mach_sim s (popped c 1 ?u)"
    using popped_pushed [OF assms, of 1] b
    by (simp add: mach_sim_def lk_free_def) (simp add: popped_def pushed_def map_update_same)
  ultimately show ?thesis by auto
qed

text \<open>A critical section inside another one changes only the owner field of its free lock.\<close>

lemma nested_section:
  assumes "cpu_ok s i" "0 < c_ncli (cpus s ! i)" "mach t = mach (locked l i s)"
  shows "mach (unlocked l i t) = mach (upd_lock l (\<lambda>k. k\<lparr>lk_cpu := None, lk_locked := 0\<rparr>) s)"
proof -
  note m = machD [OF assms(3)]
  have "cpus (unlocked l i t) = cpus (popped i 1 (pushed i 1 s))" "m_IF (unlocked l i t) = m_IF (popped i 1 (pushed i 1 s))"
    "m_lapicid (unlocked l i t) = m_lapicid s" "locks (unlocked l i t) = (locks s)(l := (locks s l)\<lparr>lk_cpu := None, lk_locked := 0\<rparr>)"
    using m by (simp_all add: unlocked_def locked_def popped_def upd_lock_def)
  then show ?thesis unfolding popped_pushed_nested [OF assms(1,2)] by (simp add: mach_def upd_lock_def)
qed

text \<open>
  \<open>in_handler s c me\<close>: processor \<open>c\<close> runs an interrupt handler, with interrupts off and no lock held, in the
  context of process \<open>me\<close>.
\<close>

definition in_handler :: "'a procs_scheme \<Rightarrow> nat \<Rightarrow> nat \<Rightarrow> bool" where
  "in_handler s c me \<longleftrightarrow> cpu_ok s c \<and> c_ncli (cpus s ! c) = 0 \<and> \<not> m_IF s (m_lapicid s)
     \<and> c_proc (cpus s ! c) = Some me \<and> me < length (ptable s) \<and> lk_free PtableLock s \<and> lk_free TicksLock s"

lemma mach_sim_cpu:
  assumes "mach_sim s t" "c < length (cpus s)"
  shows "c_ncli (cpus t ! c) = c_ncli (cpus s ! c)" "c_proc (cpus t ! c) = c_proc (cpus s ! c)"
proof -
  have l: "length (cpus t) = length (cpus s)" using assms(1) map_eq_imp_length_eq unfolding mach_sim_def by blast
  show "c_ncli (cpus t ! c) = c_ncli (cpus s ! c)" "c_proc (cpus t ! c) = c_proc (cpus s ! c)"
    using assms l unfolding mach_sim_def by (metis nth_map)+
qed

lemma in_handler_sim:
  assumes "in_handler s c me" "mach_sim s t" "length (ptable t) = length (ptable s)"
  shows "in_handler t c me"
  using assms(1,3) cpu_ok_sim [OF assms(2), of c] mach_sim_cpu [OF assms(2), of c] cpu_ok_bound [of s c] assms(2)
  by (auto simp: in_handler_def mach_sim_def)

lemma kstate_wakeup1: "kstate u = kstate s \<Longrightarrow> kstate (wakeup1 ch u) = kstate (wakeup1 ch s)"
  using kstate_procs(1) [of u s] kstate_update(1) [of u s] by (simp add: wakeup1_def)

lemma wakeup_nested:
  assumes "cpu_ok s c" "0 < c_ncli (cpus s ! c)" "lk_free PtableLock s"
  shows "\<exists>t. wakeup ch s = Inr t \<and> kstate t = kstate (wakeup1 (Some ch) s)
    \<and> mach t = mach (upd_lock PtableLock (\<lambda>k. k\<lparr>lk_cpu := None, lk_locked := 0\<rparr>) s)"
proof -
  let ?v = "wakeup1 (Some ch) (locked PtableLock c s)"
  have "wakeup ch s = Inr (unlocked PtableLock c ?v)"
    using with_lock_ok [OF assms(1,3), of "\<lambda>s. Inr ((), wakeup1 (Some ch) s)" "()" ?v] by (simp add: wakeup_def)
  moreover have "kstate ?v = kstate (wakeup1 (Some ch) s)"
    by (rule kstate_wakeup1) simp
  ultimately show ?thesis using nested_section [OF assms(1,2), of ?v PtableLock] by simp
qed

lemma timerintr_spec:
  assumes "in_handler s c me"
  shows "\<exists>t. timerintr s = Inr t \<and> mach_sim s t
    \<and> kstate t = kstate (if c = 0 then wakeup1 (Some ChTicks) (s\<lparr>ticks := ticks s + 1\<rparr>) else s)"
proof -
  have h: "cpu_ok s c" "\<not> m_IF s (m_lapicid s)" "lk_free PtableLock s" "lk_free TicksLock s"
    using assms by (auto simp: in_handler_def)
  have id: "cpuid s = Inr c" using mycpu_ok [OF h(1,2)] by (simp add: cpuid_def)
  show ?thesis
  proof (cases "c = 0")
    case True
    let ?l = "locked TicksLock c s" let ?u = "?l\<lparr>ticks := ticks ?l + 1\<rparr>"
    let ?s = "upd_lock PtableLock (\<lambda>k. k\<lparr>lk_cpu := None, lk_locked := 0\<rparr>) s"
    note lo = locked_ok [OF h(1), of TicksLock]
    have m: "mach ?u = mach ?l" by simp
    have u: "cpu_ok ?u c" "0 < c_ncli (cpus ?u ! c)" "lk_free PtableLock ?u"
      using lo(1,2) h(3) by (auto simp: cpu_ok_def lk_free_def locked_def upd_lock_def)
    obtain t where t: "wakeup ChTicks ?u = Inr t" "kstate t = kstate (wakeup1 (Some ChTicks) ?u)"
      "mach t = mach (upd_lock PtableLock (\<lambda>k. k\<lparr>lk_cpu := None, lk_locked := 0\<rparr>) ?u)"
      using wakeup_nested [OF u] by blast
    have lt: "mach t = mach (locked TicksLock c ?s)"
      using t(3) by (simp add: mach_def locked_def pushed_def upd_lock_def fun_upd_twist)
    have s: "cpu_ok ?s c" "lk_free TicksLock ?s" "mach_sim s ?s"
      using h by (auto simp: cpu_ok_def lk_free_def upd_lock_def mach_sim_def)
    have r: "release TicksLock t = Inr (unlocked TicksLock c t)"
      using release_ok [of t c TicksLock] locked_ok [OF s(1), of TicksLock] machD [OF lt] cpu_ok_mach [OF lt]
      by (simp add: unlocked_def)
    have "acquire TicksLock s = Inr ?l" using acquire_ok [OF h(1)] h(4) by (simp add: lk_free_def locked_def)
    then have "timerintr s = Inr (unlocked TicksLock c t)" using True id t(1) r by (simp add: timerintr_def)
    moreover have "mach_sim s (unlocked TicksLock c t)"
      using mach_sim_trans [OF s(3) mach_sim_section [OF s(1,2) lt]] .
    moreover have "kstate t = kstate (wakeup1 (Some ChTicks) (s\<lparr>ticks := ticks s + 1\<rparr>))"
    proof -
      have "kstate ?u = kstate (s\<lparr>ticks := ticks s + 1\<rparr>)"
        using kstate_update(5) [of ?l s] kstate_procs(6) [of ?l s] by simp
      then show ?thesis unfolding t(2) by (rule kstate_wakeup1)
    qed
    ultimately show ?thesis using True by simp
  qed (use id in \<open>simp add: timerintr_def\<close>)
qed

text \<open>A process that gives up the processor in a handler is runnable again, and ptable.lock is held.\<close>

lemma yield_enter_spec:
  assumes "in_handler s c me"
  shows "\<exists>t. yield_enter s = Inr t
    \<and> kstate t = kstate (upd_proc me (\<lambda>p. p\<lparr>p_state := RUNNABLE, p_context := InYield False\<rparr>) s)
    \<and> lk_locked (locks t PtableLock) = 1 \<and> lk_cpu (locks t PtableLock) = Some c"
proof -
  have h: "cpu_ok s c" "\<not> m_IF s (m_lapicid s)" "lk_free PtableLock s" "c_ncli (cpus s ! c) = 0" "c_proc (cpus s ! c) = Some me"
    "me < length (ptable s)" using assms by (auto simp: in_handler_def)
  let ?l = "locked PtableLock c s" let ?u = "upd_proc me (\<lambda>p. p\<lparr>p_state := RUNNABLE\<rparr>) ?l"
  let ?t = "upd_proc me (\<lambda>p. p\<lparr>p_context := InYield False\<rparr>) ?u"
  note lo = locked_ok [OF h(1), of PtableLock]
  have b: "c < length (cpus s)" using cpu_ok_bound [OF h(1)] .
  have c: "c_proc (cpus ?l ! c) = Some me" "c_ncli (cpus ?l ! c) = 1" "\<not> c_intena (cpus ?l ! c)"
    using h b by (auto simp: locked_def pushed_def upd_lock_def)
  have "mach ?u = mach ?l" by simp
  note m = machD [OF this]
  have u: "cpu_ok ?u c" "0 < c_ncli (cpus ?u ! c)" using lo(1,2) cpu_ok_mach [of ?u ?l] m by simp_all
  have p: "ptable ?l = ptable s" using kstate_procs(1) [of ?l s] by simp
  have off: "\<not> m_IF ?u (m_lapicid ?u)" using u by (simp add: cpu_ok_def)
  have "acquire PtableLock s = Inr ?l" using acquire_ok [OF h(1)] h(3) by (simp add: lk_free_def locked_def)
  moreover have "myproc ?l = Inr (Some me, ?l)" using myproc_nested [OF lo(1,2)] c by simp
  moreover have "sched_enter InYield ?u = Inr ?t"
    using myproc_nested [OF u] holding_nested [OF u, of PtableLock] mycpu_ok [OF u(1) off] c m lo(3,4) off h(6) p
    by (simp add: sched_enter_def readeflags_IF_def)
  ultimately have "yield_enter s = Inr ?t" by (simp add: yield_enter_def)
  moreover have "kstate ?t = kstate (upd_proc me (\<lambda>p. p\<lparr>p_state := RUNNABLE, p_context := InYield False\<rparr>) s)"
  proof -
    have "?t = upd_proc me (\<lambda>p. p\<lparr>p_state := RUNNABLE, p_context := InYield False\<rparr>) ?l"
      using h(6) p by (simp add: upd_proc_def)
    then show ?thesis using kstate_upd_proc [of ?l s] by simp
  qed
  moreover have "locks ?t = locks ?l" by (simp add: upd_proc_def)
  ultimately show ?thesis using lo(3,4) by auto
qed

lemma exit_if_killed_alive:
  assumes "in_handler s c me" "\<not> p_killed (ptable s ! me)"
  shows "\<exists>t. exit_if_killed tf s = Inr (True, t) \<and> kstate t = kstate s \<and> mach_sim s t"
proof -
  obtain t where t: "myproc s = Inr (Some me, t)" "kstate t = kstate s" "mach_sim s t"
    using myproc_ok [of s c] assms(1) by (auto simp: in_handler_def)
  then show ?thesis using assms(2) kstate_procs(1) [OF t(2)] by (simp add: exit_if_killed_def)
qed

lemma trap_tick_spec:
  assumes "in_handler s c me" "p_state (ptable s ! me) = RUNNING" "tf_trapno tf = T_IRQ0 + IRQ_TIMER"
  defines "p \<equiv> ptable s ! me"
  shows "if 0 \<le> p_sched_policy p \<and> p_execution_time p \<le> p_elapsed_time p
    then \<exists>u. kstate u = kstate s \<and> trap_tick tf s =
      bindE (cprintf (''The arrival time and pid value of the completed process is %d %d'' @ [CHR 0x0A])
          [Num (word_of_int (p_arrival_time p)), Num (word_of_int (p_pid p))] u) (\<lambda>u.
      bindE (exit_enter u) (\<lambda>t. Inr (False, t)))
    else \<exists>t. trap_tick tf s = Inr (False, t)
      \<and> kstate t = kstate (upd_proc me (\<lambda>p. p\<lparr>p_state := RUNNABLE, p_context := InYield False\<rparr>) s)
      \<and> lk_locked (locks t PtableLock) = 1 \<and> lk_cpu (locks t PtableLock) = Some c"
proof -
  obtain u where u: "myproc s = Inr (Some me, u)" "kstate u = kstate s" "mach_sim s u"
    using myproc_ok [of s c] assms(1) by (auto simp: in_handler_def)
  have pu: "ptable u = ptable s" by (rule kstate_procs(1) [OF u(2)])
  have "in_handler u c me" by (rule in_handler_sim [OF assms(1) u(3)]) (simp add: pu)
  from yield_enter_spec [OF this] obtain t where t: "yield_enter u = Inr t"
    "kstate t = kstate (upd_proc me (\<lambda>p. p\<lparr>p_state := RUNNABLE, p_context := InYield False\<rparr>) u)"
    "lk_locked (locks t PtableLock) = 1" "lk_cpu (locks t PtableLock) = Some c" by blast
  show ?thesis
  proof (cases "0 \<le> p_sched_policy p \<and> p_execution_time p \<le> p_elapsed_time p")
    case True
    then show ?thesis using u assms(2,3) pu by (auto simp: trap_tick_def p_def Let_def)
  next
    case False
    then have "trap_tick tf s = Inr (False, t)" using u(1) t(1) assms(2,3) pu by (auto simp: trap_tick_def p_def Let_def)
    then show ?thesis using False t(2-4) kstate_upd_proc [OF u(2)] by auto
  qed
qed

text \<open>The table after a clock tick on processor \<open>c\<close>: the boot processor wakes the processes that sleep in sys_sleep.\<close>

definition ticked :: "nat \<Rightarrow> 'a procs_scheme \<Rightarrow> 'a procs_scheme" where
  "ticked c s = (if c = 0 then wakeup1 (Some ChTicks) (s\<lparr>ticks := ticks s + 1\<rparr>) else s)"

text \<open>
  C3. The clock interrupt enforces the budget of a real-time process. In a process that is running and not killed, the
  timer trap counts the tick and wakes the sleepers on the boot processor; then a process with a real-time policy
  that has used up its execution time is reported and made to exit, and every other process gives up
  the processor: it is runnable again, its entry otherwise unchanged, and the scheduler gets ptable.lock held by this
  processor.
\<close>

theorem trap_timer:
  fixes s :: "'a kernel_scheme"
  assumes "in_handler s c me" "p_state (ptable s ! me) = RUNNING" "\<not> p_killed (ptable s ! me)"
    "tf_trapno tf = T_IRQ0 + IRQ_TIMER"
  shows "let p = ptable s ! me in
    if 0 \<le> p_sched_policy p \<and> p_execution_time p \<le> p_elapsed_time p
    then \<exists>u. kstate u = kstate (ticked c s) \<and> trap e tf s =
      bindE (cprintf (''The arrival time and pid value of the completed process is %d %d'' @ [CHR 0x0A])
          [Num (word_of_int (p_arrival_time p)), Num (word_of_int (p_pid p))] u) (\<lambda>u.
      bindE (exit_enter u) (\<lambda>t. Inr (False, t)))
    else \<exists>t. trap e tf s = Inr (False, t) \<and> ticks t = (if c = 0 then ticks s + 1 else ticks s)
      \<and> ptable t = (ptable (ticked c s))[me := p\<lparr>p_state := RUNNABLE, p_context := InYield False\<rparr>]
      \<and> lk_locked (locks t PtableLock) = 1 \<and> lk_cpu (locks t PtableLock) = Some c"
proof -
  let ?p = "ptable s ! me"
  have b: "me < length (ptable s)" using assms(1) by (simp add: in_handler_def)
  have tp: "ptable (ticked c s) ! me = ?p" "length (ptable (ticked c s)) = length (ptable s)"
    "ticks (ticked c s) = (if c = 0 then ticks s + 1 else ticks s)"
    using b assms(2) by (auto simp: ticked_def wakeup1_def)
  obtain t where t: "timerintr s = Inr t" "mach_sim s t" "kstate t = kstate (ticked c s)"
    using timerintr_spec [OF assms(1)] by (auto simp: ticked_def)
  note kt = kstate_procs [OF t(3)]
  have ht: "in_handler t c me" by (rule in_handler_sim [OF assms(1) t(2)]) (simp add: kt tp)
  obtain u where u: "exit_if_killed tf t = Inr (True, u)" "kstate u = kstate t" "mach_sim t u"
    using exit_if_killed_alive [OF ht] assms(3) kt(1) tp(1) by auto
  have ku: "ptable u = ptable (ticked c s)" using kstate_procs(1) [OF u(2)] kt(1) by simp
  have hu: "in_handler u c me" by (rule in_handler_sim [OF ht u(3)]) (simp add: kstate_procs(1) [OF u(2)])
  have tr: "trap e tf s = and_then (trap_tick tf u) (exit_if_killed tf)"
    using t(1) u(1) assms(4) by (simp add: trap_def trap_irq_def and_then_def T_IRQ0_def IRQ_TIMER_def T_SYSCALL_def)
  have ru: "p_state (ptable u ! me) = RUNNING" using ku tp(1) assms(2) by simp
  note tk = trap_tick_spec [OF hu ru assms(4), unfolded ku tp(1)]
  show ?thesis
  proof (cases "0 \<le> p_sched_policy ?p \<and> p_execution_time ?p \<le> p_elapsed_time ?p")
    case True
    then obtain v where "kstate v = kstate u" "trap_tick tf u =
        bindE (cprintf (''The arrival time and pid value of the completed process is %d %d'' @ [CHR 0x0A])
          [Num (word_of_int (p_arrival_time ?p)), Num (word_of_int (p_pid ?p))] v) (\<lambda>u.
        bindE (exit_enter u) (\<lambda>t. Inr (False, t)))" using tk by auto
    then show ?thesis using True tr u(2) t(3) by (auto simp: and_then_def bindE_assoc Let_def)
  next
    case False
    then obtain v where v: "trap_tick tf u = Inr (False, v)"
      "kstate v = kstate (upd_proc me (\<lambda>p. p\<lparr>p_state := RUNNABLE, p_context := InYield False\<rparr>) u)"
      "lk_locked (locks v PtableLock) = 1" "lk_cpu (locks v PtableLock) = Some c" using tk by auto
    have "ticks u = ticks (ticked c s)" using kstate_procs(6) [OF u(2)] kt(6) by simp
    then show ?thesis using False tr v kstate_procs(1,6) [OF v(2)] ku tp by (auto simp: and_then_def Let_def)
  qed
qed

definition kernel_ex :: kernel where
  "kernel_ex = (files.extend files_ex (kernel.fields 0))
     \<lparr>m_IF := (\<lambda>_. False), ptable := table_ex[0 := (table_ex ! 0)\<lparr>p_state := RUNNING\<rparr>]\<rparr>"

lemma kernel_ex_handler: "in_handler kernel_ex 0 0"
  by (simp add: in_handler_def kernel_ex_def files_ex_def cons_ex_def logs.defs cons.defs inodes.defs files.defs kernel.defs
      bcache.defs bcache_ex_def disks.defs disks_ex_def cpu_ok_def lk_free_def two_cpus_def table_ex_def)

theorem trap_timer_witness:
  "\<exists>t. trap \<lparr>te_junk = (0, 0), te_kbd = [], te_uart = [], te_pcs = (\<lambda>_. []), te_cr2 = 0\<rparr>
       (trapframe0\<lparr>tf_trapno := 32\<rparr>) kernel_ex = Inr (False, t)
     \<and> p_state (ptable t ! 0) = RUNNABLE \<and> ticks t = ticks kernel_ex + 1"
proof -
  let ?tf = "trapframe0\<lparr>tf_trapno := 32\<rparr>"
  have p: "ptable kernel_ex ! 0 = (task 3 0 9 2)\<lparr>p_state := RUNNING\<rparr>" by (simp add: kernel_ex_def table_ex_def)
  have l: "length (ptable (ticked 0 kernel_ex)) = 5" by (simp add: ticked_def wakeup1_def kernel_ex_def table_ex_def)
  have "p_state (ptable kernel_ex ! 0) = RUNNING" "\<not> p_killed (ptable kernel_ex ! 0)" "tf_trapno ?tf = T_IRQ0 + IRQ_TIMER"
    by (simp_all add: p task_def proc0_def T_IRQ0_def IRQ_TIMER_def)
  note t = trap_timer [OF kernel_ex_handler this, of "\<lparr>te_junk = (0, 0), te_kbd = [], te_uart = [], te_pcs = (\<lambda>_. []), te_cr2 = 0\<rparr>"]
  have "\<not> (0 \<le> p_sched_policy (ptable kernel_ex ! 0) \<and> p_execution_time (ptable kernel_ex ! 0) \<le> p_elapsed_time (ptable kernel_ex ! 0))"
    by (simp add: p task_def proc0_def)
  then show ?thesis using t l unfolding Let_def by auto
qed

end
