(* ===== verification/Apic.thy ===== *)
theory Apic
  imports Trap
begin

unbundle bit_operations_syntax

text \<open>
  The interrupt controllers (lapic.c, ioapic.c, picirq.c), the real-time clock (lapic.c), and panic (console.c), which prints
  the number of the processor.

  A device is the contents of its registers. Every processor has a local APIC of its own, so \<open>lapic_regs\<close> is indexed by the
  processor; \<open>ipis\<close> lists the interprocessor interrupts that were sent, each with its sender and the two halves of the command.
  outb and inb are given for the ports that the code below uses. Values that a device changes by itself are parameters: \<open>polls\<close>
  are the values that successive reads of a status register give, and \<open>clk\<close> the contents of the CMOS clock at successive reads.
\<close>

section \<open>State\<close>

record hw = kernel +
  lapic :: u32
  lapic_regs :: "u8 \<Rightarrow> nat \<Rightarrow> u32"
  ipis :: "(u8 \<times> u32 \<times> u32) list"
  ioapic :: u32
  ioapic_reg :: u32
  ioapic_regs :: "u32 \<Rightarrow> u32"
  ioapicid :: u8
  pic1_mask :: u8
  pic2_mask :: u8
  cmos_index :: u8
  cmos :: "u8 \<Rightarrow> u8"
  imcr_index :: u8
  imcr :: u8

definition CMOS_PORT :: u16 where "CMOS_PORT = 0x70"
definition CMOS_RETURN :: u16 where "CMOS_RETURN = 0x71"
definition IO_PIC1 :: u16 where "IO_PIC1 = 0x20"
definition IO_PIC2 :: u16 where "IO_PIC2 = 0xA0"

definition outb :: "u16 \<Rightarrow> u8 \<Rightarrow> 'a hw_scheme \<Rightarrow> 'a hw_scheme" where
  "outb port data s =
    (if port = CMOS_PORT then s\<lparr>cmos_index := data\<rparr>
     else if port = CMOS_RETURN then s\<lparr>cmos := (cmos s)(cmos_index s := data)\<rparr>
     else if port = IO_PIC1 + 1 then s\<lparr>pic1_mask := data\<rparr>
     else if port = IO_PIC2 + 1 then s\<lparr>pic2_mask := data\<rparr>
     else if port = 0x22 then s\<lparr>imcr_index := data\<rparr>
     else if port = 0x23 \<and> imcr_index s = 0x70 then s\<lparr>imcr := data\<rparr>
     else s)"

definition inb :: "u16 \<Rightarrow> 'a hw_scheme \<Rightarrow> u8" where
  "inb port s =
    (if port = CMOS_RETURN then cmos s (cmos_index s)
     else if port = 0x23 \<and> imcr_index s = 0x70 then imcr s
     else 0xFF)"

section \<open>The local APIC\<close>

definition ID :: nat where "ID = 0x0020 div 4"
definition VER :: nat where "VER = 0x0030 div 4"
definition TPR :: nat where "TPR = 0x0080 div 4"
definition EOI :: nat where "EOI = 0x00B0 div 4"
definition SVR :: nat where "SVR = 0x00F0 div 4"
definition ENABLE :: u32 where "ENABLE = 0x00000100"
definition ESR :: nat where "ESR = 0x0280 div 4"
definition ICRLO :: nat where "ICRLO = 0x0300 div 4"
definition INIT :: u32 where "INIT = 0x00000500"
definition STARTUP :: u32 where "STARTUP = 0x00000600"
definition DELIVS :: u32 where "DELIVS = 0x00001000"
definition ASSERT :: u32 where "ASSERT = 0x00004000"
definition LEVEL :: u32 where "LEVEL = 0x00008000"
definition BCAST :: u32 where "BCAST = 0x00080000"
definition ICRHI :: nat where "ICRHI = 0x0310 div 4"
definition TIMER :: nat where "TIMER = 0x0320 div 4"
definition X1 :: u32 where "X1 = 0x0000000B"
definition PERIODIC :: u32 where "PERIODIC = 0x00020000"
definition PCINT :: nat where "PCINT = 0x0340 div 4"
definition LINT0 :: nat where "LINT0 = 0x0350 div 4"
definition LINT1 :: nat where "LINT1 = 0x0360 div 4"
definition ERROR :: nat where "ERROR = 0x0370 div 4"
definition MASKED :: u32 where "MASKED = 0x00010000"
definition TICR :: nat where "TICR = 0x0380 div 4"
definition TDCR :: nat where "TDCR = 0x03E0 div 4"
definition IRQ_ERROR :: u32 where "IRQ_ERROR = 19"

definition lapicr :: "nat \<Rightarrow> 'a hw_scheme \<Rightarrow> u32" where
  "lapicr index s = lapic_regs s (m_lapicid s) index"

text \<open>A write to the low half of the interrupt command sends it.\<close>

definition lapicw :: "nat \<Rightarrow> u32 \<Rightarrow> 'a hw_scheme \<Rightarrow> 'a hw_scheme result" where
  "lapicw index val s =
    bindE (guardE (lapic s \<noteq> 0) BadAccess) (\<lambda>_.
    let c = m_lapicid s; s = s\<lparr>lapic_regs := (lapic_regs s)(c := (lapic_regs s c)(index := val))\<rparr> in
    Inr (if index = ICRLO then s\<lparr>ipis := ipis s @ [(c, lapicr ICRHI s, val)]\<rparr> else s))"

definition lapicws :: "(nat \<times> u32) list \<Rightarrow> 'a hw_scheme \<Rightarrow> 'a hw_scheme result" where
  "lapicws = forE (\<lambda>(index, val). lapicw index val)"

definition lapicinit :: "u32 list \<Rightarrow> 'a hw_scheme \<Rightarrow> 'a hw_scheme result" where
  "lapicinit polls s =
    (if lapic s = 0 then Inr s
     else
       bindE (lapicws [(SVR, ENABLE OR (T_IRQ0 + IRQ_SPURIOUS)), (TDCR, X1), (TIMER, PERIODIC OR (T_IRQ0 + IRQ_TIMER)),
         (TICR, 10000000), (LINT0, MASKED), (LINT1, MASKED)] s) (\<lambda>s.
       bindE (if 4 \<le> drop_bit 16 (lapicr VER s) AND 0xFF then lapicw PCINT MASKED s else Inr s) (\<lambda>s.
       bindE (lapicws [(ERROR, T_IRQ0 + IRQ_ERROR), (ESR, 0), (ESR, 0), (EOI, 0), (ICRHI, 0),
         (ICRLO, BCAST OR INIT OR LEVEL)] s) (\<lambda>s.
       bindE (guardE (\<exists>r \<in> set polls. r AND DELIVS = 0) Diverges) (\<lambda>_.
       lapicw TPR 0 s)))))"

definition lapicid :: "'a hw_scheme \<Rightarrow> u32" where
  "lapicid s = (if lapic s = 0 then 0 else drop_bit 24 (lapicr ID s))"

definition lapiceoi :: "'a hw_scheme \<Rightarrow> 'a hw_scheme result" where
  "lapiceoi s = (if lapic s \<noteq> 0 then lapicw EOI 0 s else Inr s)"

definition store16 :: "memory \<Rightarrow> u32 \<Rightarrow> u16 \<Rightarrow> memory" where
  "store16 m a v = m(a := ucast v, a + 1 := ucast (drop_bit 8 v))"

definition lapicstartap :: "u8 \<Rightarrow> u32 \<Rightarrow> 'a hw_scheme \<Rightarrow> 'a hw_scheme result" where
  "lapicstartap apicid addr s =
    (let s = outb (CMOS_PORT + 1) 0x0A (outb CMOS_PORT 0xF s);
         wrv = P2V (push_bit 4 0x40 OR 0x67);
         s = s\<lparr>pmem := store16 (store16 (pmem s) wrv 0) (wrv + 2) (ucast (drop_bit 4 addr))\<rparr>;
         dest = push_bit 24 (ucast apicid) in
     lapicws [(ICRHI, dest), (ICRLO, INIT OR LEVEL OR ASSERT), (ICRLO, INIT OR LEVEL),
       (ICRHI, dest), (ICRLO, STARTUP OR drop_bit 12 addr), (ICRHI, dest), (ICRLO, STARTUP OR drop_bit 12 addr)] s)"

section \<open>The real-time clock\<close>

record rtcdate =
  second :: u32
  minute :: u32
  hour :: u32
  day :: u32
  month :: u32
  year :: u32

definition CMOS_STATA :: u8 where "CMOS_STATA = 0x0a"
definition CMOS_STATB :: u8 where "CMOS_STATB = 0x0b"
definition CMOS_UIP :: u32 where "CMOS_UIP = 128"
definition SECS :: u8 where "SECS = 0x00"
definition MINS :: u8 where "MINS = 0x02"
definition HOURS :: u8 where "HOURS = 0x04"
definition DAY :: u8 where "DAY = 0x07"
definition MONTH :: u8 where "MONTH = 0x08"
definition YEAR :: u8 where "YEAR = 0x09"

text \<open>The \<open>n\<close>th read.\<close>

definition cmos_read :: "(nat \<Rightarrow> u8 \<Rightarrow> u8) \<Rightarrow> u8 \<Rightarrow> nat \<Rightarrow> u32" where
  "cmos_read clk reg n = ucast (clk n reg)"

definition fill_rtcdate :: "(nat \<Rightarrow> u8 \<Rightarrow> u8) \<Rightarrow> nat \<Rightarrow> rtcdate" where
  "fill_rtcdate clk n = \<lparr>second = cmos_read clk SECS n, minute = cmos_read clk MINS (n + 1), hour = cmos_read clk HOURS (n + 2),
     day = cmos_read clk DAY (n + 3), month = cmos_read clk MONTH (n + 4), year = cmos_read clk YEAR (n + 5)\<rparr>"

partial_function (option) cmos_stable :: "(nat \<Rightarrow> u8 \<Rightarrow> u8) \<Rightarrow> nat \<Rightarrow> rtcdate option" where
  "cmos_stable clk n =
    (let t1 = fill_rtcdate clk n in
     if cmos_read clk CMOS_STATA (n + 6) AND CMOS_UIP \<noteq> 0 then cmos_stable clk (n + 7)
     else if t1 = fill_rtcdate clk (n + 7) then Some t1
     else cmos_stable clk (n + 13))"

definition CONV :: "u32 \<Rightarrow> u32" where
  "CONV x = drop_bit 4 x * 10 + (x AND 0xf)"

definition conv_date :: "rtcdate \<Rightarrow> rtcdate" where
  "conv_date t = \<lparr>second = CONV (second t), minute = CONV (minute t), hour = CONV (hour t), day = CONV (day t),
     month = CONV (month t), year = CONV (year t)\<rparr>"

definition cmostime :: "(nat \<Rightarrow> u8 \<Rightarrow> u8) \<Rightarrow> rtcdate option" where
  "cmostime clk =
    (let bcd = cmos_read clk CMOS_STATB 0 AND push_bit 2 1 = 0 in
     map_option (\<lambda>t1. let r = (if bcd then conv_date t1 else t1) in r\<lparr>year := year r + 2000\<rparr>) (cmos_stable clk 1))"

section \<open>The I/O APIC and the PIC\<close>

definition IOAPIC :: u32 where "IOAPIC = 0xFEC00000"
definition REG_ID :: u32 where "REG_ID = 0"
definition REG_VER :: u32 where "REG_VER = 1"
definition REG_TABLE :: u32 where "REG_TABLE = 0x10"
definition INT_DISABLED :: u32 where "INT_DISABLED = 0x00010000"

definition ioapicread :: "u32 \<Rightarrow> 'a hw_scheme \<Rightarrow> u32 \<times> 'a hw_scheme" where
  "ioapicread reg s = (ioapic_regs s reg, s\<lparr>ioapic_reg := reg\<rparr>)"

definition ioapicwrite :: "u32 \<Rightarrow> u32 \<Rightarrow> 'a hw_scheme \<Rightarrow> 'a hw_scheme" where
  "ioapicwrite reg data s = s\<lparr>ioapic_reg := reg, ioapic_regs := (ioapic_regs s)(reg := data)\<rparr>"

definition ioapic_disable :: "nat \<Rightarrow> 'a hw_scheme \<Rightarrow> 'a hw_scheme" where
  "ioapic_disable i s =
    ioapicwrite (REG_TABLE + 2 * of_nat i + 1) 0
      (ioapicwrite (REG_TABLE + 2 * of_nat i) (INT_DISABLED OR (T_IRQ0 + of_nat i)) s)"

definition ioapicinit :: "'a hw_scheme \<Rightarrow> 'a hw_scheme result" where
  "ioapicinit s =
    (let s = s\<lparr>ioapic := IOAPIC\<rparr>;
         (v, s) = ioapicread REG_VER s; maxintr = drop_bit 16 v AND 0xFF;
         (v, s) = ioapicread REG_ID s; id = drop_bit 24 v in
     bindE (if id \<noteq> ucast (ioapicid s)
            then cprintf (''ioapicinit: id isn'' @ [CHR 0x27] @ ''t equal to ioapicid; not a MP'' @ [CHR 0x0A]) [] s else Inr s) (\<lambda>s.
     Inr (fold ioapic_disable [0..<Suc (unat maxintr)] s)))"

definition ioapicenable :: "u32 \<Rightarrow> u32 \<Rightarrow> 'a hw_scheme \<Rightarrow> 'a hw_scheme" where
  "ioapicenable irq cpunum s =
    ioapicwrite (REG_TABLE + 2 * irq + 1) (push_bit 24 cpunum) (ioapicwrite (REG_TABLE + 2 * irq) (T_IRQ0 + irq) s)"

definition picinit :: "'a hw_scheme \<Rightarrow> 'a hw_scheme" where
  "picinit s = outb (IO_PIC2 + 1) 0xFF (outb (IO_PIC1 + 1) 0xFF s)"

section \<open>panic\<close>

text \<open>
  The state in which the processor stays for ever. \<open>pcs\<close> are the return addresses that getcallerpcs finds on the stack of the caller.
  The message is printed as a format.
\<close>

definition panic :: "u32 list \<Rightarrow> string \<Rightarrow> 'a hw_scheme \<Rightarrow> 'a hw_scheme result" where
  "panic pcs msg s =
    (let s = cli s in
     bindE (cprintf ''lapicid %d: panic: '' [Num (lapicid s)] s) (\<lambda>s.
     bindE (cprintf msg [] s) (\<lambda>s.
     bindE (cprintf [CHR 0x0A] [] s) (\<lambda>s.
     bindE (forE (\<lambda>pc. cprintf '' %p'' [Num pc]) (take 10 pcs) s) (\<lambda>s.
     Inr (s\<lparr>panicked := True\<rparr>))))))"

section \<open>Printing\<close>

lemma printint_total:
  assumes "base = 10 \<or> base = 16"
  shows "\<exists>t. printint digits xx base sign = Inr t"
proof -
  define x where "x = unat (word_of_int (if sign \<and> xx < 0 then - xx else xx) :: u32)"
  have "unat w < 2 ^ 32" for w :: u32 using unsigned_less [of w] by simp
  then have "x < 2 ^ 32" unfolding x_def .
  then have "x < base ^ 10" using assms by auto
  then obtain ds where ds: "digits_loop 10 base x = Some ds" "length ds \<le> 10"
    using digits_loop_spec [of base x 10] assms by auto
  then have "digits_loop 16 base x = Some ds" using digits_loop_mono [OF ds(1), of 6] by simp
  then show ?thesis using ds(2) unfolding printint_def x_def by (simp add: Let_def)
qed

lemma cprintf_text_plain: "CHR ''%'' \<notin> set fmt \<Longrightarrow> cprintf_text fmt as = Inr fmt"
  by (induction fmt) auto

lemma cprintf_text_number: "c = CHR ''d'' \<or> c = CHR ''p'' \<Longrightarrow> CHR ''%'' \<notin> set rest \<Longrightarrow>
  \<exists>u. cprintf_text (CHR ''%'' # c # rest) (Num w # as) = Inr (u @ rest)"
  using printint_total [of 10 cdigits "sint w" True] printint_total [of 16 cdigits "sint w" False]
  by (auto simp: conversion_def arg_num_def cprintf_text_plain)

lemma cons_more_trans: "cons_more s t \<Longrightarrow> cons_more t u \<Longrightarrow> cons_more s u"
  unfolding cons_more_def by (elim exE) (simp, blast)

lemma consputs_ok:
  assumes "screen_ok s"
  shows "\<exists>t. consputs w s = Inr t \<and> screen_ok t \<and> cons_more s t"
  unfolding consputs_def using assms
proof (induction w arbitrary: s)
  case Nil
  then show ?case by (auto simp: cons_more_def intro!: exI [of _ "uart_out s"] exI [of _ "crt s"] exI [of _ "crt_pos s"])
next
  case (Cons c w)
  obtain u where u: "consputc (of_char c) s = Inr u" "screen_ok u" "cons_more s u" using consputc_ok [OF Cons.prems] by blast
  then show ?case using Cons.IH [OF u(2)] cons_more_trans [OF u(3)] by auto
qed

lemma cprintf_ok:
  assumes "cprintf_text fmt as = Inr w" "screen_ok s"
  shows "\<exists>t. cprintf fmt as s = Inr t \<and> screen_ok t \<and> cons_more s t"
  using consputs_ok [OF assms(2), of w] assms(1) by (simp add: cprintf_def)

text \<open>
  panic ends with its processor deaf to interrupts and with \<open>panicked\<close> set, so that every processor that prints another character
  stops there.
\<close>

lemma panic_freezes:
  assumes "screen_ok s" "CHR ''%'' \<notin> set msg"
  shows "\<exists>t. panic pcs msg s = Inr t \<and> panicked t \<and> \<not> readeflags_IF t \<and> (\<forall>c m. consputc c (t\<lparr>m_lapicid := m\<rparr>) = Inl Diverges)"
proof -
  have c: "screen_ok (cli s)" using assms(1) by (simp add: screen_ok_def cli_def)
  have "\<exists>w. cprintf_text ''lapicid %d: panic: '' [Num (lapicid (cli s))] = Inr w"
    using cprintf_text_number [of "CHR ''d''" "'': panic: ''" "lapicid (cli s)" "[]"] by auto
  then obtain t1 where t1: "cprintf ''lapicid %d: panic: '' [Num (lapicid (cli s))] (cli s) = Inr t1" "screen_ok t1" "cons_more (cli s) t1"
    using cprintf_ok [OF _ c] by blast
  obtain t2 where t2: "cprintf msg [] t1 = Inr t2" "screen_ok t2" "cons_more t1 t2"
    using cprintf_ok [OF cprintf_text_plain [OF assms(2)] t1(2)] by blast
  obtain t3 where t3: "cprintf [CHR 0x0A] [] t2 = Inr t3" "screen_ok t3" "cons_more t2 t3"
    using cprintf_ok [OF cprintf_text_plain t2(2), of "[CHR 0x0A]" "[]"] by auto
  have "\<exists>t4. forE (\<lambda>pc. cprintf '' %p'' [Num pc]) xs t = Inr t4 \<and> screen_ok t4 \<and> cons_more (cli s) t4"
    if "screen_ok t" "cons_more (cli s) t" for xs and t :: "'a hw_scheme"
    using that
  proof (induction xs arbitrary: t)
    case (Cons x xs)
    obtain w where "cprintf_text '' %p'' [Num x] = Inr w" using cprintf_text_number [of "CHR ''p''" "[]" x "[]"] by auto
    then obtain u where "cprintf '' %p'' [Num x] t = Inr u" "screen_ok u" "cons_more t u" using cprintf_ok [OF _ Cons.prems(1)] by blast
    then show ?case using Cons.IH cons_more_trans [OF Cons.prems(2)] by auto
  qed auto
  then obtain t4 where "forE (\<lambda>pc. cprintf '' %p'' [Num pc]) (take 10 pcs) t3 = Inr t4" "cons_more (cli s) t4"
    using t3(2) cons_more_trans [OF cons_more_trans [OF t1(3) t2(3)] t3(3)] by blast
  then show ?thesis using t1(1) t2(1) t3(1) by (auto simp: panic_def Let_def cons_more_def cli_def readeflags_IF_def consputc_def)
qed

section \<open>The local APIC\<close>

lemmas lapic_index = ID_def VER_def TPR_def EOI_def SVR_def ESR_def ICRLO_def ICRHI_def TIMER_def PCINT_def LINT0_def LINT1_def
  ERROR_def TICR_def TDCR_def

lemma lapicws_simps [simp]:
  "lapicws [] s = Inr s" "lapicws ((i, v) # ws) s = bindE (lapicw i v s) (lapicws ws)"
  by (simp_all add: lapicws_def)

lemma lapicw_ok: "lapic s \<noteq> 0 \<Longrightarrow> lapicw i v s =
    Inr (s\<lparr>lapic_regs := (lapic_regs s)(m_lapicid s := (lapic_regs s (m_lapicid s))(i := v)),
      ipis := (if i = ICRLO then ipis s @ [(m_lapicid s, lapicr ICRHI s, v)] else ipis s)\<rparr>)"
  by (simp add: lapicw_def Let_def lapicr_def lapic_index)

text \<open>
  lapicinit enables the local APIC of its processor with a periodic timer on the vector that trap counts ticks on, masks the other
  sources, sends one interprocessor interrupt, and changes no register of another processor and nothing else of the state.
\<close>

lemma lapicinit_ok:
  assumes "lapic s \<noteq> 0" "\<exists>r \<in> set polls. r AND DELIVS = 0"
  shows "\<exists>t. lapicinit polls s = Inr t \<and> t = s\<lparr>lapic_regs := lapic_regs t, ipis := ipis t\<rparr>
    \<and> lapicr SVR t = ENABLE OR 63 \<and> lapicr TIMER t = PERIODIC OR T_IRQ0 \<and> lapicr TICR t = 10000000
    \<and> lapicr LINT0 t = MASKED \<and> lapicr LINT1 t = MASKED \<and> lapicr ERROR t = 51 \<and> lapicr TPR t = 0 \<and> lapicr ID t = lapicr ID s
    \<and> ipis t = ipis s @ [(m_lapicid s, 0, BCAST OR INIT OR LEVEL)] \<and> (\<forall>c. c \<noteq> m_lapicid s \<longrightarrow> lapic_regs t c = lapic_regs s c)"
  using assms by (cases "4 \<le> drop_bit 16 (lapicr VER s) AND 0xFF")
    (simp_all add: lapicinit_def lapicw_ok lapicr_def lapic_index T_IRQ0_def IRQ_SPURIOUS_def IRQ_TIMER_def IRQ_ERROR_def guardE_def)

text \<open>The id that lapicid reads is the one that mycpu looks for.\<close>

lemma lapicid_ok:
  assumes "lapic s \<noteq> 0" "lapicr ID s = push_bit 24 (ucast (m_lapicid s))"
  shows "lapicid s = ucast (m_lapicid s)"
proof -
  have "bit (m_lapicid s) n \<Longrightarrow> n < 8" for n using bit_imp_le_length [of "m_lapicid s" n] by simp
  then show ?thesis using assms by (auto intro!: bit_word_eqI simp: lapicid_def bit_simps)
qed

text \<open>
  The universal startup algorithm: INIT asserted and deasserted, then STARTUP twice with the page of the entry code, all to the processor
  \<open>apicid\<close>; the CMOS shutdown code and the warm reset vector send the processor to the same place.
\<close>

lemma lapicstartap_ok:
  assumes "lapic s \<noteq> 0"
  shows "\<exists>t. lapicstartap apicid addr s = Inr t
    \<and> ipis t = ipis s @ map (\<lambda>v. (m_lapicid s, push_bit 24 (ucast apicid), v))
        [INIT OR LEVEL OR ASSERT, INIT OR LEVEL, STARTUP OR drop_bit 12 addr, STARTUP OR drop_bit 12 addr]
    \<and> cmos t 0xF = 0x0A \<and> load32 (pmem t) (P2V 0x467) = push_bit 16 (drop_bit 4 addr)
    \<and> (\<forall>a. \<not> in_range a (P2V 0x467) 4 \<longrightarrow> pmem t a = pmem s a)
    \<and> (\<forall>c i. i \<noteq> ICRHI \<and> i \<noteq> ICRLO \<longrightarrow> lapic_regs t c i = lapic_regs s c i)
    \<and> t = s\<lparr>lapic_regs := lapic_regs t, ipis := ipis t, pmem := pmem t, cmos := cmos t, cmos_index := cmos_index t\<rparr>"
proof -
  let ?w = "P2V 0x467"
  have w: "P2V (push_bit 4 0x40 OR 0x67) = ?w" by simp
  let ?m = "store16 (store16 (pmem s) ?w 0) (?w + 2) (ucast (drop_bit 4 addr))"
  have l: "load32 ?m ?w = push_bit 16 (drop_bit 4 addr)"
  proof (rule bit_word_eqI)
    fix n assume n: "n < LENGTH(32)"
    show "bit (load32 ?m ?w) n = bit (push_bit 16 (drop_bit 4 addr)) n"
    proof (cases "24 \<le> n")
      case True
      then obtain k where "n = 24 + k" using le_Suc_ex by blast
      then show ?thesis using n by (auto simp: load32_def store16_def P2V_def KERNBASE_def bit_simps)
    qed (use n in \<open>auto simp: load32_def store16_def P2V_def KERNBASE_def bit_simps\<close>)
  qed
  have o: "\<forall>a. \<not> in_range a ?w 4 \<longrightarrow> ?m a = pmem s a"
    by (auto simp: store16_def in_range_def P2V_def KERNBASE_def)
  show ?thesis using assms l o unfolding lapicstartap_def w
    by (simp add: lapicw_ok Let_def outb_def CMOS_PORT_def CMOS_RETURN_def lapicr_def lapic_index)
qed

section \<open>The real-time clock\<close>

text \<open>A date that cmos\_stable returns was read twice, and no update was in progress between the two readings.\<close>

lemma cmos_stable_sound:
  assumes "cmos_stable clk n = Some t"
  shows "\<exists>k \<ge> n. t = fill_rtcdate clk k \<and> t = fill_rtcdate clk (k + 7) \<and> cmos_read clk CMOS_STATA (k + 6) AND CMOS_UIP = 0"
proof (rule cmos_stable.raw_induct [where P = "\<lambda>clk n t. \<exists>k \<ge> n. t = fill_rtcdate clk k \<and> t = fill_rtcdate clk (k + 7)
      \<and> cmos_read clk CMOS_STATA (k + 6) AND CMOS_UIP = 0", OF _ assms])
  fix f clk n t
  let ?P = "\<lambda>n. \<exists>k \<ge> n. t = fill_rtcdate clk k \<and> t = fill_rtcdate clk (k + 7) \<and> cmos_read clk CMOS_STATA (k + 6) AND CMOS_UIP = 0"
  assume IH: "\<And>clk n t. f clk n = Some t \<Longrightarrow> \<exists>k \<ge> n. t = fill_rtcdate clk k \<and> t = fill_rtcdate clk (k + 7)
      \<and> cmos_read clk CMOS_STATA (k + 6) AND CMOS_UIP = 0"
    and r: "(let t1 = fill_rtcdate clk n in
     if cmos_read clk CMOS_STATA (n + 6) AND CMOS_UIP \<noteq> 0 then f clk (n + 7)
     else if t1 = fill_rtcdate clk (n + 7) then Some t1 else f clk (n + 13)) = Some t"
  have later: "?P n" if "f clk (n + i) = Some t" for i using IH [OF that] add_leD1 by blast
  show "?P n" using r later by (auto simp: Let_def split: if_splits)
qed

text \<open>The loop ends at the latest when the clock stands still without an update.\<close>

lemma cmos_stable_terminates:
  assumes "\<And>k. N \<le> k \<Longrightarrow> clk k = c" "ucast (c CMOS_STATA) AND CMOS_UIP = 0"
  shows "\<exists>t. cmos_stable clk n = Some t"
proof (induction "N - n" arbitrary: n rule: less_induct)
  case less
  show ?case
  proof (cases "N \<le> n")
    case True
    have "clk k = c" if "n \<le> k" for k using assms(1) True that by simp
    then have "fill_rtcdate clk n = fill_rtcdate clk (n + 7)" "cmos_read clk CMOS_STATA (n + 6) AND CMOS_UIP = 0"
      using assms(2) by (simp_all add: fill_rtcdate_def cmos_read_def)
    then show ?thesis by (subst cmos_stable.simps) simp
  next
    case False
    then have "\<exists>t. cmos_stable clk (n + 7) = Some t" "\<exists>t. cmos_stable clk (n + 13) = Some t" by (auto intro!: less)
    then show ?thesis by (subst cmos_stable.simps) (auto simp: Let_def)
  qed
qed

definition bcd_digits :: "nat \<Rightarrow> u8" where
  "bcd_digits v = of_nat (16 * (v div 10) + v mod 10)"

lemma CONV_bcd:
  assumes "v < 100"
  shows "CONV (ucast (bcd_digits v)) = of_nat v"
proof -
  define n where "n = 16 * (v div 10) + v mod 10"
  have "v div 10 < 10" "v mod 10 < 16" using assms by (simp_all add: less_mult_imp_div_less)
  then have n: "n < 256" "n div 16 = v div 10" "n mod 16 = v mod 10" unfolding n_def by simp_all
  then have u: "ucast (bcd_digits v) = (of_nat n :: u32)" "unat (of_nat n :: u32) = n"
    by (simp_all add: bcd_digits_def n_def [symmetric] word_unat_eq_iff unat_of_nat unsigned_ucast_eq take_bit_eq_mod)
  have "unat (drop_bit 4 (of_nat n :: u32)) = v div 10" using u(2) n(2) by (simp add: drop_bit_eq_div unat_div)
  moreover have "unat ((of_nat n :: u32) AND 0xf) = v mod 10"
    using u(2) n(3) take_bit_eq_mask [of 4 n] take_bit_eq_mod [of 4 n] by (simp add: unsigned_and_eq mask_numeral)
  ultimately show ?thesis unfolding CONV_def u(1) using assms by (simp add: word_unat_eq_iff unat_word_ariths unat_of_nat)
qed

text \<open>A clock that stands at a date of this century in BCD is read as that date.\<close>

lemma cmostime_bcd:
  assumes "\<And>n. clk n = c" "c CMOS_STATB = 0" "c CMOS_STATA = 0"
    and "c SECS = bcd_digits sec" "c MINS = bcd_digits mi" "c HOURS = bcd_digits h" "c DAY = bcd_digits d" "c MONTH = bcd_digits mo" "c YEAR = bcd_digits y"
    and "sec < 60" "mi < 60" "h < 24" "d < 32" "mo < 13" "y < 100"
  shows "cmostime clk = Some \<lparr>second = of_nat sec, minute = of_nat mi, hour = of_nat h, day = of_nat d, month = of_nat mo, year = of_nat (2000 + y)\<rparr>"
  using assms by (simp add: cmostime_def Let_def cmos_stable.simps [of clk "Suc 0"] fill_rtcdate_def cmos_read_def conv_date_def CONV_bcd)

section \<open>The I/O APIC\<close>

text \<open>Where an interrupt request goes: the vector and the processor, or nowhere.\<close>

definition irq_route :: "'a hw_scheme \<Rightarrow> nat \<Rightarrow> (u32 \<times> u32) option" where
  "irq_route s i =
    (let low = ioapic_regs s (REG_TABLE + 2 * of_nat i); high = ioapic_regs s (REG_TABLE + 2 * of_nat i + 1) in
     if low AND INT_DISABLED \<noteq> 0 then None else Some (low AND 0xFF, drop_bit 24 high))"

definition maxintr :: "'a hw_scheme \<Rightarrow> nat" where
  "maxintr s = unat (drop_bit 16 (ioapic_regs s REG_VER) AND 0xFF)"

lemma maxintr_bound: "maxintr s \<le> 255"
proof -
  have "drop_bit 16 (ioapic_regs s REG_VER) AND 0xFF \<le> (0xFF :: u32)" by (rule word_and_le1)
  then show ?thesis by (simp add: maxintr_def word_le_nat_alt)
qed

lemma redir_inj:
  assumes "i < 256" "j < 256"
  shows "REG_TABLE + 2 * of_nat i = REG_TABLE + 2 * (of_nat j :: u32) \<longleftrightarrow> i = j"
    "REG_TABLE + 2 * of_nat i \<noteq> REG_TABLE + 2 * (of_nat j :: u32) + 1"
    "REG_TABLE + 2 * of_nat i + 1 \<noteq> REG_TABLE + 2 * (of_nat j :: u32)"
    "REG_TABLE + 2 * of_nat i \<noteq> REG_VER" "REG_TABLE + 2 * of_nat i + 1 \<noteq> REG_VER"
proof -
  have u: "unat (2 * of_nat k :: u32) = 2 * k" "unat (2 * of_nat k + 1 :: u32) = 2 * k + 1"
    "unat (REG_TABLE + 2 * of_nat k :: u32) = 16 + 2 * k" "unat (REG_TABLE + 2 * of_nat k + 1 :: u32) = 17 + 2 * k" if "k < 256" for k
    using that by (simp_all add: unat_word_ariths unat_of_nat REG_TABLE_def)
  show "REG_TABLE + 2 * of_nat i = REG_TABLE + 2 * (of_nat j :: u32) \<longleftrightarrow> i = j" using assms u by (simp add: word_unat_eq_iff)
  show "REG_TABLE + 2 * of_nat i \<noteq> REG_TABLE + 2 * (of_nat j :: u32) + 1" using assms u by (auto simp: word_unat_eq_iff) presburger
  show "REG_TABLE + 2 * of_nat i + 1 \<noteq> REG_TABLE + 2 * (of_nat j :: u32)" using assms u by (auto simp: word_unat_eq_iff) presburger
  show "REG_TABLE + 2 * of_nat i \<noteq> REG_VER" "REG_TABLE + 2 * of_nat i + 1 \<noteq> REG_VER"
    using assms u by (auto simp: word_unat_eq_iff REG_VER_def)
qed

lemma irq_route_disable:
  assumes "i < 256" "k < 256"
  shows "irq_route (ioapic_disable k s) i = (if i = k then None else irq_route s i)"
proof -
  have "(INT_DISABLED OR (T_IRQ0 + of_nat k)) AND INT_DISABLED \<noteq> (0 :: u32)"
    by (auto simp: bit_eq_iff bit_simps INT_DISABLED_def intro: exI [of _ 16])
  then show ?thesis using redir_inj [OF assms] redir_inj(3) [OF assms(2,1)]
    by (auto simp: irq_route_def ioapic_disable_def ioapicwrite_def Let_def)
qed

lemma irq_route_disable_all:
  "n \<le> 256 \<Longrightarrow> i < 256 \<Longrightarrow> irq_route (fold ioapic_disable [0..<n] s) i = (if i < n then None else irq_route s i)"
  by (induction n) (auto simp: irq_route_disable)

lemma vector_word:
  assumes "k < 224"
  shows "(T_IRQ0 + of_nat k) AND INT_DISABLED = 0" "(T_IRQ0 + of_nat k) AND 0xFF = T_IRQ0 + of_nat k"
proof -
  define v where "v = 32 + k"
  have "v < 2 ^ 8" "T_IRQ0 + of_nat k = (of_nat v :: u32)" using assms by (simp_all add: v_def T_IRQ0_def)
  then have v: "T_IRQ0 + of_nat k = (of_nat v :: u32)" "v < 2 ^ 8" "unat (of_nat v :: u32) = v"
    by (simp_all add: unat_of_nat)
  then have t: "take_bit 8 v = v" by (simp add: take_bit_nat_eq_self)
  have nb: "\<not> bit v 16" using v(2) bit_take_bit_iff [of 8 v 16] t by simp
  have "INT_DISABLED = 2 ^ 16" by (simp add: INT_DISABLED_def)
  then have d: "bit INT_DISABLED n \<Longrightarrow> n = 16" for n by (metis bit_exp_iff)
  show "(T_IRQ0 + of_nat k) AND INT_DISABLED = 0"
  proof (rule bit_word_eqI)
    fix n show "bit ((T_IRQ0 + of_nat k) AND INT_DISABLED) n = bit (0 :: u32) n"
      using nb v(1,3) bit_unsigned_iff [of "of_nat v :: u32" 16, where 'a = nat]
      by (auto simp: bit_simps dest: d)
  qed
  show "(T_IRQ0 + of_nat k) AND 0xFF = T_IRQ0 + of_nat k"
    using v(3) t take_bit_eq_mask [of 8 v] unfolding v(1) by (simp add: word_unat_eq_iff unsigned_and_eq mask_numeral)
qed

lemma irq_route_enable:
  assumes "i < 256" "k < 224" "c < 256"
  shows "irq_route (ioapicenable (of_nat k) c s) i = (if i = k then Some (T_IRQ0 + of_nat k, c) else irq_route s i)"
proof -
  have k: "k < 256" using assms(2) by simp
  have "bit c n \<Longrightarrow> n < 8" for n
    using assms(3) bit_take_bit_iff [of 8 "unat c" n] take_bit_nat_eq_self [of "unat c" 8]
    by (auto simp: word_less_nat_alt bit_unsigned_iff)
  then have "drop_bit 24 (push_bit 24 c) = c" by (auto intro!: bit_word_eqI simp: bit_simps)
  then show ?thesis using vector_word [OF assms(2)] redir_inj [OF assms(1) k] redir_inj(3) [OF k assms(1)]
    by (auto simp: irq_route_def ioapicenable_def ioapicwrite_def Let_def)
qed

lemma ioapicinit_eq:
  assumes "screen_ok s"
  shows "\<exists>t u. ioapicinit s = Inr t \<and> t = fold ioapic_disable [0..<Suc (maxintr s)] u \<and> screen_ok u \<and> ioapic_regs u = ioapic_regs s"
proof -
  let ?s = "s\<lparr>ioapic := IOAPIC, ioapic_reg := REG_ID\<rparr>"
  have ok: "screen_ok ?s" using assms by (simp add: screen_ok_def)
  let ?m = "''ioapicinit: id isn'' @ [CHR 0x27] @ ''t equal to ioapicid; not a MP'' @ [CHR 0x0A]"
  obtain u where u: "cprintf ?m [] ?s = Inr u" "screen_ok u" "cons_more ?s u"
    using cprintf_ok [OF cprintf_text_plain ok, of ?m "[]"] by auto
  then have "ioapic_regs u = ioapic_regs s" by (auto simp: cons_more_def)
  with u(1,2) ok show ?thesis
    by (cases "drop_bit 24 (ioapic_regs s REG_ID) = ucast (ioapicid s)") (auto simp: ioapicinit_def ioapicread_def Let_def maxintr_def)
qed

text \<open>
  C30. The I/O APIC sends the interrupts that the drivers have enabled, and no others. After ioapicinit, which returns also when the identifier does not match,
  and any sequence of ioapicenable calls, each request of the controller that was enabled goes to the vector \<open>T_IRQ0 + irq\<close>, on which trap
  serves it, at the processor of the last such call; every other request is masked.
\<close>

theorem irq_routing:
  assumes "screen_ok s" "\<forall>(i, c) \<in> set rs. i < 224 \<and> c < 256"
  shows "\<exists>t. ioapicinit s = Inr t \<and> (\<forall>i \<le> maxintr s. irq_route (fold (\<lambda>(i, c). ioapicenable (of_nat i) c) rs t) i
    = map_option (\<lambda>c. (T_IRQ0 + of_nat i, c)) (map_of (rev rs) i))"
proof -
  obtain t u where t: "ioapicinit s = Inr t" "t = fold ioapic_disable [0..<Suc (maxintr s)] u" using ioapicinit_eq [OF assms(1)] by blast
  have "irq_route (fold (\<lambda>(i, c). ioapicenable (of_nat i) c) rs t) i = map_option (\<lambda>c. (T_IRQ0 + of_nat i, c)) (map_of (rev rs) i)"
    if i: "i \<le> maxintr s" for i
    using assms(2)
  proof (induction rs rule: rev_induct)
    case Nil
    then show ?case using irq_route_disable_all [of "Suc (maxintr s)" i u] i maxintr_bound [of s] t(2) by simp
  next
    case (snoc x rs)
    then show ?case using i maxintr_bound [of s] by (cases x) (auto simp: irq_route_enable)
  qed
  with t(1) show ?thesis by blast
qed

definition hw_ex :: hw where
  "hw_ex = kernel.extend kernel_ex (hw.fields 0xFEE00000 (\<lambda>c. (\<lambda>_. 0)(ID := push_bit 24 (ucast c))) [] 0 0
     ((\<lambda>_. 0)(REG_VER := push_bit 16 23)) 0 0 0 0 (\<lambda>_. 0) 0 0)"

theorem irq_routing_witness:
  "\<exists>t. ioapicinit hw_ex = Inr t \<and> (let u = ioapicenable 14 1 (ioapicenable 4 0 (ioapicenable 1 0 t)) in
     irq_route u 1 = Some (33, 0) \<and> irq_route u 14 = Some (46, 1) \<and> irq_route u 0 = None \<and> irq_route u 23 = None)"
proof -
  have "screen_ok hw_ex" by (simp add: screen_ok_def hw_ex_def kernel.defs kernel_ex_def files_ex_def cons_ex_def logs.defs cons.defs
      inodes.defs files.defs bcache.defs bcache_ex_def disks.defs disks_ex_def)
  moreover have "maxintr hw_ex = 23" by (simp add: maxintr_def hw_ex_def kernel.defs hw.defs)
  ultimately show ?thesis using irq_routing [of hw_ex "[(1, 0), (4, 0), (14, 1)]"] by (auto simp: Let_def T_IRQ0_def)
qed

end
