(* ===== verification/Mp.thy ===== *)
theory Mp
  imports Apic
begin

unbundle bit_operations_syntax

text \<open>
  The multiprocessor tables of the BIOS (mp.c, mp.h): the search for the floating pointer structure and the configuration table in
  memory, and the loop over the entries of the table that fills cpus, ioapicid and lapic. The structures are read from memory at
  the offsets that their declarations give. The array cpus is the list of its first \<open>ncpu\<close> elements, so an element that is
  added has the zeroes of an uninitialised static variable.

  The loop over the entries is a partial function: for an entry of an unknown type it never ends.
\<close>

section \<open>Structures\<close>

definition load16 :: "memory \<Rightarrow> u32 \<Rightarrow> u16" where
  "load16 m a = ucast (m a) OR push_bit 8 (ucast (m (a + 1)))"

definition mp_physaddr :: "memory \<Rightarrow> u32 \<Rightarrow> u32" where "mp_physaddr m mp = load32 m (mp + 4)"
definition mp_imcrp :: "memory \<Rightarrow> u32 \<Rightarrow> u8" where "mp_imcrp m mp = m (mp + 12)"
definition sizeof_mp :: nat where "sizeof_mp = 16"

definition conf_length :: "memory \<Rightarrow> u32 \<Rightarrow> u16" where "conf_length m conf = load16 m (conf + 4)"
definition conf_version :: "memory \<Rightarrow> u32 \<Rightarrow> u8" where "conf_version m conf = m (conf + 6)"
definition conf_lapicaddr :: "memory \<Rightarrow> u32 \<Rightarrow> u32" where "conf_lapicaddr m conf = load32 m (conf + 36)"
definition sizeof_mpconf :: u32 where "sizeof_mpconf = 44"

definition proc_apicid :: "memory \<Rightarrow> u32 \<Rightarrow> u8" where "proc_apicid m p = m (p + 1)"
definition sizeof_mpproc :: u32 where "sizeof_mpproc = 20"

definition ioapic_apicno :: "memory \<Rightarrow> u32 \<Rightarrow> u8" where "ioapic_apicno m p = m (p + 1)"
definition sizeof_mpioapic :: u32 where "sizeof_mpioapic = 8"

definition MPPROC :: u8 where "MPPROC = 0"
definition MPBUS :: u8 where "MPBUS = 1"
definition MPIOAPIC :: u8 where "MPIOAPIC = 2"
definition MPIOINTR :: u8 where "MPIOINTR = 3"
definition MPLINTR :: u8 where "MPLINTR = 4"

definition NCPU :: nat where "NCPU = 8"

section \<open>Search\<close>

definition sum_bytes :: "memory \<Rightarrow> u32 \<Rightarrow> nat \<Rightarrow> u8" where
  "sum_bytes m addr len = word_of_int (\<Sum>i \<leftarrow> [0..<len]. uint (m (addr + of_nat i)))"

text \<open>The loop goes round once for every 16 bytes.\<close>

definition mpsearch1 :: "memory \<Rightarrow> u32 \<Rightarrow> nat \<Rightarrow> u32 result" where
  "mpsearch1 m a len =
    (let addr = P2V a; e = addr + of_nat len in
     bindE (loopE (len div sizeof_mp + 1) (\<lambda>p. p < e)
       (\<lambda>p. Inr (if memcmp (ptr m p) (arr (map of_char ''_MP_'')) 4 = 0 \<and> sum_bytes m p sizeof_mp = 0
                 then Inl p else Inr (p + of_nat sizeof_mp))) addr) (\<lambda>r.
     Inr (case r of Inl p \<Rightarrow> p | Inr _ \<Rightarrow> 0)))"

definition mpsearch :: "memory \<Rightarrow> u32 result" where
  "mpsearch m =
    (let bda = P2V 0x400;
         p = push_bit 4 (push_bit 8 (ucast (m (bda + 0x0F))) OR ucast (m (bda + 0x0E))) :: u32 in
     bindE (if p \<noteq> 0 then mpsearch1 m p 1024
            else let p = (push_bit 8 (ucast (m (bda + 0x14))) OR ucast (m (bda + 0x13))) * 1024 in mpsearch1 m (p - 1024) 1024) (\<lambda>mp.
     if mp \<noteq> 0 then Inr mp else mpsearch1 m 0xF0000 0x10000))"

definition mpconfig :: "memory \<Rightarrow> (u32 \<times> u32) option result" where
  "mpconfig m =
    bindE (mpsearch m) (\<lambda>mp.
    if mp = 0 \<or> mp_physaddr m mp = 0 then Inr None
    else
      let conf = P2V (mp_physaddr m mp) in
      if memcmp (ptr m conf) (arr (map of_char ''PCMP'')) 4 \<noteq> 0 then Inr None
      else if conf_version m conf \<noteq> 1 \<and> conf_version m conf \<noteq> 4 then Inr None
      else if sum_bytes m conf (unat (conf_length m conf)) \<noteq> 0 then Inr None
      else Inr (Some (mp, conf)))"

section \<open>The configuration table\<close>

definition new_cpu :: "u8 \<Rightarrow> cpu" where
  "new_cpu apicid = \<lparr>c_apicid = apicid, c_ncli = 0, c_intena = False, c_proc = None\<rparr>"

definition mp_proc :: "u32 \<Rightarrow> 'a hw_scheme \<Rightarrow> 'a hw_scheme" where
  "mp_proc p s = (if length (cpus s) < NCPU then s\<lparr>cpus := cpus s @ [new_cpu (proc_apicid (pmem s) p)]\<rparr> else s)"

partial_function (option) mp_entries :: "u32 \<Rightarrow> u32 \<Rightarrow> bool \<Rightarrow> 'a hw_scheme \<Rightarrow> (bool \<times> 'a hw_scheme) option" where
  "mp_entries e p ismp s =
    (if p < e then
       let t = pmem s p in
       if t = MPPROC then mp_entries e (p + sizeof_mpproc) ismp (mp_proc p s)
       else if t = MPIOAPIC then mp_entries e (p + sizeof_mpioapic) ismp (s\<lparr>ioapicid := ioapic_apicno (pmem s) p\<rparr>)
       else if t = MPBUS \<or> t = MPIOINTR \<or> t = MPLINTR then mp_entries e (p + 8) ismp s
       else mp_entries e p False s
     else Some (ismp, s))"

definition mask_external :: "'a hw_scheme \<Rightarrow> 'a hw_scheme" where
  "mask_external s = (let s = outb 0x22 0x70 s in outb 0x23 (inb 0x23 s OR 1) s)"

definition mpinit :: "'a hw_scheme \<Rightarrow> 'a hw_scheme result" where
  "mpinit s =
    bindE (mpconfig (pmem s)) (\<lambda>r. case r of
      None \<Rightarrow> Inl (Panic ''Expect to run on an SMP'')
    | Some (mp, conf) \<Rightarrow>
      let m = pmem s; s = s\<lparr>lapic := conf_lapicaddr m conf\<rparr> in
      (case mp_entries (conf + ucast (conf_length m conf)) (conf + sizeof_mpconf) True s of
        None \<Rightarrow> Inl Diverges
      | Some (ismp, s) \<Rightarrow>
        if \<not> ismp then Inl (Panic (''Didn'' @ [CHR 0x27] @ ''t find a suitable machine''))
        else Inr (if mp_imcrp m mp \<noteq> 0 then mask_external s else s)))"

section \<open>What the search finds\<close>

definition mp_found :: "memory \<Rightarrow> u32 \<Rightarrow> bool" where
  "mp_found m p \<longleftrightarrow> memcmp (ptr m p) (arr (map of_char ''_MP_'')) 4 = 0 \<and> sum_bytes m p sizeof_mp = 0"

lemma search_loop:
  assumes "unat p + 16 * n = unat (e :: u32)"
  shows "loopE (n + 1) (\<lambda>p. p < e) (\<lambda>p. Inr (if mp_found m p then Inl p else Inr (p + of_nat sizeof_mp))) p
    = Inr (case find (mp_found m) (map (\<lambda>k. p + of_nat (16 * k)) [0..<n]) of None \<Rightarrow> Inr e | Some q \<Rightarrow> Inl q)"
  using assms
proof (induction n arbitrary: p)
  case 0
  then have "p = e" by (simp add: word_unat_eq_iff)
  then show ?case by simp
next
  case (Suc n)
  have lt: "p < e" using Suc.prems by (simp add: word_less_nat_alt)
  have "unat p + 16 \<le> unat e" "unat e < 2 ^ 32" using Suc.prems unsigned_less [of e] by simp_all
  then have "unat p + 16 < 2 ^ 32" by (rule order.strict_trans1)
  then have p16: "unat (p + 16) + 16 * n = unat e" using Suc.prems by (simp add: unat_word_ariths)
  have "map (\<lambda>k. p + of_nat (16 * k)) [0..<Suc n] = p # map (\<lambda>k. (p + 16) + of_nat (16 * k)) [0..<n]"
    by (simp add: upt_conv_Cons map_Suc_upt [symmetric] algebra_simps del: upt_Suc)
  then show ?case using Suc.IH [OF p16] lt by (simp add: sizeof_mp_def)
qed

lemma mpsearch1_find:
  assumes "unat (P2V a) + 16 * n < 2 ^ 32"
  shows "mpsearch1 m a (16 * n) =
    Inr (case find (mp_found m) (map (\<lambda>k. P2V a + of_nat (16 * k)) [0..<n]) of None \<Rightarrow> 0 | Some q \<Rightarrow> q)"
proof -
  have "unat (P2V a) + 16 * n = unat (P2V a + of_nat (16 * n))"
    using assms by (simp add: unat_word_ariths unat_of_nat del: of_nat_mult)
  from search_loop [OF this, of m] show ?thesis
    by (simp add: mpsearch1_def Let_def sizeof_mp_def mp_found_def split: option.split del: of_nat_mult)
qed

lemma mpsearch1_sound:
  assumes "unat (P2V a) + 16 * n < 2 ^ 32"
  shows "\<exists>p. mpsearch1 m a (16 * n) = Inr p \<and> (p \<noteq> 0 \<longrightarrow> mp_found m p)"
  unfolding mpsearch1_find [OF assms] by (auto simp: find_Some_iff split: option.split)

lemma bda_word: "unat (push_bit 8 (ucast (x :: u8)) OR ucast (y :: u8) :: u32) < 65536"
proof -
  have b: "bit x n \<Longrightarrow> n < 8" "bit y n \<Longrightarrow> n < 8" for n using bit_imp_le_length [of x n] bit_imp_le_length [of y n] by simp_all
  define w where "w = (push_bit 8 (ucast x) OR ucast y :: u32)"
  have "take_bit 16 w = w" unfolding w_def by (rule bit_word_eqI) (auto simp: bit_simps dest: b)
  then have "unat w = take_bit 16 (unat w)" by (metis unsigned_take_bit_eq)
  then show ?thesis using take_bit_nat_less_exp [of 16 "unat w"] by (simp add: w_def)
qed

lemma mpsearch_sound: "\<exists>p. mpsearch m = Inr p \<and> (p \<noteq> 0 \<longrightarrow> mp_found m p)"
proof -
  let ?x = "\<lambda>i j. push_bit 8 (ucast (m (P2V 0x400 + i))) OR ucast (m (P2V 0x400 + j)) :: u32"
  have "\<exists>p. mpsearch1 m (push_bit 4 w) 1024 = Inr p \<and> (p \<noteq> 0 \<longrightarrow> mp_found m p)" if "unat w < 65536" for w
    using that mpsearch1_sound [of "push_bit 4 w" 64 m] by (simp add: push_bit_eq_mult P2V_def KERNBASE_def unat_word_ariths)
  then have p: "\<exists>p. mpsearch1 m (push_bit 4 (?x 0x0F 0x0E)) 1024 = Inr p \<and> (p \<noteq> 0 \<longrightarrow> mp_found m p)" using bda_word by blast
  have "unat (P2V (w * 1024 - 1024)) + 1024 < 2 ^ 32" if "unat w < 65536" for w :: u32
  proof (cases "w = 0")
    case False
    then have "1 \<le> unat w" by (simp add: Suc_leI unat_gt_0)
    then have "unat (w * 1024 - 1024) = unat w * 1024 - 1024" using that by (simp add: unat_sub unat_word_ariths word_le_nat_alt)
    then show ?thesis using that by (simp add: P2V_def KERNBASE_def unat_word_ariths)
  qed (simp add: P2V_def KERNBASE_def)
  then have q: "\<exists>p. mpsearch1 m (?x 0x14 0x13 * 1024 - 1024) 1024 = Inr p \<and> (p \<noteq> 0 \<longrightarrow> mp_found m p)"
    using mpsearch1_sound [of "?x 0x14 0x13 * 1024 - 1024" 64 m] bda_word by simp
  let ?f = "if push_bit 4 (?x 0x0F 0x0E) \<noteq> 0 then mpsearch1 m (push_bit 4 (?x 0x0F 0x0E)) 1024
    else mpsearch1 m (?x 0x14 0x13 * 1024 - 1024) 1024"
  have "\<exists>a. ?f = Inr a \<and> (a \<noteq> 0 \<longrightarrow> mp_found m a)"
    using p q by (cases "push_bit 4 (?x 0x0F 0x0E) = 0") (simp_all only: if_True if_False simp_thms)
  then obtain a where a: "?f = Inr a" "a \<noteq> 0 \<Longrightarrow> mp_found m a" by blast
  have "\<exists>p. mpsearch1 m 0xF0000 0x10000 = Inr p \<and> (p \<noteq> 0 \<longrightarrow> mp_found m p)"
    using mpsearch1_sound [of "0xF0000" 4096 m] by (simp add: P2V_def KERNBASE_def)
  then show ?thesis unfolding mpsearch_def Let_def a(1) bindE_Inr using a(2) by (cases "a = 0") simp_all
qed

text \<open>mpconfig always returns; a table that it returns has the signature, a version that is known, and the checksum.\<close>

lemma mpconfig_sound:
  "\<exists>r. mpconfig m = Inr r \<and> (\<forall>mp conf. r = Some (mp, conf) \<longrightarrow> mp_found m mp \<and> conf = P2V (mp_physaddr m mp)
     \<and> conf_version m conf \<in> {1, 4} \<and> sum_bytes m conf (unat (conf_length m conf)) = 0)"
  using mpsearch_sound [of m] by (auto simp: mpconfig_def Let_def)

section \<open>The entries\<close>

datatype mp_entry = Processor u8 | IoApic u8 | OtherEntry u8

fun entry_size :: "mp_entry \<Rightarrow> nat" where
  "entry_size (Processor a) = 20" | "entry_size (IoApic a) = 8" | "entry_size (OtherEntry t) = 8"

fun entry_at :: "memory \<Rightarrow> u32 \<Rightarrow> mp_entry \<Rightarrow> bool" where
  "entry_at m p (Processor a) = (m p = MPPROC \<and> proc_apicid m p = a)"
| "entry_at m p (IoApic a) = (m p = MPIOAPIC \<and> ioapic_apicno m p = a)"
| "entry_at m p (OtherEntry t) = (m p = t \<and> t \<in> {MPBUS, MPIOINTR, MPLINTR})"

fun entries_at :: "memory \<Rightarrow> u32 \<Rightarrow> mp_entry list \<Rightarrow> bool" where
  "entries_at m p [] = True"
| "entries_at m p (x # xs) = (entry_at m p x \<and> entries_at m (p + of_nat (entry_size x)) xs)"

abbreviation table_size :: "mp_entry list \<Rightarrow> nat" where
  "table_size xs \<equiv> sum_list (map entry_size xs)"

fun processors :: "mp_entry list \<Rightarrow> u8 list" where
  "processors [] = []" | "processors (Processor a # xs) = a # processors xs" | "processors (_ # xs) = processors xs"

fun io_apics :: "mp_entry list \<Rightarrow> u8 list" where
  "io_apics [] = []" | "io_apics (IoApic a # xs) = a # io_apics xs" | "io_apics (_ # xs) = io_apics xs"

lemma entry_size_pos: "0 < entry_size x \<and> entry_size x \<le> 20"
  by (cases x) simp_all

lemmas mp_type_defs = MPPROC_def MPBUS_def MPIOAPIC_def MPIOINTR_def MPLINTR_def

lemma mp_types_distinct: "distinct [MPPROC, MPBUS, MPIOAPIC, MPIOINTR, MPLINTR]"
  by code_simp

text \<open>The loop over entries of the known types: the first eight processors and the last I/O APIC are recorded.\<close>

lemma mp_entries_run:
  assumes "entries_at (pmem s) p xs" "unat p + table_size xs \<le> unat e"
  shows "mp_entries e p b s = mp_entries e (p + of_nat (table_size xs)) b
    (s\<lparr>cpus := cpus s @ map new_cpu (take (NCPU - length (cpus s)) (processors xs)), ioapicid := last (ioapicid s # io_apics xs)\<rparr>)"
  using assms
proof (induction xs arbitrary: p s)
  case (Cons x xs)
  have lt: "p < e" using Cons.prems(2) entry_size_pos [of x] by (simp add: word_less_nat_alt)
  have "unat p + entry_size x \<le> unat e" "unat e < 2 ^ 32" using Cons.prems(2) unsigned_less [of e] by simp_all
  then have "unat p + entry_size x < 2 ^ 32" by (rule order.strict_trans1)
  then have q: "unat (p + of_nat (entry_size x)) + table_size xs \<le> unat e"
    using Cons.prems(2) entry_size_pos [of x] by (simp add: unat_word_ariths unat_of_nat)
  note IH = Cons.IH [OF _ q]
  show ?case
  proof (cases x)
    case (Processor a)
    then show ?thesis using lt Cons.prems(1) IH [of "mp_proc p s"]
      by (subst mp_entries.simps) (auto simp: mp_proc_def sizeof_mpproc_def mp_type_defs Suc_diff_Suc [symmetric] algebra_simps)
  next
    case (IoApic a)
    then show ?thesis using lt Cons.prems(1) IH [of "s\<lparr>ioapicid := a\<rparr>"]
      by (subst mp_entries.simps) (auto simp: sizeof_mpioapic_def mp_type_defs algebra_simps)
  next
    case (OtherEntry t)
    then show ?thesis using lt Cons.prems(1) IH [of s] mp_types_distinct
      by (subst mp_entries.simps) (auto simp: algebra_simps)
  qed
qed simp

text \<open>At an entry of an unknown type the loop does not advance: the statement break leaves only the switch.\<close>

lemma mp_entries_stuck:
  assumes "p < e" "4 < pmem s p"
  shows "mp_entries e p b s = None"
proof (rule ccontr)
  assume "mp_entries e p b s \<noteq> None"
  then obtain r where r: "mp_entries e p b s = Some r" by blast
  have "p < e \<longrightarrow> \<not> 4 < pmem s p"
  proof (rule mp_entries.raw_induct [where P = "\<lambda>e p b s r. p < e \<longrightarrow> \<not> 4 < pmem s p", OF _ r])
    fix f :: "u32 \<Rightarrow> u32 \<Rightarrow> bool \<Rightarrow> 'a hw_scheme \<Rightarrow> (bool \<times> 'a hw_scheme) option" and e p b s r
    assume IH: "\<And>e p b s r. f e p b s = Some r \<Longrightarrow> p < e \<longrightarrow> \<not> 4 < pmem s p"
      and "(if p < e then let t = pmem s p in
         if t = MPPROC then f e (p + sizeof_mpproc) b (mp_proc p s)
         else if t = MPIOAPIC then f e (p + sizeof_mpioapic) b (s\<lparr>ioapicid := ioapic_apicno (pmem s) p\<rparr>)
         else if t = MPBUS \<or> t = MPIOINTR \<or> t = MPLINTR then f e (p + 8) b s else f e p False s
       else Some (b, s)) = Some r"
    then show "p < e \<longrightarrow> \<not> 4 < pmem s p" using IH [of e p False s r] by (auto simp: Let_def mp_type_defs split: if_splits)
  qed
  with assms show False by blast
qed

section \<open>mpinit\<close>

lemma mask_external_eq: "mask_external s = s\<lparr>imcr_index := 0x70, imcr := imcr s OR 1\<rparr>"
  by (simp add: mask_external_def outb_def inb_def Let_def CMOS_PORT_def CMOS_RETURN_def IO_PIC1_def IO_PIC2_def)

text \<open>
  C28. mpinit reads the configuration table. When the table that mpconfig has found consists of entries of the known types, mpinit returns,
  and has recorded the processors of the table in their order, the first eight of them, the last I/O APIC and the address of the local APIC, has masked
  the external interrupts when the structure asks for it, and has changed nothing else. When an entry of another type follows, mpinit
  never returns: the loop sets ismp to 0 but goes on with the same entry, so that the panic after the loop is not reached.
\<close>

theorem mpinit_outcomes:
  assumes conf: "mpconfig (pmem s) = Inr (Some (mp, conf))" and at: "entries_at (pmem s) (conf + 44) xs"
    and room: "unat conf + unat (conf_length (pmem s) conf) < 2 ^ 32"
  defines "len \<equiv> unat (conf_length (pmem s) conf)" and "n \<equiv> 44 + table_size xs"
  shows "(len = n \<longrightarrow> mpinit s =
      (let t = s\<lparr>cpus := cpus s @ map new_cpu (take (NCPU - length (cpus s)) (processors xs)), ioapicid := last (ioapicid s # io_apics xs),
             lapic := conf_lapicaddr (pmem s) conf\<rparr>
       in Inr (if mp_imcrp (pmem s) mp \<noteq> 0 then t\<lparr>imcr_index := 0x70, imcr := imcr s OR 1\<rparr> else t)))
    \<and> (n < len \<and> 4 < pmem s (conf + of_nat n) \<longrightarrow> mpinit s = Inl Diverges)"
proof -
  let ?s = "s\<lparr>lapic := conf_lapicaddr (pmem s) conf\<rparr>" let ?e = "conf + ucast (conf_length (pmem s) conf)"
  let ?t = "?s\<lparr>cpus := cpus s @ map new_cpu (take (NCPU - length (cpus s)) (processors xs)), ioapicid := last (ioapicid s # io_apics xs)\<rparr>"
  have l: "len < 2 ^ 16" unfolding len_def using unsigned_less [of "conf_length (pmem s) conf"] by simp
  have "unat (ucast (conf_length (pmem s) conf) :: u32) = len" using l by (simp add: len_def unsigned_ucast_eq take_bit_eq_mod)
  then have e: "unat ?e = unat conf + len" using room by (simp add: len_def unat_word_ariths)
  have p: "unat (conf + of_nat k) = unat conf + k" if "k \<le> len" for k
  proof -
    have "unat conf + k < 2 ^ 32" using room that unfolding len_def by linarith
    then show ?thesis using that l by (simp add: unat_word_ariths unat_of_nat)
  qed
  have run: "mp_entries ?e (conf + 44) True ?s = mp_entries ?e (conf + of_nat n) True ?t" if "n \<le> len"
    using mp_entries_run [of ?s "conf + 44" xs ?e True] at that p [of 44] e by (simp add: n_def algebra_simps)
  have "mpinit s = Inr (if mp_imcrp (pmem s) mp \<noteq> 0 then mask_external ?t else ?t)" if "len = n"
  proof -
    have "conf + of_nat n = ?e" using e p [of n] that by (simp add: word_unat_eq_iff)
    then have "mp_entries ?e (conf + 44) True ?s = Some (True, ?t)" using run that by (simp add: mp_entries.simps [of ?e ?e])
    then show ?thesis using conf by (simp add: mpinit_def Let_def sizeof_mpconf_def)
  qed
  moreover have "mpinit s = Inl Diverges" if "n < len" "4 < pmem s (conf + of_nat n)"
  proof -
    have "conf + of_nat n < ?e" using e p [of n] that(1) by (simp add: word_less_nat_alt)
    then have "mp_entries ?e (conf + of_nat n) True ?t = None" using that(2) by (intro mp_entries_stuck) simp_all
    then show ?thesis using conf run that(1) by (simp add: mpinit_def Let_def sizeof_mpconf_def)
  qed
  ultimately show ?thesis by (simp add: mask_external_eq Let_def)
qed

text \<open>A table with the processor 3 and one entry of the given type, whose second byte is 7.\<close>

definition conf_ex :: "u8 \<Rightarrow> u8 list" where
  "conf_ex t = map of_char ''PCMP'' @ bytes16 72 @ [4, 0x9C - t] @ replicate 28 0 @ bytes32 0xFEE00000 @ replicate 4 0
     @ [0, 3] @ replicate 18 0 @ [t, 7] @ replicate 6 0"

definition mp_mem :: "u8 \<Rightarrow> memory" where
  "mp_mem t a =
    (if a - P2V 0x40E < 2 then [0xC0, 0x9F] ! unat (a - P2V 0x40E)
     else if a - P2V 0x9FC00 < 16 then (map of_char ''_MP_'' @ [0, 0, 0x0F, 0, 1, 4, 0x11, 0, 0x80, 0, 0, 0]) ! unat (a - P2V 0x9FC00)
     else if a - P2V 0xF0000 < 72 then conf_ex t ! unat (a - P2V 0xF0000)
     else 0)"

lemma mpsearch1_first: "mp_found m (P2V a) \<Longrightarrow> P2V a < P2V a + of_nat len \<Longrightarrow> mpsearch1 m a len = Inr (P2V a)"
  by (simp add: mpsearch1_def Let_def mp_found_def)

lemma sum_bytes_list:
  assumes "\<And>i. i < length xs \<Longrightarrow> m (addr + of_nat i) = xs ! i"
  shows "sum_bytes m addr (length xs) = sum_list xs"
proof -
  have "(word_of_int (\<Sum>i \<leftarrow> is. uint (f i)) :: u8) = (\<Sum>i \<leftarrow> is. f i)" for "is" :: "nat list" and f :: "nat \<Rightarrow> u8" by (induction "is") simp_all
  then have "sum_bytes m addr (length xs) = (\<Sum>i \<leftarrow> [0..<length xs]. m (addr + of_nat i))" by (simp add: sum_bytes_def)
  also have "\<dots> = (\<Sum>i \<leftarrow> [0..<length xs]. xs ! i)" using assms by (intro arg_cong [where f = sum_list] map_cong) auto
  finally show ?thesis by (simp add: map_nth)
qed

lemma mp_mem_table: "i < 72 \<Longrightarrow> mp_mem t (P2V 0xF0000 + of_nat i) = conf_ex t ! i"
  by (simp add: mp_mem_def P2V_def KERNBASE_def word_less_nat_alt unat_word_ariths unat_of_nat)

lemma mp_mem_config:
  assumes "t = 2 \<or> t = 9"
  shows "mpconfig (mp_mem t) = Inr (Some (P2V 0x9FC00, P2V 0xF0000))"
proof -
  have "mp_found (mp_mem 2) (P2V 0x9FC00)" "mp_found (mp_mem 9) (P2V 0x9FC00)" by code_simp+
  then have "mpsearch1 (mp_mem t) 0x9FC00 1024 = Inr (P2V 0x9FC00)"
    using assms mpsearch1_first [of "mp_mem t" "0x9FC00" 1024] by (auto simp: P2V_def KERNBASE_def)
  moreover have "push_bit 4 (push_bit 8 (ucast (mp_mem t (P2V 0x400 + 0x0F))) OR ucast (mp_mem t (P2V 0x400 + 0x0E))) = (0x9FC00 :: u32)"
    by (simp add: mp_mem_def P2V_def KERNBASE_def)
  ultimately have s: "mpsearch (mp_mem t) = Inr (P2V 0x9FC00)" by (simp add: mpsearch_def Let_def P2V_def KERNBASE_def)
  have l: "length (conf_ex t) = 72" "sum_list (conf_ex t) = 0" using assms by (auto simp: conf_ex_def bytes32_def bytes16_def sum_list_replicate)
  have "sum_bytes (mp_mem t) (P2V 0xF0000) 72 = 0" using sum_bytes_list [of "conf_ex t" "mp_mem t" "P2V 0xF0000"] mp_mem_table l by simp
  moreover have "conf_length (mp_mem 2) (P2V 0xF0000) = 72" "conf_length (mp_mem 9) (P2V 0xF0000) = 72"
    "mp_physaddr (mp_mem 2) (P2V 0x9FC00) = 0xF0000" "mp_physaddr (mp_mem 9) (P2V 0x9FC00) = 0xF0000"
    "conf_version (mp_mem 2) (P2V 0xF0000) = 4" "conf_version (mp_mem 9) (P2V 0xF0000) = 4"
    "memcmp (ptr (mp_mem 2) (P2V 0xF0000)) (arr (map of_char ''PCMP'')) 4 = 0"
    "memcmp (ptr (mp_mem 9) (P2V 0xF0000)) (arr (map of_char ''PCMP'')) 4 = 0" by code_simp+
  ultimately show ?thesis using s assms by (auto simp: mpconfig_def Let_def P2V_def KERNBASE_def)
qed

lemma mp_mem_entries:
  "entries_at (mp_mem 2) (P2V 0xF0000 + 44) [Processor 3, IoApic 7]" "entries_at (mp_mem 9) (P2V 0xF0000 + 44) [Processor 3]"
  "mp_mem 9 (P2V 0xF0000 + 64) = 9" "conf_length (mp_mem 2) (P2V 0xF0000) = 72" "conf_length (mp_mem 9) (P2V 0xF0000) = 72"
  "mp_imcrp (mp_mem 2) (P2V 0x9FC00) = 0x80"
  by code_simp+

theorem mpinit_outcomes_witness:
  "(\<exists>t. mpinit (hw_ex\<lparr>pmem := mp_mem 2, cpus := []\<rparr>) = Inr t \<and> cpus t = [new_cpu 3] \<and> ioapicid t = 7 \<and> imcr t = 1)
   \<and> mpinit (hw_ex\<lparr>pmem := mp_mem 9, cpus := []\<rparr>) = Inl Diverges"
proof -
  let ?s = "\<lambda>t. hw_ex\<lparr>pmem := mp_mem t, cpus := []\<rparr>"
  have i: "imcr hw_ex = 0" by (simp add: hw_ex_def kernel.defs hw.defs)
  have r: "unat (P2V 0xF0000) + 72 < 2 ^ 32" by (simp add: P2V_def KERNBASE_def)
  have "\<exists>t. mpinit (?s 2) = Inr t \<and> cpus t = [new_cpu 3] \<and> ioapicid t = 7 \<and> imcr t = 1"
    using mpinit_outcomes [of "?s 2" "P2V 0x9FC00" "P2V 0xF0000" "[Processor 3, IoApic 7]"] mp_mem_config mp_mem_entries r i
    by (simp add: NCPU_def)
  moreover have "mpinit (?s 9) = Inl Diverges"
    using mpinit_outcomes [of "?s 9" "P2V 0x9FC00" "P2V 0xF0000" "[Processor 3]"] mp_mem_config mp_mem_entries r by simp
  ultimately show ?thesis by blast
qed

end
