(* ===== verification/Boot.thy ===== *)
theory Boot
  imports Mp
begin

unbundle bit_operations_syntax

text \<open>
  The start of the system: the boot loader (bootmain.c), main and the start of the other processors (main.c), with seginit (vm.c),
  idtinit (trap.c) and the boot page directory.

  What the linker decides is given by \<open>symbols\<close>: the addresses of the entry code of the other processors, of mpenter, of the boot page directory
  and of the first program. What the devices answer is given by \<open>answers\<close>. While the boot processor waits in startothers, the other processor runs
  mpenter up to the loop of its scheduler; the assembly in entryother.S, which disables interrupts, loads the stack and calls mpenter, is the
  switch of \<open>m_lapicid\<close> in \<open>run_other\<close>. A scheduler that has reached its loop goes on with the steps of theory Sched.
\<close>

section \<open>State\<close>

record segdesc =
  sd_lim_15_0 :: u16
  sd_base_15_0 :: u16
  sd_base_23_16 :: u8
  sd_type :: "4 word"
  sd_s :: "1 word"
  sd_dpl :: "2 word"
  sd_p :: "1 word"
  sd_lim_19_16 :: "4 word"
  sd_avl :: "1 word"
  sd_rsv1 :: "1 word"
  sd_db :: "1 word"
  sd_g :: "1 word"
  sd_base_31_24 :: u8

record boot = hw +
  gdt :: "nat \<Rightarrow> segdesc list"
  gdtr :: "u8 \<Rightarrow> nat option"
  idt_loaded :: "u8 \<Rightarrow> bool"
  started :: "nat \<Rightarrow> bool"

record symbols =
  sy_entryother :: u32
  sy_entryother_size :: u32
  sy_mpenter :: u32
  sy_entrypgdir :: u32
  sy_initcode :: u32
  sy_initcode_size :: u32

record answers =
  an_apic :: "u32 list"
  an_uart :: u8
  an_disk :: "u8 list"

section \<open>Segments\<close>

definition NSEGS :: nat where "NSEGS = 6"
definition SEG_KCODE :: nat where "SEG_KCODE = 1"
definition SEG_KDATA :: nat where "SEG_KDATA = 2"
definition STA_X :: "4 word" where "STA_X = 8"
definition STA_W :: "4 word" where "STA_W = 2"
definition STA_R :: "4 word" where "STA_R = 2"

definition SEG :: "4 word \<Rightarrow> u32 \<Rightarrow> u32 \<Rightarrow> u16 \<Rightarrow> segdesc" where
  "SEG type base limit dpl =
    \<lparr>sd_lim_15_0 = ucast (drop_bit 12 limit AND 0xffff), sd_base_15_0 = ucast (base AND 0xffff),
     sd_base_23_16 = ucast (drop_bit 16 base AND 0xff), sd_type = type, sd_s = 1, sd_dpl = ucast dpl, sd_p = 1,
     sd_lim_19_16 = ucast (drop_bit 28 limit), sd_avl = 0, sd_rsv1 = 0, sd_db = 1, sd_g = 1,
     sd_base_31_24 = ucast (drop_bit 24 base)\<rparr>"

definition seginit :: "'a boot_scheme \<Rightarrow> 'a boot_scheme result" where
  "seginit s =
    bindE (cpuid s) (\<lambda>c.
    let g = gdt s c;
        g = g[SEG_KCODE := SEG (STA_X OR STA_R) 0 0xffffffff 0];
        g = g[SEG_KDATA := SEG STA_W 0 0xffffffff 0];
        g = g[unat SEG_UCODE := SEG (STA_X OR STA_R) 0 0xffffffff DPL_USER];
        g = g[unat SEG_UDATA := SEG STA_W 0 0xffffffff DPL_USER] in
    Inr (s\<lparr>gdt := (gdt s)(c := g), gdtr := (gdtr s)(m_lapicid s := Some c)\<rparr>))"

definition idtinit :: "'a boot_scheme \<Rightarrow> 'a boot_scheme" where
  "idtinit s = s\<lparr>idt_loaded := (idt_loaded s)(m_lapicid s := True)\<rparr>"

section \<open>Processors\<close>

text \<open>The result is the processor and the state in which the scheduler begins its loop.\<close>

definition mpmain :: "'a boot_scheme \<Rightarrow> (nat \<times> 'a boot_scheme) result" where
  "mpmain s =
    bindE (cpuid s) (\<lambda>c.
    bindE (cpuid s) (\<lambda>c'.
    bindE (cprintf (''cpu%d: starting %d'' @ [CHR 0x0A]) [Num (of_nat c), Num (of_nat c')] s) (\<lambda>s.
    let s = idtinit s in
    bindE (mycpu s) (\<lambda>c.
    scheduler_start (s\<lparr>started := (started s)(c := True)\<rparr>)))))"

definition mpenter :: "u32 list \<Rightarrow> 'a boot_scheme \<Rightarrow> (nat \<times> 'a boot_scheme) result" where
  "mpenter polls s =
    (let s = switchkvm s in
     bindE (seginit s) (\<lambda>s.
     bindE (lapicinit polls s) (\<lambda>s.
     mpmain s)))"

text \<open>The wait \<open>while(c->started == 0)\<close> for processor \<open>c\<close>, which runs meanwhile.\<close>

definition run_other :: "u32 list \<Rightarrow> nat \<Rightarrow> 'a boot_scheme \<Rightarrow> 'a boot_scheme result" where
  "run_other polls c s =
    (let me = m_lapicid s in
     bindE (mpenter polls (cli (s\<lparr>m_lapicid := c_apicid (cpus s ! c)\<rparr>))) (\<lambda>(_, s).
     bindE (guardE (started s c) Diverges) (\<lambda>_.
     Inr (s\<lparr>m_lapicid := me\<rparr>))))"

definition start_cpu :: "symbols \<Rightarrow> u32 list \<Rightarrow> nat \<Rightarrow> 'a boot_scheme \<Rightarrow> 'a boot_scheme result" where
  "start_cpu sy polls c s =
    (let code = P2V 0x7000 in
     bindE (mycpu s) (\<lambda>me.
     if c = me then Inr s
     else
       bindE (kalloc s) (\<lambda>(stack, s).
       let s = s\<lparr>pmem := store32 (store32 (store32 (pmem s) (code - 4) (stack + KSTACKSIZE))
                 (code - 8) (sy_mpenter sy)) (code - 12) (V2P (sy_entrypgdir sy))\<rparr> in
       bindE (lapicstartap (c_apicid (cpus s ! c)) (V2P code) s) (\<lambda>s.
       run_other polls c s))))"

definition startothers :: "symbols \<Rightarrow> u32 list \<Rightarrow> 'a boot_scheme \<Rightarrow> 'a boot_scheme result" where
  "startothers sy polls s =
    (let s = s\<lparr>pmem := memmove (pmem s) (P2V 0x7000) (sy_entryother sy) (sy_entryother_size sy)\<rparr> in
     forE (start_cpu sy polls) [0..<length (cpus s)] s)"

text \<open>\<open>uartinit\<close> and \<open>ideinit\<close> with the interrupts that they enable.\<close>

definition uart_start :: "u8 \<Rightarrow> 'a boot_scheme \<Rightarrow> 'a boot_scheme" where
  "uart_start st s = uartinit st (if st = 0xFF then s else ioapicenable IRQ_COM1 0 s)"

definition ide_start :: "u8 list \<Rightarrow> 'a boot_scheme \<Rightarrow> 'a boot_scheme result" where
  "ide_start polls s = ideinit polls (ioapicenable IRQ_IDE (of_nat (length (cpus s)) - 1) s)"

definition kernel_main :: "symbols \<Rightarrow> answers \<Rightarrow> 'a boot_scheme \<Rightarrow> (nat \<times> 'a boot_scheme) result" where
  "kernel_main sy an s =
    bindE (kinit1 (kend s) (P2V (4 * 1024 * 1024)) s) (\<lambda>s.
    bindE (kvmalloc s) (\<lambda>s.
    bindE (mpinit s) (\<lambda>s.
    bindE (lapicinit (an_apic an) s) (\<lambda>s.
    bindE (seginit s) (\<lambda>s.
    let s = picinit s in
    bindE (ioapicinit s) (\<lambda>s.
    let s = ioapicenable IRQ_KBD 0 (consoleinit s);
        s = uart_start (an_uart an) s;
        s = pinit s;
        s = tvinit s;
        s = binit s;
        s = fileinit s in
    bindE (ide_start (an_disk an) s) (\<lambda>s.
    bindE (startothers sy (an_apic an) s) (\<lambda>s.
    bindE (kinit2 (P2V (4 * 1024 * 1024)) (P2V PHYSTOP) s) (\<lambda>s.
    bindE (userinit (sy_initcode sy) (sy_initcode_size sy) s) (\<lambda>s.
    mpmain s))))))))))"

definition PTE_PS :: u32 where "PTE_PS = 0x080"
definition PDXSHIFT :: nat where "PDXSHIFT = 22"

definition entrypgdir :: "u32 list" where
  "entrypgdir = (replicate NPDENTRIES 0)
     [0 := 0 OR PTE_P OR PTE_W OR PTE_PS, unat (drop_bit PDXSHIFT KERNBASE) := 0 OR PTE_P OR PTE_W OR PTE_PS]"

section \<open>The boot loader\<close>

text \<open>The memory is the physical memory, and the disk gives the contents of its sectors.\<close>

definition SECTSIZE :: nat where "SECTSIZE = 512"

definition readsect :: "(u32 \<Rightarrow> u32 \<Rightarrow> u8 list) \<Rightarrow> u32 \<Rightarrow> u32 \<Rightarrow> memory \<Rightarrow> memory" where
  "readsect dsk dst offset m =
    (let (dev, sect) = ide_target \<lparr>r_count = 1, r_lba0 = ucast offset, r_lba1 = ucast (drop_bit 8 offset),
           r_lba2 = ucast (drop_bit 16 offset), r_device = ucast (drop_bit 24 offset OR 0xE0)\<rparr> in
     put_bytes m dst (take SECTSIZE (dsk dev sect)))"

text \<open>A round for every sector that the bytes touch.\<close>

definition readseg :: "(u32 \<Rightarrow> u32 \<Rightarrow> u8 list) \<Rightarrow> u32 \<Rightarrow> u32 \<Rightarrow> u32 \<Rightarrow> memory \<Rightarrow> memory result" where
  "readseg dsk pa count offset m =
    (let epa = pa + count;
         pa = pa - offset mod of_nat SECTSIZE;
         offset = offset div of_nat SECTSIZE + 1 in
     bindE (loopE (unat count div SECTSIZE + 2) (\<lambda>(pa, offset, m). pa < epa)
       (\<lambda>(pa, offset, m). Inr (Inr (pa + of_nat SECTSIZE, offset + 1, readsect dsk pa offset m))) (pa, offset, m)) (\<lambda>r.
     case r of Inl () \<Rightarrow> Inr m | Inr (_, _, m) \<Rightarrow> Inr m))"

definition ELFADDR :: u32 where "ELFADDR = 0x10000"

definition load_segment :: "(u32 \<Rightarrow> u32 \<Rightarrow> u8 list) \<Rightarrow> u32 \<Rightarrow> memory \<Rightarrow> memory result" where
  "load_segment dsk ph m =
    (let pa = load32 m (ph + 12); off = load32 m (ph + 4); filesz = load32 m (ph + 16) in
     bindE (readseg dsk pa filesz off m) (\<lambda>m.
     let filesz = load32 m (ph + 16); memsz = load32 m (ph + 20) in
     Inr (if filesz < memsz then stosb m (pa + filesz) 0 (unat (memsz - filesz)) else m)))"

text \<open>The result is \<open>None\<close> when the image is not an ELF file, and otherwise the entry point and the memory.\<close>

definition bootmain :: "(u32 \<Rightarrow> u32 \<Rightarrow> u8 list) \<Rightarrow> memory \<Rightarrow> (u32 \<times> memory) option result" where
  "bootmain dsk m =
    bindE (readseg dsk ELFADDR 4096 0 m) (\<lambda>m.
    if load32 m ELFADDR \<noteq> ELF_MAGIC then Inr None
    else
      let ph = ELFADDR + load32 m (ELFADDR + 28); phnum = load16 m (ELFADDR + 44); eph = ph + 32 * ucast phnum in
      bindE (loopE (unat phnum) (\<lambda>(ph, m). ph < eph)
        (\<lambda>(ph, m). bindE (load_segment dsk ph m) (\<lambda>m. Inr (Inr (ph + 32, m)))) (ph, m)) (\<lambda>r.
      case r of Inl () \<Rightarrow> Inr None | Inr (_, m) \<Rightarrow> Inr (Some (load32 m (ELFADDR + 24), m))))"

section \<open>Segments and the boot page directory\<close>

text \<open>How the processor reads a descriptor.\<close>

definition seg_base :: "segdesc \<Rightarrow> u32" where
  "seg_base d = ucast (sd_base_15_0 d) OR push_bit 16 (ucast (sd_base_23_16 d)) OR push_bit 24 (ucast (sd_base_31_24 d))"

definition seg_limit :: "segdesc \<Rightarrow> u32" where
  "seg_limit d =
    (let l = ucast (sd_lim_15_0 d) OR push_bit 16 (ucast (sd_lim_19_16 d)) in
     if sd_g d = 1 then push_bit 12 l OR 0xFFF else l)"

lemma bit_mask_numeral:
  "bit (0xFFFF :: int) n \<longleftrightarrow> n < 16" "bit (0xFF :: int) n \<longleftrightarrow> n < 8" "bit (0xFFF :: int) n \<longleftrightarrow> n < 12"
proof -
  have "(0xFFFF :: int) = mask 16" "(0xFF :: int) = mask 8" "(0xFFF :: int) = mask 12" by (simp_all add: mask_eq_exp_minus_1)
  then show "bit (0xFFFF :: int) n \<longleftrightarrow> n < 16" "bit (0xFF :: int) n \<longleftrightarrow> n < 8" "bit (0xFFF :: int) n \<longleftrightarrow> n < 12"
    by (simp_all only: bit_mask_iff) auto
qed

lemma SEG_base: "seg_base (SEG t b l d) = b"
proof (rule bit_word_eqI)
  fix n assume n: "n < LENGTH(32)"
  consider "n < 16" | k where "n = 16 + k" "k < 8" | k where "n = 24 + k" "k < 8"
    using n le_Suc_ex [of 16 n] le_Suc_ex [of 24 n] by (cases "n < 16"; cases "n < 24") auto
  then show "bit (seg_base (SEG t b l d)) n = bit b n"
    by cases (auto simp: seg_base_def SEG_def bit_simps bit_mask_numeral)
qed

lemma SEG_limit: "seg_limit (SEG t b l d) = l OR 0xFFF"
proof (rule bit_word_eqI)
  fix n assume n: "n < LENGTH(32)"
  consider "n < 12" | k where "n = 12 + k" "k < 16" | k where "n = 28 + k" "k < 4"
    using n le_Suc_ex [of 12 n] le_Suc_ex [of 28 n] by (cases "n < 12"; cases "n < 28") auto
  then show "bit (seg_limit (SEG t b l d)) n = bit (l OR 0xFFF) n"
    by cases (auto simp: seg_limit_def SEG_def bit_simps bit_mask_numeral Let_def)
qed

text \<open>Kernel and user code and data segments that cover the whole address space.\<close>

definition flat_gdt :: "segdesc list \<Rightarrow> bool" where
  "flat_gdt g \<longleftrightarrow> length g = NSEGS \<and> (\<forall>i \<in> {1, 2, 3, 4}. seg_base (g ! i) = 0 \<and> seg_limit (g ! i) = 0xFFFFFFFF \<and> sd_p (g ! i) = 1
     \<and> sd_dpl (g ! i) = (if i \<le> 2 then 0 else 3) \<and> sd_type (g ! i) = (if i = 1 \<or> i = 3 then STA_X OR STA_R else STA_W))"

lemma mycpu_index:
  assumes "i < length (cpus s)" "c_apicid (cpus s ! i) = m_lapicid s" "distinct (map c_apicid (cpus s))" "\<not> m_IF s (m_lapicid s)"
  shows "mycpu s = Inr i"
proof -
  have "j = i" if "j < length (cpus s)" "c_apicid (cpus s ! j) = m_lapicid s" for j
    using that assms(1,2) nth_eq_iff_index_eq [OF assms(3), of j i] by simp
  then have "scan (\<lambda>c. c_apicid c = m_lapicid s) (cpus s) = Some i" using assms(1,2) by (intro scan_unique)
  then show ?thesis using assms(4) by (simp add: mycpu_def readeflags_IF_def)
qed

lemma seginit_ok:
  assumes "mycpu s = Inr i" "length (gdt s i) = NSEGS"
  shows "\<exists>g. seginit s = Inr (s\<lparr>gdt := (gdt s)(i := g), gdtr := (gdtr s)(m_lapicid s := Some i)\<rparr>) \<and> flat_gdt g"
proof -
  let ?g = "(gdt s i)[SEG_KCODE := SEG (STA_X OR STA_R) 0 0xffffffff 0, SEG_KDATA := SEG STA_W 0 0xffffffff 0,
    unat SEG_UCODE := SEG (STA_X OR STA_R) 0 0xffffffff DPL_USER, unat SEG_UDATA := SEG STA_W 0 0xffffffff DPL_USER]"
  have f: "sd_p (SEG t b l d) = 1" "sd_type (SEG t b l d) = t" "sd_dpl (SEG t b l d) = ucast d" for t b l d by (simp_all add: SEG_def)
  have "flat_gdt ?g" using assms(2) by (simp add: flat_gdt_def SEG_base SEG_limit f NSEGS_def SEG_KCODE_def SEG_KDATA_def SEG_UCODE_def
      SEG_UDATA_def DPL_USER_def)
  then show ?thesis using assms(1) by (intro exI [of _ ?g]) (simp add: seginit_def cpuid_def Let_def)
qed

text \<open>The boot page directory maps the first four megabytes at 0 and at \<open>KERNBASE\<close>.\<close>

lemma entrypgdir_maps:
  "length entrypgdir = 1024" "i < 1024 \<Longrightarrow> present (entrypgdir ! i) \<longleftrightarrow> i = 0 \<or> i = unat (PDX KERNBASE)"
  "PTE_ADDR (entrypgdir ! 0) = 0" "PTE_ADDR (entrypgdir ! unat (PDX KERNBASE)) = 0"
  by (auto simp: entrypgdir_def NPDENTRIES_def PDXSHIFT_def KERNBASE_def present_def PTE_P_def PTE_W_def PTE_PS_def PDX_def PTE_ADDR_def nth_list_update)

section \<open>The start of a processor\<close>

lemma starting_text: "\<exists>w. cprintf_text (''cpu%d: starting %d'' @ [CHR 0x0A]) [Num a, Num b] = Inr w"
  using printint_total [of 10 cdigits "sint a" True] printint_total [of 10 cdigits "sint b" True]
  by (auto simp: conversion_def arg_num_def)

lemma mycpu_same: "cpus t = cpus s \<Longrightarrow> m_lapicid t = m_lapicid s \<Longrightarrow> m_IF t = m_IF s \<Longrightarrow> mycpu t = mycpu s"
  by (simp add: mycpu_def readeflags_IF_def)

lemma mpmain_ok:
  assumes "mycpu s = Inr i" "screen_ok s"
  shows "\<exists>o' p q. mpmain s = Inr (i, s\<lparr>uart_out := o', crt := p, crt_pos := q, idt_loaded := (idt_loaded s)(m_lapicid s := True),
      started := (started s)(i := True), cpus := (cpus s)[i := (cpus s ! i)\<lparr>c_proc := None\<rparr>]\<rparr>)
    \<and> screen_ok (s\<lparr>uart_out := o', crt := p, crt_pos := q\<rparr>)"
proof -
  obtain w where w: "cprintf_text (''cpu%d: starting %d'' @ [CHR 0x0A]) [Num (of_nat i), Num (of_nat i)] = Inr w"
    using starting_text by blast
  obtain t o' p q where t: "cprintf (''cpu%d: starting %d'' @ [CHR 0x0A]) [Num (of_nat i), Num (of_nat i)] s = Inr t" "screen_ok t"
    "t = s\<lparr>uart_out := o', crt := p, crt_pos := q\<rparr>"
    using cprintf_ok [OF w assms(2)] unfolding cons_more_def by blast
  have m: "mycpu (s\<lparr>uart_out := o', crt := p, crt_pos := q, idt_loaded := x, started := y\<rparr>) = Inr i"
    "mycpu (s\<lparr>uart_out := o', crt := p, crt_pos := q, idt_loaded := x\<rparr>) = Inr i" for x y
    by (rule mycpu_same [THEN trans, OF _ _ _ assms(1)]; simp)+
  then show ?thesis using t assms(1)
    by (intro exI [of _ o'] exI [of _ p] exI [of _ q]) (simp add: mpmain_def cpuid_def idtinit_def Let_def scheduler_start_def upd_cpu_def)
qed

text \<open>What the boot of a processor leaves alone.\<close>

definition boot_frame :: "'a boot_scheme \<Rightarrow> 'a boot_scheme \<Rightarrow> bool" where
  "boot_frame s t \<longleftrightarrow> map c_apicid (cpus t) = map c_apicid (cpus s) \<and> m_IF t = m_IF s \<and> m_lapicid t = m_lapicid s \<and> freelist t = freelist s
     \<and> use_lock t = use_lock s \<and> kend t = kend s \<and> kpgdir t = kpgdir s \<and> lapic t = lapic s"

definition up :: "'a boot_scheme \<Rightarrow> nat \<Rightarrow> bool" where
  "up s i \<longleftrightarrow> (let a = c_apicid (cpus s ! i) in started s i \<and> gdtr s a = Some i \<and> flat_gdt (gdt s i) \<and> idt_loaded s a
     \<and> cr3 s a = V2P (kpgdir s) \<and> lapic_regs s a TIMER = PERIODIC OR T_IRQ0)"

lemma mpenter_ok:
  assumes i: "i < length (cpus s)" "c_apicid (cpus s ! i) = m_lapicid s" "distinct (map c_apicid (cpus s))" "\<not> m_IF s (m_lapicid s)"
    and s: "screen_ok s" "lapic s \<noteq> 0" "\<exists>r \<in> set polls. r AND DELIVS = 0" "\<And>j. length (gdt s j) = NSEGS"
  shows "\<exists>t. mpenter polls s = Inr (i, t) \<and> up t i \<and> (\<forall>j < length (cpus s). j \<noteq> i \<and> up s j \<longrightarrow> up t j) \<and> boot_frame s t \<and> screen_ok t
    \<and> pmem t = pmem s \<and> (\<forall>j. length (gdt t j) = NSEGS) \<and> ipis t = ipis s @ [(m_lapicid s, 0, BCAST OR INIT OR LEVEL)]"
proof -
  have m: "mycpu s = Inr i" by (rule mycpu_index [OF i])
  define s1 where "s1 = switchkvm s"
  have "mycpu s1 = Inr i" "length (gdt s1 i) = NSEGS" using m s(4) mycpu_same [of s1 s] by (simp_all add: s1_def switchkvm_def)
  then obtain g where g: "seginit s1 = Inr (s1\<lparr>gdt := (gdt s1)(i := g), gdtr := (gdtr s1)(m_lapicid s1 := Some i)\<rparr>)" "flat_gdt g"
    using seginit_ok by blast
  define s2 where "s2 = s1\<lparr>gdt := (gdt s1)(i := g), gdtr := (gdtr s1)(m_lapicid s1 := Some i)\<rparr>"
  have "lapic s2 \<noteq> 0" using s(2) by (simp add: s2_def s1_def switchkvm_def)
  then obtain s3 where s3: "lapicinit polls s2 = Inr s3" "s3 = s2\<lparr>lapic_regs := lapic_regs s3, ipis := ipis s3\<rparr>"
    "lapicr TIMER s3 = PERIODIC OR T_IRQ0" "ipis s3 = ipis s2 @ [(m_lapicid s2, 0, BCAST OR INIT OR LEVEL)]"
    "\<forall>c. c \<noteq> m_lapicid s2 \<longrightarrow> lapic_regs s3 c = lapic_regs s2 c"
    using lapicinit_ok [OF _ s(3), of s2] by blast
  obtain lr ip where e: "s3 = s2\<lparr>lapic_regs := lr, ipis := ip\<rparr>" using s3(2) by blast
  have "mycpu s3 = Inr i" "screen_ok s3"
    using m s(1) mycpu_same [of s3 s] by (simp_all add: e s2_def s1_def switchkvm_def screen_ok_def)
  then obtain o' p q where t: "mpmain s3 = Inr (i, s3\<lparr>uart_out := o', crt := p, crt_pos := q, idt_loaded := (idt_loaded s3)(m_lapicid s3 := True),
      started := (started s3)(i := True), cpus := (cpus s3)[i := (cpus s3 ! i)\<lparr>c_proc := None\<rparr>]\<rparr>)"
    "screen_ok (s3\<lparr>uart_out := o', crt := p, crt_pos := q\<rparr>)" using mpmain_ok by blast
  have d: "c_apicid (cpus s ! j) \<noteq> m_lapicid s" if "j < length (cpus s)" "j \<noteq> i" for j
    using nth_eq_iff_index_eq [OF i(3), of j i] that i(1,2) by simp
  have r: "mpenter polls s = mpmain s3" using g(1) s3(1) by (simp add: mpenter_def s1_def [symmetric] s2_def Let_def)
  show ?thesis unfolding r t(1) using t(2) s3(3-5) g(2) i(1,2) s(4) d
    by (auto simp: e s2_def s1_def switchkvm_def up_def boot_frame_def screen_ok_def lapicr_def flat_gdt_def nth_list_update
      intro!: map_update_same)
qed

definition boot_ok :: "u32 list \<Rightarrow> 'a boot_scheme \<Rightarrow> bool" where
  "boot_ok ps s \<longleftrightarrow> (\<exists>b < length (cpus s). c_apicid (cpus s ! b) = m_lapicid s) \<and> distinct (map c_apicid (cpus s)) \<and> (\<forall>c. \<not> m_IF s c)
     \<and> screen_ok s \<and> lapic s \<noteq> 0 \<and> (\<forall>j. length (gdt s j) = NSEGS) \<and> \<not> use_lock s \<and> 0x80100000 \<le> kend s \<and> free_pages s ps"

lemma low_word: "0x80100000 \<le> b \<Longrightarrow> unat a + n \<le> 0x80100000 \<Longrightarrow> \<not> in_range b (a :: u32) n"
  by (simp add: in_range_def word_le_nat_alt unat_sub_if')

text \<open>Stores below the kernel do not change the free list.\<close>

lemma free_pages_low:
  assumes "free_pages s ps" "0x80100000 \<le> kend s" "\<And>a. 0x80100000 \<le> a \<Longrightarrow> pmem t a = pmem s a" "freelist t = freelist s" "kend t = kend s"
  shows "free_pages t ps"
proof -
  have "load32 (pmem t) p = load32 (pmem s) p" if "p \<in> set ps" for p
  proof -
    have p: "page_ok s p" using assms(1) that by (simp add: free_pages_def)
    then have lo: "0x80100000 \<le> unat p" using assms(2) by (auto simp: page_ok_def word_le_nat_alt)
    then have "unat p - 0x80000000 < 0xE000000" using p by (simp add: page_ok_def V2P_def KERNBASE_def PHYSTOP_def word_less_nat_alt unat_sub_if')
    then have hi: "unat p < 0x8E000000" by simp
    have "0x80100000 \<le> p + k" if "unat k \<le> 3" for k using lo hi that by (simp add: word_le_nat_alt unat_word_ariths)
    from this [of 0] this [of 1] this [of 2] this [of 3] show ?thesis by (intro load32_cong) (simp_all add: assms(3))
  qed
  then show ?thesis using assms(1,4,5) chain_cong [of ps "pmem t" "pmem s"] by (simp add: free_pages_def page_ok_def)
qed

definition start_ipis :: "u8 \<Rightarrow> u8 \<Rightarrow> (u8 \<times> u32 \<times> u32) list" where
  "start_ipis me a = map (\<lambda>v. (me, push_bit 24 (ucast a), v)) [INIT OR LEVEL OR ASSERT, INIT OR LEVEL, STARTUP OR 7, STARTUP OR 7]
     @ [(a, 0, BCAST OR INIT OR LEVEL)]"

lemma kalloc_unlocked:
  assumes "\<not> use_lock s" "free_pages s (p # ps)"
  shows "kalloc s = Inr (p, s\<lparr>freelist := load32 (pmem s) p\<rparr>)" "free_pages (s\<lparr>freelist := load32 (pmem s) p\<rparr>) ps"
  using assms by (auto simp: kalloc_def kmem_acquire_def kmem_release_def Let_def free_pages_def page_ok_def)

lemma run_other_ok:
  assumes "boot_ok ps s" "c < length (cpus s)" "\<exists>r \<in> set polls. r AND DELIVS = 0"
  shows "\<exists>t. run_other polls c s = Inr t \<and> boot_ok ps t \<and> up t c \<and> (\<forall>j < length (cpus s). j \<noteq> c \<and> up s j \<longrightarrow> up t j)
    \<and> map c_apicid (cpus t) = map c_apicid (cpus s) \<and> m_lapicid t = m_lapicid s
    \<and> ipis t = ipis s @ [(c_apicid (cpus s ! c), 0, BCAST OR INIT OR LEVEL)]"
proof -
  let ?a = "c_apicid (cpus s ! c)" let ?s = "s\<lparr>m_lapicid := ?a\<rparr>"
  have IF: "\<And>a. \<not> m_IF s a" using assms(1) by (simp add: boot_ok_def)
  have cli: "cli ?s = ?s" using IF by (simp add: cli_def fun_upd_idem)
  obtain u where u: "mpenter polls ?s = Inr (c, u)" "up u c" "\<forall>j < length (cpus s). j \<noteq> c \<and> up ?s j \<longrightarrow> up u j" "boot_frame ?s u" "screen_ok u"
    "pmem u = pmem s" "\<forall>j. length (gdt u j) = NSEGS" "ipis u = ipis s @ [(?a, 0, BCAST OR INIT OR LEVEL)]"
    using mpenter_ok [of c ?s polls] assms by (auto simp: boot_ok_def screen_ok_def)
  let ?t = "u\<lparr>m_lapicid := m_lapicid s\<rparr>"
  have same: "up ?t j = up u j" "up ?s j = up s j" for j by (simp_all add: up_def)
  have st: "started u c" using u(2) by (simp add: up_def Let_def)
  have ids: "map c_apicid (cpus u) = map c_apicid (cpus s)" using u(4) by (simp add: boot_frame_def)
  then have l: "length (cpus u) = length (cpus s)" by (rule map_eq_imp_length_eq)
  have "c_apicid (cpus u ! j) = c_apicid (cpus s ! j)" if "j < length (cpus s)" for j
    using arg_cong [OF ids, of "\<lambda>xs. xs ! j"] that l by simp
  then have "boot_ok ps ?t"
    using assms(1) u(4-7) l free_pages_low [of s ps ?t] by (auto simp: boot_ok_def boot_frame_def screen_ok_def)
  then show ?thesis using u st same by (auto simp: run_other_def Let_def cli boot_frame_def)
qed

lemma up_cong:
  assumes "map c_apicid (cpus t) = map c_apicid (cpus s)" "j < length (cpus s)" "started t = started s" "gdtr t = gdtr s" "gdt t = gdt s"
    "idt_loaded t = idt_loaded s" "cr3 t = cr3 s" "kpgdir t = kpgdir s"
    "lapic_regs t (c_apicid (cpus s ! j)) TIMER = lapic_regs s (c_apicid (cpus s ! j)) TIMER"
  shows "up t j = up s j"
proof -
  have "length (cpus t) = length (cpus s)" using assms(1) by (rule map_eq_imp_length_eq)
  then have "c_apicid (cpus t ! j) = c_apicid (cpus s ! j)" using arg_cong [OF assms(1), of "\<lambda>xs. xs ! j"] assms(2) by simp
  then show ?thesis using assms by (simp add: up_def)
qed

lemma start_cpu_ok:
  assumes ok: "boot_ok (p # ps) s" and c: "c < length (cpus s)" "mycpu s = Inr b" "c \<noteq> b" and polls: "\<exists>r \<in> set polls. r AND DELIVS = 0"
  shows "\<exists>t. start_cpu sy polls c s = Inr t \<and> boot_ok ps t \<and> up t c \<and> (\<forall>j < length (cpus s). j \<noteq> c \<and> up s j \<longrightarrow> up t j)
    \<and> map c_apicid (cpus t) = map c_apicid (cpus s) \<and> m_lapicid t = m_lapicid s
    \<and> ipis t = ipis s @ start_ipis (m_lapicid s) (c_apicid (cpus s ! c))"
proof -
  let ?c = "P2V 0x7000" let ?s1 = "s\<lparr>freelist := load32 (pmem s) p\<rparr>"
  let ?m = "store32 (store32 (store32 (pmem s) (?c - 4) (p + KSTACKSIZE)) (?c - 8) (sy_mpenter sy)) (?c - 12) (V2P (sy_entrypgdir sy))"
  let ?s2 = "?s1\<lparr>pmem := ?m\<rparr>"
  have f: "\<not> use_lock s" "free_pages s (p # ps)" "0x80100000 \<le> kend s" "lapic s \<noteq> 0" using ok by (simp_all add: boot_ok_def)
  obtain u where u: "lapicstartap (c_apicid (cpus s ! c)) (V2P ?c) ?s2 = Inr u"
    "ipis u = ipis s @ map (\<lambda>v. (m_lapicid s, push_bit 24 (ucast (c_apicid (cpus s ! c))), v))
        [INIT OR LEVEL OR ASSERT, INIT OR LEVEL, STARTUP OR 7, STARTUP OR 7]"
    "\<forall>a. \<not> in_range a (P2V 0x467) 4 \<longrightarrow> pmem u a = ?m a"
    "u = ?s2\<lparr>lapic_regs := lapic_regs u, ipis := ipis u, pmem := pmem u, cmos := cmos u, cmos_index := cmos_index u\<rparr>"
    "\<forall>c i. i \<noteq> ICRHI \<and> i \<noteq> ICRLO \<longrightarrow> lapic_regs u c i = lapic_regs ?s2 c i"
    using lapicstartap_ok [of ?s2 "c_apicid (cpus s ! c)" "V2P ?c"] f(4) by (auto simp: V2P_def P2V_def KERNBASE_def)
  have "lapic_regs u a TIMER = lapic_regs s a TIMER" for a using u(5) by (simp add: lapic_index)
  moreover obtain lr ip m cm ci where e: "u = ?s2\<lparr>lapic_regs := lr, ipis := ip, pmem := m, cmos := cm, cmos_index := ci\<rparr>" using u(4) by blast
  ultimately have up: "up u j = up s j" if "j < length (cpus s)" for j using that by (intro up_cong) (simp_all add: e)
  have "pmem u a = pmem ?s1 a" if "0x80100000 \<le> a" for a
    using u(3) low_word [OF that] by (simp add: store32_outside P2V_def KERNBASE_def)
  then have "free_pages u ps" using free_pages_low [OF kalloc_unlocked(2) [OF f(1,2)], of u] f(3) by (simp add: e)
  then have "boot_ok ps u" using ok by (simp add: boot_ok_def e screen_ok_def)
  then obtain t where t: "run_other polls c u = Inr t" "boot_ok ps t" "up t c" "\<forall>j < length (cpus u). j \<noteq> c \<and> up u j \<longrightarrow> up t j"
    "map c_apicid (cpus t) = map c_apicid (cpus u)" "m_lapicid t = m_lapicid u"
    "ipis t = ipis u @ [(c_apicid (cpus u ! c), 0, BCAST OR INIT OR LEVEL)]"
    using run_other_ok [of ps u c polls] c(1) polls by (auto simp: e)
  have same: "cpus u = cpus s" "m_lapicid u = m_lapicid s" by (simp_all add: e)
  have "start_cpu sy polls c s = Inr t" using c(2,3) kalloc_unlocked(1) [OF f(1,2)] u(1) t(1) by (simp add: start_cpu_def Let_def)
  then show ?thesis using t same up u(2) by (simp add: start_ipis_def)
qed

lemma start_cpus:
  assumes "boot_ok ps s" "mycpu s = Inr b" "distinct is" "set is \<subseteq> {..<length (cpus s)}" "length (filter (\<lambda>i. i \<noteq> b) is) \<le> length ps"
    and polls: "\<exists>r \<in> set polls. r AND DELIVS = 0"
  shows "\<exists>t. forE (start_cpu sy polls) is s = Inr t \<and> boot_ok (drop (length (filter (\<lambda>i. i \<noteq> b) is)) ps) t
    \<and> (\<forall>j < length (cpus s). j \<noteq> b \<and> j \<in> set is \<or> up s j \<and> j \<notin> set is \<longrightarrow> up t j) \<and> m_lapicid t = m_lapicid s
    \<and> map c_apicid (cpus t) = map c_apicid (cpus s)
    \<and> ipis t = ipis s @ concat (map (\<lambda>i. start_ipis (m_lapicid s) (c_apicid (cpus s ! i))) (filter (\<lambda>i. i \<noteq> b) is))"
  using assms(1-5)
proof (induction "is" arbitrary: s ps)
  case (Cons i "is")
  show ?case
  proof (cases "i = b")
    case True
    then have "start_cpu sy polls i s = Inr s" using Cons.prems(2) by (simp add: start_cpu_def)
    then show ?thesis using Cons.IH [OF Cons.prems(1,2)] Cons.prems(3-5) True by fastforce
  next
    case False
    then obtain p qs where ps: "ps = p # qs" using Cons.prems(5) by (cases ps) auto
    have i: "i < length (cpus s)" using Cons.prems(4) by simp
    obtain u where u: "start_cpu sy polls i s = Inr u" "boot_ok qs u" "up u i" "\<forall>j < length (cpus s). j \<noteq> i \<and> up s j \<longrightarrow> up u j"
      "map c_apicid (cpus u) = map c_apicid (cpus s)" "m_lapicid u = m_lapicid s"
      "ipis u = ipis s @ start_ipis (m_lapicid s) (c_apicid (cpus s ! i))"
      using start_cpu_ok [OF Cons.prems(1) [unfolded ps] i Cons.prems(2) False polls] by blast
    have l: "length (cpus u) = length (cpus s)" using u(5) by (rule map_eq_imp_length_eq)
    have id: "c_apicid (cpus u ! j) = c_apicid (cpus s ! j)" if "j < length (cpus s)" for j
      using arg_cong [OF u(5), of "\<lambda>xs. xs ! j"] that l by simp
    have b: "b < length (cpus s)" "c_apicid (cpus s ! b) = m_lapicid s"
      using Cons.prems(2) scan_SomeD [of _ "cpus s" b] by (auto simp: mycpu_def split: if_splits option.splits dest: scan_SomeD)
    have "mycpu u = Inr b" using b u(2,6) l id by (intro mycpu_index) (auto simp: boot_ok_def)
    then obtain t where t: "forE (start_cpu sy polls) is u = Inr t" "boot_ok (drop (length (filter (\<lambda>i. i \<noteq> b) is)) qs) t"
      "\<forall>j < length (cpus u). j \<noteq> b \<and> j \<in> set is \<or> up u j \<and> j \<notin> set is \<longrightarrow> up t j" "m_lapicid t = m_lapicid u"
      "map c_apicid (cpus t) = map c_apicid (cpus u)"
      "ipis t = ipis u @ concat (map (\<lambda>i. start_ipis (m_lapicid u) (c_apicid (cpus u ! i))) (filter (\<lambda>i. i \<noteq> b) is))"
      using Cons.IH [OF u(2)] Cons.prems(3-5) l ps False by auto
    have e: "concat (map (\<lambda>i. start_ipis (m_lapicid u) (c_apicid (cpus u ! i))) (filter (\<lambda>i. i \<noteq> b) is))
        = concat (map (\<lambda>i. start_ipis (m_lapicid s) (c_apicid (cpus s ! i))) (filter (\<lambda>i. i \<noteq> b) is))"
      using Cons.prems(4) id u(6) by (intro arg_cong [where f = concat] map_cong) auto
    show ?thesis using t(1-5) t(6) [unfolded e] u l ps False Cons.prems(3) by auto
  qed
qed simp


definition boot_ex :: boot where
  "boot_ex = (hw.extend hw_ex (boot.fields (\<lambda>_. replicate NSEGS (SEG 0 0 0 0)) (\<lambda>_. None) (\<lambda>_. False) (\<lambda>_. False)))
     \<lparr>cpus := cpus two_cpus, pmem := (\<lambda>_. 0), freelist := 0x80101000, use_lock := False, kend := 0x80100000\<rparr>"


section \<open>The boot loader\<close>

lemma put_bytes_append: "put_bytes m a (xs @ ys) = put_bytes (put_bytes m a xs) (a + of_nat (length xs)) ys"
  by (induction xs arbitrary: m a) (simp_all add: algebra_simps del: fun_upd_apply)

lemma put_bytes_at:
  "length bs \<le> 2 ^ 32 \<Longrightarrow> put_bytes m a bs x = (if in_range x a (length bs) then bs ! unat (x - a) else m x)"
proof (induction bs arbitrary: m a)
  case (Cons b bs)
  have IH: "put_bytes (m(a := b)) (a + 1) bs x = (if in_range x (a + 1) (length bs) then bs ! unat (x - (a + 1)) else (m(a := b)) x)"
    using Cons.IH [of "m(a := b)" "a + 1"] Cons.prems by (simp del: fun_upd_apply)
  show ?case
  proof (cases "x = a")
    case True
    have e: "a - (a + 1) = 0xFFFFFFFF" by simp
    have "\<not> in_range a (a + 1) (length bs)" unfolding in_range_def e using Cons.prems by simp
    then show ?thesis using IH True by (simp add: in_range_def)
  next
    case False
    then have u: "unat (x - a) = Suc (unat (x - (a + 1)))" using unat_minus_one [of "x - a"] unat_gt_0 [of "x - a"]
      by (simp add: algebra_simps)
    then show ?thesis using IH False by (simp add: in_range_def)
  qed
qed (simp add: in_range_def)

lemma readsect_eq:
  assumes "offset < 2 ^ 28"
  shows "readsect dsk dst offset m = put_bytes m dst (take SECTSIZE (dsk 0 offset))"
proof -
  have b: "bit offset n \<Longrightarrow> n < 28" for n
    using assms bit_take_bit_iff [of 28 "unat offset" n] take_bit_nat_eq_self [of "unat offset" 28]
    by (auto simp: word_less_nat_alt bit_unsigned_iff)
  let ?d = "ucast (drop_bit 24 offset OR 0xE0) :: u8"
  have dev: "drop_bit 4 (ucast ?d) AND 1 = (0 :: u32)"
    by (rule bit_word_eqI) (auto simp: bit_simps bit_1_iff dest: b)
  have low: "ucast ?d AND 0x0f = take_bit 4 (ucast ?d :: u32)" by (simp add: take_bit_eq_mask mask_numeral)
  have "(0xE0 :: int) = push_bit 5 (mask 3)" by (simp add: mask_numeral)
  then have E0: "bit (0xE0 :: int) n \<Longrightarrow> 5 \<le> n" for n by (simp only: bit_push_bit_iff_int)
  let ?x = "ucast (ucast offset :: u8) OR push_bit 8 (ucast (ucast (drop_bit 8 offset) :: u8))
      OR push_bit 16 (ucast (ucast (drop_bit 16 offset) :: u8)) OR push_bit 24 (take_bit 4 (ucast ?d)) :: u32"
  have "?x = offset"
  proof (rule bit_word_eqI)
    fix n assume n: "n < LENGTH(32)"
    consider "n < 8" | k where "n = 8 + k" "k < 8" | k where "n = 16 + k" "k < 8" | k where "n = 24 + k" "k < 4" | k where "n = 28 + k"
      using le_Suc_ex [of 8 n] le_Suc_ex [of 16 n] le_Suc_ex [of 24 n] le_Suc_ex [of 28 n]
      by (cases "n < 8"; cases "n < 16"; cases "n < 24"; cases "n < 28") auto
    then show "bit ?x n = bit offset n" by cases (auto simp: bit_simps dest: b E0)
  qed
  then show ?thesis using dev by (simp add: readsect_def ide_target_def low)
qed

definition kernel_sectors :: "(u32 \<Rightarrow> u32 \<Rightarrow> u8 list) \<Rightarrow> u32 \<Rightarrow> nat \<Rightarrow> u8 list" where
  "kernel_sectors dsk sec n = concat (map (\<lambda>k. dsk 0 (sec + of_nat k)) [0..<n])"

lemma kernel_sectors_Suc: "kernel_sectors dsk sec (Suc n) = dsk 0 sec @ kernel_sectors dsk (sec + 1) n"
  by (simp add: kernel_sectors_def upt_conv_Cons map_Suc_upt [symmetric] comp_def algebra_simps del: upt_Suc)

lemma length_kernel_sectors:
  assumes "\<And>b. length (dsk 0 b) = 512"
  shows "length (kernel_sectors dsk sec n) = 512 * n"
  using assms by (induction n arbitrary: sec) (simp_all add: kernel_sectors_Suc, simp add: kernel_sectors_def)

lemma nth_kernel_sectors:
  assumes "\<And>b. length (dsk 0 b) = 512" "j < 512 * n"
  shows "kernel_sectors dsk sec n ! j = dsk 0 (sec + of_nat (j div 512)) ! (j mod 512)"
  using assms(2)
proof (induction n arbitrary: sec j)
  case (Suc n)
  show ?case
  proof (cases "j < 512")
    case False
    then obtain i where i: "j = 512 + i" using le_Suc_ex [of 512 j] by auto
    then show ?thesis using Suc assms(1) by (simp add: kernel_sectors_Suc nth_append algebra_simps)
  qed (use assms(1) in \<open>simp add: kernel_sectors_Suc nth_append\<close>)
qed simp

lemma readseg_loop:
  assumes "\<And>b. length (dsk 0 b) = 512" "unat p + 512 * n < 2 ^ 32" "unat sec + n \<le> 2 ^ 28" "n \<le> N"
    and "unat e \<le> unat p + 512 * n" "0 < n \<Longrightarrow> unat p + 512 * n < unat e + 512"
  shows "loopE N (\<lambda>(pa, offset, m). pa < e)
      (\<lambda>(pa, offset, m). Inr (Inr (pa + of_nat SECTSIZE, offset + 1, readsect dsk pa offset m))) (p, sec, m)
    = Inr (Inr (p + of_nat (512 * n), sec + of_nat n, put_bytes m p (kernel_sectors dsk sec n)) :: unit + _)"
  using assms(2-)
proof (induction n arbitrary: N p sec m)
  case 0
  then have "\<not> p < e" by (simp add: word_less_nat_alt)
  then show ?case by (cases N) (simp_all add: kernel_sectors_def)
next
  case (Suc n)
  obtain M where M: "N = Suc M" using Suc.prems(3) by (cases N) auto
  have lt: "p < e" using Suc.prems(5) by (simp add: word_less_nat_alt)
  have p: "unat (p + 512) = unat p + 512" using Suc.prems(1) by (simp add: unat_word_ariths)
  have s: "unat (sec + 1) = unat sec + 1" "sec < 2 ^ 28" using Suc.prems(2) by (simp_all add: unat_word_ariths word_less_nat_alt)
  have "readsect dsk p sec m = put_bytes m p (dsk 0 sec)" using readsect_eq [OF s(2)] assms(1) by (simp add: SECTSIZE_def)
  moreover note Suc.IH [of "p + 512" "sec + 1" M "put_bytes m p (dsk 0 sec)"]
  ultimately show ?case using Suc.prems M lt p s(1) assms(1)
    by (simp add: SECTSIZE_def kernel_sectors_Suc put_bytes_append algebra_simps)
qed

text \<open>Byte \<open>j\<close> of the kernel file, which starts at sector 1.\<close>

definition kernel_byte :: "(u32 \<Rightarrow> u32 \<Rightarrow> u8 list) \<Rightarrow> nat \<Rightarrow> u8" where
  "kernel_byte dsk j = dsk 0 (of_nat (j div 512) + 1) ! (j mod 512)"

definition seg_sectors :: "nat \<Rightarrow> nat \<Rightarrow> nat" where
  "seg_sectors count r = (count + r + 511) div 512"

text \<open>readseg loads the bytes that are asked for; it may overwrite memory before and behind them, up to the sector boundaries.\<close>

lemma readseg_loads:
  assumes len: "\<And>b. length (dsk 0 b) = 512" and r: "unat offset mod 512 \<le> unat pa" and room: "unat pa + unat count + 512 < 4294967296"
  defines "r \<equiv> unat offset mod 512" and "n \<equiv> seg_sectors (unat count) (unat offset mod 512)"
  shows "\<exists>m'. readseg dsk pa count offset m = Inr m' \<and> (\<forall>j < unat count. m' (pa + of_nat j) = kernel_byte dsk (unat offset + j))
    \<and> (\<forall>a. unat a < unat pa - r \<or> unat pa - r + 512 * n \<le> unat a \<longrightarrow> m' a = m a)"
proof -
  define p where "p = pa - offset mod 512"
  define sec where "sec = offset div 512 + 1"
  define q where "q = unat offset div 512"
  have o: "unat offset = 512 * q + r" "r < 512" "unat (offset mod 512) = r" "unat (offset div 512) = q"
    by (simp_all add: q_def r_def unat_mod unat_div)
  have q: "q < 8388608" using o(1) unat_u32_less [of offset] by linarith
  have p: "unat p = unat pa - r" unfolding p_def using r o(3) by (simp add: unat_sub_if' r_def)
  have e: "unat (pa + count) = unat pa + unat count" using room by (simp add: unat_word_ariths)
  have s: "unat sec = q + 1" unfolding sec_def using q o(4) by (simp add: unat_word_ariths)
  have n: "unat count + r \<le> 512 * n" "512 * n < unat count + r + 512" "n \<le> unat count div 512 + 2"
    using o(2) by (simp_all add: n_def seg_sectors_def r_def [symmetric])
  have pr: "unat p + r = unat pa" using p r by (simp add: r_def)
  have "unat p + 512 * n < 4294967296" using n(2) pr room by linarith
  moreover have "unat sec + n \<le> 268435456" using n(2) s q room o(2) by linarith
  moreover have "unat (pa + count) \<le> unat p + 512 * n" "unat p + 512 * n < unat (pa + count) + 512" using e n(1,2) pr by linarith+
  ultimately have l: "readseg dsk pa count offset m = Inr (put_bytes m p (kernel_sectors dsk sec n))"
    using readseg_loop [of dsk p n sec "unat count div 512 + 2" "pa + count" m, OF len] n(3)
    by (simp add: readseg_def SECTSIZE_def Let_def p_def [symmetric] sec_def [symmetric])
  have at: "put_bytes m p (kernel_sectors dsk sec n) a
      = (if in_range a p (512 * n) then kernel_sectors dsk sec n ! unat (a - p) else m a)" for a
    using put_bytes_at [of "kernel_sectors dsk sec n" m p a] length_kernel_sectors [of dsk sec n, OF len] \<open>unat p + 512 * n < 4294967296\<close> by simp
  have "put_bytes m p (kernel_sectors dsk sec n) (pa + of_nat j) = kernel_byte dsk (unat offset + j)" if j: "j < unat count" for j
  proof -
    have "unat (pa + of_nat j) = unat pa + j" using j room by (simp add: unat_word_ariths unat_of_nat)
    then have d: "unat (pa + of_nat j - p) = r + j" using pr by (simp add: unat_sub_if')
    have "(unat offset + j) div 512 = q + (r + j) div 512" "(unat offset + j) mod 512 = (r + j) mod 512" using o(1) by (simp_all add: add.assoc)
    moreover have "sec = of_nat q + 1" using s q by (simp add: word_unat_eq_iff unat_word_ariths unat_of_nat)
    moreover have "r + j < 512 * n" using j n(1) by simp
    ultimately show ?thesis using at d nth_kernel_sectors [of dsk "r + j" n sec, OF len] by (simp add: in_range_def kernel_byte_def algebra_simps)
  qed
  moreover have "put_bytes m p (kernel_sectors dsk sec n) a = m a" if "unat a < unat pa - r \<or> unat pa - r + 512 * n \<le> unat a" for a
    using that at p \<open>unat p + 512 * n < 4294967296\<close> by (auto simp: in_range_def unat_sub_if')
  ultimately show ?thesis using l by blast
qed

text \<open>What a segment needs: room in memory above the header page, and its two sizes.\<close>

definition seg_end :: "u32 \<Rightarrow> u32 \<Rightarrow> u32 \<Rightarrow> nat" where
  "seg_end pa filesz memsz = unat pa + max (unat filesz) (unat memsz)"

lemma load32_header:
  assumes "\<And>a. 0x10000 \<le> unat a \<Longrightarrow> unat a < 0x11000 \<Longrightarrow> m a = m' a" "0x10000 \<le> unat x" "unat x + 3 < 0x11000"
  shows "load32 m x = load32 m' x"
proof -
  have "unat (x + k) = unat x + unat k" if "unat k \<le> 3" for k using that assms(3) by (simp add: unat_word_ariths)
  then have "m (x + k) = m' (x + k)" if "unat k \<le> 3" for k using that assms by simp
  from this [of 0] this [of 1] this [of 2] this [of 3] show ?thesis by (intro load32_cong) simp_all
qed

lemma load_segment_ok:
  fixes ph :: u32 and m :: memory
  defines "pa \<equiv> load32 m (ph + 12)" and "off \<equiv> load32 m (ph + 4)" and "filesz \<equiv> load32 m (ph + 16)" and "memsz \<equiv> load32 m (ph + 20)"
  assumes len: "\<And>b. length (dsk 0 b) = 512" and ph: "0x10000 \<le> unat ph" "unat ph + 32 \<le> 0x11000"
    and pa: "0x11000 + 512 \<le> unat pa" "seg_end pa filesz memsz + 512 < 4294967296"
  shows "\<exists>m'. load_segment dsk ph m = Inr m' \<and> (\<forall>k < unat filesz. m' (pa + of_nat k) = kernel_byte dsk (unat off + k))
    \<and> (\<forall>k. unat filesz \<le> k \<and> k < unat memsz \<longrightarrow> m' (pa + of_nat k) = 0)
    \<and> (\<forall>a. unat a < unat pa - unat off mod 512 \<longrightarrow> m' a = m a)"
proof -
  have r: "unat off mod 512 \<le> unat pa" "0x11000 \<le> unat pa - unat off mod 512" using pa(1) mod_less_divisor [of 512 "unat off"] by linarith+
  have le: "unat pa + unat filesz + 512 < 4294967296" "unat pa + unat memsz + 512 < 4294967296" using pa(2) by (simp_all add: seg_end_def)
  obtain m1 where m1: "readseg dsk pa filesz off m = Inr m1" "\<forall>j < unat filesz. m1 (pa + of_nat j) = kernel_byte dsk (unat off + j)"
    "\<forall>a. unat a < unat pa - unat off mod 512 \<longrightarrow> m1 a = m a"
    using readseg_loads [of dsk off pa filesz m, OF len r(1) le(1)] by blast
  have x: "unat (ph + k) = unat ph + unat k" if "unat k \<le> 20" for k using that ph(2) by (simp add: unat_word_ariths)
  have h: "load32 m1 (ph + k) = load32 m (ph + k)" if "unat k \<le> 20" for k
    using m1(3) r(2) x [OF that] ph that by (intro load32_header) auto
  let ?m = "if filesz < memsz then stosb m1 (pa + filesz) 0 (unat (memsz - filesz)) else m1"
  have l: "load_segment dsk ph m = Inr ?m"
    using m1(1) h [of 16] h [of 20] by (simp add: load_segment_def Let_def pa_def off_def filesz_def memsz_def)
  have d: "unat (pa + filesz) = unat pa + unat filesz" using le(1) by (simp add: unat_word_ariths)
  have st: "?m a = (if filesz < memsz \<and> in_range a (pa + filesz) (unat (memsz - filesz)) then 0 else m1 a)" for a
    by (simp add: stosb_fill [OF less_imp_le [OF unat_u32_less]] fill_def)
  have out: "?m a = m1 a" if "unat a < unat pa + unat filesz" for a
  proof -
    have "unat (memsz - filesz) \<le> unat (a - (pa + filesz))" if "filesz < memsz"
      using that le \<open>unat a < unat pa + unat filesz\<close> d by (auto simp: unat_sub_if' word_less_nat_alt)
    then show ?thesis unfolding st by (auto simp: in_range_def)
  qed
  have at: "unat (pa + of_nat k) = unat pa + k" if "k < unat filesz \<or> k < unat memsz" for k
    using that le by (intro unat_add_nat) auto
  have "?m (pa + of_nat k) = 0" if "unat filesz \<le> k" "k < unat memsz" for k
  proof -
    have "k < 4294967296" using that(2) unat_u32_less [of memsz] by linarith
    then have "unat (pa + of_nat k - (pa + filesz)) = k - unat filesz" using that(1) by (simp add: unat_sub_if' unat_of_nat)
    moreover have "unat (memsz - filesz) = unat memsz - unat filesz" "filesz < memsz" using that by (simp_all add: unat_sub_if' word_less_nat_alt)
    ultimately show ?thesis unfolding st using diff_less_mono [OF that(2,1)] by (simp add: in_range_def)
  qed
  moreover have "?m (pa + of_nat k) = kernel_byte dsk (unat off + k)" if "k < unat filesz" for k
    using out [of "pa + of_nat k"] at [of k] m1(2) that by simp
  moreover have "?m a = m a" if "unat a < unat pa - unat off mod 512" for a using out [of a] m1(3) that by simp
  ultimately show ?thesis using l by blast
qed

text \<open>The header of the kernel file, at the address to which it is read, and its segments.\<close>

definition header_mem :: "(u32 \<Rightarrow> u32 \<Rightarrow> u8 list) \<Rightarrow> memory" where
  "header_mem dsk a = kernel_byte dsk (unat a - 0x10000)"

definition header_page :: "(u32 \<Rightarrow> u32 \<Rightarrow> u8 list) \<Rightarrow> memory \<Rightarrow> bool" where
  "header_page dsk m \<longleftrightarrow> (\<forall>a. 0x10000 \<le> unat a \<and> unat a < 0x11000 \<longrightarrow> m a = header_mem dsk a)"

definition k_phnum :: "(u32 \<Rightarrow> u32 \<Rightarrow> u8 list) \<Rightarrow> u16" where "k_phnum dsk = load16 (header_mem dsk) (ELFADDR + 44)"
definition k_phoff :: "(u32 \<Rightarrow> u32 \<Rightarrow> u8 list) \<Rightarrow> u32" where "k_phoff dsk = load32 (header_mem dsk) (ELFADDR + 28)"
definition k_ph :: "(u32 \<Rightarrow> u32 \<Rightarrow> u8 list) \<Rightarrow> nat \<Rightarrow> u32" where "k_ph dsk i = ELFADDR + k_phoff dsk + 32 * of_nat i"
definition k_pa :: "(u32 \<Rightarrow> u32 \<Rightarrow> u8 list) \<Rightarrow> nat \<Rightarrow> u32" where "k_pa dsk i = load32 (header_mem dsk) (k_ph dsk i + 12)"
definition k_off :: "(u32 \<Rightarrow> u32 \<Rightarrow> u8 list) \<Rightarrow> nat \<Rightarrow> u32" where "k_off dsk i = load32 (header_mem dsk) (k_ph dsk i + 4)"
definition k_filesz :: "(u32 \<Rightarrow> u32 \<Rightarrow> u8 list) \<Rightarrow> nat \<Rightarrow> u32" where "k_filesz dsk i = load32 (header_mem dsk) (k_ph dsk i + 16)"
definition k_memsz :: "(u32 \<Rightarrow> u32 \<Rightarrow> u8 list) \<Rightarrow> nat \<Rightarrow> u32" where "k_memsz dsk i = load32 (header_mem dsk) (k_ph dsk i + 20)"

abbreviation k_start :: "(u32 \<Rightarrow> u32 \<Rightarrow> u8 list) \<Rightarrow> nat \<Rightarrow> nat" where
  "k_start dsk i \<equiv> unat (k_pa dsk i) - unat (k_off dsk i) mod 512"

abbreviation k_end :: "(u32 \<Rightarrow> u32 \<Rightarrow> u8 list) \<Rightarrow> nat \<Rightarrow> nat" where
  "k_end dsk i \<equiv> seg_end (k_pa dsk i) (k_filesz dsk i) (k_memsz dsk i)"

text \<open>
  The program headers lie in the first page of the file, and the segments in increasing order behind that page; a segment ends
  before the sector boundary from which the next one is read.
\<close>

definition kernel_file_ok :: "(u32 \<Rightarrow> u32 \<Rightarrow> u8 list) \<Rightarrow> bool" where
  "kernel_file_ok dsk \<longleftrightarrow> (\<forall>b. length (dsk 0 b) = 512) \<and> load32 (header_mem dsk) ELFADDR = ELF_MAGIC
     \<and> unat (k_phoff dsk) + 32 * unat (k_phnum dsk) \<le> 4096
     \<and> (\<forall>i < unat (k_phnum dsk). 0x11000 + 512 \<le> unat (k_pa dsk i) \<and> k_end dsk i + 512 < 4294967296 \<and> (\<forall>j < i. k_end dsk j \<le> k_start dsk i))"

definition seg_loaded :: "(u32 \<Rightarrow> u32 \<Rightarrow> u8 list) \<Rightarrow> memory \<Rightarrow> nat \<Rightarrow> bool" where
  "seg_loaded dsk m i \<longleftrightarrow> (\<forall>k < unat (k_filesz dsk i). m (k_pa dsk i + of_nat k) = kernel_byte dsk (unat (k_off dsk i) + k))
     \<and> (\<forall>k. unat (k_filesz dsk i) \<le> k \<and> k < unat (k_memsz dsk i) \<longrightarrow> m (k_pa dsk i + of_nat k) = 0)"

lemma k_ph_word:
  assumes "kernel_file_ok dsk" "i \<le> unat (k_phnum dsk)"
  shows "unat (k_ph dsk i) = 0x10000 + unat (k_phoff dsk) + 32 * i"
proof -
  have "unat (k_phoff dsk) + 32 * i \<le> 4096" using assms by (simp add: kernel_file_ok_def)
  then show ?thesis by (simp add: k_ph_def ELFADDR_def unat_word_ariths unat_of_nat)
qed

lemma load_kernel_segment:
  assumes ok: "kernel_file_ok dsk" and i: "i < unat (k_phnum dsk)" and m: "header_page dsk m"
  shows "\<exists>m'. load_segment dsk (k_ph dsk i) m = Inr m' \<and> header_page dsk m' \<and> seg_loaded dsk m' i \<and> (\<forall>a. unat a < k_start dsk i \<longrightarrow> m' a = m a)"
proof -
  let ?ph = "k_ph dsk i"
  have ph: "0x10000 \<le> unat ?ph" "unat ?ph + 32 \<le> 0x11000" using k_ph_word [OF ok] i ok by (simp_all add: kernel_file_ok_def)
  have x: "unat (?ph + k) = unat ?ph + unat k" if "unat k \<le> 20" for k using that ph(2) by (simp add: unat_word_ariths)
  have h: "load32 m (?ph + k) = load32 (header_mem dsk) (?ph + k)" if "unat k \<le> 20" for k
    using m x [OF that] ph that by (intro load32_header) (auto simp: header_page_def)
  have f: "load32 m (?ph + 12) = k_pa dsk i" "load32 m (?ph + 4) = k_off dsk i" "load32 m (?ph + 16) = k_filesz dsk i" "load32 m (?ph + 20) = k_memsz dsk i"
    using h by (simp_all add: k_pa_def k_off_def k_filesz_def k_memsz_def)
  have len: "\<And>b. length (dsk 0 b) = 512" and pa: "0x11000 + 512 \<le> unat (k_pa dsk i)" "k_end dsk i + 512 < 4294967296"
    using ok i by (simp_all add: kernel_file_ok_def)
  have "0x11000 \<le> k_start dsk i" using pa(1) mod_less_divisor [of 512 "unat (k_off dsk i)"] by linarith
  then show ?thesis using load_segment_ok [of dsk ?ph m, OF len ph, unfolded f, OF pa] m unfolding seg_loaded_def header_page_def by fastforce
qed

lemma seg_loaded_kept:
  assumes "seg_loaded dsk m i" "k_end dsk i < 4294967296" "\<And>a. unat a < k_end dsk i \<Longrightarrow> m' a = m a"
  shows "seg_loaded dsk m' i"
proof -
  have "m' (k_pa dsk i + of_nat k) = m (k_pa dsk i + of_nat k)" if "k < unat (k_filesz dsk i) \<or> k < unat (k_memsz dsk i)" for k
  proof -
    have "unat (k_pa dsk i) + k < k_end dsk i" using that by (auto simp: seg_end_def)
    then show ?thesis using assms(2) by (intro assms(3)) (simp add: unat_add_nat)
  qed
  then show ?thesis using assms(1) by (simp add: seg_loaded_def)
qed

lemma load_kernel_segments:
  assumes ok: "kernel_file_ok dsk" and i: "i + d = unat (k_phnum dsk)" and m: "header_page dsk m"
  shows "\<exists>m'. loopE d (\<lambda>(ph, m). ph < k_ph dsk (unat (k_phnum dsk)))
      (\<lambda>(ph, m). bindE (load_segment dsk ph m) (\<lambda>m. Inr (Inr (ph + 32, m)))) (k_ph dsk i, m) = Inr (Inr (k_ph dsk (unat (k_phnum dsk)), m') :: unit + _)
    \<and> header_page dsk m' \<and> (\<forall>k. i \<le> k \<and> k < unat (k_phnum dsk) \<longrightarrow> seg_loaded dsk m' k)
    \<and> (\<forall>a. (\<forall>k. i \<le> k \<and> k < unat (k_phnum dsk) \<longrightarrow> unat a < k_start dsk k) \<longrightarrow> m' a = m a)"
  using i m
proof (induction d arbitrary: i m)
  case (Suc d)
  let ?n = "unat (k_phnum dsk)"
  have lt: "i < ?n" using Suc.prems(1) by simp
  obtain m1 where m1: "load_segment dsk (k_ph dsk i) m = Inr m1" "header_page dsk m1" "seg_loaded dsk m1 i"
    "\<forall>a. unat a < k_start dsk i \<longrightarrow> m1 a = m a"
    using load_kernel_segment [OF ok lt Suc.prems(2)] by blast
  have nx: "k_ph dsk i + 32 = k_ph dsk (Suc i)" by (simp add: k_ph_def algebra_simps)
  obtain m' where m': "loopE d (\<lambda>(ph, m). ph < k_ph dsk ?n) (\<lambda>(ph, m). bindE (load_segment dsk ph m) (\<lambda>m. Inr (Inr (ph + 32, m))))
      (k_ph dsk (Suc i), m1) = Inr (Inr (k_ph dsk ?n, m') :: unit + _)" "header_page dsk m'"
    "\<forall>k. Suc i \<le> k \<and> k < ?n \<longrightarrow> seg_loaded dsk m' k"
    "\<forall>a. (\<forall>k. Suc i \<le> k \<and> k < ?n \<longrightarrow> unat a < k_start dsk k) \<longrightarrow> m' a = m1 a"
    using Suc.IH [of "Suc i" m1] Suc.prems(1) m1(2) by auto
  have c: "k_ph dsk i < k_ph dsk ?n" using k_ph_word [OF ok] lt by (simp add: word_less_nat_alt)
  have before: "k_end dsk i \<le> k_start dsk k" if "Suc i \<le> k" "k < ?n" for k using ok that by (simp add: kernel_file_ok_def)
  have e: "k_end dsk i < 4294967296" using ok lt unfolding kernel_file_ok_def by (meson add_lessD1)
  have "m' a = m1 a" if "unat a < k_end dsk i" for a using m'(4) before that order.strict_trans2 by blast
  then have "seg_loaded dsk m' i" by (rule seg_loaded_kept [OF m1(3) e])
  then have "\<forall>k. i \<le> k \<and> k < ?n \<longrightarrow> seg_loaded dsk m' k" using m'(3) by (metis le_antisym not_less_eq_eq)
  moreover have "m' a = m a" if "\<forall>k. i \<le> k \<and> k < ?n \<longrightarrow> unat a < k_start dsk k" for a
    using that m'(4) m1(4) lt by (metis Suc_leD order_refl)
  ultimately show ?case using m'(1,2) m1(1) c nx by auto
qed auto

text \<open>
  C29. The boot loader loads the kernel. For a well-formed file on the disk it returns the entry point of the file, and every
  segment is in memory at its physical address, with the bytes of the file followed by zeroes up to its size in memory, although
  readseg reads whole sectors and so writes more than it is asked for.
\<close>

theorem bootmain_loads:
  assumes ok: "kernel_file_ok dsk"
  shows "\<exists>m'. bootmain dsk m = Inr (Some (load32 (header_mem dsk) (ELFADDR + 24), m')) \<and> (\<forall>i < unat (k_phnum dsk). seg_loaded dsk m' i)"
proof -
  have len: "\<And>b. length (dsk 0 b) = 512" using ok by (simp add: kernel_file_ok_def)
  obtain m0 where m0: "readseg dsk ELFADDR 4096 0 m = Inr m0" "\<forall>j < 4096. m0 (ELFADDR + of_nat j) = kernel_byte dsk j"
    using readseg_loads [of dsk 0 ELFADDR 4096 m, OF len] by (auto simp: ELFADDR_def)
  have "m0 a = header_mem dsk a" if "0x10000 \<le> unat a" "unat a < 0x11000" for a
  proof -
    have "a = ELFADDR + of_nat (unat a - 0x10000)" using that by (simp add: word_unat_eq_iff unat_word_ariths unat_of_nat ELFADDR_def)
    then have "m0 a = m0 (ELFADDR + of_nat (unat a - 0x10000))" by (rule arg_cong)
    also have "\<dots> = kernel_byte dsk (unat a - 0x10000)" by (rule m0(2) [rule_format]) (use that in simp)
    finally show ?thesis by (simp add: header_mem_def)
  qed
  then have h: "header_page dsk m0" by (simp add: header_page_def)
  have f: "load32 m' (ELFADDR + k) = load32 (header_mem dsk) (ELFADDR + k)" if "header_page dsk m'" "unat k \<le> 28" for m' k
    using that by (intro load32_header) (auto simp: header_page_def ELFADDR_def unat_word_ariths)
  have n: "load16 m0 (ELFADDR + 44) = k_phnum dsk" using h by (simp add: k_phnum_def load16_def header_page_def ELFADDR_def)
  have "ELFADDR + k_phoff dsk = k_ph dsk 0" "k_ph dsk 0 + 32 * ucast (k_phnum dsk) = k_ph dsk (unat (k_phnum dsk))" by (simp_all add: k_ph_def)
  then show ?thesis using m0(1) f [OF h, of 0] f [OF h, of 28] n ok load_kernel_segments [OF ok _ h, of 0 "unat (k_phnum dsk)"] f
    by (auto simp: bootmain_def Let_def kernel_file_ok_def k_phoff_def)
qed

text \<open>A file with one segment: four bytes at offset 4096, for the address 0x100000, and eight bytes in memory.\<close>

definition kernel_elf :: "u8 list" where
  "kernel_elf = [0x7F, 0x45, 0x4C, 0x46] @ replicate 20 0 @ [0x0C, 0, 0x10, 0, 52, 0, 0, 0] @ replicate 12 0 @ [1, 0, 0, 0, 0, 0, 0, 0]
     @ [1, 0, 0, 0, 0, 0x10, 0, 0, 0, 0, 0x10, 0x80, 0, 0, 0x10, 0, 4, 0, 0, 0, 8, 0, 0, 0] @ replicate 436 0"

definition kernel_disk :: "u32 \<Rightarrow> u32 \<Rightarrow> u8 list" where
  "kernel_disk dev b = (if b = 1 then kernel_elf else if b = 9 then [1, 2, 3, 4] @ replicate 508 0 else replicate 512 0)"

lemma kernel_disk_fields:
  "load32 (header_mem kernel_disk) ELFADDR = ELF_MAGIC" "load32 (header_mem kernel_disk) (ELFADDR + 24) = 0x10000C"
  "k_phoff kernel_disk = 52" "k_phnum kernel_disk = 1" "k_ph kernel_disk 0 = 0x10034" "k_pa kernel_disk 0 = 0x100000" "k_off kernel_disk 0 = 0x1000"
  "k_filesz kernel_disk 0 = 4" "k_memsz kernel_disk 0 = 8"
proof -
  have b: "header_mem kernel_disk (ELFADDR + k) = kernel_elf ! unat k" if "unat k < 512" for k
    using that by (simp add: header_mem_def kernel_byte_def kernel_disk_def ELFADDR_def unat_word_ariths)
  have w: "load32 (header_mem kernel_disk) (ELFADDR + k) = word32 [kernel_elf ! unat k, kernel_elf ! (unat k + 1), kernel_elf ! (unat k + 2), kernel_elf ! (unat k + 3)]"
    if "unat k < 500" for k using that b [of k] b [of "k + 1"] b [of "k + 2"] b [of "k + 3"] by (simp add: load32_def word32_def add.assoc unat_word_ariths)
  note e = kernel_elf_def nth_append word32_def
  show "load32 (header_mem kernel_disk) ELFADDR = ELF_MAGIC" using w [of 0] by (simp add: e ELF_MAGIC_def)
  show "load32 (header_mem kernel_disk) (ELFADDR + 24) = 0x10000C" using w [of 24] by (simp add: e)
  show off: "k_phoff kernel_disk = 52" using w [of 28] by (simp add: e k_phoff_def)
  show "k_phnum kernel_disk = 1" using b [of 44] b [of 45] by (simp add: e k_phnum_def load16_def add.assoc)
  show ph: "k_ph kernel_disk 0 = 0x10034" by (simp add: k_ph_def off ELFADDR_def)
  have p: "k_ph kernel_disk 0 + k = ELFADDR + (52 + k)" for k by (simp add: k_ph_def off)
  show "k_pa kernel_disk 0 = 0x100000" unfolding k_pa_def p using w [of 64] by (simp add: e)
  show "k_off kernel_disk 0 = 0x1000" unfolding k_off_def p using w [of 56] by (simp add: e)
  show "k_filesz kernel_disk 0 = 4" unfolding k_filesz_def p using w [of 68] by (simp add: e)
  show "k_memsz kernel_disk 0 = 8" unfolding k_memsz_def p using w [of 72] by (simp add: e)
qed

theorem bootmain_loads_witness:
  "\<exists>m'. bootmain kernel_disk (\<lambda>_. 7) = Inr (Some (0x10000C, m')) \<and> m' 0x100002 = 3 \<and> m' 0x100005 = 0"
proof -
  have "length (kernel_disk 0 b) = 512" for b by (simp add: kernel_disk_def kernel_elf_def)
  then have "kernel_file_ok kernel_disk" by (simp add: kernel_file_ok_def kernel_disk_fields seg_end_def)
  then obtain m' where m': "bootmain kernel_disk (\<lambda>_. 7) = Inr (Some (0x10000C, m'))" "seg_loaded kernel_disk m' 0"
    using bootmain_loads [of kernel_disk "\<lambda>_. 7"] by (auto simp: kernel_disk_fields)
  have "m' (0x100000 + of_nat 2) = kernel_byte kernel_disk (0x1000 + 2)" "m' (0x100000 + of_nat 5) = 0"
    using m'(2) [unfolded seg_loaded_def kernel_disk_fields, THEN conjunct1, rule_format, of 2]
      m'(2) [unfolded seg_loaded_def kernel_disk_fields, THEN conjunct2, rule_format, of 5] by simp_all
  then show ?thesis using m'(1) by (simp add: kernel_byte_def kernel_disk_def)
qed

end
