(* ===== verification/Inode.thy ===== *)
theory Inode
  imports Txn
begin

unbundle bit_operations_syntax

text \<open>
  The inode cache and the inodes on disk (fs.c): iget keeps every inode at most once in the cache, and
  ilock reads back what iupdate has written.
\<close>

section \<open>The inode cache\<close>

definition i_key :: "inode \<Rightarrow> u32 \<times> u32" where
  "i_key i = (i_dev i, i_inum i)"

definition icache_ok :: "'a inodes_scheme \<Rightarrow> bool" where
  "icache_ok s \<longleftrightarrow> (\<forall>i < length (icache s). 0 \<le> i_ref (inode_at i s)
     \<and> (\<forall>j < length (icache s). 0 < i_ref (inode_at i s) \<and> 0 < i_ref (inode_at j s)
          \<and> i_key (inode_at i s) = i_key (inode_at j s) \<longrightarrow> i = j))"

lemma icache_upd [simp]: "icache (upd_inode ip f s) = (icache s)[ip := f (icache s ! ip)]" "sb (upd_inode ip f s) = sb s"
  by (simp_all add: upd_inode_def)

lemma icache_okD:
  assumes "icache_ok s" "i < length (icache s)"
  shows "0 \<le> i_ref (inode_at i s)"
    "j < length (icache s) \<Longrightarrow> 0 < i_ref (inode_at i s) \<Longrightarrow> 0 < i_ref (inode_at j s) \<Longrightarrow>
     i_key (inode_at i s) = i_key (inode_at j s) \<Longrightarrow> i = j"
  using assms by (auto simp: icache_ok_def)

lemma icache_ok_upd:
  assumes "icache_ok s" "0 \<le> i_ref (f (inode_at ip s))"
    "\<And>j. j < length (icache s) \<Longrightarrow> j \<noteq> ip \<Longrightarrow> 0 < i_ref (inode_at j s) \<Longrightarrow> i_key (inode_at j s) \<noteq> i_key (f (inode_at ip s))"
  shows "icache_ok (upd_inode ip f s)"
  unfolding icache_ok_def
proof (intro allI impI conjI)
  fix i
  assume i: "i < length (icache (upd_inode ip f s))"
  then show "0 \<le> i_ref (inode_at i (upd_inode ip f s))"
    using icache_okD(1) [OF assms(1)] assms(2) by (cases "i = ip") simp_all
  fix j
  assume "j < length (icache (upd_inode ip f s))" "0 < i_ref (inode_at i (upd_inode ip f s)) \<and>
    0 < i_ref (inode_at j (upd_inode ip f s)) \<and> i_key (inode_at i (upd_inode ip f s)) = i_key (inode_at j (upd_inode ip f s))"
  then show "i = j"
    using i icache_okD(2) [OF assms(1), of i j] assms(3) [of i] assms(3) [of j] by (cases "i = ip"; cases "j = ip") auto
qed

lemma iget_cached:
  assumes "icache_ok s" "ip < length (icache s)" "0 < i_ref (inode_at ip s)" "i_key (inode_at ip s) = (dev, inum)"
  shows "iget dev inum s = Inr (ip, upd_inode ip (\<lambda>i. i\<lparr>i_ref := i_ref i + 1\<rparr>) s)"
proof -
  have "scan (\<lambda>i. 0 < i_ref i \<and> i_dev i = dev \<and> i_inum i = inum) (icache s) = Some ip"
    using assms by (intro scan_unique) (auto simp: icache_ok_def i_key_def)
  then show ?thesis by (simp add: iget_def)
qed

lemma iget_miss:
  assumes "\<forall>i < length (icache s). 0 < i_ref (inode_at i s) \<longrightarrow> i_key (inode_at i s) \<noteq> (dev, inum)"
  shows "iget dev inum s = (case scan (\<lambda>i. i_ref i = 0) (icache s) of
     None \<Rightarrow> Inl (Panic ''iget: no inodes'')
   | Some ip \<Rightarrow> Inr (ip, upd_inode ip (\<lambda>i. i\<lparr>i_dev := dev, i_inum := inum, i_ref := 1, i_valid := False\<rparr>) s))"
proof -
  have "scan (\<lambda>i. 0 < i_ref i \<and> i_dev i = dev \<and> i_inum i = inum) (icache s) = None"
    using assms by (auto simp: scan_None_iff i_key_def in_set_conv_nth)
  then show ?thesis by (simp add: iget_def)
qed

lemma iget_spec:
  assumes "icache_ok s" "iget dev inum s = Inr (ip, t)"
  shows "icache_ok t" "ip < length (icache s)" "length (icache t) = length (icache s)" "i_key (inode_at ip t) = (dev, inum)"
    "i_ref (inode_at ip t) = (if 0 < i_ref (inode_at ip s) then i_ref (inode_at ip s) + 1 else 1)"
    "0 < i_ref (inode_at ip s) \<Longrightarrow> inode_at ip t = (inode_at ip s)\<lparr>i_ref := i_ref (inode_at ip s) + 1\<rparr>"
    "i \<noteq> ip \<Longrightarrow> inode_at i t = inode_at i s"
proof -
  have "icache_ok t \<and> ip < length (icache s) \<and> length (icache t) = length (icache s) \<and> i_key (inode_at ip t) = (dev, inum)
    \<and> i_ref (inode_at ip t) = (if 0 < i_ref (inode_at ip s) then i_ref (inode_at ip s) + 1 else 1)
    \<and> (0 < i_ref (inode_at ip s) \<longrightarrow> inode_at ip t = (inode_at ip s)\<lparr>i_ref := i_ref (inode_at ip s) + 1\<rparr>)
    \<and> (\<forall>i. i \<noteq> ip \<longrightarrow> inode_at i t = inode_at i s)"
  proof (cases "\<exists>i < length (icache s). 0 < i_ref (inode_at i s) \<and> i_key (inode_at i s) = (dev, inum)")
    case True
    then obtain i where i: "i < length (icache s)" "0 < i_ref (inode_at i s)" "i_key (inode_at i s) = (dev, inum)" by blast
    then have "ip = i" "t = upd_inode i (\<lambda>i. i\<lparr>i_ref := i_ref i + 1\<rparr>) s"
      using iget_cached [OF assms(1) i] assms(2) by simp_all
    moreover have "icache_ok t"
      unfolding \<open>t = _\<close> using i icache_okD(2) [OF assms(1)] by (intro icache_ok_upd [OF assms(1)]) (auto simp: i_key_def)
    ultimately show ?thesis using i by (auto simp: i_key_def)
  next
    case False
    then obtain i where i: "scan (\<lambda>i. i_ref i = 0) (icache s) = Some i" "ip = i"
      "t = upd_inode i (\<lambda>i. i\<lparr>i_dev := dev, i_inum := inum, i_ref := 1, i_valid := False\<rparr>) s"
      using iget_miss [of s dev inum] assms(2) by (auto split: option.splits)
    moreover have "icache_ok t"
      unfolding i(3) using False by (intro icache_ok_upd [OF assms(1)]) (auto simp: i_key_def)
    ultimately show ?thesis using scan_SomeD [OF i(1)] by (auto simp: i_key_def)
  qed
  then show "icache_ok t" "ip < length (icache s)" "length (icache t) = length (icache s)" "i_key (inode_at ip t) = (dev, inum)"
    "i_ref (inode_at ip t) = (if 0 < i_ref (inode_at ip s) then i_ref (inode_at ip s) + 1 else 1)"
    "0 < i_ref (inode_at ip s) \<Longrightarrow> inode_at ip t = (inode_at ip s)\<lparr>i_ref := i_ref (inode_at ip s) + 1\<rparr>"
    "i \<noteq> ip \<Longrightarrow> inode_at i t = inode_at i s" by auto
qed

text \<open>
  C38. The inode cache holds every inode at most once. From a cache with that property iget either finds
  the entry of an inode in use, or takes a free entry, or panics because there is none; the property is
  kept, every other entry is left alone, an entry in use only gains a reference, and a second iget of
  the same inode returns the same entry.
\<close>

theorem iget_unique:
  assumes "icache_ok s"
  shows "(case iget dev inum s of
      Inr (ip, t) \<Rightarrow> icache_ok t \<and> ip < length (icache s) \<and> i_key (inode_at ip t) = (dev, inum)
        \<and> (if 0 < i_ref (inode_at ip s) then inode_at ip t = (inode_at ip s)\<lparr>i_ref := i_ref (inode_at ip s) + 1\<rparr>
           else i_ref (inode_at ip t) = 1 \<and> \<not> i_valid (inode_at ip t))
        \<and> (\<forall>i. i \<noteq> ip \<longrightarrow> inode_at i t = inode_at i s) \<and> (\<exists>u. iget dev inum t = Inr (ip, u))
    | Inl e \<Rightarrow> e = Panic ''iget: no inodes'' \<and> (\<forall>i < length (icache s). 0 < i_ref (inode_at i s) \<and> i_key (inode_at i s) \<noteq> (dev, inum)))"
proof (cases "iget dev inum s")
  case (Inl e)
  then have *: "scan (\<lambda>i. 0 < i_ref i \<and> i_dev i = dev \<and> i_inum i = inum) (icache s) = None"
    "scan (\<lambda>i. i_ref i = 0) (icache s) = None" "e = Panic ''iget: no inodes''"
    by (auto simp: iget_def split: option.splits)
  have "0 < i_ref (inode_at i s) \<and> i_key (inode_at i s) \<noteq> (dev, inum)" if "i < length (icache s)" for i
    using that *(1,2) icache_okD(1) [OF assms that] by (auto simp: scan_None_iff i_key_def in_set_conv_nth all_set_conv_all_nth)
  then show ?thesis using Inl *(3) by simp
next
  case (Inr r)
  then obtain ip t where it: "iget dev inum s = Inr (ip, t)" by (cases r) auto
  note p = iget_spec [OF assms it]
  have "0 < i_ref (inode_at ip t)" using p(5) by simp
  then have "\<exists>u. iget dev inum t = Inr (ip, u)" using iget_cached [OF p(1) _ _ p(4)] p(2,3) by simp
  moreover have "\<not> i_valid (inode_at ip t)" if "\<not> 0 < i_ref (inode_at ip s)"
    using that it p(2) by (auto simp: iget_def split: option.splits dest!: scan_SomeD)
  ultimately show ?thesis using it p by simp
qed

section \<open>Inodes on disk\<close>

lemma get_put_other:
  assumes "off + 4 \<le> length bs" "o' + 4 \<le> length bs"
  shows "o' + 2 \<le> off \<or> off + 4 \<le> o' \<Longrightarrow> get16 (put32 bs off w) o' = get16 bs o'"
    "o' + 2 \<le> off \<or> off + 2 \<le> o' \<Longrightarrow> get16 (put16 bs off h) o' = get16 bs o'"
    "o' + 4 \<le> off \<or> off + 2 \<le> o' \<Longrightarrow> get32 (put16 bs off h) o' = get32 bs o'"
  using assms by (simp_all add: get16_def get32_def put16_def put32_def slice_splice_disjoint)

lemma get16_put32s:
  assumes "off + 4 * length ws \<le> length bs" "o' + 4 \<le> length bs" "o' + 2 \<le> off \<or> off + 4 * length ws \<le> o'"
  shows "get16 (put32s bs off ws) o' = get16 bs o'"
  using assms by (induction bs off ws rule: put32s.induct) (auto simp: get_put_other)

lemma slice_put32s:
  assumes "off + 4 * length ws \<le> length bs" "o' + n \<le> length bs" "o' + n \<le> off \<or> off + 4 * length ws \<le> o'"
  shows "slice (put32s bs off ws) o' n = slice bs o' n"
  using assms by (induction bs off ws rule: put32s.induct) (auto simp: put32_def slice_splice_disjoint)

text \<open>The fields that an inode has on disk.\<close>

definition i_disk :: "inode \<Rightarrow> u16 \<times> u16 \<times> u16 \<times> u16 \<times> u32 \<times> u32 list" where
  "i_disk i = (i_type i, i_major i, i_minor i, i_nlink i, i_size i, i_addrs i)"

lemma length_put_dinode: "o' + 64 \<le> length d \<Longrightarrow> length (i_addrs i) = NDIRECT + 1 \<Longrightarrow> length (put_dinode d o' i) = length d"
  by (simp add: put_dinode_def NDIRECT_def)

lemma get_put_dinode:
  assumes "o' + 64 \<le> length d" "length (i_addrs i) = NDIRECT + 1"
  shows "i_disk (get_dinode (put_dinode d o' i) o' j) = i_disk i"
proof -
  have "map (\<lambda>k. get32 (put_dinode d o' i) (o' + 12 + 4 * k)) [0..<NDIRECT + 1] = i_addrs i"
    using assms by (intro nth_equalityI) (simp_all add: put_dinode_def NDIRECT_def get32_put32s_nth del: upt_Suc)
  then show ?thesis
    using assms by (simp add: i_disk_def get_dinode_def) (simp add: put_dinode_def NDIRECT_def get16_put32s get32_put32s get_put_other)
qed

lemma slice_put_dinode:
  assumes "o' + 64 \<le> length d" "p + 64 \<le> length d" "p + 64 \<le> o' \<or> o' + 64 \<le> p" "length (i_addrs i) = NDIRECT + 1"
  shows "slice (put_dinode d o' i) p 64 = slice d p 64"
  using assms by (auto simp: put_dinode_def NDIRECT_def slice_put32s put32_def put16_def slice_splice_disjoint)

lemma dinode_off_bounds: "dinode_off n + 64 \<le> BSIZE"
proof -
  have "unat (n mod IPB) < 8" by (simp add: IPB_def unat_mod)
  then show ?thesis by (simp add: dinode_off_def BSIZE_def)
qed

lemma dinode_off_disjoint:
  assumes "IBLOCK m sp = IBLOCK n sp" "m \<noteq> n"
  shows "dinode_off m + 64 \<le> dinode_off n \<or> dinode_off n + 64 \<le> dinode_off m"
proof -
  have "m div IPB = n div IPB" using assms(1) by (simp add: IBLOCK_def)
  then have "m mod IPB \<noteq> n mod IPB" using assms(2) by (metis div_mult_mod_eq)
  then have "unat (m mod IPB) \<noteq> unat (n mod IPB)" by (metis word_unat_eq_iff)
  then show ?thesis by (auto simp: dinode_off_def)
qed

definition iblock_ok :: "u32 \<Rightarrow> 'a inodes_scheme \<Rightarrow> bool" where
  "iblock_ok inum s \<longleftrightarrow> IBLOCK inum (sb s) < FSSIZE \<and> IBLOCK inum (sb s) \<notin> log_region s"

lemma iupdate_spec:
  assumes "in_txn (Suc k) s" "i_dev (inode_at ip s) = 1" "iblock_ok (i_inum (inode_at ip s)) s"
    "length (i_addrs (inode_at ip s)) = NDIRECT + 1"
  shows "\<exists>t. iupdate ip s = Inr t \<and> in_txn k t \<and> fs_frame s t
    \<and> blk t = (blk s)(IBLOCK (i_inum (inode_at ip s)) (sb s)
        := put_dinode (blk s (IBLOCK (i_inum (inode_at ip s)) (sb s))) (dinode_off (i_inum (inode_at ip s))) (inode_at ip s))"
proof -
  let ?i = "inode_at ip s" let ?n = "IBLOCK (i_inum ?i) (sb s)"
  let ?d = "put_dinode (blk s ?n) (dinode_off (i_inum ?i)) ?i"
  have n: "?n < FSSIZE" "?n \<notin> log_region s" using assms(3) by (simp_all add: iblock_ok_def)
  have c: "cache_inv s" using assms(1) by (simp add: in_txn_def log_inv_def)
  have d: "length ?d = BSIZE"
    using length_put_dinode [of "dinode_off (i_inum ?i)" "blk s ?n" ?i] dinode_off_bounds [of "i_inum ?i"] bc.len [OF c, of ?n] assms(4) by simp
  from txn_write [OF assms(1) n] obtain b t where t: "bread 1 ?n s = Inr (b, t)" "buf_data b t = blk s ?n" "fs_frame s t"
    and w: "\<forall>d. length d = BSIZE \<longrightarrow> (\<exists>u v. log_write b (set_data b d t) = Inr u \<and> brelse b u = Inr v \<and> in_txn k v
         \<and> blk v = (blk s)(?n := d) \<and> fs_frame s v)" by blast
  from w d obtain u v where "log_write b (set_data b ?d t) = Inr u" "brelse b u = Inr v" "in_txn k v" "blk v = (blk s)(?n := ?d)" "fs_frame s v"
    by blast
  then show ?thesis using assms(2) t fs_frame_sel(2) [OF t(3)] by (simp add: iupdate_def)
qed

lemma ilock_load:
  assumes "in_txn k s" "ip < length (icache s)" "1 \<le> i_ref (inode_at ip s)" "\<not> i_valid (inode_at ip s)" "i_dev (inode_at ip s) = 1"
    "\<not> sl_locked (slocks s (InodeLock ip))" "IBLOCK (i_inum (inode_at ip s)) (sb s) < FSSIZE"
    "i = get_dinode (blk s (IBLOCK (i_inum (inode_at ip s)) (sb s))) (dinode_off (i_inum (inode_at ip s))) (inode_at ip s)" "i_type i \<noteq> 0"
  shows "\<exists>t. ilock (Some ip) s = Inr t \<and> in_txn k t \<and> blk t = blk s \<and> sb t = sb s \<and> icache t = (icache s)[ip := i\<lparr>i_valid := True\<rparr>]
    \<and> holdingsleep (InodeLock ip) t = Inr True"
proof -
  let ?n = "IBLOCK (i_inum (inode_at ip s)) (sb s)"
  have "proc_running s" using assms(1) by (simp add: in_txn_def log_inv_def cache_inv_def)
  then obtain j where j: "curproc s = Some j" "j < length (ptable s)" by (auto simp: proc_running_def)
  let ?p = "p_pid (ptable s ! j)"
  let ?s = "upd_slock (InodeLock ip) (\<lambda>k. k\<lparr>sl_locked := True, sl_pid := ?p\<rparr>) s"
  have in1: "inert s ?s" by (rule inert_ops)
  have a: "acquiresleep (InodeLock ip) s = Inr ?s" using assms(6) j by (simp add: acquiresleep_def curpid_def)
  have f: "icache ?s = icache s" "sb ?s = sb s" by (simp_all add: upd_slock_def)
  from txn_read [OF inertD(6) [OF in1 assms(1)] assms(7)] obtain b t where t: "bread 1 ?n ?s = Inr (b, t)" "buf_data b t = blk s ?n" "fs_frame ?s t"
    and r: "\<forall>t'. inert t t' \<longrightarrow> (\<exists>u. brelse b t' = Inr u \<and> in_txn k u \<and> blk u = blk s \<and> fs_frame t' u)"
    using inertD(3) [OF in1] by auto
  note ft = fs_frame_sel [OF t(3)]
  let ?t = "upd_inode ip (get_dinode (buf_data b t) (dinode_off (i_inum (inode_at ip t)))) t"
  from r inert_ops(1) obtain u where u: "brelse b ?t = Inr u" "in_txn k u" "blk u = blk s" "fs_frame ?t u" by blast
  let ?u = "upd_inode ip (\<lambda>i. i\<lparr>i_valid := True\<rparr>) u"
  note fu = fs_frame_sel [OF u(4)]
  have i: "icache ?u = (icache s)[ip := i\<lparr>i_valid := True\<rparr>]" "sb ?u = sb s"
    using assms(2,8) t(2) by (simp_all add: ft fu f)
  have "ilock (Some ip) s = Inr ?u"
    using assms(2-5,8,9) a t u(1) by (simp add: ilock_def f ft fu Let_def)
  moreover have "slocks ?u (InodeLock ip) = slocks ?s (InodeLock ip)" "curproc ?u = Some j" "p_pid (ptable ?u ! j) = ?p"
  proof -
    have s: "slocks ?u (InodeLock ip) = slocks u (InodeLock ip)" "ptable ?u = ptable u" "curproc ?u = curproc u"
      "slocks ?t = slocks t" "ptable ?t = ptable t" "curproc ?t = curproc t" "ptable ?s = ptable s" "curproc ?s = curproc s"
      by (simp_all add: upd_inode_def upd_slock_def curproc_def cur_def split: option.split)
    show "slocks ?u (InodeLock ip) = slocks ?s (InodeLock ip)" "curproc ?u = Some j"
      using t(3) u(4) j(1) s unfolding fs_frame_def by simp_all
    have "map p_pid (ptable ?u) = map p_pid (ptable s)" using t(3) u(4) s unfolding fs_frame_def by simp
    then show "p_pid (ptable ?u ! j) = ?p" using j(2) by (metis length_map nth_map)
  qed
  then have "holdingsleep (InodeLock ip) ?u = Inr True" by (simp add: holdingsleep_def curpid_def upd_slock_def)
  moreover have "in_txn k ?u" "blk ?u = blk s" using inertD(6) [OF inert_ops(1) u(2)] inertD(3) [OF inert_ops(1), of ip _ u] u(3) by simp_all
  ultimately show ?thesis using i by blast
qed

text \<open>
  C37. What iupdate writes, ilock reads: inside a transaction iupdate returns, and when the inode is later
  loaded from its block into any free entry of the cache, the entry has the type, device numbers,
  link count, size and block addresses that were written. The inodes that share the block keep their
  bytes, and so do all other blocks.
\<close>

theorem dinode_roundtrip:
  assumes "in_txn (Suc k) s" "i = inode_at ip s" "i_dev i = 1" "iblock_ok (i_inum i) s"
    "length (i_addrs i) = NDIRECT + 1" "i_type i \<noteq> 0"
  shows "\<exists>t. iupdate ip s = Inr t \<and> in_txn k t \<and> icache t = icache s \<and> (\<forall>j. slocks t (InodeLock j) = slocks s (InodeLock j))
    \<and> (\<forall>ic jp. jp < length ic \<and> i_key (ic ! jp) = i_key i \<and> 1 \<le> i_ref (ic ! jp) \<and> \<not> i_valid (ic ! jp)
         \<and> \<not> sl_locked (slocks t (InodeLock jp)) \<longrightarrow>
         (\<exists>u. ilock (Some jp) (t\<lparr>icache := ic\<rparr>) = Inr u \<and> i_valid (inode_at jp u) \<and> i_disk (inode_at jp u) = i_disk i))
    \<and> (\<forall>m. m \<noteq> i_inum i \<longrightarrow> slice (blk t (IBLOCK m (sb s))) (dinode_off m) 64 = slice (blk s (IBLOCK m (sb s))) (dinode_off m) 64)
    \<and> (\<forall>n. n \<noteq> IBLOCK (i_inum i) (sb s) \<longrightarrow> blk t n = blk s n)"
proof -
  let ?n = "IBLOCK (i_inum i) (sb s)" let ?o = "dinode_off (i_inum i)" let ?d = "put_dinode (blk s ?n) ?o i"
  obtain t where t: "iupdate ip s = Inr t" "in_txn k t" "fs_frame s t" "blk t = (blk s)(?n := ?d)"
    using iupdate_spec [OF assms(1), of ip] assms(2-5) by auto
  have c: "cache_inv s" using assms(1) by (simp add: in_txn_def log_inv_def)
  have o: "?o + 64 \<le> length (blk s ?n)" using dinode_off_bounds bc.len [OF c] by simp
  note f = fs_frame_sel [OF t(3)]
  have "\<exists>u. ilock (Some jp) (t\<lparr>icache := ic\<rparr>) = Inr u \<and> i_valid (inode_at jp u) \<and> i_disk (inode_at jp u) = i_disk i"
    if j: "jp < length ic" "i_key (ic ! jp) = i_key i" "1 \<le> i_ref (ic ! jp)" "\<not> i_valid (ic ! jp)"
      "\<not> sl_locked (slocks t (InodeLock jp))" for ic jp
  proof -
    let ?t = "t\<lparr>icache := ic\<rparr>" let ?i = "get_dinode ?d ?o (ic ! jp)"
    have in': "inert t ?t" by (rule inert_ops)
    have i: "i_disk ?i = i_disk i" using get_put_dinode [OF o assms(5)] .
    then have "i_type ?i \<noteq> 0" using assms(6) by (simp add: i_disk_def)
    then have "\<exists>u. ilock (Some jp) ?t = Inr u \<and> in_txn k u \<and> blk u = blk ?t \<and> sb u = sb ?t
        \<and> icache u = (icache ?t)[jp := ?i\<lparr>i_valid := True\<rparr>] \<and> holdingsleep (InodeLock jp) u = Inr True"
      using ilock_load [OF inertD(6) [OF in' t(2)], of jp ?i] j assms(3,4) inertD(3) [OF in'] t(4) f
      by (simp add: i_key_def iblock_ok_def)
    then show ?thesis using i j(1) by (auto simp: i_disk_def)
  qed
  moreover have "slice (blk t (IBLOCK m (sb s))) (dinode_off m) 64 = slice (blk s (IBLOCK m (sb s))) (dinode_off m) 64"
    if "m \<noteq> i_inum i" for m
    using slice_put_dinode [OF o _ _ assms(5), of "dinode_off m"] dinode_off_disjoint [of m "sb s" "i_inum i"] that
      dinode_off_bounds [of m] bc.len [OF c, of ?n] by (simp add: t(4))
  ultimately show ?thesis using t f by (auto simp: fs_frame_def)
qed

theorem iget_unique_witness:
  "\<exists>t u. iget 1 1 (inodes_ex disk_ex [inode_ex\<lparr>i_ref := 0\<rparr>, inode_ex]) = Inr (1, t) \<and> iget 1 1 t = Inr (1, u)"
proof -
  let ?s = "inodes_ex disk_ex [inode_ex\<lparr>i_ref := 0\<rparr>, inode_ex]"
  have ok: "icache_ok ?s" by (simp add: icache_ok_def inodes_ex_sel inode_ex_def less_Suc_eq)
  have "\<exists>t. iget 1 1 ?s = Inr (1, t)" by (simp add: iget_def inodes_ex_sel inode_ex_def)
  with iget_unique [OF ok, of 1 1] show ?thesis by auto
qed

theorem dinode_roundtrip_witness:
  "\<exists>t u. iupdate 0 (inodes_ex disk_ex [inode_ex]) = Inr t
     \<and> ilock (Some 1) (t\<lparr>icache := [inode_ex, inode_ex\<lparr>i_valid := False, i_type := 0, i_nlink := 7\<rparr>]\<rparr>) = Inr u
     \<and> i_nlink (inode_at 1 u) = 1"
proof -
  let ?s = "inodes_ex disk_ex [inode_ex]" let ?ic = "[inode_ex, inode_ex\<lparr>i_valid := False, i_type := 0, i_nlink := 7\<rparr>]"
  have txn: "in_txn (Suc 0) ?s" by (rule inodes_ex_txn) simp
  have i: "inode_ex = inode_at 0 ?s" "i_dev inode_ex = 1" "length (i_addrs inode_ex) = NDIRECT + 1" "i_type inode_ex \<noteq> 0"
    by (simp_all add: inodes_ex_sel inode_ex_def NDIRECT_def T_FILE_def)
  have "32 \<notin> log_region (logs_ex disk_ex)" using log_region_ex [of 32 disk_ex] by auto
  then have ib: "iblock_ok (i_inum inode_ex) ?s"
    by (simp add: iblock_ok_def IBLOCK_def IPB_def inodes_ex_sel sb_ex_def inode_ex_def FSSIZE_def inodes_ex_txn(3) [of 0])
  from dinode_roundtrip [OF txn i(1,2) ib i(3,4)] obtain t where t: "iupdate 0 ?s = Inr t"
    "\<forall>j. slocks t (InodeLock j) = slocks ?s (InodeLock j)"
    and l: "\<forall>ic jp. jp < length ic \<and> i_key (ic ! jp) = i_key inode_ex \<and> 1 \<le> i_ref (ic ! jp) \<and> \<not> i_valid (ic ! jp)
         \<and> \<not> sl_locked (slocks t (InodeLock jp)) \<longrightarrow>
         (\<exists>u. ilock (Some jp) (t\<lparr>icache := ic\<rparr>) = Inr u \<and> i_valid (inode_at jp u) \<and> i_disk (inode_at jp u) = i_disk inode_ex)" by blast
  have "\<not> sl_locked (slocks t (InodeLock 1))" using t(2) unlocked_ex [of disk_ex 1] inodes_ex_txn(4) [of 0 "[inode_ex]"] by simp
  then obtain u where "ilock (Some 1) (t\<lparr>icache := ?ic\<rparr>) = Inr u" "i_disk (inode_at 1 u) = i_disk inode_ex"
    using l [rule_format, of 1 ?ic] by (auto simp: i_key_def inode_ex_def)
  then show ?thesis using t(1) by (auto simp: i_disk_def inode_ex_def)
qed

end
