(* ===== verification/Bitmap.thy ===== *)
theory Bitmap
  imports Txn
begin

unbundle bit_operations_syntax

text \<open>
  The block bitmap (fs.c): balloc and bfree against the set of used blocks.
\<close>

section \<open>The block bitmap\<close>

definition bm_bit :: "u8 list \<Rightarrow> nat \<Rightarrow> bool" where
  "bm_bit d k \<longleftrightarrow> bit (d ! (k div 8)) (k mod 8)"

lemma bit_mask_test: "x AND bit_mask k = 0 \<longleftrightarrow> \<not> bit x (k mod 8)"
proof
  assume "x AND bit_mask k = 0"
  then have "\<not> bit (x AND bit_mask k) (k mod 8)" by simp
  then show "\<not> bit x (k mod 8)" by (simp add: bit_mask_def bit_simps)
next
  assume "\<not> bit x (k mod 8)"
  then show "x AND bit_mask k = 0" by (intro bit_word_eqI) (auto simp: bit_mask_def bit_simps)
qed

lemma bm_set:
  assumes "length d = BSIZE" "j < BPB" "k < BPB"
  shows "bm_bit (d[k div 8 := d ! (k div 8) OR bit_mask k]) j \<longleftrightarrow> bm_bit d j \<or> j = k"
    "bm_bit (d[k div 8 := d ! (k div 8) AND NOT (bit_mask k)]) j \<longleftrightarrow> bm_bit d j \<and> j \<noteq> k"
proof -
  have e: "j = k \<longleftrightarrow> j div 8 = k div 8 \<and> j mod 8 = k mod 8" by (metis div_mult_mod_eq)
  have l: "k div 8 < length d" using assms by (simp add: BSIZE_def BPB_def)
  show "bm_bit (d[k div 8 := d ! (k div 8) OR bit_mask k]) j \<longleftrightarrow> bm_bit d j \<or> j = k"
    "bm_bit (d[k div 8 := d ! (k div 8) AND NOT (bit_mask k)]) j \<longleftrightarrow> bm_bit d j \<and> j \<noteq> k"
    using l by (auto simp: bm_bit_def e bit_mask_def bit_simps nth_list_update)
qed

lemma bm_unset: "x AND bit_mask k = 0 \<Longrightarrow> (x OR bit_mask k) AND NOT (bit_mask k) = x"
  unfolding bit_mask_test by (rule bit_word_eqI) (auto simp: bit_mask_def bit_simps)

definition block_used :: "u32 \<Rightarrow> 'a inodes_scheme \<Rightarrow> bool" where
  "block_used b s \<longleftrightarrow> bm_bit (blk s (BBLOCK b (sb s))) (unat b mod BPB)"

text \<open>The disk of 1000 blocks has one bitmap block; the blocks that are not for data are marked as used.\<close>

definition bitmap_ok :: "'a inodes_scheme \<Rightarrow> bool" where
  "bitmap_ok s \<longleftrightarrow> 0 < sb_size (sb s) \<and> sb_size (sb s) \<le> FSSIZE \<and> sb_bmapstart (sb s) < FSSIZE \<and> sb_bmapstart (sb s) \<notin> log_region s
     \<and> (\<forall>b < sb_size (sb s). \<not> block_used b s \<longrightarrow> b \<notin> log_region s \<and> b \<noteq> sb_bmapstart (sb s))"

lemma small_block:
  assumes "bitmap_ok s" "b < sb_size (sb s)"
  shows "unat b < 1000" "unat b mod BPB = unat b" "BBLOCK b (sb s) = sb_bmapstart (sb s)" "b < FSSIZE"
proof -
  have "b < 1000" using assms less_le_trans [of b "sb_size (sb s)" 1000] by (simp add: bitmap_ok_def FSSIZE_def)
  then show u: "unat b < 1000" "b < FSSIZE" by (simp_all add: word_less_nat_alt FSSIZE_def)
  then show "unat b mod BPB = unat b" by (simp add: BPB_def)
  have "b div 4096 = 0" using u(1) by (simp add: word_arith_nat_div)
  then show "BBLOCK b (sb s) = sb_bmapstart (sb s)" by (simp add: BBLOCK_def BPB_def)
qed

lemma block_used_iff:
  "bitmap_ok s \<Longrightarrow> b < sb_size (sb s) \<Longrightarrow> block_used b s \<longleftrightarrow> bm_bit (blk s (sb_bmapstart (sb s))) (unat b)"
  by (simp add: block_used_def small_block)

lemma bzero_spec:
  assumes "in_txn (Suc k) s" "n < FSSIZE" "n \<notin> log_region s"
  shows "\<exists>t. bzero 1 n s = Inr t \<and> in_txn k t \<and> blk t = (blk s)(n := replicate BSIZE 0) \<and> fs_frame s t"
proof -
  from txn_write [OF assms] obtain b t where "bread 1 n s = Inr (b, t)"
    and w: "\<forall>d. length d = BSIZE \<longrightarrow> (\<exists>u v. log_write b (set_data b d t) = Inr u \<and> brelse b u = Inr v \<and> in_txn k v
         \<and> blk v = (blk s)(n := d) \<and> fs_frame s v)" by blast
  moreover obtain u v where "log_write b (set_data b (replicate BSIZE 0) t) = Inr u" "brelse b u = Inr v" "in_txn k v"
    "blk v = (blk s)(n := replicate BSIZE 0)" "fs_frame s v" using w by (metis length_replicate)
  ultimately show ?thesis by (simp add: bzero_def)
qed

text \<open>The scan of balloc over the bitmap block finds the first free block.\<close>

lemma balloc_find:
  assumes "bitmap_ok s" "d = blk s (sb_bmapstart (sb s))"
    "r = find (\<lambda>bi. (0 :: u32) + word_of_nat bi < sb_size (sb s) \<and> d ! (bi div 8) AND bit_mask bi = 0) [0..<BPB]"
  shows "case r of None \<Rightarrow> \<forall>b < sb_size (sb s). block_used b s
    | Some k \<Rightarrow> (\<exists>b. k = unat b \<and> b < sb_size (sb s) \<and> \<not> block_used b s \<and> (\<forall>c < b. block_used c s))"
proof -
  have sz: "unat (sb_size (sb s)) \<le> 1000" using assms(1) by (simp add: bitmap_ok_def FSSIZE_def word_le_nat_alt)
  have p: "((0 :: u32) + word_of_nat (unat b) < sb_size (sb s) \<and> d ! (unat b div 8) AND bit_mask (unat b) = 0)
      = (b < sb_size (sb s) \<and> \<not> block_used b s)" for b
    using block_used_iff [OF assms(1), of b] assms(2) by (auto simp: bm_bit_def bit_mask_test)
  have u: "unat (word_of_nat k :: u32) = k" if "k < BPB" for k using that by (simp add: unat_of_nat BPB_def)
  have small: "unat b < BPB" if "b < sb_size (sb s)" for b using that sz by (simp add: word_less_nat_alt BPB_def)
  show ?thesis
  proof (cases r)
    case None
    then have n: "\<not> ((0 :: u32) + word_of_nat k < sb_size (sb s) \<and> d ! (k div 8) AND bit_mask k = 0)" if "k < BPB" for k
      using assms(3) that by (auto simp: find_None_iff eq_commute [of None])
    have "block_used b s" if "b < sb_size (sb s)" for b using n [OF small [OF that]] p [of b] that by blast
    then show ?thesis using None by simp
  next
    case (Some k)
    then have k: "k < BPB" "(0 :: u32) + word_of_nat k < sb_size (sb s) \<and> d ! (k div 8) AND bit_mask k = 0"
      "\<And>j. j < k \<Longrightarrow> \<not> ((0 :: u32) + word_of_nat j < sb_size (sb s) \<and> d ! (j div 8) AND bit_mask j = 0)"
      using assms(3) by (auto simp: find_Some_iff eq_commute [of "Some _"])
    define b where "b = (word_of_nat k :: u32)"
    have b: "k = unat b" using u [OF k(1)] by (simp add: b_def)
    have "b < sb_size (sb s) \<and> \<not> block_used b s" using k(2) p [of b] unfolding b by blast
    moreover have "block_used c s" if "c < b" for c
      using k(3) [of "unat c"] p [of c] that calculation less_trans [of c b "sb_size (sb s)"] unfolding b by (auto simp: word_less_nat_alt)
    ultimately show ?thesis using Some b by auto
  qed
qed

lemma loopE_done: "\<not> c s \<Longrightarrow> loopE n c f s = Inr (Inr s)"
  by (cases n) simp_all

lemma balloc_spec:
  assumes "in_txn (Suc (Suc k)) s" "bitmap_ok s" "b < sb_size (sb s)" "\<not> block_used b s"
  shows "\<exists>b t. balloc 1 s = Inr (b, t) \<and> b < sb_size (sb s) \<and> \<not> block_used b s \<and> (\<forall>c < b. block_used c s)
    \<and> in_txn k t \<and> fs_frame s t \<and> blk t = (blk s)(sb_bmapstart (sb s) := (blk s (sb_bmapstart (sb s)))[unat b div 8 :=
        blk s (sb_bmapstart (sb s)) ! (unat b div 8) OR bit_mask (unat b)], b := replicate BSIZE 0)"
proof -
  let ?m = "sb_bmapstart (sb s)" let ?d = "blk s ?m"
  have m: "?m < FSSIZE" "?m \<notin> log_region s" "0 < sb_size (sb s)" using assms(2) by (simp_all add: bitmap_ok_def)
  have l: "length ?d = BSIZE" using assms(1) bc.len [of s ?m] by (simp add: in_txn_def log_inv_def)
  from txn_write [OF assms(1) m(1,2)] obtain bp t where t: "bread 1 ?m s = Inr (bp, t)" "buf_data bp t = ?d" "fs_frame s t"
    and w: "\<forall>d. length d = BSIZE \<longrightarrow> (\<exists>u v. log_write bp (set_data bp d t) = Inr u \<and> brelse bp u = Inr v \<and> in_txn (Suc k) v
         \<and> blk v = (blk s)(?m := d) \<and> fs_frame s v)" by blast
  note f = fs_frame_sel [OF t(3)]
  define r where "r = find (\<lambda>bi. (0 :: u32) + word_of_nat bi < sb_size (sb s) \<and> ?d ! (bi div 8) AND bit_mask bi = 0) [0..<BPB]"
  have "r \<noteq> None" using balloc_find [OF assms(2) refl r_def] assms(3,4) by (auto split: option.splits)
  then obtain c where c: "r = Some (unat c)" "c < sb_size (sb s)" "\<not> block_used c s" "\<forall>x < c. block_used x s"
    using balloc_find [OF assms(2) refl r_def] by (auto split: option.splits)
  let ?e = "?d[unat c div 8 := ?d ! (unat c div 8) OR bit_mask (unat c)]"
  from w l obtain u v where v: "log_write bp (set_data bp ?e t) = Inr u" "brelse bp u = Inr v" "in_txn (Suc k) v"
    "blk v = (blk s)(?m := ?e)" "fs_frame s v" by (metis length_list_update)
  have "c < FSSIZE" "c \<notin> log_region v"
    using assms(2) c(2,3) small_block(4) [OF assms(2) c(2)] v(5) by (auto simp: bitmap_ok_def fs_frame_def)
  from bzero_spec [OF v(3) this] obtain x where x: "bzero 1 c v = Inr x" "in_txn k x" "blk x = (blk v)(c := replicate BSIZE 0)" "fs_frame v x"
    by blast
  have "balloc 1 s = Inr (c, x)"
    using m(3) t(1) c(1) v(1,2) x(1) unfolding balloc_def r_def by (simp add: BBLOCK_def f t(2) Let_def)
  then show ?thesis using c x v(4) fs_frame_trans [OF v(5) x(4)] by auto
qed

lemma balloc_full:
  assumes "in_txn k s" "bitmap_ok s" "\<forall>b < sb_size (sb s). block_used b s"
  shows "balloc 1 s = Inl (Panic ''balloc: out of blocks'')"
proof -
  let ?m = "sb_bmapstart (sb s)" let ?d = "blk s ?m"
  have m: "?m < FSSIZE" "0 < sb_size (sb s)" "sb_size (sb s) \<le> 1000" using assms(2) by (simp_all add: bitmap_ok_def FSSIZE_def)
  from txn_read [OF assms(1) m(1)] obtain bp t where t: "bread 1 ?m s = Inr (bp, t)" "buf_data bp t = ?d" "fs_frame s t"
    and w: "\<forall>t'. inert t t' \<longrightarrow> (\<exists>u. brelse bp t' = Inr u \<and> in_txn k u \<and> blk u = blk s \<and> fs_frame t' u)" by blast
  from w inert_refl obtain u where u: "brelse bp t = Inr u" "fs_frame t u" by blast
  note f = fs_frame_sel [OF t(3)] fs_frame_sel [OF u(2)]
  define r where "r = find (\<lambda>bi. (0 :: u32) + word_of_nat bi < sb_size (sb s) \<and> ?d ! (bi div 8) AND bit_mask bi = 0) [0..<BPB]"
  have r: "r = None" using balloc_find [OF assms(2) refl r_def] assms(3) by (auto split: option.splits)
  have "\<not> word_of_nat BPB < sb_size (sb s)" using m(3) by (simp add: BPB_def word_less_nat_alt word_le_nat_alt)
  then show ?thesis
    using m(2) t(1) r u(1) unfolding balloc_def r_def by (simp add: BBLOCK_def f t(2) Let_def loopE_done)
qed

lemma bfree_spec:
  assumes "in_txn (Suc k) s" "bitmap_ok s" "b < sb_size (sb s)"
  shows "if block_used b s
    then \<exists>t. bfree 1 b s = Inr t \<and> in_txn k t \<and> fs_frame s t \<and> blk t = (blk s)(sb_bmapstart (sb s) :=
        (blk s (sb_bmapstart (sb s)))[unat b div 8 := blk s (sb_bmapstart (sb s)) ! (unat b div 8) AND NOT (bit_mask (unat b))])
    else bfree 1 b s = Inl (Panic ''freeing free block'')"
proof -
  let ?m = "sb_bmapstart (sb s)" let ?d = "blk s ?m"
  have m: "?m < FSSIZE" "?m \<notin> log_region s" using assms(2) by (simp_all add: bitmap_ok_def)
  have l: "length ?d = BSIZE" using assms(1) bc.len [of s ?m] by (simp add: in_txn_def log_inv_def)
  from txn_write [OF assms(1) m] obtain bp t where t: "bread 1 ?m s = Inr (bp, t)" "buf_data bp t = ?d"
    and w: "\<forall>d. length d = BSIZE \<longrightarrow> (\<exists>u v. log_write bp (set_data bp d t) = Inr u \<and> brelse bp u = Inr v \<and> in_txn k v
         \<and> blk v = (blk s)(?m := d) \<and> fs_frame s v)" by blast
  let ?e = "?d[unat b div 8 := ?d ! (unat b div 8) AND NOT (bit_mask (unat b))]"
  from w l obtain u v where v: "log_write bp (set_data bp ?e t) = Inr u" "brelse bp u = Inr v" "in_txn k v"
    "blk v = (blk s)(?m := ?e)" "fs_frame s v" by (metis length_list_update)
  note sm = small_block [OF assms(2,3)]
  show ?thesis
    using t v block_used_iff [OF assms(2,3)] by (simp add: bfree_def sm bm_bit_def bit_mask_test Let_def)
qed

lemma balloc_alloc:
  assumes "in_txn (Suc (Suc k)) s" "bitmap_ok s" "\<exists>b < sb_size (sb s). \<not> block_used b s"
  shows "\<exists>b t. balloc 1 s = Inr (b, t) \<and> b < sb_size (sb s) \<and> \<not> block_used b s \<and> (\<forall>c < b. block_used c s)
    \<and> in_txn k t \<and> fs_frame s t \<and> blk t b = replicate BSIZE 0 \<and> (\<forall>n. n \<noteq> b \<and> n \<noteq> sb_bmapstart (sb s) \<longrightarrow> blk t n = blk s n)
    \<and> bitmap_ok t \<and> (\<forall>c < sb_size (sb s). block_used c t \<longleftrightarrow> block_used c s \<or> c = b)"
proof -
  let ?m = "sb_bmapstart (sb s)"
  obtain b t where t: "balloc 1 s = Inr (b, t)" "b < sb_size (sb s)" "\<not> block_used b s" "\<forall>c < b. block_used c s"
    "in_txn k t" "fs_frame s t" "blk t = (blk s)(?m := (blk s ?m)[unat b div 8 := blk s ?m ! (unat b div 8) OR bit_mask (unat b)],
        b := replicate BSIZE 0)"
    using assms(3) balloc_spec [OF assms(1,2)] by blast
  note f = fs_frame_sel [OF t(6)]
  have ne: "b \<noteq> ?m" using assms(2) t(2,3) by (auto simp: bitmap_ok_def)
  have l: "length (blk s ?m) = BSIZE" using assms(1) bc.len [of s ?m] by (simp add: in_txn_def log_inv_def)
  have eq: "unat c = unat b \<longleftrightarrow> c = b" for c by (simp add: word_unat_eq_iff)
  have u: "block_used c t \<longleftrightarrow> block_used c s \<or> c = b" if "c < sb_size (sb s)" for c
    using bm_set(1) [OF l, of "unat c" "unat b"] small_block [OF assms(2) that] small_block(1) [OF assms(2) t(2)] ne t(7)
    by (simp add: block_used_def f BPB_def eq)
  have ok: "bitmap_ok t" using assms(2) u t(6) f unfolding bitmap_ok_def fs_frame_def by auto
  show ?thesis using t u ok ne by auto
qed

lemma bfree_release:
  assumes "in_txn (Suc k) s" "bitmap_ok s" "b < sb_size (sb s)" "block_used b s"
  shows "\<exists>t. bfree 1 b s = Inr t \<and> in_txn k t \<and> fs_frame s t \<and> (\<forall>n. n \<noteq> sb_bmapstart (sb s) \<longrightarrow> blk t n = blk s n)
    \<and> (\<forall>c < sb_size (sb s). block_used c t \<longleftrightarrow> block_used c s \<and> c \<noteq> b)"
proof -
  let ?m = "sb_bmapstart (sb s)"
  obtain t where t: "bfree 1 b s = Inr t" "in_txn k t" "fs_frame s t"
    "blk t = (blk s)(?m := (blk s ?m)[unat b div 8 := blk s ?m ! (unat b div 8) AND NOT (bit_mask (unat b))])"
    using bfree_spec [OF assms(1-3)] assms(4) by auto
  have l: "length (blk s ?m) = BSIZE" using assms(1) bc.len [of s ?m] by (simp add: in_txn_def log_inv_def)
  have eq: "unat c = unat b \<longleftrightarrow> c = b" for c by (simp add: word_unat_eq_iff)
  have "block_used c t \<longleftrightarrow> block_used c s \<and> c \<noteq> b" if "c < sb_size (sb s)" for c
    using bm_set(2) [OF l, of "unat c" "unat b"] small_block [OF assms(2) that] small_block(1) [OF assms(2,3)] t(4)
    by (simp add: block_used_def fs_frame_sel(1) [OF t(3)] BPB_def eq)
  then show ?thesis using t by auto
qed

text \<open>
  C36. Block allocation inside a transaction: when a block is free, balloc returns the first free block,
  zeroed, marks it and no other block as used, and changes no other block but the bitmap; bfree makes it
  free again and restores the map. When all blocks are used, balloc panics, and freeing a
  free block panics.
\<close>

theorem balloc_bfree:
  assumes "in_txn (Suc (Suc (Suc k))) s" "bitmap_ok s"
  shows "if \<exists>b < sb_size (sb s). \<not> block_used b s
    then \<exists>b t u. balloc 1 s = Inr (b, t) \<and> b < sb_size (sb s) \<and> \<not> block_used b s \<and> (\<forall>c < b. block_used c s)
      \<and> blk t b = replicate BSIZE 0 \<and> (\<forall>n. n \<noteq> b \<and> n \<noteq> sb_bmapstart (sb s) \<longrightarrow> blk t n = blk s n)
      \<and> bitmap_ok t \<and> sb t = sb s \<and> icache t = icache s \<and> (\<forall>c < sb_size (sb s). block_used c t \<longleftrightarrow> block_used c s \<or> c = b)
      \<and> bfree 1 b t = Inr u \<and> (\<forall>c < sb_size (sb s). block_used c u \<longleftrightarrow> block_used c s)
      \<and> bfree 1 b s = Inl (Panic ''freeing free block'')
    else balloc 1 s = Inl (Panic ''balloc: out of blocks'')"
proof (cases "\<exists>b < sb_size (sb s). \<not> block_used b s")
  case True
  from balloc_alloc [OF assms True] obtain b t where
    t: "balloc 1 s = Inr (b, t)" "b < sb_size (sb s)" "\<not> block_used b s" "\<forall>c < b. block_used c s"
    "in_txn (Suc k) t" "fs_frame s t" "blk t b = replicate BSIZE 0" "\<forall>n. n \<noteq> b \<and> n \<noteq> sb_bmapstart (sb s) \<longrightarrow> blk t n = blk s n"
    "bitmap_ok t" "\<forall>c < sb_size (sb s). block_used c t \<longleftrightarrow> block_used c s \<or> c = b" by blast
  note f = fs_frame_sel [OF t(6)]
  from bfree_release [OF t(5,9), of b] obtain u where "bfree 1 b t = Inr u"
    "\<forall>c < sb_size (sb s). block_used c u \<longleftrightarrow> block_used c t \<and> c \<noteq> b" using t(2,10) f by auto
  moreover have "bfree 1 b s = Inl (Panic ''freeing free block'')"
    using bfree_spec [OF assms(1,2) t(2)] t(3) by simp
  ultimately show ?thesis using True t f by auto
next
  case False
  then show ?thesis using balloc_full [OF assms] by auto
qed

lemma used_ex:
  assumes "b < 1000"
  shows "block_used b (inodes_ex disk_ex ic) \<longleftrightarrow> unat b < 59"
proof -
  have u: "unat b < 1000" using assms by (simp add: word_less_nat_alt)
  have "b div 4096 = 0" using u by (simp add: word_arith_nat_div)
  then have "block_used b (inodes_ex disk_ex ic) \<longleftrightarrow> bm_bit bitmap_ex (unat b)"
    using u by (simp add: block_used_def BBLOCK_def inodes_ex_sel sb_ex_def inodes_ex_txn(2) [of 0] disk_ex_def BPB_def)
  also have "\<dots> \<longleftrightarrow> unat b < 59"
  proof -
    let ?q = "unat b div 8" let ?r = "unat b mod 8"
    have b: "unat b = 8 * ?q + ?r" "?r < 8" by simp_all
    have "?q < 512" using u by simp
    then have n: "bitmap_ex ! ?q = (if ?q < 7 then 255 else if ?q = 7 then 7 else 0)"
      by (simp add: bitmap_ex_def nth_append nth_Cons')
    have "bit (255 :: u8) m" if "m < 8" for m using that by (auto simp: numeral_eq_Suc less_Suc_eq)
    then have h: "bit (255 :: u8) ?r" using b(2) by blast
    have l: "bit (7 :: u8) m \<longleftrightarrow> m < 3" for m by (auto simp: numeral_eq_Suc less_Suc_eq)
    consider "?q < 7" | "?q = 7" | "7 < ?q" by linarith
    then show ?thesis
    proof cases
      case 1
      then have "unat b < 59" using b by linarith
      then show ?thesis using 1 n h by (simp add: bm_bit_def)
    next
      case 2
      then have "unat b < 59 \<longleftrightarrow> ?r < 3" using b by linarith
      then show ?thesis using 2 n l [of ?r] by (simp only: bm_bit_def) simp
    next
      case 3
      then have "\<not> unat b < 59" using b by linarith
      then show ?thesis using 3 n by (simp add: bm_bit_def)
    qed
  qed
  finally show ?thesis .
qed

lemma bitmap_ok_ex: "bitmap_ok (inodes_ex disk_ex ic)"
proof -
  have "b \<notin> log_region (logs_ex disk_ex) \<and> b \<noteq> 58" if "b < 1000" "\<not> block_used b (inodes_ex disk_ex ic)" for b
    using that used_ex [of b ic] log_region_ex [of b disk_ex] by auto
  moreover have "58 \<notin> log_region (logs_ex disk_ex)" using log_region_ex [of 58 disk_ex] by auto
  ultimately show ?thesis
    by (simp add: bitmap_ok_def inodes_ex_sel sb_ex_def FSSIZE_def inodes_ex_txn(3) [of 0])
qed

theorem balloc_bfree_witness:
  "\<exists>t u. balloc 1 (inodes_ex disk_ex []) = Inr (59, t) \<and> bfree 1 59 t = Inr u \<and> \<not> block_used 59 u"
proof -
  let ?s = "inodes_ex disk_ex []"
  have txn: "in_txn (Suc (Suc (Suc 0))) ?s" by (rule inodes_ex_txn) simp
  have sz: "sb_size (sb ?s) = 1000" by (simp add: inodes_ex_sel sb_ex_def)
  have n: "\<not> block_used 59 ?s" using used_ex [of 59 "[]"] by simp
  then have "\<exists>b < sb_size (sb ?s). \<not> block_used b ?s" unfolding sz by (intro exI [of _ 59]) simp
  with balloc_bfree [OF txn bitmap_ok_ex] obtain b t u where b: "balloc 1 ?s = Inr (b, t)" "b < 1000" "\<not> block_used b ?s" "\<forall>c < b. block_used c ?s"
    "bfree 1 b t = Inr u" "\<forall>c < 1000. block_used c u \<longleftrightarrow> block_used c ?s" unfolding sz by auto
  have "\<not> 59 < b" using b(4) n by blast
  moreover have "59 \<le> unat b" using b(2,3) used_ex [of b "[]"] by simp
  ultimately have "b = 59" by (simp add: word_less_nat_alt word_unat_eq_iff)
  then show ?thesis using b n by auto
qed

end
