(* ===== verification/Filedata.thy ===== *)
theory Filedata
  imports Inode Bitmap
begin

unbundle bit_operations_syntax

text \<open>
  The bytes of a file (fs.c): bmap, readi and writei on the part of a file that the direct blocks
  hold, against the function \<open>fbyte\<close> from offsets to bytes.
\<close>

section \<open>The bytes of a file\<close>

text \<open>
  The part of a file that its direct blocks hold. A byte of a block that has not been allocated is
  zero, which is what bmap makes of it.
\<close>

abbreviation addr_of :: "nat \<Rightarrow> nat \<Rightarrow> 'a inodes_scheme \<Rightarrow> u32" where
  "addr_of ip j s \<equiv> i_addrs (inode_at ip s) ! j"

definition fbyte :: "nat \<Rightarrow> 'a inodes_scheme \<Rightarrow> nat \<Rightarrow> u8" where
  "fbyte ip s p = (if addr_of ip (p div BSIZE) s = 0 then 0 else blk s (addr_of ip (p div BSIZE) s) ! (p mod BSIZE))"

definition free_blocks :: "'a inodes_scheme \<Rightarrow> u32 set" where
  "free_blocks s = {b. b < sb_size (sb s) \<and> \<not> block_used b s}"

definition data_block :: "nat \<Rightarrow> 'a inodes_scheme \<Rightarrow> u32 \<Rightarrow> bool" where
  "data_block ip s a \<longleftrightarrow> a < sb_size (sb s) \<and> block_used a s \<and> a \<notin> log_region s \<and> a \<noteq> sb_bmapstart (sb s)
     \<and> a \<noteq> IBLOCK (i_inum (inode_at ip s)) (sb s)"

definition addrs_distinct :: "u32 list \<Rightarrow> bool" where
  "addrs_distinct as \<longleftrightarrow> (\<forall>i < NDIRECT. \<forall>j < NDIRECT. as ! i = as ! j \<and> as ! i \<noteq> 0 \<longrightarrow> i = j)"

definition file_inv :: "nat \<Rightarrow> 'a inodes_scheme \<Rightarrow> bool" where
  "file_inv ip s \<longleftrightarrow> ip < length (icache s) \<and> i_dev (inode_at ip s) = 1 \<and> i_type (inode_at ip s) \<noteq> T_DEV
     \<and> length (i_addrs (inode_at ip s)) = NDIRECT + 1 \<and> bitmap_ok s \<and> iblock_ok (i_inum (inode_at ip s)) s
     \<and> 0 \<notin> free_blocks s \<and> IBLOCK (i_inum (inode_at ip s)) (sb s) \<notin> free_blocks s
     \<and> sb_bmapstart (sb s) \<noteq> IBLOCK (i_inum (inode_at ip s)) (sb s)
     \<and> (\<forall>j < NDIRECT. addr_of ip j s \<noteq> 0 \<longrightarrow> data_block ip s (addr_of ip j s))
     \<and> addrs_distinct (i_addrs (inode_at ip s))"

lemma file_invD:
  assumes "file_inv ip s"
  shows "ip < length (icache s)" "i_dev (inode_at ip s) = 1" "i_type (inode_at ip s) \<noteq> T_DEV"
    "length (i_addrs (inode_at ip s)) = NDIRECT + 1" "bitmap_ok s" "iblock_ok (i_inum (inode_at ip s)) s"
    "0 \<notin> free_blocks s" "IBLOCK (i_inum (inode_at ip s)) (sb s) \<notin> free_blocks s"
    "sb_bmapstart (sb s) \<noteq> IBLOCK (i_inum (inode_at ip s)) (sb s)"
    "j < NDIRECT \<Longrightarrow> addr_of ip j s \<noteq> 0 \<Longrightarrow> data_block ip s (addr_of ip j s)"
    "i < NDIRECT \<Longrightarrow> j < NDIRECT \<Longrightarrow> addr_of ip i s = addr_of ip j s \<Longrightarrow> addr_of ip i s \<noteq> 0 \<Longrightarrow> i = j"
  using assms unfolding file_inv_def addrs_distinct_def by blast+

lemma finite_free: "finite (free_blocks s)"
  by simp

text \<open>Changes that keep the layout: the same super block, inode number, and bitmap.\<close>

lemma file_inv_cong:
  assumes "file_inv ip s" "sb t = sb s" "log_region t = log_region s" "\<And>b. b < sb_size (sb s) \<Longrightarrow> block_used b t = block_used b s"
    "length (icache t) = length (icache s)" "i_dev (inode_at ip t) = i_dev (inode_at ip s)" "i_type (inode_at ip t) = i_type (inode_at ip s)"
    "i_inum (inode_at ip t) = i_inum (inode_at ip s)" "i_addrs (inode_at ip t) = i_addrs (inode_at ip s)"
  shows "file_inv ip t" "free_blocks t = free_blocks s"
proof -
  show f: "free_blocks t = free_blocks s" using assms(2,4) by (auto simp: free_blocks_def)
  have "bitmap_ok t" using file_invD(5) [OF assms(1)] assms(2-4) by (simp add: bitmap_ok_def)
  moreover have "data_block ip t a = data_block ip s a" for a using assms(2-4,8) by (auto simp: data_block_def)
  ultimately show "file_inv ip t" using assms f unfolding file_inv_def iblock_ok_def by simp
qed

text \<open>What changes and what stays when bmap gives file block \<open>j\<close> the address \<open>a\<close>.\<close>

lemma file_inv_alloc:
  assumes inv: "file_inv ip s" "j < NDIRECT" "addr_of ip j s = 0" "a \<in> free_blocks s"
    and t: "fs_frame s t" "bitmap_ok t" "\<forall>c < sb_size (sb s). block_used c t \<longleftrightarrow> block_used c s \<or> c = a"
      "blk t a = replicate BSIZE 0" "\<forall>n. n \<noteq> a \<and> n \<noteq> sb_bmapstart (sb s) \<longrightarrow> blk t n = blk s n"
  defines "u \<equiv> upd_inode ip (\<lambda>i. i\<lparr>i_addrs := (i_addrs i)[j := a]\<rparr>) t"
  shows "file_inv ip u" "free_blocks u = free_blocks s - {a}" "p < NDIRECT * BSIZE \<Longrightarrow> fbyte ip u p = fbyte ip s p" "a \<noteq> 0"
proof -
  note f = fs_frame_sel [OF t(1)] and D = file_invD [OF inv(1)]
  have a: "a < sb_size (sb s)" "\<not> block_used a s" "a \<notin> log_region s" "a \<noteq> sb_bmapstart (sb s)"
    using inv(4) D(5) by (auto simp: free_blocks_def bitmap_ok_def)
  show a0: "a \<noteq> 0" using D(7) inv(4) by blast
  have iu: "icache u = (icache s)[ip := (inode_at ip s)\<lparr>i_addrs := (i_addrs (inode_at ip s))[j := a]\<rparr>]" "sb u = sb s"
    "blk u = blk t" "log_region u = log_region s" "\<And>b. block_used b u = block_used b t"
    using inertD(3,5) [OF inert_ops(1), of ip _ t] t(1) f by (simp_all add: u_def block_used_def fs_frame_def)
  have i: "inode_at ip u = (inode_at ip s)\<lparr>i_addrs := (i_addrs (inode_at ip s))[j := a]\<rparr>" using D(1) iu(1) by simp
  have ad: "addr_of ip k u = (if k = j then a else addr_of ip k s)" if "k < NDIRECT" for k using that D(4) i inv(2) by (simp add: nth_list_update)
  show fr: "free_blocks u = free_blocks s - {a}" using t(3) iu f by (auto simp: free_blocks_def)
  have ne: "addr_of ip k s \<noteq> a" if "k < NDIRECT" "addr_of ip k s \<noteq> 0" for k
    using D(10) [OF that] a(2) by (auto simp: data_block_def)
  have "data_block ip u (addr_of ip k u)" if k: "k < NDIRECT" "addr_of ip k u \<noteq> 0" for k
  proof (cases "k = j")
    case True
    then show ?thesis using a t(3) iu inv(4) D(8) ad [OF k(1)] i by (auto simp: data_block_def)
  next
    case False
    then show ?thesis using D(10) [OF k(1)] k t(3) iu ad [OF k(1)] i by (simp add: data_block_def)
  qed
  moreover have "addrs_distinct (i_addrs (inode_at ip u))"
    unfolding addrs_distinct_def
  proof (intro allI impI)
    fix k l
    assume "k < NDIRECT" "l < NDIRECT" "addr_of ip k u = addr_of ip l u \<and> addr_of ip k u \<noteq> 0"
    then show "k = l" using ad [of k] ad [of l] ne [of k] ne [of l] D(11) [of k l] by (auto split: if_splits)
  qed
  moreover have "bitmap_ok u" using t(1,2) iu f by (simp add: bitmap_ok_def fs_frame_def)
  ultimately show "file_inv ip u" using D(1-4,6-9) iu i fr unfolding file_inv_def iblock_ok_def by simp
  show "fbyte ip u p = fbyte ip s p" if "p < NDIRECT * BSIZE"
  proof -
    have d: "p div BSIZE < NDIRECT" using that by (simp add: less_mult_imp_div_less)
    have "p mod BSIZE < BSIZE" by (simp add: BSIZE_def)
    then show ?thesis using ad [OF d] inv(3) a0 t(4,5) ne [OF d] D(10) [OF d] iu(3) by (auto simp: fbyte_def data_block_def)
  qed
qed

definition file_step :: "nat \<Rightarrow> 'a inodes_scheme \<Rightarrow> 'a inodes_scheme \<Rightarrow> bool" where
  "file_step ip s t \<longleftrightarrow> sb t = sb s \<and> log_region t = log_region s \<and> curproc t = curproc s
     \<and> (\<forall>k. slocks t (InodeLock k) = slocks s (InodeLock k))
     \<and> (\<exists>as. icache t = (icache s)[ip := (inode_at ip s)\<lparr>i_addrs := as\<rparr>])
     \<and> (\<forall>j < NDIRECT. addr_of ip j s \<noteq> 0 \<longrightarrow> addr_of ip j t = addr_of ip j s)"

lemma file_step_refl: "file_step ip s s"
  unfolding file_step_def by (metis inode.surjective inode.update_convs(10) list_update_id)

lemma file_step_trans:
  assumes "file_step ip s t" "file_step ip t u" "ip < length (icache s)"
  shows "file_step ip s u"
proof -
  obtain as bs where i: "icache t = (icache s)[ip := (inode_at ip s)\<lparr>i_addrs := as\<rparr>]"
    "icache u = (icache t)[ip := (inode_at ip t)\<lparr>i_addrs := bs\<rparr>]"
    using assms(1,2) by (auto simp: file_step_def)
  then have "icache u = (icache s)[ip := (inode_at ip s)\<lparr>i_addrs := bs\<rparr>]" using assms(3) by simp
  moreover have "addr_of ip j u = addr_of ip j s" if "j < NDIRECT" "addr_of ip j s \<noteq> 0" for j
    using assms(1,2) that by (simp add: file_step_def)
  ultimately show ?thesis using assms(1,2) unfolding file_step_def by auto
qed

lemma file_step_sel:
  assumes "file_step ip s t" "ip < length (icache s)"
  shows "i_size (inode_at ip t) = i_size (inode_at ip s)" "i_type (inode_at ip t) = i_type (inode_at ip s)"
    "i_dev (inode_at ip t) = i_dev (inode_at ip s)" "i_inum (inode_at ip t) = i_inum (inode_at ip s)"
    "i_ref (inode_at ip t) = i_ref (inode_at ip s)" "length (icache t) = length (icache s)" "k \<noteq> ip \<Longrightarrow> inode_at k t = inode_at k s"
  using assms by (auto simp: file_step_def)

lemma fs_frame_step: "fs_frame s t \<Longrightarrow> file_step ip s t"
  using fs_frame_sel [of s t] file_step_refl [of ip s] by (simp add: file_step_def fs_frame_def)

lemma bmap_direct:
  assumes "in_txn (Suc (Suc k)) s" "file_inv ip s" "unat bn < NDIRECT" "addr_of ip (unat bn) s \<noteq> 0 \<or> free_blocks s \<noteq> {}"
  shows "\<exists>a t. bmap ip bn s = Inr (a, t) \<and> in_txn k t \<and> file_inv ip t \<and> a = addr_of ip (unat bn) t \<and> a \<noteq> 0
    \<and> card (free_blocks s) \<le> Suc (card (free_blocks t)) \<and> (\<forall>p < NDIRECT * BSIZE. fbyte ip t p = fbyte ip s p) \<and> file_step ip s t"
proof (cases "addr_of ip (unat bn) s = 0")
  case False
  then have "bmap ip bn s = Inr (addr_of ip (unat bn) s, s)" using assms(3) by (simp add: bmap_def Let_def)
  then show ?thesis using False assms(2) in_txn_mono [OF assms(1), of k] file_step_refl [of ip s] by auto
next
  case True
  note D = file_invD [OF assms(2)]
  have "\<exists>b < sb_size (sb s). \<not> block_used b s" using assms(4) True by (auto simp: free_blocks_def)
  from balloc_alloc [OF assms(1) D(5) this] obtain a t where
    t: "balloc 1 s = Inr (a, t)" "a < sb_size (sb s)" "\<not> block_used a s"
    "in_txn k t" "fs_frame s t" "blk t a = replicate BSIZE 0" "\<forall>n. n \<noteq> a \<and> n \<noteq> sb_bmapstart (sb s) \<longrightarrow> blk t n = blk s n"
    "bitmap_ok t" "\<forall>c < sb_size (sb s). block_used c t \<longleftrightarrow> block_used c s \<or> c = a" by blast
  let ?u = "upd_inode ip (\<lambda>i. i\<lparr>i_addrs := (i_addrs i)[unat bn := a]\<rparr>) t"
  have a: "a \<in> free_blocks s" using t(2,3) by (simp add: free_blocks_def)
  note A = file_inv_alloc [OF assms(2,3) True a t(5,8,9,6,7)]
  note f = fs_frame_sel [OF t(5)]
  have u: "bmap ip bn s = Inr (a, ?u)" using assms(3) True t(1) D(2) by (simp add: bmap_def Let_def)
  have "in_txn k ?u" by (rule inertD(6) [OF inert_ops(1) t(4)])
  moreover have "addr_of ip (unat bn) ?u = a" using D(1,4) assms(3) f by simp
  moreover have "card (free_blocks s) \<le> Suc (card (free_blocks ?u))" using A(2) a by (simp add: card_Diff_singleton_if)
  moreover have "(i_addrs (inode_at ip s))[unat bn := a] ! j = addr_of ip j s" if "addr_of ip j s \<noteq> 0" for j
    using that True by (cases "j = unat bn") auto
  then have "file_step ip s ?u"
    using t(5) f D(1) True inertD(5,7) [OF inert_ops(1), of ip _ t] unfolding file_step_def fs_frame_def
    by (auto simp: upd_inode_def nth_list_update)
  ultimately show ?thesis using u A by auto
qed

lemma write_chunk:
  assumes "in_txn (Suc (Suc (Suc k))) s" "file_inv ip s" "unat bn < NDIRECT" "addr_of ip (unat bn) s \<noteq> 0 \<or> free_blocks s \<noteq> {}"
    "off + length xs \<le> BSIZE"
  shows "\<exists>a t b t1 u v. bmap ip bn s = Inr (a, t) \<and> bread (i_dev (inode_at ip t)) a t = Inr (b, t1)
    \<and> log_write b (set_data b (splice_at (buf_data b t1) off xs) t1) = Inr u \<and> brelse b u = Inr v
    \<and> in_txn k v \<and> file_inv ip v \<and> file_step ip s v \<and> card (free_blocks s) \<le> Suc (card (free_blocks v)) \<and> addr_of ip (unat bn) v \<noteq> 0
    \<and> (\<forall>p < NDIRECT * BSIZE. fbyte ip v p = (if unat bn * BSIZE + off \<le> p \<and> p < unat bn * BSIZE + off + length xs
         then xs ! (p - (unat bn * BSIZE + off)) else fbyte ip s p))"
proof -
  from bmap_direct [OF assms(1-4)] obtain a t where t: "bmap ip bn s = Inr (a, t)" "in_txn (Suc k) t" "file_inv ip t" "a = addr_of ip (unat bn) t" "a \<noteq> 0"
    "card (free_blocks s) \<le> Suc (card (free_blocks t))" "\<forall>p < NDIRECT * BSIZE. fbyte ip t p = fbyte ip s p" "file_step ip s t" by blast
  note D = file_invD [OF t(3)]
  have a: "a < sb_size (sb t)" "a \<notin> log_region t" "a \<noteq> sb_bmapstart (sb t)" using D(10) [OF assms(3)] t(4,5) by (auto simp: data_block_def)
  have "a < FSSIZE" by (rule small_block(4) [OF D(5) a(1)])
  from txn_write [OF t(2) this a(2)] obtain b t1 where t1: "bread 1 a t = Inr (b, t1)" "buf_data b t1 = blk t a"
    and w: "\<forall>d. length d = BSIZE \<longrightarrow> (\<exists>u v. log_write b (set_data b d t1) = Inr u \<and> brelse b u = Inr v \<and> in_txn k v
         \<and> blk v = (blk t)(a := d) \<and> fs_frame t v)" by blast
  have l: "length (blk t a) = BSIZE" using t(2) bc.len [of t a] by (simp add: in_txn_def log_inv_def)
  let ?d = "splice_at (blk t a) off xs"
  have "length ?d = BSIZE" using l assms(5) by simp
  with w obtain u v where v: "log_write b (set_data b ?d t1) = Inr u" "brelse b u = Inr v" "in_txn k v" "blk v = (blk t)(a := ?d)" "fs_frame t v"
    by blast
  note f = fs_frame_sel [OF v(5)]
  have "BBLOCK c (sb t) \<noteq> a" if "c < sb_size (sb t)" for c using small_block(3) [OF D(5) that] a(3) by simp
  then have inv: "file_inv ip v" "free_blocks v = free_blocks t"
    using file_inv_cong [OF t(3), of v] v(4,5) f by (auto simp: block_used_def fs_frame_def)
  have "fbyte ip v p = (if unat bn * BSIZE + off \<le> p \<and> p < unat bn * BSIZE + off + length xs
         then xs ! (p - (unat bn * BSIZE + off)) else fbyte ip s p)" if p: "p < NDIRECT * BSIZE" for p
  proof -
    have d: "p div BSIZE < NDIRECT" using p by (simp add: less_mult_imp_div_less)
    have m: "p mod BSIZE < BSIZE" by (simp add: BSIZE_def)
    have e: "p = p div BSIZE * BSIZE + p mod BSIZE" by simp
    show ?thesis
    proof (cases "p div BSIZE = unat bn")
      case True
      then have q: "p = unat bn * BSIZE + p mod BSIZE" using e by simp
      have "fbyte ip v p = ?d ! (p mod BSIZE)" using True t(4,5) v(4) f by (simp add: fbyte_def)
      moreover have "fbyte ip s p = blk t a ! (p mod BSIZE)" using True t(4,5,7) p by (auto simp: fbyte_def)
      moreover have "p - (unat bn * BSIZE + off) = p mod BSIZE - off" using q by linarith
      moreover have "unat bn * BSIZE + off \<le> p \<and> p < unat bn * BSIZE + off + length xs \<longleftrightarrow> off \<le> p mod BSIZE \<and> p mod BSIZE < off + length xs"
        using q by linarith
      ultimately show ?thesis
        using nth_splice_at [of off xs "blk t a" "p mod BSIZE"] l m assms(5) by simp
    next
      case False
      then have "\<not> (unat bn * BSIZE + off \<le> p \<and> p < unat bn * BSIZE + off + length xs)"
        using assms(5) div_nat_eqI [of BSIZE "unat bn" p] by (auto simp: algebra_simps)
      moreover have "addr_of ip (p div BSIZE) t \<noteq> a \<or> addr_of ip (p div BSIZE) t = 0"
        using D(11) [OF d assms(3)] False t(4) by auto
      ultimately show ?thesis using t(5,7) p v(4) f by (auto simp: fbyte_def)
    qed
  qed
  then show ?thesis
    using t(1,5) D(2) t1 v(1-3) inv t(4,6) f file_step_trans [OF t(8) fs_frame_step [OF v(5)]] file_invD(1) [OF assms(2)] by auto
qed

text \<open>The blocks that the bytes from \<open>p\<close> to \<open>q\<close> are in, and the part that lies in the first of them.\<close>

definition nblk :: "nat \<Rightarrow> nat \<Rightarrow> nat" where
  "nblk p q = (if p < q then (q - 1) div BSIZE - p div BSIZE + 1 else 0)"

definition chunk :: "nat \<Rightarrow> nat \<Rightarrow> nat" where
  "chunk p q = min (q - p) (BSIZE - p mod BSIZE)"

lemma chunk_bounds:
  assumes "p < q"
  shows "0 < chunk p q" "p + chunk p q \<le> q" "p mod BSIZE + chunk p q \<le> BSIZE" "p div BSIZE * BSIZE + p mod BSIZE = p"
    "nblk p q = Suc (nblk (p + chunk p q) q)" "p \<le> x \<Longrightarrow> x < p + chunk p q \<Longrightarrow> x div BSIZE = p div BSIZE"
proof -
  have m: "p mod BSIZE < BSIZE" by (simp add: BSIZE_def)
  show "0 < chunk p q" "p + chunk p q \<le> q" "p mod BSIZE + chunk p q \<le> BSIZE" using assms m by (auto simp: chunk_def)
  show e: "p div BSIZE * BSIZE + p mod BSIZE = p" by simp
  show d: "x div BSIZE = p div BSIZE" if "p \<le> x" "x < p + chunk p q" for x
  proof -
    have "chunk p q \<le> BSIZE - p mod BSIZE" by (simp add: chunk_def)
    then have "p div BSIZE * BSIZE \<le> x" "x < p div BSIZE * BSIZE + BSIZE" using that e m by linarith+
    then show ?thesis using div_nat_eqI [of BSIZE "p div BSIZE" x] by (simp add: mult.commute)
  qed
  show "nblk p q = Suc (nblk (p + chunk p q) q)"
  proof (cases "q - p \<le> BSIZE - p mod BSIZE")
    case True
    then have c: "chunk p q = q - p" by (simp add: chunk_def)
    then have "(q - 1) div BSIZE = p div BSIZE" using d [of "q - 1"] assms by simp
    then show ?thesis using c assms by (simp add: nblk_def)
  next
    case False
    then have "chunk p q = BSIZE - p mod BSIZE" by (simp add: chunk_def)
    moreover have "Suc (p div BSIZE) * BSIZE = p div BSIZE * BSIZE + BSIZE" by simp
    ultimately have c: "p + chunk p q = Suc (p div BSIZE) * BSIZE" using e m by linarith
    then have "(p + chunk p q) div BSIZE = Suc (p div BSIZE)" by (simp add: BSIZE_def)
    moreover have l: "p + chunk p q < q" using False by (simp add: chunk_def)
    then have "Suc (p div BSIZE) \<le> (q - 1) div BSIZE" using calculation div_le_mono [of "p + chunk p q" "q - 1" BSIZE] by simp
    ultimately show ?thesis using assms l by (simp add: nblk_def)
  qed
qed

lemma chunk_words:
  fixes tot off n :: u32
  assumes "tot < n" "unat off + (unat n - unat tot) \<le> NDIRECT * BSIZE"
  defines "m \<equiv> min (n - tot) (word_of_nat BSIZE - off mod word_of_nat BSIZE)"
  shows "unat (off div word_of_nat BSIZE) = unat off div BSIZE" "unat (off mod word_of_nat BSIZE) = unat off mod BSIZE"
    "unat m = chunk (unat off) (unat off + (unat n - unat tot))" "unat (tot + m) = unat tot + unat m" "unat (off + m) = unat off + unat m"
    "tot + m \<le> n" "0 < unat m"
proof -
  have b: "unat (word_of_nat BSIZE :: u32) = BSIZE" by (simp add: BSIZE_def)
  show d: "unat (off div word_of_nat BSIZE) = unat off div BSIZE" "unat (off mod word_of_nat BSIZE) = unat off mod BSIZE"
    by (simp_all add: unat_div unat_mod b)
  have t: "unat tot < unat n" using assms(1) by (simp add: word_less_nat_alt)
  have "unat off mod BSIZE < BSIZE" by (simp add: BSIZE_def)
  then have "unat (word_of_nat BSIZE - off mod word_of_nat BSIZE) = BSIZE - unat off mod BSIZE"
    using unat_sub [of "off mod word_of_nat BSIZE" "word_of_nat BSIZE"] d(2) b by (simp add: word_le_nat_alt)
  moreover have "unat (n - tot) = unat n - unat tot" using unat_sub [of tot n] t by (simp add: word_le_nat_alt)
  ultimately show m: "unat m = chunk (unat off) (unat off + (unat n - unat tot))"
    by (auto simp: m_def chunk_def min_def word_le_nat_alt)
  then show z: "0 < unat m" using chunk_bounds(1) t by simp
  have le: "unat m \<le> unat n - unat tot" using m by (simp add: chunk_def)
  have "unat tot + unat m < 4294967296" using le t unat_u32_less [of n] by linarith
  then show s: "unat (tot + m) = unat tot + unat m" by (simp add: unat_word_ariths)
  have "unat off + unat m < 2 ^ 32" using le assms(2) by (simp add: NDIRECT_def BSIZE_def)
  then show "unat (off + m) = unat off + unat m" by (simp add: unat_word_ariths)
  show "tot + m \<le> n" using s le t by (simp add: word_le_nat_alt)
qed

text \<open>One turn of the loop of writei, with \<open>q\<close> the end of the range to be written.\<close>

lemma writei_step_ok:
  fixes tot off n :: u32
  assumes "in_txn (3 * nblk (unat off) q + k) s" "file_inv ip s" "q = unat off + (unat n - unat tot)" "q \<le> NDIRECT * BSIZE"
    "tot < n" "unat n \<le> length src" "nblk (unat off) q \<le> card (free_blocks s)"
  shows "\<exists>m v. writei_step ip src n (tot, off, s) = Inr (Inr (tot + m, off + m, v) :: 'r + _)
    \<and> unat (tot + m) = unat tot + unat m \<and> unat (off + m) = unat off + unat m \<and> tot + m \<le> n \<and> 0 < unat m
    \<and> in_txn (3 * nblk (unat (off + m)) q + k) v \<and> file_inv ip v \<and> file_step ip s v \<and> nblk (unat (off + m)) q \<le> card (free_blocks v)
    \<and> (\<forall>p < NDIRECT * BSIZE. fbyte ip v p = (if unat off \<le> p \<and> p < unat off + unat m then src ! (unat tot + (p - unat off)) else fbyte ip s p))
    \<and> (\<forall>p. unat off \<le> p \<and> p < unat off + unat m \<longrightarrow> p div BSIZE < NDIRECT \<and> addr_of ip (p div BSIZE) v \<noteq> 0)"
proof -
  define m where "m = min (n - tot) (word_of_nat BSIZE - off mod word_of_nat BSIZE)"
  note w = chunk_words [OF assms(5) assms(4) [unfolded assms(3)], folded m_def assms(3)]
  have pq: "unat off < q" using assms(3,5) by (simp add: word_less_nat_alt)
  note c = chunk_bounds [OF pq, folded w(3)]
  let ?xs = "slice src (unat tot) (unat m)"
  have T: "unat tot + unat m \<le> length src" using w(4,6) assms(6) by (simp add: word_le_nat_alt)
  then have xs: "length ?xs = unat m" by simp
  have bn: "unat (off div word_of_nat BSIZE) < NDIRECT" using w(1) pq assms(4) by (simp add: less_mult_imp_div_less)
  have "addr_of ip (unat (off div word_of_nat BSIZE)) s \<noteq> 0 \<or> free_blocks s \<noteq> {}" using assms(7) c(5) by auto
  moreover have "unat (off mod word_of_nat BSIZE) + length ?xs \<le> BSIZE" using w(2) xs c(3) by simp
  moreover have "in_txn (Suc (Suc (Suc (3 * nblk (unat (off + m)) q + k)))) s" using assms(1) c(5) w(5) by (simp add: numeral_3_eq_3)
  ultimately obtain a t b t1 u v where v: "bmap ip (off div word_of_nat BSIZE) s = Inr (a, t)" "bread (i_dev (inode_at ip t)) a t = Inr (b, t1)"
    "log_write b (set_data b (splice_at (buf_data b t1) (unat (off mod word_of_nat BSIZE)) ?xs) t1) = Inr u" "brelse b u = Inr v"
    "in_txn (3 * nblk (unat (off + m)) q + k) v" "file_inv ip v" "file_step ip s v" "card (free_blocks s) \<le> Suc (card (free_blocks v))"
    "addr_of ip (unat (off div word_of_nat BSIZE)) v \<noteq> 0"
    and f: "\<forall>p < NDIRECT * BSIZE. fbyte ip v p = (if unat (off div word_of_nat BSIZE) * BSIZE + unat (off mod word_of_nat BSIZE) \<le> p
        \<and> p < unat (off div word_of_nat BSIZE) * BSIZE + unat (off mod word_of_nat BSIZE) + length ?xs
      then ?xs ! (p - (unat (off div word_of_nat BSIZE) * BSIZE + unat (off mod word_of_nat BSIZE))) else fbyte ip s p)"
    using write_chunk [OF _ assms(2) bn] by blast
  have "writei_step ip src n (tot, off, s) = Inr (Inr (tot + m, off + m, v) :: 'r + _)"
    using v(1-4) by (simp add: writei_step_def Let_def flip: m_def)
  moreover have "nblk (unat (off + m)) q \<le> card (free_blocks v)" using assms(7) c(5) v(8) w(5) by simp
  moreover have "\<forall>p < NDIRECT * BSIZE. fbyte ip v p = (if unat off \<le> p \<and> p < unat off + unat m then src ! (unat tot + (p - unat off)) else fbyte ip s p)"
    using f T nth_slice [of _ "unat m" "unat tot" src] unfolding w(1,2) c(4) xs by auto
  moreover have "\<forall>p. unat off \<le> p \<and> p < unat off + unat m \<longrightarrow> p div BSIZE < NDIRECT \<and> addr_of ip (p div BSIZE) v \<noteq> 0"
  proof (intro allI impI)
    fix p
    assume "unat off \<le> p \<and> p < unat off + unat m"
    then have "p div BSIZE = unat (off div word_of_nat BSIZE)" unfolding w(1) using c(6) by blast
    then show "p div BSIZE < NDIRECT \<and> addr_of ip (p div BSIZE) v \<noteq> 0" using bn v(9) by simp
  qed
  ultimately show ?thesis
    using w(4-7) v(5-7) by (intro exI [of _ m] exI [of _ v] conjI)
qed

lemma writei_loop:
  fixes tot off n :: u32
  assumes "in_txn (3 * nblk (unat off) q + k) s" "file_inv ip s" "q = unat off + (unat n - unat tot)" "q \<le> NDIRECT * BSIZE"
    "tot \<le> n" "unat n \<le> length src" "nblk (unat off) q \<le> card (free_blocks s)" "unat n - unat tot \<le> fuel"
  shows "\<exists>t. loopE fuel (\<lambda>(tot, off, s). tot < n) (writei_step ip src n) (tot, off, s) = Inr (Inr (n, off + (n - tot), t) :: 'r + _)
    \<and> in_txn k t \<and> file_inv ip t \<and> file_step ip s t
    \<and> (\<forall>p < NDIRECT * BSIZE. fbyte ip t p = (if unat off \<le> p \<and> p < q then src ! (unat tot + (p - unat off)) else fbyte ip s p))
    \<and> (\<forall>p. unat off \<le> p \<and> p < q \<longrightarrow> addr_of ip (p div BSIZE) t \<noteq> 0)"
  using assms
proof (induction fuel arbitrary: tot off s)
  case 0
  then have "tot = n" by (simp add: word_le_nat_alt word_unat_eq_iff)
  then show ?case using "0.prems" file_step_refl [of ip s] by (auto simp: nblk_def)
next
  case (Suc fuel)
  show ?case
  proof (cases "tot = n")
    case True
    then show ?thesis using Suc.prems file_step_refl [of ip s] by (auto simp: nblk_def)
  next
    case False
    then have lt: "tot < n" using Suc.prems(5) by simp
    from writei_step_ok [OF Suc.prems(1-4) lt Suc.prems(6,7)] obtain m v where
      st: "writei_step ip src n (tot, off, s) = Inr (Inr (tot + m, off + m, v) :: 'r + _)"
      and w: "unat (tot + m) = unat tot + unat m" "unat (off + m) = unat off + unat m" "tot + m \<le> n" "0 < unat m"
      and v: "in_txn (3 * nblk (unat (off + m)) q + k) v" "file_inv ip v" "file_step ip s v" "nblk (unat (off + m)) q \<le> card (free_blocks v)"
      "\<forall>p < NDIRECT * BSIZE. fbyte ip v p = (if unat off \<le> p \<and> p < unat off + unat m then src ! (unat tot + (p - unat off)) else fbyte ip s p)"
      "\<forall>p. unat off \<le> p \<and> p < unat off + unat m \<longrightarrow> p div BSIZE < NDIRECT \<and> addr_of ip (p div BSIZE) v \<noteq> 0" by blast
    have T: "unat tot + unat m \<le> unat n" using w(1,3) by (simp add: word_le_nat_alt)
    have q: "q = unat (off + m) + (unat n - unat (tot + m))" using Suc.prems(3) w(1,2) T by simp
    have "unat n - unat (tot + m) \<le> fuel" using Suc.prems(8) w(1,4) T by simp
    from Suc.IH [OF v(1,2) q Suc.prems(4) w(3) Suc.prems(6) v(4) this] obtain x where
      x: "loopE fuel (\<lambda>(tot, off, s). tot < n) (writei_step ip src n) (tot + m, off + m, v) = Inr (Inr (n, off + m + (n - (tot + m)), x) :: 'r + _)"
      "in_txn k x" "file_inv ip x" "file_step ip v x"
      "\<forall>p < NDIRECT * BSIZE. fbyte ip x p = (if unat (off + m) \<le> p \<and> p < q then src ! (unat (tot + m) + (p - unat (off + m))) else fbyte ip v p)"
      "\<forall>p. unat (off + m) \<le> p \<and> p < q \<longrightarrow> addr_of ip (p div BSIZE) x \<noteq> 0" by blast
    have "fbyte ip x p = (if unat off \<le> p \<and> p < q then src ! (unat tot + (p - unat off)) else fbyte ip s p)" if "p < NDIRECT * BSIZE" for p
      using x(5) v(5) that w(1,2) T Suc.prems(3) by (cases "unat off + unat m \<le> p") auto
    moreover have "addr_of ip (p div BSIZE) x \<noteq> 0" if "unat off \<le> p" "p < q" for p
      using x(4,6) v(6) that w(2) by (cases "unat off + unat m \<le> p") (auto simp: file_step_def)
    moreover have "file_step ip s x" by (rule file_step_trans [OF v(3) x(4) file_invD(1) [OF Suc.prems(2)]])
    moreover have "loopE (Suc fuel) (\<lambda>(tot, off, s). tot < n) (writei_step ip src n) (tot, off, s) = Inr (Inr (n, off + (n - tot), x) :: 'r + _)"
      using lt st x(1) by simp
    ultimately show ?thesis using x(2,3) by blast
  qed
qed

text \<open>Setting the size and writing the inode back leaves the bytes of the file alone.\<close>

lemma set_size_spec:
  assumes "in_txn (Suc k) s" "file_inv ip s"
  shows "\<exists>t. iupdate ip (upd_inode ip (\<lambda>i. i\<lparr>i_size := z\<rparr>) s) = Inr t \<and> in_txn k t \<and> file_inv ip t
    \<and> (\<forall>p < NDIRECT * BSIZE. fbyte ip t p = fbyte ip s p) \<and> icache t = (icache s)[ip := (inode_at ip s)\<lparr>i_size := z\<rparr>]
    \<and> sb t = sb s \<and> log_region t = log_region s \<and> curproc t = curproc s \<and> (\<forall>k. slocks t (InodeLock k) = slocks s (InodeLock k))"
proof -
  let ?s = "upd_inode ip (\<lambda>i. i\<lparr>i_size := z\<rparr>) s"
  note D = file_invD [OF assms(2)]
  have iz: "inode_at ip ?s = (inode_at ip s)\<lparr>i_size := z\<rparr>" "length (icache ?s) = length (icache s)" using D(1) by simp_all
  note n = inertD [OF inert_ops(1) [of s ip "\<lambda>i. i\<lparr>i_size := z\<rparr>"]]
  have used: "block_used b ?s = block_used b s" for b using n(3) by (simp add: block_used_def)
  have f: "file_inv ip ?s" using file_inv_cong(1) [OF assms(2), of ?s] n(5) used iz by simp
  note E = file_invD [OF f]
  from iupdate_spec [OF n(6) [OF assms(1)], of ip] E(2,4,6) obtain t where t: "iupdate ip ?s = Inr t" "in_txn k t" "fs_frame ?s t"
    "\<forall>b. b \<noteq> IBLOCK (i_inum (inode_at ip s)) (sb s) \<longrightarrow> blk t b = blk s b" using iz n(3) by auto
  note g = fs_frame_sel [OF t(3)]
  have "BBLOCK c (sb s) \<noteq> IBLOCK (i_inum (inode_at ip s)) (sb s)" if "c < sb_size (sb s)" for c
    using small_block(3) [OF D(5) that] D(9) by simp
  then have "file_inv ip t" using file_inv_cong(1) [OF f, of t] t(3,4) g used n(3) by (simp add: fs_frame_def block_used_def)
  moreover have "fbyte ip t p = fbyte ip s p" if "p < NDIRECT * BSIZE" for p
  proof -
    have "p div BSIZE < NDIRECT" using that by (simp add: less_mult_imp_div_less)
    then show ?thesis using D(10) [of "p div BSIZE"] t(4) g iz by (auto simp: fbyte_def data_block_def)
  qed
  moreover have "slocks ?s = slocks s" "curproc ?s = curproc s" using n(7) by (simp_all add: upd_inode_def)
  ultimately show ?thesis using t(1-3) g n(5) by (simp add: fs_frame_def)
qed

lemma writei_spec:
  fixes off n :: u32 and s :: "'a inodes_scheme"
  assumes "in_txn (3 * nblk (unat off) q + Suc k) s" "file_inv ip s" "q = unat off + unat n" "q \<le> NDIRECT * BSIZE"
    "off \<le> i_size (inode_at ip s)" "unat n \<le> length src" "nblk (unat off) q \<le> card (free_blocks s)"
  shows "\<exists>t. writei ip src off n s = Inr (int (unat n), t) \<and> in_txn k t \<and> file_inv ip t
    \<and> i_size (inode_at ip t) = max (i_size (inode_at ip s)) (off + n)
    \<and> (\<forall>p < NDIRECT * BSIZE. fbyte ip t p = (if unat off \<le> p \<and> p < q then src ! (p - unat off) else fbyte ip s p))
    \<and> (\<forall>p. unat off \<le> p \<and> p < q \<longrightarrow> addr_of ip (p div BSIZE) t \<noteq> 0)
    \<and> (\<forall>j < NDIRECT. addr_of ip j s \<noteq> 0 \<longrightarrow> addr_of ip j t = addr_of ip j s) \<and> i_key (inode_at ip t) = i_key (inode_at ip s)"
proof -
  note D = file_invD [OF assms(2)]
  have small: "q < 2147483648" using assms(4) by (simp add: NDIRECT_def BSIZE_def)
  have e: "unat (off + n) = q" using assms(3) small by (simp add: unat_word_ariths)
  have sn: "sint n = int (unat n)" using assms(3) small by (intro sint_small) simp
  have g1: "\<not> off + n < off" using e assms(3) by (simp add: word_less_nat_alt)
  have g2: "\<not> word_of_nat (MAXFILE * BSIZE) < off + n" using e assms(4) by (simp add: word_less_nat_alt MAXFILE_def NDIRECT_def NINDIRECT_def BSIZE_def)
  from writei_loop [OF assms(1,2), of n 0 src "unat n", unfolded unat_0 add_0 diff_zero] obtain x where
    x: "loopE (unat n) (\<lambda>(tot, off, s). tot < n) (writei_step ip src n) (0, off, s) = Inr (Inr (n, off + n, x) :: int \<times> 'a inodes_scheme + _)"
    "in_txn (Suc k) x" "file_inv ip x" "file_step ip s x"
    "\<forall>p < NDIRECT * BSIZE. fbyte ip x p = (if unat off \<le> p \<and> p < q then src ! (p - unat off) else fbyte ip s p)"
    "\<forall>p. unat off \<le> p \<and> p < q \<longrightarrow> addr_of ip (p div BSIZE) x \<noteq> 0" using assms(3-7) by (auto cong: if_cong)
  note fs = file_step_sel [OF x(4) D(1)]
  have n0: "0 < n" if "i_size (inode_at ip s) < off + n" using that assms(5) g1 by (cases "n = 0") (auto simp: word_gt_0)
  have w: "writei ip src off n s = (if i_size (inode_at ip s) < off + n
      then bindE (iupdate ip (upd_inode ip (\<lambda>i. i\<lparr>i_size := off + n\<rparr>) x)) (\<lambda>s. Inr (int (unat n), s)) else Inr (int (unat n), x))"
    using D(3) assms(5) g1 g2 x(1) fs(1) sn n0 by (auto simp: writei_def)
  have keep: "\<forall>j < NDIRECT. addr_of ip j s \<noteq> 0 \<longrightarrow> addr_of ip j x = addr_of ip j s" using x(4) by (simp add: file_step_def)
  show ?thesis
  proof (cases "i_size (inode_at ip s) < off + n")
    case True
    from set_size_spec [OF x(2,3), of "off + n"] obtain t where
      t: "iupdate ip (upd_inode ip (\<lambda>i. i\<lparr>i_size := off + n\<rparr>) x) = Inr t" "in_txn k t" "file_inv ip t"
      "\<forall>p < NDIRECT * BSIZE. fbyte ip t p = fbyte ip x p" "icache t = (icache x)[ip := (inode_at ip x)\<lparr>i_size := off + n\<rparr>]" by blast
    have i: "inode_at ip t = (inode_at ip x)\<lparr>i_size := off + n\<rparr>" using t(5) D(1) fs(6) by simp
    have m: "max (i_size (inode_at ip s)) (off + n) = off + n" using True by simp
    have "writei ip src off n s = Inr (int (unat n), t)" using w True t(1) by simp
    then show ?thesis using t(2-4) i x(5,6) fs keep unfolding m by (intro exI [of _ t]) (simp add: i_key_def)
  next
    case False
    then have m: "max (i_size (inode_at ip s)) (off + n) = i_size (inode_at ip s)" by simp
    show ?thesis using False w x(3,5,6) in_txn_mono [OF x(2), of k] fs keep unfolding m by (intro exI [of _ x]) (simp add: i_key_def)
  qed
qed

lemma slice_fbyte:
  assumes "p < q" "addr_of ip (p div BSIZE) s \<noteq> 0" "length (blk s (addr_of ip (p div BSIZE) s)) = BSIZE"
  shows "slice (blk s (addr_of ip (p div BSIZE) s)) (p mod BSIZE) (chunk p q) = map (fbyte ip s) [p..<p + chunk p q]"
proof (rule nth_equalityI)
  note c = chunk_bounds [OF assms(1)]
  show "length (slice (blk s (addr_of ip (p div BSIZE) s)) (p mod BSIZE) (chunk p q)) = length (map (fbyte ip s) [p..<p + chunk p q])"
    using c(3) assms(3) by simp
  fix i
  assume "i < length (slice (blk s (addr_of ip (p div BSIZE) s)) (p mod BSIZE) (chunk p q))"
  then have i: "i < chunk p q" using c(3) assms(3) by simp
  have d: "(p + i) div BSIZE = p div BSIZE" using c(6) [of "p + i"] i by simp
  have "p div BSIZE * BSIZE + (p + i) mod BSIZE = p + i" using div_mult_mod_eq [of "p + i" BSIZE] unfolding d .
  then have "(p + i) mod BSIZE = p mod BSIZE + i" using c(4) by linarith
  then show "slice (blk s (addr_of ip (p div BSIZE) s)) (p mod BSIZE) (chunk p q) ! i = map (fbyte ip s) [p..<p + chunk p q] ! i"
    using i d c(3) assms(2,3) by (simp add: nth_slice fbyte_def)
qed

lemma readi_step_ok:
  fixes tot off n :: u32
  assumes "in_txn k s" "file_inv ip s" "q = unat off + (unat n - unat tot)" "q \<le> NDIRECT * BSIZE" "tot < n"
    "\<forall>p. unat off \<le> p \<and> p < q \<longrightarrow> addr_of ip (p div BSIZE) s \<noteq> 0"
  shows "\<exists>m v. readi_step ip n (tot, off, bs, s) = Inr (Inr (tot + m, off + m, bs @ map (fbyte ip s) [unat off..<unat (off + m)], v) :: 'r + _)
    \<and> unat (tot + m) = unat tot + unat m \<and> unat (off + m) = unat off + unat m \<and> tot + m \<le> n \<and> 0 < unat m
    \<and> in_txn k v \<and> fs_frame s v \<and> blk v = blk s"
proof -
  define m where "m = min (n - tot) (word_of_nat BSIZE - off mod word_of_nat BSIZE)"
  note w = chunk_words [OF assms(5) assms(4) [unfolded assms(3)], folded m_def assms(3)]
  have pq: "unat off < q" using assms(3,5) by (simp add: word_less_nat_alt)
  let ?j = "unat off div BSIZE" let ?a = "addr_of ip ?j s"
  have j: "?j < NDIRECT" using pq assms(4) by (simp add: less_mult_imp_div_less)
  have a: "?a \<noteq> 0" using assms(6) pq by simp
  note D = file_invD [OF assms(2)]
  have bm: "bmap ip (off div word_of_nat BSIZE) s = Inr (?a, s)" using j a w(1) by (simp add: bmap_def Let_def)
  have "?a < FSSIZE" using D(10) [OF j a] small_block(4) [OF D(5)] by (simp add: data_block_def)
  from txn_read [OF assms(1) this] obtain b t where t: "bread 1 ?a s = Inr (b, t)" "buf_data b t = blk s ?a" "fs_frame s t"
    and r: "\<forall>t'. inert t t' \<longrightarrow> (\<exists>u. brelse b t' = Inr u \<and> in_txn k u \<and> blk u = blk s \<and> fs_frame t' u)" by blast
  from r inert_refl obtain v where v: "brelse b t = Inr v" "in_txn k v" "blk v = blk s" "fs_frame t v" by blast
  have l: "length (blk s ?a) = BSIZE" using assms(1) bc.len [of s ?a] by (simp add: in_txn_def log_inv_def)
  have "readi_step ip n (tot, off, bs, s) = Inr (Inr (tot + m, off + m, bs @ map (fbyte ip s) [unat off..<unat (off + m)], v) :: 'r + _)"
    using bm D(2) t(1,2) v(1) slice_fbyte [OF pq a l] w(2,3,5) by (simp add: readi_step_def Let_def flip: m_def)
  then show ?thesis using w(4-7) v(2,3) fs_frame_trans [OF t(3) v(4)] by blast
qed

lemma readi_loop:
  fixes tot off n :: u32
  assumes "in_txn k s" "file_inv ip s" "q = unat off + (unat n - unat tot)" "q \<le> NDIRECT * BSIZE" "tot \<le> n"
    "\<forall>p. unat off \<le> p \<and> p < q \<longrightarrow> addr_of ip (p div BSIZE) s \<noteq> 0" "unat n - unat tot \<le> fuel"
  shows "\<exists>t. loopE fuel (\<lambda>(tot, off, bs, s). tot < n) (readi_step ip n) (tot, off, bs, s)
      = Inr (Inr (n, off + (n - tot), bs @ map (fbyte ip s) [unat off..<q], t) :: 'r + _)
    \<and> in_txn k t \<and> fs_frame s t \<and> blk t = blk s"
  using assms
proof (induction fuel arbitrary: tot off bs s)
  case 0
  then have "tot = n" by (simp add: word_le_nat_alt word_unat_eq_iff)
  then show ?case using "0.prems" by auto
next
  case (Suc fuel)
  show ?case
  proof (cases "tot = n")
    case True
    then show ?thesis using Suc.prems by auto
  next
    case False
    then have lt: "tot < n" using Suc.prems(5) by simp
    from readi_step_ok [OF Suc.prems(1-4) lt Suc.prems(6), of bs] obtain m v where
      st: "readi_step ip n (tot, off, bs, s) = Inr (Inr (tot + m, off + m, bs @ map (fbyte ip s) [unat off..<unat (off + m)], v) :: 'r + _)"
      and w: "unat (tot + m) = unat tot + unat m" "unat (off + m) = unat off + unat m" "tot + m \<le> n" "0 < unat m"
      and v: "in_txn k v" "fs_frame s v" "blk v = blk s" by blast
    note f = fs_frame_sel [OF v(2)]
    have T: "unat tot + unat m \<le> unat n" using w(1,3) by (simp add: word_le_nat_alt)
    have q: "q = unat (off + m) + (unat n - unat (tot + m))" using Suc.prems(3) w(1,2) T by simp
    have fv: "file_inv ip v" using file_inv_cong(1) [OF Suc.prems(2), of v] v f by (simp add: fs_frame_def block_used_def)
    have fb: "fbyte ip v = fbyte ip s" using v(3) f by (simp add: fbyte_def fun_eq_iff)
    have "unat n - unat (tot + m) \<le> fuel" using Suc.prems(7) w(1,4) T by simp
    moreover have "\<forall>p. unat (off + m) \<le> p \<and> p < q \<longrightarrow> addr_of ip (p div BSIZE) v \<noteq> 0" using Suc.prems(6) f w(2) by simp
    ultimately obtain x where x: "loopE fuel (\<lambda>(tot, off, bs, s). tot < n) (readi_step ip n)
        (tot + m, off + m, bs @ map (fbyte ip s) [unat off..<unat (off + m)], v)
      = Inr (Inr (n, off + m + (n - (tot + m)), (bs @ map (fbyte ip s) [unat off..<unat (off + m)]) @ map (fbyte ip s) [unat (off + m)..<q], x) :: 'r + _)"
      "in_txn k x" "fs_frame v x" "blk x = blk v"
      using Suc.IH [OF v(1) fv q Suc.prems(4) w(3), of "bs @ map (fbyte ip s) [unat off..<unat (off + m)]"] unfolding fb by blast
    have "[unat off..<unat (off + m)] @ [unat (off + m)..<q] = [unat off..<q]"
      using w(2) q upt_add_eq_append [of "unat off" "unat (off + m)" "q - unat (off + m)"] by simp
    then have "map (fbyte ip s) [unat off..<q] = map (fbyte ip s) [unat off..<unat (off + m)] @ map (fbyte ip s) [unat (off + m)..<q]"
      by (metis map_append)
    moreover have "loopE (Suc fuel) (\<lambda>(tot, off, bs, s). tot < n) (readi_step ip n) (tot, off, bs, s) = (loopE fuel (\<lambda>(tot, off, bs, s). tot < n)
        (readi_step ip n) (tot + m, off + m, bs @ map (fbyte ip s) [unat off..<unat (off + m)], v) :: ('r + _) result)"
      using lt st by simp
    ultimately have "loopE (Suc fuel) (\<lambda>(tot, off, bs, s). tot < n) (readi_step ip n) (tot, off, bs, s)
        = Inr (Inr (n, off + (n - tot), bs @ map (fbyte ip s) [unat off..<q], x) :: 'r + _)"
      unfolding x(1) by simp
    then show ?thesis using x(2) x(4) [unfolded v(3)] fs_frame_trans [OF v(2) x(3)] by blast
  qed
qed

lemma readi_spec:
  fixes off n :: u32 and s :: "'a inodes_scheme"
  assumes "in_txn k s" "file_inv ip s" "q = unat off + unat n" "q \<le> unat (i_size (inode_at ip s))" "q \<le> NDIRECT * BSIZE"
    "\<forall>p < q. addr_of ip (p div BSIZE) s \<noteq> 0"
  shows "\<exists>t. readi ip off n s = Inr ((int (unat n), map (fbyte ip s) [unat off..<q]), t) \<and> in_txn k t"
proof -
  note D = file_invD [OF assms(2)]
  have small: "q < 2147483648" using assms(5) by (simp add: NDIRECT_def BSIZE_def)
  have e: "unat (off + n) = q" using assms(3) small by (simp add: unat_word_ariths)
  have sn: "sint n = int (unat n)" using assms(3) small by (intro sint_small) simp
  have g: "\<not> i_size (inode_at ip s) < off" "\<not> off + n < off" "\<not> i_size (inode_at ip s) < off + n"
    using e assms(3,4) by (simp_all add: word_less_nat_alt)
  from readi_loop [OF assms(1,2), of q off n 0 "unat n" "[]"] obtain t where
    "loopE (unat n) (\<lambda>(tot, off, bs, s). tot < n) (readi_step ip n) (0, off, [], s)
      = Inr (Inr (n, off + n, map (fbyte ip s) [unat off..<q], t) :: (int \<times> u8 list) \<times> 'a inodes_scheme + _)" "in_txn k t"
    using assms(3,5,6) by auto
  then show ?thesis using D(3) g sn by (simp add: readi_def case_prod_beta' Let_def)
qed


lemma free_ex: "free_blocks (inodes_ex disk_ex ic) = {b. b < 1000 \<and> 59 \<le> unat b}"
  using used_ex by (auto simp: free_blocks_def inodes_ex_sel sb_ex_def)

lemma file_inv_ex: "file_inv 0 (inodes_ex disk_ex [inode_ex])"
proof -
  have "32 \<notin> log_region (logs_ex disk_ex)" using log_region_ex [of 32 disk_ex] by auto
  then show ?thesis
    using bitmap_ok_ex by (auto simp: file_inv_def inodes_ex_sel inode_ex_def T_FILE_def T_DEV_def NDIRECT_def iblock_ok_def IBLOCK_def
        IPB_def sb_ex_def FSSIZE_def inodes_ex_txn(3) [of 0] free_ex addrs_distinct_def)
qed


end
