(* ===== verification/Mkfs.thy ===== *)
theory Mkfs
  imports Bitmap Inode
begin

unbundle bit_operations_syntax

text \<open>
  The program that builds the file system image on the host (mkfs.c). The image is the list of its sectors. The host's lseek, write and
  open calls are taken to succeed, and a file to be copied is given by the parts that read returns; a read behind
  the end of the image and a failing assertion end the program, as they do in the code. A \<open>struct dinode\<close> is the
  disk part of the record \<open>inode\<close>.

  The main result is that the image is a file system that holds the given files: every file has an inode with its size and
  its contents, no block belongs to two files, and the bitmap marks exactly the blocks in use.
\<close>

section \<open>The program\<close>

definition NINODES :: nat where "NINODES = 200"
definition nbitmap :: nat where "nbitmap = unat FSSIZE div (BSIZE * 8) + 1"
definition ninodeblocks :: nat where "ninodeblocks = NINODES div unat IPB + 1"
definition nlog :: nat where "nlog = LOGSIZE"
definition nmeta :: nat where "nmeta = 2 + nlog + ninodeblocks + nbitmap"
definition nblocks :: nat where "nblocks = unat FSSIZE - nmeta"

record mkfs =
  m_img :: "u8 list list"
  m_freeinode :: u32
  m_freeblock :: u32

text \<open>The bytes of the number in Intel order, read as a number of the host, which is little-endian as well.\<close>

definition xshort :: "u16 \<Rightarrow> u16" where
  "xshort x = word16 [ucast x, ucast (drop_bit 8 x)]"

definition xint :: "u32 \<Rightarrow> u32" where
  "xint x = word32 [ucast x, ucast (drop_bit 8 x), ucast (drop_bit 16 x), ucast (drop_bit 24 x)]"

definition mk_sb :: superblock where
  "mk_sb = \<lparr>sb_size = xint FSSIZE, sb_nblocks = xint (of_nat nblocks), sb_ninodes = xint (of_nat NINODES),
     sb_nlog = xint (of_nat nlog), sb_logstart = xint 2, sb_inodestart = xint (of_nat (2 + nlog)),
     sb_bmapstart = xint (of_nat (2 + nlog + ninodeblocks))\<rparr>"

definition zeroes :: "u8 list" where
  "zeroes = replicate BSIZE 0"

text \<open>The sector at the offset \<open>sec * BSIZE\<close>, a product of unsigned ints.\<close>

definition sector :: "u32 \<Rightarrow> nat" where
  "sector sec = unat (sec * of_nat BSIZE) div BSIZE"

definition wsect :: "u32 \<Rightarrow> u8 list \<Rightarrow> mkfs \<Rightarrow> mkfs" where
  "wsect sec buf s =
    (let n = sector sec; im = m_img s @ replicate (Suc n - length (m_img s)) zeroes in s\<lparr>m_img := im[n := buf]\<rparr>)"

definition rsect :: "u32 \<Rightarrow> mkfs \<Rightarrow> u8 list result" where
  "rsect sec s =
    bindE (guardE (sector sec < length (m_img s)) (Panic ''read'')) (\<lambda>_. Inr (m_img s ! sector sec))"

definition dinode0 :: inode where
  "dinode0 = \<lparr>i_dev = 0, i_inum = 0, i_ref = 0, i_valid = False, i_type = 0, i_major = 0, i_minor = 0, i_nlink = 0,
     i_size = 0, i_addrs = replicate (NDIRECT + 1) 0\<rparr>"

definition winode :: "u32 \<Rightarrow> inode \<Rightarrow> mkfs \<Rightarrow> mkfs result" where
  "winode inum ip s =
    (let bn = IBLOCK inum mk_sb in
     bindE (rsect bn s) (\<lambda>buf. Inr (wsect bn (put_dinode buf (dinode_off inum) ip) s)))"

definition rinode :: "u32 \<Rightarrow> mkfs \<Rightarrow> inode result" where
  "rinode inum s =
    bindE (rsect (IBLOCK inum mk_sb) s) (\<lambda>buf. Inr (get_dinode buf (dinode_off inum) dinode0))"

definition mk_ialloc :: "u16 \<Rightarrow> mkfs \<Rightarrow> (u32 \<times> mkfs) result" where
  "mk_ialloc type s =
    (let inum = m_freeinode s; s = s\<lparr>m_freeinode := m_freeinode s + 1\<rparr> in
     bindE (winode inum (dinode0\<lparr>i_type := xshort type, i_nlink := xshort 1, i_size := xint 0\<rparr>) s) (\<lambda>s. Inr (inum, s)))"

definition mk_bitmap :: "nat \<Rightarrow> u8 list" where
  "mk_bitmap used = foldl (\<lambda>buf i. buf[i div 8 := buf ! (i div 8) OR bit_mask i]) (replicate BSIZE 0) [0..<used]"

definition mk_balloc :: "int \<Rightarrow> mkfs \<Rightarrow> mkfs result" where
  "mk_balloc used s =
    bindE (guardE (used < int (BSIZE * 8)) (Panic ''assert'')) (\<lambda>_.
    Inr (wsect (sb_bmapstart mk_sb) (mk_bitmap (nat used)) s))"

text \<open>\<open>if(xint(din.addrs[k]) == 0) din.addrs[k] = xint(freeblock++);\<close>\<close>

definition mk_addr :: "nat \<Rightarrow> inode \<Rightarrow> mkfs \<Rightarrow> inode \<times> mkfs" where
  "mk_addr k din s =
    (if xint (i_addrs din ! k) = 0
     then (din\<lparr>i_addrs := (i_addrs din)[k := xint (m_freeblock s)]\<rparr>, s\<lparr>m_freeblock := m_freeblock s + 1\<rparr>)
     else (din, s))"

text \<open>The block for the part \<open>fbn\<close> of the file: the number \<open>x\<close>.\<close>

definition mk_block :: "nat \<Rightarrow> inode \<Rightarrow> mkfs \<Rightarrow> (u32 \<times> inode \<times> mkfs) result" where
  "mk_block fbn din s =
    (if fbn < NDIRECT
     then let (din, s) = mk_addr fbn din s in Inr (xint (i_addrs din ! fbn), din, s)
     else
       let (din, s) = mk_addr NDIRECT din s; k = 4 * (fbn - NDIRECT) in
       bindE (rsect (xint (i_addrs din ! NDIRECT)) s) (\<lambda>indirect.
       if get32 indirect k = 0
       then
         let indirect = put32 indirect k (xint (m_freeblock s));
             s = wsect (xint (i_addrs din ! NDIRECT)) indirect (s\<lparr>m_freeblock := m_freeblock s + 1\<rparr>) in
         Inr (xint (get32 indirect k), din, s)
       else Inr (xint (get32 indirect k), din, s)))"

definition iappend_step ::
  "inode \<times> u32 \<times> u8 list \<times> mkfs \<Rightarrow> (unit + inode \<times> u32 \<times> u8 list \<times> mkfs) result"
where
  "iappend_step = (\<lambda>(din, off, p, s).
    let fbn = off div of_nat BSIZE in
    bindE (guardE (unat fbn < MAXFILE) (Panic ''assert'')) (\<lambda>_.
    bindE (mk_block (unat fbn) din s) (\<lambda>(x, din, s).
    let n1 = min (length p) (unat ((fbn + 1) * of_nat BSIZE - off)) in
    bindE (rsect x s) (\<lambda>buf.
    Inr (Inr (din, off + of_nat n1, drop n1 p,
      wsect x (splice_at buf (unat (off - fbn * of_nat BSIZE)) (take n1 p)) s))))))"

text \<open>Every round copies a byte at least.\<close>

definition iappend :: "u32 \<Rightarrow> u8 list \<Rightarrow> mkfs \<Rightarrow> mkfs result" where
  "iappend inum p s =
    bindE (rinode inum s) (\<lambda>din.
    bindE (loopE (length p) (\<lambda>(din, off, p, s). p \<noteq> []) iappend_step (din, xint (i_size din), p, s)) (\<lambda>r.
    case r of
      Inl _ \<Rightarrow> Inr s
    | Inr (din, off, p, s) \<Rightarrow> winode inum (din\<lparr>i_size := xint off\<rparr>) s))"

text \<open>A \<open>struct dirent\<close> that was zeroed, with a name copied by strcpy or strncpy.\<close>

definition dirent :: "u32 \<Rightarrow> u8 list \<Rightarrow> u8 list" where
  "dirent inum name = bytes16 (xshort (ucast inum)) @ take DIRSIZ (name @ replicate DIRSIZ 0)"

text \<open>The name in the directory: a leading underscore is skipped.\<close>

definition entry_name :: "u8 list \<Rightarrow> u8 list" where
  "entry_name name = (if name \<noteq> [] \<and> hd name = of_char (CHR ''_'') then tl name else name)"

text \<open>One file: its name and the parts that read returns.\<close>

definition mk_file :: "u32 \<Rightarrow> u8 list \<times> u8 list list \<Rightarrow> mkfs \<Rightarrow> mkfs result" where
  "mk_file rootino f s =
    bindE (guardE (of_char (CHR ''/'') \<notin> set (fst f)) (Panic ''assert'')) (\<lambda>_.
    bindE (mk_ialloc T_FILE s) (\<lambda>(inum, s).
    bindE (iappend rootino (dirent inum (entry_name (fst f))) s) (\<lambda>s.
    forE (iappend inum) (snd f) s)))"

definition mk_start :: mkfs where
  "mk_start =
    (let s = fold (\<lambda>i. wsect (of_nat i) zeroes) [0..<unat FSSIZE]
               \<lparr>m_img = [], m_freeinode = 1, m_freeblock = of_nat nmeta\<rparr> in
     wsect 1 (put32s zeroes 0 [sb_size mk_sb, sb_nblocks mk_sb, sb_ninodes mk_sb, sb_nlog mk_sb, sb_logstart mk_sb,
       sb_inodestart mk_sb, sb_bmapstart mk_sb]) s)"

text \<open>\<open>off = ((off/BSIZE) + 1) * BSIZE\<close> for the size of the root directory.\<close>

definition mk_finish :: "u32 \<Rightarrow> mkfs \<Rightarrow> mkfs result" where
  "mk_finish rootino s =
    bindE (rinode rootino s) (\<lambda>din.
    let off = (xint (i_size din) div of_nat BSIZE + 1) * of_nat BSIZE in
    bindE (winode rootino (din\<lparr>i_size := xint off\<rparr>) s) (\<lambda>s.
    mk_balloc (sint (m_freeblock s)) s))"

definition mkfs_main :: "(u8 list \<times> u8 list list) list \<Rightarrow> mkfs result" where
  "mkfs_main files =
    bindE (mk_ialloc T_DIR mk_start) (\<lambda>(rootino, s).
    bindE (guardE (rootino = ROOTINO) (Panic ''assert'')) (\<lambda>_.
    bindE (iappend rootino (dirent rootino (map of_char ''.'')) s) (\<lambda>s.
    bindE (iappend rootino (dirent rootino (map of_char ''..'')) s) (\<lambda>s.
    bindE (forE (mk_file rootino) files s) (\<lambda>s.
    mk_finish rootino s)))))"

section \<open>Sectors\<close>

lemma xint_id [simp]: "xint x = x"
  using word32_bytes32 [of x] by (simp add: xint_def bytes32_def)

lemma xshort_id [simp]: "xshort x = x"
  using word16_bytes16 [of x] by (simp add: xshort_def bytes16_def)

lemma sector_small: "unat b < 1000 \<Longrightarrow> sector b = unat b"
  by (simp add: sector_def BSIZE_def unat_word_ariths)

lemma wsect_small: "unat b < length (m_img s) \<Longrightarrow> unat b < 1000 \<Longrightarrow> wsect b d s = s\<lparr>m_img := (m_img s)[unat b := d]\<rparr>"
  by (simp add: wsect_def sector_small Let_def)

lemma rsect_small: "unat b < length (m_img s) \<Longrightarrow> unat b < 1000 \<Longrightarrow> rsect b s = Inr (m_img s ! unat b)"
  by (simp add: rsect_def sector_small guardE_def)

lemma get32_zeroes: "o' + 4 \<le> 512 \<Longrightarrow> get32 zeroes o' = 0"
  by (simp add: get32_def slice_def zeroes_def BSIZE_def word32_def)

section \<open>The blocks of the files\<close>

text \<open>
  Slot \<open>k\<close> of an inode: the data blocks 0 to 139 and, as slot 140, the indirect block. An address of 0 means that
  there is no block; a slot behind an indirect block that is not there reads as 0 too, because the boot block is zero.
\<close>

definition slot_addr :: "mkfs \<Rightarrow> inode \<Rightarrow> nat \<Rightarrow> u32" where
  "slot_addr s din k =
    (if k < 12 then i_addrs din ! k
     else if k = 140 then i_addrs din ! 12
     else get32 (m_img s ! unat (i_addrs din ! 12)) (4 * (k - 12)))"

definition img_ok :: "mkfs \<Rightarrow> bool" where
  "img_ok s \<longleftrightarrow> length (m_img s) = 1000 \<and> (\<forall>b < 1000. length (m_img s ! b) = 512) \<and> m_img s ! 0 = zeroes
     \<and> 59 \<le> unat (m_freeblock s) \<and> unat (m_freeblock s) \<le> 1000
     \<and> (\<forall>b. unat (m_freeblock s) \<le> b \<and> b < 1000 \<longrightarrow> m_img s ! b = zeroes)"

text \<open>
  \<open>S i\<close> are the slots of inode \<open>i\<close> that have a block, \<open>D i\<close> its fields. Every block in use belongs to one
  slot of one inode, and the blocks were handed out in their order.
\<close>

definition blocks_ok :: "(nat \<Rightarrow> inode) \<Rightarrow> (nat \<Rightarrow> nat set) \<Rightarrow> nat set \<Rightarrow> mkfs \<Rightarrow> bool" where
  "blocks_ok D S N s \<longleftrightarrow> img_ok s \<and> finite N
     \<and> (\<forall>i \<in> N. length (i_addrs (D i)) = 13 \<and> S i \<subseteq> {..140} \<and> (\<forall>k \<in> S i. 12 \<le> k \<longrightarrow> 140 \<in> S i))
     \<and> (\<forall>i \<in> N. \<forall>k \<le> 140. k \<notin> S i \<longrightarrow> slot_addr s (D i) k = 0)
     \<and> (\<forall>i \<in> N. \<forall>k \<in> S i. 59 \<le> unat (slot_addr s (D i) k) \<and> unat (slot_addr s (D i) k) < unat (m_freeblock s))
     \<and> inj_on (\<lambda>(i, k). slot_addr s (D i) k) (Sigma N S)
     \<and> unat (m_freeblock s) = 59 + (\<Sum>i \<in> N. card (S i))"

lemma blocks_okD:
  assumes "blocks_ok D S N s" "i \<in> N"
  shows "length (i_addrs (D i)) = 13" "S i \<subseteq> {..140}" "k \<in> S i \<Longrightarrow> 12 \<le> k \<Longrightarrow> 140 \<in> S i"
    "k \<le> 140 \<Longrightarrow> k \<notin> S i \<Longrightarrow> slot_addr s (D i) k = 0"
    "k \<in> S i \<Longrightarrow> 59 \<le> unat (slot_addr s (D i) k)" "k \<in> S i \<Longrightarrow> unat (slot_addr s (D i) k) < unat (m_freeblock s)"
    "k \<in> S i \<Longrightarrow> unat (slot_addr s (D i) k) < 1000"
    "finite (S i)"
proof -
  note b = assms(1) [unfolded blocks_ok_def]
  show "length (i_addrs (D i)) = 13" "S i \<subseteq> {..140}" "k \<in> S i \<Longrightarrow> 12 \<le> k \<Longrightarrow> 140 \<in> S i" using b assms(2) by blast+
  then show "finite (S i)" using finite_subset by blast
  show "k \<le> 140 \<Longrightarrow> k \<notin> S i \<Longrightarrow> slot_addr s (D i) k = 0" using b assms(2) by blast
  show "k \<in> S i \<Longrightarrow> 59 \<le> unat (slot_addr s (D i) k)"
    and l: "k \<in> S i \<Longrightarrow> unat (slot_addr s (D i) k) < unat (m_freeblock s)" using b assms(2) by blast+
  have "unat (m_freeblock s) \<le> 1000" using b by (simp add: img_ok_def)
  then show "k \<in> S i \<Longrightarrow> unat (slot_addr s (D i) k) < 1000" using l by linarith
qed

lemma slot_inj:
  assumes "blocks_ok D S N s" "i \<in> N" "k \<in> S i" "j \<in> N" "l \<in> S j" "slot_addr s (D i) k = slot_addr s (D j) l"
  shows "i = j \<and> k = l"
  using assms inj_onD [of "\<lambda>(i, k). slot_addr s (D i) k" "Sigma N S" "(i, k)" "(j, l)"] unfolding blocks_ok_def by auto

text \<open>The sector in which the addresses of the slots behind the indirect block are: 0 if there is none.\<close>

lemma indirect_other:
  assumes "blocks_ok D S N s" "i \<in> N" "j \<in> N" "k \<in> S j" "(j, k) \<noteq> (i, 140)"
  shows "i_addrs (D i) ! 12 \<noteq> slot_addr s (D j) k"
proof
  assume e: "i_addrs (D i) ! 12 = slot_addr s (D j) k"
  have a: "slot_addr s (D i) 140 = i_addrs (D i) ! 12" by (simp add: slot_addr_def)
  have "140 \<in> S i"
  proof (rule ccontr)
    assume "140 \<notin> S i"
    then have "i_addrs (D i) ! 12 = 0" using blocks_okD(4) [OF assms(1,2), of 140] a by simp
    then show False using blocks_okD(5) [OF assms(1,3,4)] e by simp
  qed
  then show False using slot_inj [OF assms(1,2) _ assms(3,4)] a e assms(5) by force
qed

lemma slot_addr_write:
  assumes "blocks_ok D S N s" "i \<in> N" "k \<in> S i" "k < 140" "j \<in> N"
  shows "slot_addr (s\<lparr>m_img := (m_img s)[unat (slot_addr s (D i) k) := d]\<rparr>) (D j) l = slot_addr s (D j) l"
proof -
  have "i_addrs (D j) ! 12 \<noteq> slot_addr s (D i) k" using indirect_other [OF assms(1,5,2,3)] assms(4) by simp
  then have "unat (i_addrs (D j) ! 12) \<noteq> unat (slot_addr s (D i) k)" by (metis word_unat_eq_iff)
  then show ?thesis by (simp add: slot_addr_def)
qed

lemma blocks_ok_cong:
  assumes "blocks_ok D S N s" "img_ok t" "m_freeblock t = m_freeblock s"
    and "\<And>j. j \<in> N \<Longrightarrow> length (i_addrs (D' j)) = 13" "\<And>j l. j \<in> N \<Longrightarrow> slot_addr t (D' j) l = slot_addr s (D j) l"
  shows "blocks_ok D' S N t"
proof -
  have "inj_on (\<lambda>(i, k). slot_addr t (D' i) k) (Sigma N S) = inj_on (\<lambda>(i, k). slot_addr s (D i) k) (Sigma N S)"
    by (rule inj_on_cong) (use assms(5) in auto)
  then show ?thesis using assms unfolding blocks_ok_def by (simp, metis)
qed

lemma img_ok_write:
  assumes "img_ok s" "length d = 512" "b \<noteq> 0" "b < unat (m_freeblock s)"
  shows "img_ok (s\<lparr>m_img := (m_img s)[b := d]\<rparr>)"
  using assms by (auto simp: img_ok_def nth_list_update)

lemma blocks_ok_write:
  assumes "blocks_ok D S N s" "i \<in> N" "k \<in> S i" "k < 140" "length d = 512"
  shows "blocks_ok D S N (s\<lparr>m_img := (m_img s)[unat (slot_addr s (D i) k) := d]\<rparr>)"
proof (rule blocks_ok_cong [OF assms(1)])
  show "img_ok (s\<lparr>m_img := (m_img s)[unat (slot_addr s (D i) k) := d]\<rparr>)"
    using blocks_okD(5,6) [OF assms(1-3)] assms(1,5) by (intro img_ok_write) (auto simp: blocks_ok_def)
  show "slot_addr (s\<lparr>m_img := (m_img s)[unat (slot_addr s (D i) k) := d]\<rparr>) (D j) l = slot_addr s (D j) l" if "j \<in> N" for j l
    by (rule slot_addr_write [OF assms(1-4) that])
qed (use blocks_okD(1) [OF assms(1)] in simp_all)

text \<open>A new block for slot \<open>k\<close> of inode \<open>i\<close>.\<close>

lemma blocks_ok_alloc:
  assumes ok: "blocks_ok D S N s" and i: "i \<in> N" "k \<le> 140" "k \<notin> S i" "12 \<le> k \<Longrightarrow> k \<noteq> 140 \<Longrightarrow> 140 \<in> S i"
    and t: "img_ok t" "m_freeblock t = m_freeblock s + 1" "unat (m_freeblock s) < 1000"
    and len: "\<And>j. j \<in> N \<Longrightarrow> length (i_addrs (D' j)) = 13"
    and addr: "\<And>j l. j \<in> N \<Longrightarrow> l \<le> 140 \<Longrightarrow>
      slot_addr t (D' j) l = (if j = i \<and> l = k then m_freeblock s else slot_addr s (D j) l)"
  shows "blocks_ok D' (S(i := insert k (S i))) N t"
proof -
  let ?S = "S(i := insert k (S i))"
  have fb: "unat (m_freeblock t) = Suc (unat (m_freeblock s))" using t(2,3) by (simp add: unat_word_ariths)
  have old: "59 \<le> unat (m_freeblock s)" "finite N" "unat (m_freeblock s) = 59 + (\<Sum>i \<in> N. card (S i))"
    using ok by (auto simp: blocks_ok_def img_ok_def)
  note d = blocks_okD [OF ok]
  have sub: "j \<in> N \<Longrightarrow> l \<in> S j \<Longrightarrow> l \<le> 140" for j l using d(2) by blast
  have "unat (m_freeblock t) = 59 + (\<Sum>i \<in> N. card (?S i))"
    using old(3) fb i(3) d(8) [OF i(1)] sum.remove [OF old(2) i(1), of "\<lambda>i. card (S i)"]
      sum.remove [OF old(2) i(1), of "\<lambda>j. card (?S j)"] by simp
  moreover have "inj_on (\<lambda>(j, l). slot_addr t (D' j) l) (Sigma N ?S)"
  proof (rule inj_onI, clarify)
    fix a l b m
    assume a: "a \<in> N" "l \<in> ?S a" and b: "b \<in> N" "m \<in> ?S b" and e: "slot_addr t (D' a) l = slot_addr t (D' b) m"
    have c: "c \<in> N \<Longrightarrow> q \<in> ?S c \<Longrightarrow> (c = i \<and> q = k) \<or> q \<in> S c \<and> slot_addr t (D' c) q = slot_addr s (D c) q
        \<and> slot_addr s (D c) q \<noteq> m_freeblock s" for c q
      using addr [of c q] sub [of c q] d(6) [of c q] i(3) by (auto split: if_splits)
    show "a = b \<and> l = m"
      using c [OF a] c [OF b] e addr [OF i(1,2)] slot_inj [OF ok a(1) _ b(1), of l m] by auto
  qed
  moreover have "slot_addr t (D' j) l = 0" if "j \<in> N" "l \<le> 140" "l \<notin> ?S j" for j l
    using addr [OF that(1,2)] d(4) [of j l] that by (auto split: if_splits)
  moreover have "59 \<le> unat (slot_addr t (D' j) l) \<and> unat (slot_addr t (D' j) l) < unat (m_freeblock t)"
    if j: "j \<in> N" "l \<in> ?S j" for j l
  proof (cases "j = i \<and> l = k")
    case True
    then show ?thesis using addr [of i k] i old fb by simp
  next
    case False
    then have "l \<in> S j" using j by (auto split: if_splits)
    then show ?thesis using addr [OF j(1) sub [OF j(1)]] d(5,6) [OF j(1)] False fb by fastforce
  qed
  moreover have "?S j \<subseteq> {..140} \<and> (\<forall>l \<in> ?S j. 12 \<le> l \<longrightarrow> 140 \<in> ?S j)" if "j \<in> N" for j
    using d(2,3) [OF that] i(2,4) by (auto simp: subset_iff)
  ultimately show ?thesis using t(1) old(2) len by (simp add: blocks_ok_def del: fun_upd_apply)
qed

text \<open>
  \<open>kept\<close>: from \<open>s\<close> to \<open>t\<close> the slots in use keep their blocks, the data blocks keep their contents, and nothing is written before
  the data area.
\<close>

definition kept :: "(nat \<Rightarrow> inode) \<Rightarrow> (nat \<Rightarrow> nat set) \<Rightarrow> nat set \<Rightarrow> mkfs \<Rightarrow> (nat \<Rightarrow> inode) \<Rightarrow> mkfs \<Rightarrow> bool" where
  "kept D S N s D' t \<longleftrightarrow> (\<forall>j \<in> N. \<forall>l \<in> S j. slot_addr t (D' j) l = slot_addr s (D j) l
      \<and> (l < 140 \<longrightarrow> m_img t ! unat (slot_addr s (D j) l) = m_img s ! unat (slot_addr s (D j) l)))
    \<and> (\<forall>b < 59. m_img t ! b = m_img s ! b) \<and> m_freeinode t = m_freeinode s"

lemma kept_trans:
  assumes "kept D S N s D' t" "kept D' S' N t D'' u" "\<And>j. S j \<subseteq> S' j"
  shows "kept D S N s D'' u"
proof -
  have "slot_addr u (D'' j) l = slot_addr s (D j) l
      \<and> (l < 140 \<longrightarrow> m_img u ! unat (slot_addr s (D j) l) = m_img s ! unat (slot_addr s (D j) l))"
    if j: "j \<in> N" "l \<in> S j" for j l
  proof -
    have "slot_addr t (D' j) l = slot_addr s (D j) l" using assms(1) j by (simp add: kept_def)
    moreover have "l \<in> S' j" using assms(3) j(2) by blast
    ultimately show ?thesis using assms(1,2) j unfolding kept_def by metis
  qed
  moreover have "\<forall>b < 59. m_img u ! b = m_img s ! b" "m_freeinode u = m_freeinode s" using assms(1,2) by (simp_all add: kept_def)
  ultimately show ?thesis unfolding kept_def by blast
qed

definition slots_of :: "nat \<Rightarrow> nat set" where
  "slots_of f = (if f < 12 then {f} else {f, 140})"

text \<open>\<open>mk_addr\<close> on the entry of the address array for slot \<open>k\<close>, a direct block or the indirect block.\<close>

lemma mk_addr_spec:
  assumes ok: "blocks_ok D S N s" and i: "i \<in> N" and k: "k < 12 \<and> c = k \<or> k = 140 \<and> c = 12"
    and room: "k \<notin> S i \<Longrightarrow> unat (m_freeblock s) < 1000"
  shows "\<exists>as t. mk_addr c (D i) s = ((D i)\<lparr>i_addrs := as\<rparr>, t)
    \<and> blocks_ok (D(i := (D i)\<lparr>i_addrs := as\<rparr>)) (S(i := insert k (S i))) N t
    \<and> kept D S N s (D(i := (D i)\<lparr>i_addrs := as\<rparr>)) t"
proof -
  have a: "i_addrs (D i) ! c = slot_addr s (D i) k" using k by (auto simp: slot_addr_def)
  note d = blocks_okD [OF ok i]
  show ?thesis
  proof (cases "k \<in> S i")
    case True
    then have "i_addrs (D i) ! c \<noteq> 0" using d(5) [OF True] a by auto
    moreover have "insert k (S i) = S i" using True by auto
    ultimately show ?thesis using ok by (intro exI [of _ "i_addrs (D i)"] exI [of _ s]) (simp add: mk_addr_def kept_def)
  next
    case False
    let ?as = "(i_addrs (D i))[c := m_freeblock s]" and ?t = "s\<lparr>m_freeblock := m_freeblock s + 1\<rparr>"
    let ?D = "D(i := (D i)\<lparr>i_addrs := ?as\<rparr>)"
    have z: "i_addrs (D i) ! c = 0" using d(4) [of k] False k a by auto
    have fb: "unat (m_freeblock s) < 1000" "unat (m_freeblock s + 1) = Suc (unat (m_freeblock s))"
      using room [OF False] by (simp_all add: unat_word_ariths)
    have img: "img_ok s" "m_img s ! unat (m_freeblock s) = zeroes" "img_ok ?t"
      using ok fb by (auto simp: blocks_ok_def img_ok_def)
    have addr: "slot_addr ?t (?D j) l = (if j = i \<and> l = k then m_freeblock s else slot_addr s (D j) l)"
      if "j \<in> N" "l \<le> 140" for j l
    proof (cases "j = i \<and> k = 140 \<and> 12 \<le> l \<and> l < 140")
      case True
      then have "l \<notin> S i" using False d(3) by auto
      then have "slot_addr s (D i) l = 0" using d(4) True by simp
      moreover have "get32 zeroes (4 * (l - 12)) = 0" using True by (intro get32_zeroes) linarith
      ultimately show ?thesis using True k d(1) img(2) by (simp add: slot_addr_def)
    next
      case False
      then show ?thesis using k d(1) that(2) by (auto simp: slot_addr_def nth_list_update)
    qed
    have "blocks_ok ?D (S(i := insert k (S i))) N ?t"
      by (rule blocks_ok_alloc [OF ok i]) (use k False img fb addr d(1) blocks_okD(1) [OF ok] in auto)
    moreover have "kept D S N s ?D ?t"
      using addr False blocks_okD(2) [OF ok] by (fastforce simp: kept_def)
    ultimately show ?thesis using z by (intro exI [of _ ?as] exI [of _ ?t]) (simp add: mk_addr_def)
  qed
qed

text \<open>A new data block that is entered in the indirect block.\<close>

lemma indirect_alloc:
  assumes ok: "blocks_ok D S N s" and i: "i \<in> N" and f: "12 \<le> f" "f < 140" "140 \<in> S i" "f \<notin> S i"
    and room: "unat (m_freeblock s) < 1000"
  defines "b \<equiv> unat (i_addrs (D i) ! 12)" and "k \<equiv> 4 * (f - 12)"
  defines "t \<equiv> s\<lparr>m_freeblock := m_freeblock s + 1, m_img := (m_img s)[b := put32 (m_img s ! b) k (m_freeblock s)]\<rparr>"
  shows "blocks_ok D (S(i := insert f (S i))) N t \<and> kept D S N s D t \<and> slot_addr t (D i) f = m_freeblock s"
proof -
  note d = blocks_okD [OF ok i]
  have a: "slot_addr s (D i) 140 = i_addrs (D i) ! 12" by (simp add: slot_addr_def)
  have b: "59 \<le> b" "b < unat (m_freeblock s)" "b < 1000" using d(5-7) [OF f(3)] a by (simp_all add: b_def)
  have fb: "unat (m_freeblock s + 1) = Suc (unat (m_freeblock s))" using room by (simp add: unat_word_ariths)
  have img: "img_ok s" "length (m_img s) = 1000" "length (m_img s ! b) = 512" using ok b by (auto simp: blocks_ok_def img_ok_def)
  have k: "k + 4 \<le> 512" using f(2) by (simp add: k_def)
  have other: "unat (i_addrs (D j) ! 12) \<noteq> b" if "j \<in> N" "j \<noteq> i" for j
    using indirect_other [OF ok that(1) i f(3)] that(2) a unfolding b_def by (metis Pair_inject word_unat_eq_iff)
  have addr: "slot_addr t (D j) l = (if j = i \<and> l = f then m_freeblock s else slot_addr s (D j) l)"
    if "j \<in> N" "l \<le> 140" for j l
  proof (cases "j = i \<and> 12 \<le> l \<and> l < 140")
    case True
    have a: "slot_addr t (D i) l = get32 (put32 (m_img s ! b) k (m_freeblock s)) (4 * (l - 12))"
      "slot_addr s (D i) l = get32 (m_img s ! b) (4 * (l - 12))"
      using True b(3) img(2) by (simp_all add: slot_addr_def t_def flip: b_def)
    show ?thesis
    proof (cases "l = f")
      case lf: True
      then show ?thesis using True a(1) k img(3) by (simp flip: k_def)
    next
      case lf: False
      then have "4 * (l - 12) + 4 \<le> k \<or> k + 4 \<le> 4 * (l - 12)" using True f(1) unfolding k_def by linarith
      moreover have "4 * (l - 12) + 4 \<le> 512" using True by linarith
      ultimately show ?thesis using lf True a k img(3) get32_put32_other [of k "m_img s ! b" "4 * (l - 12)"] by simp
    qed
  next
    case False
    then have "l < 12 \<or> l = 140 \<or> j \<noteq> i" "l \<noteq> f \<or> j \<noteq> i" using that(2) f(1,2) by auto
    then show ?thesis using other [OF that(1)] by (auto simp: slot_addr_def t_def)
  qed
  have data: "slot_addr s (D j) l \<noteq> i_addrs (D i) ! 12" if "j \<in> N" "l \<in> S j" "l < 140" for j l
    using indirect_other [OF ok i that(1,2)] that(3) by auto
  have "blocks_ok D (S(i := insert f (S i))) N t"
  proof (rule blocks_ok_alloc [OF ok i])
    show "img_ok t" using img_ok_write [OF img(1), of "put32 (m_img s ! b) k (m_freeblock s)" b] b k img(3) fb room
      by (auto simp: t_def img_ok_def)
  qed (use f room addr blocks_okD(1) [OF ok] in \<open>auto simp: t_def\<close>)
  moreover have "kept D S N s D t"
    unfolding kept_def
  proof (intro conjI ballI allI impI)
    fix j l assume j: "j \<in> N" "l \<in> S j"
    have "l \<le> 140" using blocks_okD(2) [OF ok j(1)] j(2) by auto
    then show "slot_addr t (D j) l = slot_addr s (D j) l" using addr [OF j(1)] j f(4) by auto
    show "m_img t ! unat (slot_addr s (D j) l) = m_img s ! unat (slot_addr s (D j) l)" if "l < 140"
      using data [OF j that] by (auto simp: t_def b_def word_unat_eq_iff)
  qed (use b in \<open>simp_all add: t_def\<close>)
  ultimately show ?thesis using addr [OF i, of f] f by simp
qed

lemma mk_block_spec:
  assumes ok: "blocks_ok D S N s" and i: "i \<in> N" and f: "f < 140"
    and room: "unat (m_freeblock s) + card (slots_of f - S i) \<le> 1000"
  shows "\<exists>x as t. mk_block f (D i) s = Inr (x, (D i)\<lparr>i_addrs := as\<rparr>, t)
    \<and> blocks_ok (D(i := (D i)\<lparr>i_addrs := as\<rparr>)) (S(i := S i \<union> slots_of f)) N t
    \<and> kept D S N s (D(i := (D i)\<lparr>i_addrs := as\<rparr>)) t \<and> x = slot_addr t ((D i)\<lparr>i_addrs := as\<rparr>) f"
proof (cases "f < 12")
  case True
  then have "f \<notin> S i \<Longrightarrow> unat (m_freeblock s) < 1000" using room by (simp add: slots_of_def insert_Diff_if)
  then obtain as t where m: "mk_addr f (D i) s = ((D i)\<lparr>i_addrs := as\<rparr>, t)"
    "blocks_ok (D(i := (D i)\<lparr>i_addrs := as\<rparr>)) (S(i := insert f (S i))) N t" "kept D S N s (D(i := (D i)\<lparr>i_addrs := as\<rparr>)) t"
    using mk_addr_spec [OF ok i, of f f] True by auto
  then show ?thesis using True by (intro exI [of _ "as ! f"] exI [of _ as] exI [of _ t]) (simp add: mk_block_def NDIRECT_def slots_of_def slot_addr_def)
next
  case False
  let ?S = "S(i := insert 140 (S i))"
  have fr: "140 \<notin> S i \<Longrightarrow> unat (m_freeblock s) < 1000"
    using room False f by (cases "f \<in> S i") (auto simp: slots_of_def insert_Diff_if)
  then obtain as u where m: "mk_addr 12 (D i) s = ((D i)\<lparr>i_addrs := as\<rparr>, u)"
    "blocks_ok (D(i := (D i)\<lparr>i_addrs := as\<rparr>)) ?S N u" "kept D S N s (D(i := (D i)\<lparr>i_addrs := as\<rparr>)) u"
    using mk_addr_spec [OF ok i, of 140 12] by auto
  let ?D = "D(i := (D i)\<lparr>i_addrs := as\<rparr>)" let ?b = "as ! 12"
  have b: "unat ?b < 1000" "length (m_img u) = 1000"
    using blocks_okD(7) [OF m(2) i, of 140] m(2) by (auto simp: slot_addr_def blocks_ok_def img_ok_def)
  have r: "rsect ?b u = Inr (m_img u ! unat ?b)" using b by (simp add: rsect_small)
  have g: "slot_addr u (?D i) f = get32 (m_img u ! unat ?b) (4 * (f - 12))" using False f by (simp add: slot_addr_def)
  have e: "S i \<union> slots_of f = insert f (insert 140 (S i))" using False by (auto simp: slots_of_def)
  show ?thesis
  proof (cases "f \<in> S i")
    case True
    then have "slot_addr u (?D i) f \<noteq> 0" using blocks_okD(5) [OF m(2) i, of f] by auto
    then show ?thesis
      using False m r g e True by (intro exI [of _ "slot_addr u (?D i) f"] exI [of _ as] exI [of _ u])
        (simp add: mk_block_def NDIRECT_def insert_absorb)
  next
    case nf: False
    have z: "slot_addr u (?D i) f = 0" using blocks_okD(4) [OF m(2) i, of f] nf f by simp
    have "unat (m_freeblock u) = 59 + (\<Sum>j \<in> N. card (?S j))" "unat (m_freeblock s) = 59 + (\<Sum>j \<in> N. card (S j))"
      "finite N" using m(2) ok unfolding blocks_ok_def by auto
    then have "unat (m_freeblock u) = unat (m_freeblock s) + card ({140} - S i)"
      using sum.remove [of N i "\<lambda>j. card (?S j)"] sum.remove [of N i "\<lambda>j. card (S j)"] i blocks_okD(8) [OF ok i]
      by (simp add: card_insert_if insert_Diff_if)
    then have fu: "unat (m_freeblock u) < 1000" using room False nf f by (auto simp: slots_of_def insert_Diff_if card_insert_if split: if_splits)
    let ?t = "u\<lparr>m_freeblock := m_freeblock u + 1,
      m_img := (m_img u)[unat ?b := put32 (m_img u ! unat ?b) (4 * (f - 12)) (m_freeblock u)]\<rparr>"
    have t: "blocks_ok ?D (?S(i := insert f (?S i))) N ?t \<and> kept ?D ?S N u ?D ?t \<and> slot_addr ?t (?D i) f = m_freeblock u"
      using indirect_alloc [OF m(2) i, of f] False f nf fu by simp
    have "wsect ?b d (u\<lparr>m_freeblock := m_freeblock u + 1\<rparr>) = u\<lparr>m_freeblock := m_freeblock u + 1, m_img := (m_img u)[unat ?b := d]\<rparr>" for d
      using b by (simp add: wsect_small)
    moreover have "get32 (put32 (m_img u ! unat ?b) (4 * (f - 12)) (m_freeblock u)) (4 * (f - 12)) = m_freeblock u"
      using b f m(2) by (intro get_put) (auto simp: blocks_ok_def img_ok_def)
    moreover have "kept D S N s ?D ?t" by (rule kept_trans [OF m(3) t [THEN conjunct2, THEN conjunct1]]) auto
    ultimately show ?thesis
      using False m(1) r g z t e by (intro exI [of _ "m_freeblock u"] exI [of _ as] exI [of _ ?t]) (simp add: mk_block_def NDIRECT_def)
  qed
qed

section \<open>The contents of the files\<close>

text \<open>The slots that a file of \<open>n\<close> bytes needs.\<close>

definition used :: "nat \<Rightarrow> nat set" where
  "used n = {k. k < 140 \<and> 512 * k < n} \<union> (if 6144 < n then {140} else {})"

definition files_ok :: "(nat \<Rightarrow> inode) \<Rightarrow> nat set \<Rightarrow> (nat \<Rightarrow> u8 list) \<Rightarrow> mkfs \<Rightarrow> bool" where
  "files_ok D N F s \<longleftrightarrow> (\<forall>i \<in> N. length (F i) \<le> 71680
     \<and> (\<forall>j < length (F i). m_img s ! unat (slot_addr s (D i) (j div 512)) ! (j mod 512) = F i ! j))"

abbreviation space :: "(nat \<Rightarrow> u8 list) \<Rightarrow> nat \<Rightarrow> nat set" where
  "space F \<equiv> \<lambda>i. used (length (F i))"

lemma used_finite [simp]: "finite (used n)"
  by (simp add: used_def)

lemma used_mono: "n \<le> m \<Longrightarrow> used n \<subseteq> used m"
  by (auto simp: used_def)

lemma used_block: "j < n \<Longrightarrow> n \<le> 71680 \<Longrightarrow> j div 512 \<in> used n \<and> j div 512 < 140"
  by (auto simp: used_def)

lemma used_grow:
  assumes "0 < m" "m \<le> 512 - n mod 512" "n + m \<le> 71680"
  shows "used (n + m) = used n \<union> slots_of (n div 512)"
proof -
  have e: "512 * (n div 512) + n mod 512 = n" "n mod 512 < 512" by simp_all
  have "512 * k < n + m \<longleftrightarrow> 512 * k < n \<or> k = n div 512" for k
  proof
    assume "512 * k < n + m"
    then have "512 * k < 512 * (n div 512) + 512" using assms(2) e by linarith
    then show "512 * k < n \<or> k = n div 512" using e by (cases "k = n div 512") auto
  next
    assume "512 * k < n \<or> k = n div 512"
    then show "512 * k < n + m" using e assms(1) by (elim disjE) linarith+
  qed
  moreover have "6144 < n + m \<longleftrightarrow> 6144 < n \<or> 12 \<le> n div 512" using assms e by linarith
  moreover have "n div 512 < 140" using assms e by linarith
  ultimately show ?thesis by (auto simp: used_def slots_of_def)
qed

lemma off_words:
  assumes "n < 71680"
  defines "off \<equiv> (of_nat n :: u32)"
  shows "unat (off div 512) = n div 512" "unat ((off div 512 + 1) * 512 - off) = 512 - n mod 512" "unat (off - off div 512 * 512) = n mod 512"
proof -
  have u: "unat off = n" using assms by (simp add: off_def unat_of_nat)
  have small: "x < 4294967296 \<Longrightarrow> unat (of_nat x :: u32) = x" for x by (simp add: unat_of_nat)
  have "n div 512 < 4294967296" using assms(1) by simp
  then have q: "off div 512 = of_nat (n div 512)" using u small unfolding word_unat_eq_iff by (simp add: unat_div)
  show "unat (off div 512) = n div 512" using u by (simp add: unat_div)
  have "off = of_nat (512 * (n div 512) + n mod 512)" by (simp add: off_def)
  then have s: "off = of_nat (n div 512) * 512 + of_nat (n mod 512)" by (simp only: of_nat_add of_nat_mult) simp
  have "(off div 512 + 1) * 512 - off = 512 - of_nat (n mod 512)" unfolding q by (subst s) (simp add: algebra_simps)
  also have "\<dots> = of_nat (512 - n mod 512)" by simp
  finally have e: "(off div 512 + 1) * 512 - off = of_nat (512 - n mod 512)" .
  show "unat ((off div 512 + 1) * 512 - off) = 512 - n mod 512" by (subst e, rule small) simp
  have d: "off - off div 512 * 512 = of_nat (n mod 512)" unfolding q by (subst s) simp
  have "n mod 512 < 512" by simp
  then show "unat (off - off div 512 * 512) = n mod 512" by (subst d, intro small) linarith
qed

text \<open>Bytes \<open>q\<close> are written behind the end of file \<open>i\<close>, in the block \<open>f\<close> that holds its end.\<close>

lemma files_ok_write:
  assumes ok: "blocks_ok D S N u" and F: "files_ok D N F u" and i: "i \<in> N" and S: "\<And>j. j \<in> N \<Longrightarrow> used (length (F j)) \<subseteq> S j"
  defines "n \<equiv> length (F i)" and "f \<equiv> length (F i) div 512"
  assumes q: "length q \<le> 512 - n mod 512" "n + length q \<le> 71680" and f: "f \<in> S i" "f < 140"
  defines "b \<equiv> unat (slot_addr u (D i) f)"
  defines "t \<equiv> u\<lparr>m_img := (m_img u)[b := splice_at (m_img u ! b) (n mod 512) q]\<rparr>"
  shows "blocks_ok D S N t \<and> files_ok D N (F(i := F i @ q)) t"
proof -
  let ?d = "splice_at (m_img u ! b) (n mod 512) q"
  have b: "b < 1000" using blocks_okD(7) [OF ok i f(1)] by (simp add: b_def)
  have img: "length (m_img u) = 1000" "length (m_img u ! b) = 512" using ok b by (auto simp: blocks_ok_def img_ok_def)
  have m: "n mod 512 < 512" "512 * f + n mod 512 = n" by (simp_all add: n_def f_def)
  have fit: "n mod 512 + length q \<le> length (m_img u ! b)" using q(1) m(1) img(2) by linarith
  have ad: "slot_addr t (D j) l = slot_addr u (D j) l" if "j \<in> N" for j l
    unfolding t_def b_def by (rule slot_addr_write [OF ok i f that])
  have sec: "m_img t ! unat (slot_addr u (D j) l) = (if j = i \<and> l = f then ?d else m_img u ! unat (slot_addr u (D j) l))"
    if "j \<in> N" "l \<in> S j" for j l
  proof (cases "j = i \<and> l = f")
    case False
    then have "slot_addr u (D i) f \<noteq> slot_addr u (D j) l" using slot_inj [OF ok i f(1) that] by auto
    then have "unat (slot_addr u (D j) l) \<noteq> b" unfolding b_def by (metis word_unat_eq_iff)
    then show ?thesis using False by (auto simp: t_def)
  qed (use b img(1) in \<open>auto simp: t_def b_def\<close>)
  have "length (F i @ q) \<le> 71680" using q(2) by (simp add: n_def)
  moreover have "m_img t ! unat (slot_addr t (D i) (j div 512)) ! (j mod 512) = (F i @ q) ! j" if j: "j < n + length q" for j
  proof (cases "j < n")
    case True
    then have jd: "j div 512 \<in> S i" "m_img u ! unat (slot_addr u (D i) (j div 512)) ! (j mod 512) = F i ! j"
      using used_block [of j n] S [OF i] q(2) F i by (auto simp: n_def files_ok_def)
    have "j mod 512 < n mod 512" if "j div 512 = f"
      using True m(2) div_mult_mod_eq [of j 512] unfolding that by linarith
    then have "?d ! (j mod 512) = m_img u ! b ! (j mod 512)" if "j div 512 = f"
      using nth_splice_at [OF fit, of "j mod 512"] img(2) that by simp
    then show ?thesis using sec [OF i jd(1)] jd(2) ad [OF i] True by (auto simp: nth_append n_def b_def)
  next
    case False
    define r where "r = j - n"
    have r: "j = n + r" "r < length q" using False j by (auto simp: r_def)
    have "n mod 512 + r < 512" using r(2) q(1) m(1) by linarith
    then have jf: "j div 512 = f" "j mod 512 = n mod 512 + r"
      using m(2) r(1) by (auto simp: div_nat_eqI mod_nat_eqI intro!: div_nat_eqI mod_nat_eqI)
    then have "?d ! (j mod 512) = q ! r" using nth_splice_at [OF fit, of "j mod 512"] img(2) r(2) by simp
    then show ?thesis using sec [OF i f(1)] ad [OF i] jf r by (simp add: nth_append n_def)
  qed
  moreover have "m_img t ! unat (slot_addr t (D k) (j div 512)) ! (j mod 512) = F k ! j"
    if "k \<in> N" "k \<noteq> i" "j < length (F k)" for j k
    using sec [OF that(1), of "j div 512"] ad [OF that(1)] that used_block [of j "length (F k)"] S [OF that(1)] F
    by (auto simp: files_ok_def)
  ultimately have "files_ok D N (F(i := F i @ q)) t" using F by (auto simp: files_ok_def n_def)
  moreover have "blocks_ok D S N t"
    unfolding t_def b_def by (rule blocks_ok_write [OF ok i f]) (use fit img(2) in \<open>simp add: b_def\<close>)
  ultimately show ?thesis by simp
qed

lemma files_ok_kept:
  assumes "files_ok D N F s" "kept D (space F) N s D' t"
  shows "files_ok D' N F t"
  using assms used_block unfolding files_ok_def kept_def by (metis (no_types, lifting))

section \<open>Appending to a file\<close>

definition same_head :: "mkfs \<Rightarrow> mkfs \<Rightarrow> bool" where
  "same_head s t \<longleftrightarrow> (\<forall>b < 59. m_img t ! b = m_img s ! b) \<and> m_freeinode t = m_freeinode s"

lemma same_head_trans: "same_head s t \<Longrightarrow> same_head t u \<Longrightarrow> same_head s u"
  by (simp add: same_head_def)

text \<open>The blocks that the files need together.\<close>

abbreviation need :: "nat set \<Rightarrow> (nat \<Rightarrow> u8 list) \<Rightarrow> nat" where
  "need N F \<equiv> (\<Sum>i \<in> N. card (used (length (F i))))"

lemma need_update: "finite N \<Longrightarrow> i \<in> N \<Longrightarrow> need N (F(i := x)) + card (used (length (F i))) = need N F + card (used (length x))"
  using sum.remove [of N i "\<lambda>j. card (used (length (F j)))"] sum.remove [of N i "\<lambda>j. card (used (length ((F(i := x)) j)))"] by simp

lemma need_mono: "finite N \<Longrightarrow> i \<in> N \<Longrightarrow> length x \<le> length y \<Longrightarrow> need N (F(i := x)) \<le> need N (F(i := y))"
  using need_update [of N i F x] need_update [of N i F y] card_mono [OF used_finite used_mono, of "length x" "length y"] by linarith

lemma iappend_step_spec:
  assumes ok: "blocks_ok D (space F) N s" and F: "files_ok D N F s" and i: "i \<in> N" and p: "p \<noteq> []"
    and room: "length (F i @ p) \<le> 71680" "59 + need N (F(i := F i @ p)) \<le> 1000"
  shows "\<exists>as t m. 0 < m \<and> m \<le> length p \<and> iappend_step (D i, of_nat (length (F i)), p, s)
      = Inr (Inr ((D i)\<lparr>i_addrs := as\<rparr>, of_nat (length (F i) + m), drop m p, t))
    \<and> blocks_ok (D(i := (D i)\<lparr>i_addrs := as\<rparr>)) (space (F(i := F i @ take m p))) N t
    \<and> files_ok (D(i := (D i)\<lparr>i_addrs := as\<rparr>)) N (F(i := F i @ take m p)) t \<and> same_head s t"
proof -
  define n where "n = length (F i)"
  define m where "m = min (length p) (512 - n mod 512)"
  let ?f = "n div 512" let ?q = "take m p"
  have "n mod 512 < 512" by simp
  then have m: "0 < m" "m \<le> length p" "m \<le> 512 - n mod 512" using p by (auto simp: m_def)
  have l: "0 < length p" "n + length p \<le> 71680" using room(1) p by (simp_all add: n_def)
  then have n: "n < 71680" "n + m \<le> 71680" using m(2) by linarith+
  then have n3: "?f < 140" by (simp add: less_mult_imp_div_less)
  note w = off_words [OF n(1)]
  have fin: "finite N" "unat (m_freeblock s) = 59 + need N F" using ok by (auto simp: blocks_ok_def)
  have g: "used (n + m) = used n \<union> slots_of ?f" by (rule used_grow [OF m(1,3) n(2)])
  have "unat (m_freeblock s) + card (slots_of ?f - used n) = 59 + need N (F(i := F i @ ?q))"
    using need_update [OF fin(1) i, of F "F i @ ?q"] fin(2) g m(2) card_Un_disjoint [of "used n" "slots_of ?f - used n"]
    by (simp add: n_def slots_of_def)
  also have "\<dots> \<le> 1000" using need_mono [OF fin(1) i, of "F i @ ?q" "F i @ p" F] room(2) by simp
  finally obtain x as u where u: "mk_block ?f (D i) s = Inr (x, (D i)\<lparr>i_addrs := as\<rparr>, u)"
    "blocks_ok (D(i := (D i)\<lparr>i_addrs := as\<rparr>)) ((space F)(i := used (n + m))) N u"
    "kept D (space F) N s (D(i := (D i)\<lparr>i_addrs := as\<rparr>)) u" "x = slot_addr u ((D i)\<lparr>i_addrs := as\<rparr>) ?f"
    using mk_block_spec [OF ok i n3] g by (auto simp: n_def)
  let ?D = "D(i := (D i)\<lparr>i_addrs := as\<rparr>)" let ?S = "(space F)(i := used (n + m))"
  have fS: "?f \<in> used (n + m)" using g by (auto simp: slots_of_def)
  have x: "unat x < 1000" "length (m_img u) = 1000" "59 \<le> unat x"
    using blocks_okD(5,7) [OF u(2) i, of ?f] fS u(2,4) by (auto simp: blocks_ok_def img_ok_def)
  let ?t = "u\<lparr>m_img := (m_img u)[unat x := splice_at (m_img u ! unat x) (n mod 512) ?q]\<rparr>"
  have t: "blocks_ok ?D ?S N ?t \<and> files_ok ?D N (F(i := F i @ ?q)) ?t"
    using files_ok_write [OF u(2) files_ok_kept [OF F u(3)] i, of ?q] m n fS u(4) used_mono [of n "n + m"] by (auto simp: n_def)
  have "same_head s ?t" using u(3) x(3) by (simp add: same_head_def kept_def)
  moreover have "?S = space (F(i := F i @ ?q))" using m(2) by (auto simp: n_def fun_eq_iff min_def)
  moreover have "iappend_step (D i, of_nat n, p, s) = Inr (Inr ((D i)\<lparr>i_addrs := as\<rparr>, of_nat (n + m), drop m p, ?t))"
    using u(1) x w n3 by (simp add: iappend_step_def BSIZE_def Let_def guardE_def MAXFILE_def NDIRECT_def NINDIRECT_def
      rsect_small wsect_small m_def [symmetric])
  ultimately show ?thesis using m t by (intro exI [of _ as] exI [of _ ?t] exI [of _ m]) (simp add: n_def)
qed

lemma iappend_loop:
  assumes "blocks_ok D (space F) N s" "files_ok D N F s" "i \<in> N"
    and "length (F i @ p) \<le> 71680" "59 + need N (F(i := F i @ p)) \<le> 1000" "length p \<le> n"
  shows "\<exists>as t. loopE n (\<lambda>(din, off, p, s). p \<noteq> []) iappend_step (D i, of_nat (length (F i)), p, s)
      = Inr (Inr ((D i)\<lparr>i_addrs := as\<rparr>, of_nat (length (F i @ p)), [], t))
    \<and> blocks_ok (D(i := (D i)\<lparr>i_addrs := as\<rparr>)) (space (F(i := F i @ p))) N t
    \<and> files_ok (D(i := (D i)\<lparr>i_addrs := as\<rparr>)) N (F(i := F i @ p)) t \<and> same_head s t"
  using assms
proof (induction n arbitrary: D F p s)
  case 0
  then show ?case by (intro exI [of _ "i_addrs (D i)"] exI [of _ s]) (simp add: same_head_def)
next
  case (Suc n)
  show ?case
  proof (cases "p = []")
    case True
    then show ?thesis using Suc.prems by (intro exI [of _ "i_addrs (D i)"] exI [of _ s]) (simp add: same_head_def)
  next
    case False
    obtain as u m where u: "0 < m" "m \<le> length p" "iappend_step (D i, of_nat (length (F i)), p, s)
        = Inr (Inr ((D i)\<lparr>i_addrs := as\<rparr>, of_nat (length (F i) + m), drop m p, u))"
      "blocks_ok (D(i := (D i)\<lparr>i_addrs := as\<rparr>)) (space (F(i := F i @ take m p))) N u"
      "files_ok (D(i := (D i)\<lparr>i_addrs := as\<rparr>)) N (F(i := F i @ take m p)) u" "same_head s u"
      using iappend_step_spec [OF Suc.prems(1-3) False Suc.prems(4,5)] by blast
    have l: "length (drop m p) \<le> n" using u(1,2) Suc.prems(6) by simp
    have "\<exists>as' t. loopE n (\<lambda>(din, off, p, s). p \<noteq> []) iappend_step ((D i)\<lparr>i_addrs := as\<rparr>, of_nat (length (F i) + m), drop m p, u)
        = Inr (Inr ((D i)\<lparr>i_addrs := as'\<rparr>, of_nat (length (F i @ p)), [], t))
      \<and> blocks_ok (D(i := (D i)\<lparr>i_addrs := as'\<rparr>)) (space (F(i := F i @ p))) N t
      \<and> files_ok (D(i := (D i)\<lparr>i_addrs := as'\<rparr>)) N (F(i := F i @ p)) t \<and> same_head u t"
      using Suc.IH [OF u(4,5) Suc.prems(3) _ _ l] Suc.prems(4,5) u(2) by (simp add: fun_upd_same del: fun_upd_apply)
    then obtain as' t where "loopE n (\<lambda>(din, off, p, s). p \<noteq> []) iappend_step ((D i)\<lparr>i_addrs := as\<rparr>, of_nat (length (F i) + m), drop m p, u)
        = Inr (Inr ((D i)\<lparr>i_addrs := as'\<rparr>, of_nat (length (F i @ p)), [], t))"
      "blocks_ok (D(i := (D i)\<lparr>i_addrs := as'\<rparr>)) (space (F(i := F i @ p))) N t"
      "files_ok (D(i := (D i)\<lparr>i_addrs := as'\<rparr>)) N (F(i := F i @ p)) t" "same_head u t" by blast
    then show ?thesis using u(3) False same_head_trans [OF u(6)] by (intro exI [of _ as'] exI [of _ t]) (simp del: fun_upd_apply)
  qed
qed

section \<open>The inodes on the image\<close>

definition dinode_at :: "mkfs \<Rightarrow> nat \<Rightarrow> inode" where
  "dinode_at s i = get_dinode (m_img s ! (32 + i div 8)) (i mod 8 * 64) dinode0"

text \<open>The fields of the record that are not on the disk.\<close>

definition blank_head :: "inode \<Rightarrow> bool" where
  "blank_head i \<longleftrightarrow> i_dev i = 0 \<and> i_inum i = 0 \<and> i_ref i = 0 \<and> \<not> i_valid i"

lemma blank_dinode [simp]: "blank_head (dinode_at s i)"
  by (simp add: dinode_at_def get_dinode_def dinode0_def blank_head_def)

lemma mk_sb_sel: "sb_inodestart mk_sb = 32" "sb_bmapstart mk_sb = 58" "nmeta = 59" "nblocks = 941"
  by (simp_all add: mk_sb_def nlog_def LOGSIZE_def ninodeblocks_def NINODES_def IPB_def nmeta_def nblocks_def nbitmap_def FSSIZE_def BSIZE_def)

lemma inode_place:
  assumes "i < 208"
  shows "unat (IBLOCK (of_nat i) mk_sb) = 32 + i div 8" "dinode_off (of_nat i) = i mod 8 * 64"
proof -
  have u: "unat (of_nat i :: u32) = i" using assms by (simp add: unat_of_nat)
  have "i div 8 < 26" using assms by (simp add: less_mult_imp_div_less)
  then show "unat (IBLOCK (of_nat i) mk_sb) = 32 + i div 8"
    using u by (simp add: IBLOCK_def mk_sb_sel IPB_def unat_word_ariths unat_div)
  show "dinode_off (of_nat i) = i mod 8 * 64" using u by (simp add: dinode_off_def IPB_def unat_mod)
qed

lemma inode_io:
  assumes "i < 208" "length (m_img s) = 1000"
  shows "rinode (of_nat i) s = Inr (dinode_at s i)"
    "winode (of_nat i) din s = Inr (s\<lparr>m_img := (m_img s)[32 + i div 8 := put_dinode (m_img s ! (32 + i div 8)) (i mod 8 * 64) din]\<rparr>)"
proof -
  have "i div 8 < 26" using assms(1) by (simp add: less_mult_imp_div_less)
  then show "rinode (of_nat i) s = Inr (dinode_at s i)"
    "winode (of_nat i) din s = Inr (s\<lparr>m_img := (m_img s)[32 + i div 8 := put_dinode (m_img s ! (32 + i div 8)) (i mod 8 * 64) din]\<rparr>)"
    using inode_place [OF assms(1)] assms(2) by (simp_all add: rinode_def winode_def rsect_small wsect_small dinode_at_def)
qed

lemma slice_slice: "a + n \<le> m \<Longrightarrow> slice d (p + a) n = slice (slice d p m) a n"
  by (simp add: slice_def drop_take min_def add.commute)

lemma get_dinode_slice:
  assumes "slice d p 64 = slice d' p 64"
  shows "get_dinode d p x = get_dinode d' p x"
proof -
  have s: "slice d (p + a) n = slice d' (p + a) n" if "a + n \<le> 64" for a n
    using slice_slice [OF that, of d p] slice_slice [OF that, of d' p] assms by simp
  have a: "map (\<lambda>k. get32 d (p + 12 + 4 * k)) [0..<NDIRECT + 1] = map (\<lambda>k. get32 d' (p + 12 + 4 * k)) [0..<NDIRECT + 1]"
    using s [of "12 + 4 * k" 4 for k] by (intro map_cong) (auto simp: get32_def NDIRECT_def add.assoc simp del: upt_Suc)
  show ?thesis unfolding get_dinode_def a using s [of 0 2] s [of 2 2] s [of 4 2] s [of 6 2] s [of 8 4] by (simp add: get16_def get32_def)
qed

lemma dinode_at_put:
  assumes "i < 208" "j < 208" "length (m_img s) = 1000" "length (m_img s ! (32 + i div 8)) = 512" "blank_head din" "length (i_addrs din) = 13"
  shows "dinode_at (s\<lparr>m_img := (m_img s)[32 + i div 8 := put_dinode (m_img s ! (32 + i div 8)) (i mod 8 * 64) din]\<rparr>) j
    = (if j = i then din else dinode_at s j)"
proof -
  let ?d = "m_img s ! (32 + i div 8)"
  have d: "i div 8 < 26" "i mod 8 < 8" "j mod 8 < 8" using assms(1) by (simp_all add: less_mult_imp_div_less)
  then have o: "i mod 8 * 64 + 64 \<le> 512" "j mod 8 * 64 + 64 \<le> 512" by linarith+
  show ?thesis
  proof (cases "j div 8 = i div 8")
    case True
    have "get_dinode (put_dinode ?d (i mod 8 * 64) din) (i mod 8 * 64) dinode0 = din"
      using get_put_dinode [of "i mod 8 * 64" ?d din dinode0] o assms(4,5,6)
      by (cases din) (simp add: i_disk_def get_dinode_def blank_head_def dinode0_def NDIRECT_def)
    moreover have "get_dinode (put_dinode ?d (i mod 8 * 64) din) (j mod 8 * 64) dinode0 = get_dinode ?d (j mod 8 * 64) dinode0" if "j \<noteq> i"
    proof (rule get_dinode_slice, rule slice_put_dinode)
      have "j mod 8 \<noteq> i mod 8" using that True by (metis div_mult_mod_eq)
      then show "j mod 8 * 64 + 64 \<le> i mod 8 * 64 \<or> i mod 8 * 64 + 64 \<le> j mod 8 * 64" by linarith
    qed (use o assms(4,6) in \<open>auto simp: NDIRECT_def\<close>)
    ultimately show ?thesis using True d assms(3) by (simp add: dinode_at_def)
  next
    case False
    then show ?thesis by (auto simp: dinode_at_def)
  qed
qed

section \<open>The operations on the image\<close>

text \<open>\<open>F i\<close> are the contents of inode \<open>i\<close>; \<open>sbk\<close> is the sector with the superblock.\<close>

definition mk_ok :: "u8 list \<Rightarrow> (nat \<Rightarrow> inode) \<Rightarrow> nat set \<Rightarrow> (nat \<Rightarrow> u8 list) \<Rightarrow> mkfs \<Rightarrow> bool" where
  "mk_ok sbk D N F s \<longleftrightarrow> blocks_ok D (space F) N s \<and> files_ok D N F s \<and> N \<subseteq> {1..<208}
     \<and> (\<forall>i \<in> N. dinode_at s i = D i \<and> i_size (D i) = of_nat (length (F i))) \<and> m_img s ! 1 = sbk"

text \<open>Writing a sector before the data area keeps the files.\<close>

lemma head_write:
  assumes ok: "blocks_ok D (space F) N s" "files_ok D N F s" and b: "b \<noteq> 0" "b < 59" "length d = 512"
    and ad: "\<And>j. j \<in> N \<Longrightarrow> i_addrs (D' j) = i_addrs (D j)"
  defines "t \<equiv> s\<lparr>m_img := (m_img s)[b := d]\<rparr>"
  shows "blocks_ok D' (space F) N t \<and> files_ok D' N F t"
proof -
  have sl: "slot_addr t (D' j) l = slot_addr s (D j) l" if j: "j \<in> N" for j l
  proof -
    have "unat (i_addrs (D j) ! 12) = 0 \<or> 59 \<le> unat (i_addrs (D j) ! 12)"
      using blocks_okD(4,5) [OF ok(1) j, of 140] by (cases "140 \<in> space F j") (auto simp: slot_addr_def)
    then have "unat (i_addrs (D j) ! 12) \<noteq> b" using b(1,2) by auto
    then show ?thesis using ad [OF j] by (simp add: slot_addr_def t_def)
  qed
  have img: "img_ok s" using ok(1) by (simp add: blocks_ok_def)
  then have "img_ok t" unfolding t_def using b by (intro img_ok_write) (auto simp: img_ok_def)
  then have "blocks_ok D' (space F) N t"
    by (rule blocks_ok_cong [OF ok(1)]) (use sl ad blocks_okD(1) [OF ok(1)] in \<open>auto simp: t_def\<close>)
  moreover have "files_ok D' N F t"
    unfolding files_ok_def
  proof (intro ballI conjI allI impI)
    fix j q assume j: "j \<in> N" "q < length (F j)"
    have "q div 512 \<in> used (length (F j))" using used_block j ok(2) by (auto simp: files_ok_def)
    then have "59 \<le> unat (slot_addr s (D j) (q div 512))" using blocks_okD(5) [OF ok(1) j(1)] by simp
    then have "m_img t ! unat (slot_addr s (D j) (q div 512)) = m_img s ! unat (slot_addr s (D j) (q div 512))"
      using b by (simp add: t_def)
    then show "m_img t ! unat (slot_addr t (D' j) (q div 512)) ! (q mod 512) = F j ! q"
      using sl [OF j(1)] ok(2) j by (simp add: files_ok_def)
  qed (use ok(2) in \<open>simp add: files_ok_def\<close>)
  ultimately show ?thesis by simp
qed

text \<open>winode keeps the files when the addresses stay as they are.\<close>

lemma winode_keeps:
  assumes ok: "blocks_ok D (space F) N s" "files_ok D N F s" and i: "i < 208" and din: "length (i_addrs din) = 13"
    "i \<in> N \<Longrightarrow> i_addrs din = i_addrs (D i)"
  defines "t \<equiv> s\<lparr>m_img := (m_img s)[32 + i div 8 := put_dinode (m_img s ! (32 + i div 8)) (i mod 8 * 64) din]\<rparr>"
  shows "blocks_ok (D(i := din)) (space F) N t \<and> files_ok (D(i := din)) N F t"
  unfolding t_def
proof (rule head_write [OF ok])
  have "length (m_img s ! (32 + i div 8)) = 512" using ok(1) i by (auto simp: blocks_ok_def img_ok_def)
  moreover have "i mod 8 < 8" by simp
  then have "i mod 8 * 64 + 64 \<le> 512" by linarith
  ultimately show "length (put_dinode (m_img s ! (32 + i div 8)) (i mod 8 * 64) din) = 512"
    using length_put_dinode [of "i mod 8 * 64" "m_img s ! (32 + i div 8)" din] din(1) by (simp add: NDIRECT_def)
qed (use i din(2) in auto)

lemma winode_ok:
  assumes bf: "blocks_ok D (space F) N s" "files_ok D N F s" and i: "i \<in> N" "N \<subseteq> {1..<208}"
    and disk: "\<forall>j \<in> N - {i}. dinode_at s j = D j \<and> i_size (D j) = of_nat (length (F j))" "m_img s ! 1 = sbk"
    and din: "i_addrs din = i_addrs (D i)" "i_size din = of_nat (length (F i))" "blank_head din"
  shows "\<exists>t. winode (of_nat i) din s = Inr t \<and> mk_ok sbk (D(i := din)) N F t \<and> m_freeinode t = m_freeinode s"
proof -
  let ?t = "s\<lparr>m_img := (m_img s)[32 + i div 8 := put_dinode (m_img s ! (32 + i div 8)) (i mod 8 * 64) din]\<rparr>"
  have i': "i < 208" using i by auto
  then have i2: "32 + i div 8 < 59" by linarith
  have img: "length (m_img s) = 1000" "length (m_img s ! (32 + i div 8)) = 512" using bf(1) i2 by (auto simp: blocks_ok_def img_ok_def)
  have l: "length (i_addrs din) = 13" using din(1) blocks_okD(1) [OF bf(1) i(1)] by simp
  have "dinode_at ?t j = (D(i := din)) j" if "j \<in> N" for j
    using dinode_at_put [OF i' _ img din(3) l, of j] that i disk(1) by auto
  then have "mk_ok sbk (D(i := din)) N F ?t"
    using winode_keeps [OF bf i' l din(1)] i(2) disk din(2) by (auto simp: mk_ok_def)
  then show ?thesis using inode_io(2) [OF i' img(1), of din] by simp
qed

lemma iappend_ok:
  assumes ok: "mk_ok sbk D N F s" and i: "i \<in> N"
    and room: "length (F i @ p) \<le> 71680" "59 + need N (F(i := F i @ p)) \<le> 1000"
  shows "\<exists>as t. iappend (of_nat i) p s = Inr t
    \<and> mk_ok sbk (D(i := (D i)\<lparr>i_addrs := as, i_size := of_nat (length (F i @ p))\<rparr>)) N (F(i := F i @ p)) t \<and> m_freeinode t = m_freeinode s"
proof -
  have bf: "blocks_ok D (space F) N s" "files_ok D N F s" and N: "N \<subseteq> {1..<208}"
    and d: "\<And>j. j \<in> N \<Longrightarrow> dinode_at s j = D j" "\<And>j. j \<in> N \<Longrightarrow> i_size (D j) = of_nat (length (F j))" and sbk: "m_img s ! 1 = sbk"
    using ok by (auto simp: mk_ok_def)
  have i': "i < 208" and len: "length (m_img s) = 1000" using i N bf(1) by (auto simp: blocks_ok_def img_ok_def)
  obtain as u where u: "loopE (length p) (\<lambda>(din, off, p, s). p \<noteq> []) iappend_step (D i, of_nat (length (F i)), p, s)
      = Inr (Inr ((D i)\<lparr>i_addrs := as\<rparr>, of_nat (length (F i @ p)), [], u))"
    and b: "blocks_ok (D(i := (D i)\<lparr>i_addrs := as\<rparr>)) (space (F(i := F i @ p))) N u"
    "files_ok (D(i := (D i)\<lparr>i_addrs := as\<rparr>)) N (F(i := F i @ p)) u" "same_head s u"
    using iappend_loop [OF bf i room order_refl] by blast
  have du: "dinode_at u j = dinode_at s j" if "j < 208" for j using b(3) that by (simp add: dinode_at_def same_head_def)
  have "\<exists>t. winode (of_nat i) ((D i)\<lparr>i_addrs := as, i_size := of_nat (length (F i @ p))\<rparr>) u = Inr t
      \<and> mk_ok sbk ((D(i := (D i)\<lparr>i_addrs := as\<rparr>))(i := (D i)\<lparr>i_addrs := as, i_size := of_nat (length (F i @ p))\<rparr>)) N (F(i := F i @ p)) t
      \<and> m_freeinode t = m_freeinode u"
  proof (rule winode_ok [OF b(1,2) i N])
    show "\<forall>j \<in> N - {i}. dinode_at u j = (D(i := (D i)\<lparr>i_addrs := as\<rparr>)) j
        \<and> i_size ((D(i := (D i)\<lparr>i_addrs := as\<rparr>)) j) = of_nat (length ((F(i := F i @ p)) j))"
      using d du N by auto
    show "blank_head ((D i)\<lparr>i_addrs := as, i_size := of_nat (length (F i @ p))\<rparr>)"
      using blank_dinode [of s i] d(1) [OF i] by (simp add: blank_head_def)
  qed (use b(3) sbk in \<open>simp_all add: same_head_def\<close>)
  then show ?thesis
    using inode_io(1) [OF i' len] d(1,2) [OF i] u b(3) by (auto simp: iappend_def same_head_def)
qed

lemma mk_ialloc_ok:
  assumes ok: "mk_ok sbk D N F s" and n: "m_freeinode s = of_nat n" "1 \<le> n" "n < 208" "n \<notin> N"
  shows "\<exists>t. mk_ialloc ty s = Inr (of_nat n, t)
    \<and> mk_ok sbk (D(n := dinode0\<lparr>i_type := ty, i_nlink := 1\<rparr>)) (insert n N) (F(n := [])) t \<and> m_freeinode t = of_nat (Suc n)"
proof -
  let ?din = "dinode0\<lparr>i_type := ty, i_nlink := 1\<rparr>" let ?s = "s\<lparr>m_freeinode := of_nat (Suc n)\<rparr>"
  have bf: "blocks_ok D (space F) N s" "files_ok D N F s" and N: "N \<subseteq> {1..<208}"
    and d: "\<And>j. j \<in> N \<Longrightarrow> dinode_at s j = D j \<and> i_size (D j) = of_nat (length (F j))" and sbk: "m_img s ! 1 = sbk"
    using ok by (auto simp: mk_ok_def)
  have z: "slot_addr ?s ?din k = 0" if "k \<le> 140" for k
    using that get32_zeroes [of "4 * (k - 12)"] bf(1) by (auto simp: slot_addr_def dinode0_def NDIRECT_def blocks_ok_def img_ok_def)
  have ad: "slot_addr ?s din k = slot_addr s din k" for din k by (simp add: slot_addr_def)
  have u0: "used 0 = {}" by (simp add: used_def)
  have inj: "inj_on (\<lambda>(i, k). slot_addr ?s ((D(n := ?din)) i) k) (Sigma (insert n N) (space (F(n := []))))"
  proof (rule inj_onI, clarify)
    fix i k j l assume "k \<in> space (F(n := [])) i" "l \<in> space (F(n := [])) j" "i \<in> insert n N" "j \<in> insert n N"
      "slot_addr ?s ((D(n := ?din)) i) k = slot_addr ?s ((D(n := ?din)) j) l"
    then show "i = j \<and> k = l" using slot_inj [OF bf(1), of i k j l] u0 ad by (auto split: if_splits)
  qed
  have "sum (\<lambda>i. card (space (F(n := [])) i)) (insert n N) = need N F"
    using n(4) bf(1) u0 by (simp add: blocks_ok_def) (rule sum.cong, auto)
  then have fb: "unat (m_freeblock ?s) = 59 + sum (\<lambda>i. card (space (F(n := [])) i)) (insert n N)" using bf(1) by (simp add: blocks_ok_def)
  note o = blocks_okD [OF bf(1)]
  have b: "blocks_ok (D(n := ?din)) (space (F(n := []))) (insert n N) ?s"
    unfolding blocks_ok_def
  proof (intro conjI)
    show "img_ok ?s" "finite (insert n N)" using bf(1) by (auto simp: blocks_ok_def img_ok_def)
    show "\<forall>i \<in> insert n N. length (i_addrs ((D(n := ?din)) i)) = 13 \<and> space (F(n := [])) i \<subseteq> {..140}
        \<and> (\<forall>k \<in> space (F(n := [])) i. 12 \<le> k \<longrightarrow> 140 \<in> space (F(n := [])) i)"
      using o(1,2,3) u0 by (auto simp: dinode0_def NDIRECT_def)
    show "\<forall>i \<in> insert n N. \<forall>k \<le> 140. k \<notin> space (F(n := [])) i \<longrightarrow> slot_addr ?s ((D(n := ?din)) i) k = 0"
      using o(4) z ad by auto
    show "\<forall>i \<in> insert n N. \<forall>k \<in> space (F(n := [])) i. 59 \<le> unat (slot_addr ?s ((D(n := ?din)) i) k)
        \<and> unat (slot_addr ?s ((D(n := ?din)) i) k) < unat (m_freeblock ?s)"
      using o(5,6) u0 ad by auto
  qed (fact inj fb)+
  have f: "files_ok (D(n := ?din)) (insert n N) (F(n := [])) ?s"
    using bf(2) n(4) ad by (auto simp: files_ok_def)
  have "\<exists>t. winode (of_nat n) ?din ?s = Inr t \<and> mk_ok sbk ((D(n := ?din))(n := ?din)) (insert n N) (F(n := [])) t
      \<and> m_freeinode t = m_freeinode ?s"
  proof (rule winode_ok [OF b f])
    show "\<forall>j \<in> insert n N - {n}. dinode_at ?s j = (D(n := ?din)) j \<and> i_size ((D(n := ?din)) j) = of_nat (length ((F(n := [])) j))"
      using d by (auto simp: dinode_at_def)
  qed (use N n sbk in \<open>auto simp: dinode0_def blank_head_def\<close>)
  then show ?thesis using n(1) by (auto simp: mk_ialloc_def Let_def dinode0_def add.commute)
qed

lemma length_dirent [simp]: "length (dirent inum name) = 16"
  by (simp add: dirent_def DIRSIZ_def)

text \<open>The parts of a file.\<close>

lemma parts_ok:
  assumes "mk_ok sbk D N F s" "i \<in> N" "length (F i @ concat ps) \<le> 71680" "59 + need N (F(i := F i @ concat ps)) \<le> 1000"
  shows "\<exists>din t. forE (iappend (of_nat i)) ps s = Inr t \<and> mk_ok sbk (D(i := din)) N (F(i := F i @ concat ps)) t
    \<and> m_freeinode t = m_freeinode s \<and> i_type din = i_type (D i)"
  using assms
proof (induction ps arbitrary: D F s)
  case Nil
  then show ?case by (intro exI [of _ "D i"]) simp
next
  case (Cons p ps)
  have fin: "finite N" using Cons.prems(1) by (simp add: mk_ok_def blocks_ok_def)
  have "59 + need N (F(i := F i @ p)) \<le> 1000"
    using need_mono [OF fin Cons.prems(2), of "F i @ p" "F i @ concat (p # ps)" F] Cons.prems(4) by simp
  then obtain as u where u: "iappend (of_nat i) p s = Inr u"
    "mk_ok sbk (D(i := (D i)\<lparr>i_addrs := as, i_size := of_nat (length (F i @ p))\<rparr>)) N (F(i := F i @ p)) u" "m_freeinode u = m_freeinode s"
    using iappend_ok [OF Cons.prems(1,2), of p] Cons.prems(3) by auto
  show ?case using Cons.IH [OF u(2) Cons.prems(2)] Cons.prems(3,4) u(1,3) by (simp add: fun_upd_same del: fun_upd_apply)
qed

text \<open>The bytes of the directory entries for files with inodes from \<open>n\<close> on.\<close>

fun dir_entries :: "nat \<Rightarrow> u8 list list \<Rightarrow> u8 list" where
  "dir_entries n [] = []"
| "dir_entries n (x # xs) = dirent (of_nat n) (entry_name x) @ dir_entries (Suc n) xs"

lemma need_insert: "finite N \<Longrightarrow> n \<notin> N \<Longrightarrow> need (insert n N) (F(n := x)) = need N F + card (used (length x))"
proof -
  assume a: "finite N" "n \<notin> N"
  have "need N (F(n := x)) = need N F" by (rule sum.cong) (use a(2) in auto)
  then show ?thesis using a by simp
qed

lemma need_length: "length x = length y \<Longrightarrow> need N (F(i := x)) = need N (F(i := y))"
  by (rule sum.cong) auto

definition file_limits :: "u8 list \<times> u8 list list \<Rightarrow> bool" where
  "file_limits f \<longleftrightarrow> of_char (CHR ''/'') \<notin> set (fst f) \<and> length (concat (snd f)) \<le> 71680"

lemma mk_file_ok:
  assumes ok: "mk_ok sbk D {1..<n} F s" and n: "m_freeinode s = of_nat n" "2 \<le> n" "n < 208"
    and f: "file_limits f" "length (F 1) + 16 \<le> 71680"
    and room: "59 + need {1..<n} (F(1 := F 1 @ replicate 16 0)) + card (used (length (concat (snd f)))) \<le> 1000"
  shows "\<exists>D' t. mk_file 1 f s = Inr t \<and> m_freeinode t = of_nat (Suc n)
    \<and> mk_ok sbk D' {1..<Suc n} (F(1 := F 1 @ dirent (of_nat n) (entry_name (fst f)), n := concat (snd f))) t
    \<and> i_type (D' n) = T_FILE \<and> (\<forall>i \<in> {1..<n}. i_type (D' i) = i_type (D i))"
proof -
  let ?N = "{1..<Suc n}" let ?e = "dirent (of_nat n) (entry_name (fst f))"
  have N: "insert n {1..<n} = ?N" using n(2) by auto
  let ?D1 = "D(n := dinode0\<lparr>i_type := T_FILE, i_nlink := 1\<rparr>)"
  obtain s1 where s1: "mk_ialloc T_FILE s = Inr (of_nat n, s1)" "mk_ok sbk ?D1 ?N (F(n := [])) s1" "m_freeinode s1 = of_nat (Suc n)"
    using mk_ialloc_ok [OF ok n(1), of T_FILE] n unfolding N by auto
  have ne: "(F(n := []))(1 := x, n := y) = (F(1 := x))(n := y)" for x y using n(2) by auto
  have nd: "need ?N ((F(1 := F 1 @ ?e))(n := y)) = need {1..<n} (F(1 := F 1 @ replicate 16 0)) + card (used (length y))" for y
    using need_insert [of "{1..<n}" n "F(1 := F 1 @ ?e)" y] need_length [where x = "F 1 @ ?e" and y = "F 1 @ replicate 16 0" and N = "{1..<n}" and F = F and i = 1] unfolding N by simp
  have "(F(n := []))(1 := (F(n := [])) 1 @ ?e) = (F(1 := F 1 @ ?e))(n := [])" using n(2) by auto
  moreover have "used 0 = {}" by (simp add: used_def)
  ultimately have "59 + need ?N ((F(n := []))(1 := (F(n := [])) 1 @ ?e)) \<le> 1000" using nd [of "[]"] room by simp
  then obtain as s2 where s2: "iappend (of_nat 1) ?e s1 = Inr s2" "m_freeinode s2 = m_freeinode s1"
    "mk_ok sbk (?D1(1 := (?D1 1)\<lparr>i_addrs := as, i_size := of_nat (length ((F(n := [])) 1 @ ?e))\<rparr>)) ?N ((F(n := []))(1 := (F(n := [])) 1 @ ?e)) s2"
    using iappend_ok [OF s1(2), of 1 ?e] n(2) f(2) by auto
  let ?D2 = "?D1(1 := (?D1 1)\<lparr>i_addrs := as, i_size := of_nat (length ((F(n := [])) 1 @ ?e))\<rparr>)"
  let ?F2 = "(F(n := []))(1 := (F(n := [])) 1 @ ?e)"
  have F2: "?F2 n = []" "?F2(n := x) = (F(1 := F 1 @ ?e))(n := x)" for x using n(2) by auto
  obtain din t where t: "forE (iappend (of_nat n)) (snd f) s2 = Inr t" "m_freeinode t = m_freeinode s2" "i_type din = i_type (?D2 n)"
    "mk_ok sbk (?D2(n := din)) ?N (F(1 := F 1 @ ?e, n := concat (snd f))) t"
    using parts_ok [OF s2(3), of n "snd f"] n(2) f(1) room unfolding F2 append_Nil nd file_limits_def by auto
  have "mk_file 1 f s = Inr t" using s1(1) s2(1) t(1) f(1) by (simp add: mk_file_def file_limits_def guardE_def)
  then show ?thesis
    using t s2(2) s1(3) n(2) by (intro exI [of _ "?D2(n := din)"] exI [of _ t]) simp
qed

lemma mk_files_ok:
  assumes "mk_ok sbk D {1..<n} F s" "m_freeinode s = of_nat n" "2 \<le> n" "n + length fs \<le> 208"
    and "\<forall>f \<in> set fs. file_limits f" "length (F 1) + 16 * length fs \<le> 71680"
    and "59 + need {1..<n} (F(1 := F 1 @ replicate (16 * length fs) 0)) + (\<Sum>f \<leftarrow> fs. card (used (length (concat (snd f))))) \<le> 1000"
  shows "\<exists>D' F' t. forE (mk_file 1) fs s = Inr t \<and> mk_ok sbk D' {1..<n + length fs} F' t
    \<and> F' 1 = F 1 @ dir_entries n (map fst fs) \<and> (\<forall>i. 1 < i \<and> i < n \<longrightarrow> F' i = F i)
    \<and> (\<forall>k < length fs. F' (n + k) = concat (snd (fs ! k)) \<and> i_type (D' (n + k)) = T_FILE)
    \<and> (\<forall>i \<in> {1..<n}. i_type (D' i) = i_type (D i))"
  using assms
proof (induction fs arbitrary: D n F s)
  case Nil
  then show ?case by (intro exI [of _ D] exI [of _ F] exI [of _ s]) simp
next
  case (Cons f fs)
  let ?e = "dirent (of_nat n) (entry_name (fst f))" let ?F = "F(1 := F 1 @ ?e, n := concat (snd f))"
  have "need {1..<n} (F(1 := F 1 @ replicate 16 0)) \<le> need {1..<n} (F(1 := F 1 @ replicate (16 * length (f # fs)) 0))"
    using Cons.prems(3) by (intro need_mono) auto
  then have "59 + need {1..<n} (F(1 := F 1 @ replicate 16 0)) + card (used (length (concat (snd f)))) \<le> 1000"
    using Cons.prems(7) by simp
  then obtain D1 u where u: "mk_file 1 f s = Inr u" "m_freeinode u = of_nat (Suc n)" "mk_ok sbk D1 {1..<Suc n} ?F u"
    "i_type (D1 n) = T_FILE" "\<forall>i \<in> {1..<n}. i_type (D1 i) = i_type (D i)"
    using mk_file_ok [OF Cons.prems(1-3), of f] Cons.prems(3-6) by auto
  have e: "?F(1 := ?F 1 @ x) = (F(1 := (F 1 @ ?e) @ x))(n := concat (snd f))" for x using Cons.prems(3) by auto
  have "need {1..<Suc n} (?F(1 := ?F 1 @ replicate (16 * length fs) 0))
      = need {1..<n} (F(1 := (F 1 @ ?e) @ replicate (16 * length fs) 0)) + card (used (length (concat (snd f))))"
    unfolding e using need_insert [of "{1..<n}" n] Cons.prems(3) by (simp add: atLeastLessThanSuc del: fun_upd_apply)
  also have "need {1..<n} (F(1 := (F 1 @ ?e) @ replicate (16 * length fs) 0)) = need {1..<n} (F(1 := F 1 @ replicate (16 * length (f # fs)) 0))"
    by (rule need_length) simp
  finally have room: "59 + need {1..<Suc n} (?F(1 := ?F 1 @ replicate (16 * length fs) 0))
      + (\<Sum>f \<leftarrow> fs. card (used (length (concat (snd f))))) \<le> 1000"
    using Cons.prems(7) unfolding list.map sum_list.Cons by linarith
  have l: "length (?F 1) + 16 * length fs \<le> 71680" "2 \<le> Suc n" "Suc n + length fs \<le> 208" "\<forall>f \<in> set fs. file_limits f"
    using Cons.prems(3-6) by auto
  obtain D' F' t where t: "forE (mk_file 1) fs u = Inr t" "mk_ok sbk D' {1..<Suc n + length fs} F' t"
    "F' 1 = ?F 1 @ dir_entries (Suc n) (map fst fs)" "\<forall>i. 1 < i \<and> i < Suc n \<longrightarrow> F' i = ?F i"
    "\<forall>k < length fs. F' (Suc n + k) = concat (snd (fs ! k)) \<and> i_type (D' (Suc n + k)) = T_FILE"
    "\<forall>i \<in> {1..<Suc n}. i_type (D' i) = i_type (D1 i)"
    using Cons.IH [OF u(3,2) l(2,3,4,1) room] by blast
  have "F' (n + k) = concat (snd ((f # fs) ! k)) \<and> i_type (D' (n + k)) = T_FILE" if "k < length (f # fs)" for k
    using t(4,5,6) u(4) that Cons.prems(3) by (cases k) auto
  then show ?case using u(1,5) t Cons.prems(3) by (intro exI [of _ D'] exI [of _ F'] exI [of _ t]) auto
qed

section \<open>The whole image\<close>

lemma mk_start_eq:
  "mk_start = \<lparr>m_img = (replicate 1000 zeroes)[1 := put32s zeroes 0 [sb_size mk_sb, sb_nblocks mk_sb, sb_ninodes mk_sb, sb_nlog mk_sb,
     sb_logstart mk_sb, sb_inodestart mk_sb, sb_bmapstart mk_sb]], m_freeinode = 1, m_freeblock = 59\<rparr>"
proof -
  have "fold (\<lambda>i. wsect (of_nat i) zeroes) [0..<n] \<lparr>m_img = [], m_freeinode = 1, m_freeblock = of_nat nmeta\<rparr>
      = \<lparr>m_img = replicate n zeroes, m_freeinode = 1, m_freeblock = 59\<rparr>" if "n \<le> 1000" for n
    using that
  proof (induction n)
    case (Suc n)
    then have "sector (of_nat n) = n" using sector_small [of "of_nat n"] by (simp add: unat_of_nat)
    then show ?case using Suc by (simp add: wsect_def list_update_append replicate_append_same)
  qed (simp add: mk_sb_sel)
  then show ?thesis by (simp add: mk_start_def FSSIZE_def wsect_small Let_def)
qed

lemma bm_mk_bitmap: "n \<le> 4096 \<Longrightarrow> length (mk_bitmap n) = BSIZE \<and> (\<forall>b < 4096. bm_bit (mk_bitmap n) b \<longleftrightarrow> b < n)"
proof (induction n)
  case 0
  show ?case by (simp add: mk_bitmap_def bm_bit_def BSIZE_def less_mult_imp_div_less)
next
  case (Suc n)
  have "mk_bitmap (Suc n) = (mk_bitmap n)[n div 8 := mk_bitmap n ! (n div 8) OR bit_mask n]" by (simp add: mk_bitmap_def)
  then show ?case using Suc bm_set(1) [of "mk_bitmap n" _ n] by (auto simp: BPB_def less_Suc_eq)
qed

lemma mk_finish_ok:
  assumes ok: "mk_ok sbk D N F s" and N: "1 \<in> N"
  shows "\<exists>t D'. mk_finish 1 s = Inr t \<and> blocks_ok D' (space F) N t \<and> files_ok D' N F t
    \<and> (\<forall>i \<in> N. dinode_at t i = D' i) \<and> m_img t ! 1 = sbk
    \<and> D' = D(1 := (D 1)\<lparr>i_size := (of_nat (length (F 1)) div 512 + 1) * 512\<rparr>)
    \<and> (\<forall>b < 1000. bm_bit (m_img t ! 58) b \<longleftrightarrow> b < unat (m_freeblock t))"
proof -
  have bf: "blocks_ok D (space F) N s" "files_ok D N F s" and sub: "N \<subseteq> {1..<208}"
    and d: "\<And>j. j \<in> N \<Longrightarrow> dinode_at s j = D j \<and> i_size (D j) = of_nat (length (F j))" and sbk: "m_img s ! 1 = sbk"
    using ok by (auto simp: mk_ok_def)
  have img: "length (m_img s) = 1000" "length (m_img s ! 32) = 512" "unat (m_freeblock s) \<le> 1000"
    using bf(1) by (auto simp: blocks_ok_def img_ok_def)
  let ?din = "(D 1)\<lparr>i_size := (of_nat (length (F 1)) div 512 + 1) * 512\<rparr>" let ?D = "D(1 := ?din)"
  let ?u = "s\<lparr>m_img := (m_img s)[32 := put_dinode (m_img s ! 32) 64 ?din]\<rparr>"
  have l: "length (i_addrs ?din) = 13" using blocks_okD(1) [OF bf(1) N] by simp
  have io: "rinode 1 s = Inr (D 1)" "winode 1 ?din s = Inr ?u" using inode_io(1) [of 1 s] inode_io(2) [of 1 s ?din] img(1) d [OF N] by simp_all
  have u: "blocks_ok ?D (space F) N ?u \<and> files_ok ?D N F ?u" using winode_keeps [OF bf, of 1 ?din] l by simp
  have bh: "blank_head ?din" using blank_dinode [of s 1] d [OF N] by (simp add: blank_head_def)
  have du: "dinode_at ?u j = ?D j" if "j \<in> N" for j
    using dinode_at_put [of 1 j s ?din] that sub img bh l d [OF that] by auto
  let ?bm = "mk_bitmap (unat (m_freeblock s))" let ?t = "?u\<lparr>m_img := (m_img ?u)[58 := ?bm]\<rparr>"
  have bm: "length ?bm = 512" "\<forall>b < 4096. bm_bit ?bm b \<longleftrightarrow> b < unat (m_freeblock s)"
    using bm_mk_bitmap [of "unat (m_freeblock s)"] img(3) by (auto simp: BSIZE_def)
  have "blocks_ok ?D (space F) N ?t \<and> files_ok ?D N F ?t"
    by (rule head_write [OF u [THEN conjunct1] u [THEN conjunct2]]) (use bm(1) in auto)
  moreover have "dinode_at ?t j = ?D j" if "j \<in> N" for j
  proof -
    have "j < 208" using that sub by auto
    then have "32 + j div 8 \<noteq> 58" by (simp add: less_mult_imp_div_less less_imp_neq)
    then have "dinode_at ?t j = dinode_at ?u j" by (simp add: dinode_at_def)
    then show ?thesis using du [OF that] by simp
  qed
  moreover have "mk_finish 1 s = Inr ?t"
  proof -
    have "sint (m_freeblock s) = int (unat (m_freeblock s))" using img(3) by (intro sint_small) simp
    moreover have "wsect 58 d ?u = ?u\<lparr>m_img := (m_img ?u)[58 := d]\<rparr>" for d using img(1) wsect_small [of 58 ?u d] by simp
    moreover have "uint (m_freeblock s) < 4096" using img(3) unfolding uint_nat by linarith
    ultimately show ?thesis
      using io img(3) d [OF N] unfolding mk_finish_def by (simp add: mk_balloc_def mk_sb_sel BSIZE_def guardE_def Let_def)
  qed
  ultimately show ?thesis using sbk bm img(1) by (intro exI [of _ ?t] exI [of _ ?D]) auto
qed

text \<open>The number of blocks of a file with \<open>n\<close> bytes, the indirect block included.\<close>

definition blocks_for :: "nat \<Rightarrow> nat" where
  "blocks_for n = (n + 511) div 512 + (if 6144 < n then 1 else 0)"

lemma card_used: "n \<le> 71680 \<Longrightarrow> card (used n) = blocks_for n"
proof -
  assume n: "n \<le> 71680"
  have "{k. k < 140 \<and> 512 * k < n} = {..<(n + 511) div 512}" using n by auto
  moreover have "140 \<notin> {..<(n + 511) div 512}" using n by simp
  ultimately show ?thesis by (simp add: used_def blocks_for_def)
qed

text \<open>The blocks of the files are all the blocks that were handed out.\<close>

lemma blocks_used:
  assumes ok: "blocks_ok D S N s" and b: "59 \<le> b"
  shows "b < unat (m_freeblock s) \<longleftrightarrow> (\<exists>i \<in> N. \<exists>k \<le> 140. unat (slot_addr s (D i) k) = b)"
proof -
  let ?g = "\<lambda>(i, k). unat (slot_addr s (D i) k)" let ?fb = "unat (m_freeblock s)"
  have "inj_on ?g (Sigma N S)"
    using ok unfolding blocks_ok_def inj_on_def by (auto simp: word_unat_eq_iff [symmetric])
  moreover have "card (Sigma N S) = ?fb - 59" using ok blocks_okD(8) [OF ok] by (simp add: blocks_ok_def)
  ultimately have "card (?g ` Sigma N S) = card {59..<?fb}" by (simp add: card_image)
  moreover have "?g ` Sigma N S \<subseteq> {59..<?fb}" using blocks_okD(5,6) [OF ok] by auto
  ultimately have e: "?g ` Sigma N S = {59..<?fb}" using card_subset_eq [of "{59..<?fb}"] by simp
  have "b < ?fb \<longleftrightarrow> b \<in> ?g ` Sigma N S" unfolding e using b by simp
  also have "\<dots> \<longleftrightarrow> (\<exists>i \<in> N. \<exists>k \<in> S i. unat (slot_addr s (D i) k) = b)" by auto
  also have "\<dots> \<longleftrightarrow> (\<exists>i \<in> N. \<exists>k \<le> 140. unat (slot_addr s (D i) k) = b)"
  proof (intro iffI; elim bexE exE conjE)
    fix i k assume "i \<in> N" "k \<in> S i" "unat (slot_addr s (D i) k) = b"
    then show "\<exists>i \<in> N. \<exists>k \<le> 140. unat (slot_addr s (D i) k) = b" using blocks_okD(2) [OF ok] by blast
  next
    fix i k assume k: "i \<in> N" "k \<le> 140" "unat (slot_addr s (D i) k) = b"
    then have "k \<in> S i" using blocks_okD(4) [OF ok, of i k] b by (cases "k \<in> S i") auto
    then show "\<exists>i \<in> N. \<exists>k \<in> S i. unat (slot_addr s (D i) k) = b" using k by blast
  qed
  finally show ?thesis .
qed

text \<open>A byte of a file, found by its inode on the image, and the superblock as readsb of the kernel decodes it.\<close>

definition image_byte :: "mkfs \<Rightarrow> nat \<Rightarrow> nat \<Rightarrow> u8" where
  "image_byte s i j = m_img s ! unat (slot_addr s (dinode_at s i) (j div 512)) ! (j mod 512)"

definition superblock_of :: "u8 list \<Rightarrow> superblock" where
  "superblock_of d = \<lparr>sb_size = get32 d 0, sb_nblocks = get32 d 4, sb_ninodes = get32 d 8, sb_nlog = get32 d 12,
     sb_logstart = get32 d 16, sb_inodestart = get32 d 20, sb_bmapstart = get32 d 24\<rparr>"

definition root_bytes :: "(u8 list \<times> u8 list list) list \<Rightarrow> u8 list" where
  "root_bytes files = dirent 1 (map of_char ''.'') @ dirent 1 (map of_char ''..'') @ dir_entries 2 (map fst files)"

lemma superblock_written:
  "superblock_of (put32s zeroes 0 [sb_size sp, sb_nblocks sp, sb_ninodes sp, sb_nlog sp, sb_logstart sp, sb_inodestart sp, sb_bmapstart sp]) = sp"
proof -
  let ?ws = "[sb_size sp, sb_nblocks sp, sb_ninodes sp, sb_nlog sp, sb_logstart sp, sb_inodestart sp, sb_bmapstart sp]"
  have f: "get32 (put32s zeroes 0 ?ws) (4 * i) = ?ws ! i" if "i < 7" for i
    using get32_put32s_nth [of 0 ?ws zeroes i] that by (simp add: zeroes_def BSIZE_def)
  show ?thesis
    using f [of 0] f [of 1] f [of 2] f [of 3] f [of 4] f [of 5] f [of 6] by (simp add: superblock_of_def del: put32s.simps)
qed

text \<open>The state before the files are copied.\<close>

lemma mk_root_ok:
  obtains s D sbk where "mk_ok sbk D {1..<2} ((\<lambda>_. [])(1 := dirent 1 (map of_char ''.'') @ dirent 1 (map of_char ''..''))) s"
    "m_freeinode s = 2" "i_type (D 1) = T_DIR" "superblock_of sbk = mk_sb"
    "\<And>files. mkfs_main files = bindE (forE (mk_file 1) files s) (mk_finish 1)"
proof -
  let ?sbk = "m_img mk_start ! 1" let ?a = "dirent 1 (map of_char ''.'')" let ?b = "dirent 1 (map of_char ''..'')"
  let ?D = "\<lambda>_ :: nat. dinode0\<lparr>i_type := T_DIR, i_nlink := 1\<rparr>"
  have z: "length zeroes = 512" by (simp add: zeroes_def BSIZE_def)
  have "mk_ok ?sbk ?D {} (\<lambda>_. []) mk_start"
    using z by (auto simp: mk_ok_def blocks_ok_def img_ok_def files_ok_def mk_start_eq nth_list_update)
  then obtain s1 where s1: "mk_ialloc T_DIR mk_start = Inr (1, s1)" "m_freeinode s1 = 2"
    "mk_ok ?sbk (?D(1 := dinode0\<lparr>i_type := T_DIR, i_nlink := 1\<rparr>)) {1} ((\<lambda>_. [])(1 := [])) s1"
    using mk_ialloc_ok [of ?sbk ?D "{}" "\<lambda>_. []" mk_start 1 T_DIR] by (auto simp: mk_start_eq)
  have id: "?D(1 := dinode0\<lparr>i_type := T_DIR, i_nlink := 1\<rparr>) = ?D" "((\<lambda>_. [])(1 := [])) = (\<lambda>_ :: nat. [] :: u8 list)" by auto
  have used: "card (used 16) = 1" "card (used 32) = 1" using card_used [of 16] card_used [of 32] by (simp_all add: blocks_for_def)
  obtain as s2 where s2: "iappend 1 ?a s1 = Inr s2" "m_freeinode s2 = 2"
    "mk_ok ?sbk (?D(1 := (?D 1)\<lparr>i_addrs := as, i_size := 16\<rparr>)) {1} ((\<lambda>_. [])(1 := ?a)) s2"
    using iappend_ok [OF s1(3), of 1 ?a] s1(2) used by (auto simp: id)
  obtain as' s3 where s3: "iappend 1 ?b s2 = Inr s3" "m_freeinode s3 = 2"
    "mk_ok ?sbk (?D(1 := (?D 1)\<lparr>i_addrs := as', i_size := 32\<rparr>)) {1} ((\<lambda>_. [])(1 := ?a @ ?b)) s3"
    using iappend_ok [OF s2(3), of 1 ?b] s2(2) used by auto
  have N: "{1..<2} = {1 :: nat}" by auto
  show ?thesis
  proof (rule that [OF s3(3) [folded N] s3(2)])
    show "superblock_of ?sbk = mk_sb" using superblock_written [of mk_sb] by (simp add: mk_start_eq)
    show "mkfs_main files = bindE (forE (mk_file 1) files s3) (mk_finish 1)" for files
      using s1(1) s2(1) s3(1) by (simp add: mkfs_main_def ROOTINO_def guardE_def)
  qed simp
qed

lemma image_blocks:
  assumes ok: "blocks_ok D S N t" and d: "\<forall>i \<in> N. dinode_at t i = D i"
    and bm: "\<forall>b < 1000. bm_bit (m_img t ! 58) b \<longleftrightarrow> b < unat (m_freeblock t)"
  shows "\<forall>b < 1000. bm_bit (m_img t ! 58) b \<longleftrightarrow> b < 59 \<or> (\<exists>i \<in> N. \<exists>k \<le> 140. unat (slot_addr t (dinode_at t i) k) = b)"
    "inj_on (\<lambda>(i, k). slot_addr t (dinode_at t i) k) {(i, k). i \<in> N \<and> k \<le> 140 \<and> slot_addr t (dinode_at t i) k \<noteq> 0}"
proof -
  have "59 \<le> unat (m_freeblock t)" using ok by (simp add: blocks_ok_def)
  then have "b < unat (m_freeblock t) \<longleftrightarrow> b < 59 \<or> (\<exists>i \<in> N. \<exists>k \<le> 140. unat (slot_addr t (D i) k) = b)" for b
    using blocks_used [OF ok, of b] by (cases "b < 59") auto
  then show "\<forall>b < 1000. bm_bit (m_img t ! 58) b \<longleftrightarrow> b < 59 \<or> (\<exists>i \<in> N. \<exists>k \<le> 140. unat (slot_addr t (dinode_at t i) k) = b)"
    using bm d by simp
  have "{(i, k). i \<in> N \<and> k \<le> 140 \<and> slot_addr t (dinode_at t i) k \<noteq> 0} \<subseteq> Sigma N S"
    using d blocks_okD(4) [OF ok] by fastforce
  moreover have "inj_on (\<lambda>(i, k). slot_addr t (dinode_at t i) k) (Sigma N S) = inj_on (\<lambda>(i, k). slot_addr t (D i) k) (Sigma N S)"
    by (rule inj_on_cong) (use d in auto)
  ultimately show "inj_on (\<lambda>(i, k). slot_addr t (dinode_at t i) k) {(i, k). i \<in> N \<and> k \<le> 140 \<and> slot_addr t (dinode_at t i) k \<noteq> 0}"
    using ok inj_on_subset unfolding blocks_ok_def by blast
qed

lemma length_dir_entries [simp]: "length (dir_entries n xs) = 16 * length xs"
  by (induction xs arbitrary: n) simp_all

lemma length_root_bytes [simp]: "length (root_bytes files) = 32 + 16 * length files"
  by (simp add: root_bytes_def)

text \<open>
  C11. mkfs builds a file system image that holds the given files. For up to 198 files that fit, each at most 140 blocks long and without a slash in
  its name, it returns, and on its image: the superblock is the one the kernel expects; inode 1 is a directory whose
  bytes are the entries for \<open>.\<close>, \<open>..\<close> and the files; inode \<open>2 + k\<close> is a file with the size and the bytes of the \<open>k\<close>th file; the bitmap
  marks exactly the blocks before the data area and the blocks that an inode refers to; and no block is referred to twice.
\<close>

theorem mkfs_builds:
  assumes "\<forall>f \<in> set files. file_limits f" "length files \<le> 198"
    and "59 + blocks_for (32 + 16 * length files) + (\<Sum>f \<leftarrow> files. blocks_for (length (concat (snd f)))) \<le> 1000"
  defines "N \<equiv> {1..<2 + length files}"
  shows "\<exists>s. mkfs_main files = Inr s \<and> superblock_of (m_img s ! 1) = mk_sb \<and> i_type (dinode_at s 1) = T_DIR
    \<and> (\<forall>j < 32 + 16 * length files. image_byte s 1 j = root_bytes files ! j)
    \<and> (\<forall>k < length files. let c = concat (snd (files ! k)) in i_type (dinode_at s (2 + k)) = T_FILE
        \<and> i_size (dinode_at s (2 + k)) = of_nat (length c) \<and> (\<forall>j < length c. image_byte s (2 + k) j = c ! j))
    \<and> (\<forall>b < 1000. bm_bit (m_img s ! 58) b \<longleftrightarrow> b < 59 \<or> (\<exists>i \<in> N. \<exists>k \<le> 140. unat (slot_addr s (dinode_at s i) k) = b))
    \<and> inj_on (\<lambda>(i, k). slot_addr s (dinode_at s i) k) {(i, k). i \<in> N \<and> k \<le> 140 \<and> slot_addr s (dinode_at s i) k \<noteq> 0}"
proof -
  let ?r = "dirent 1 (map of_char ''.'') @ dirent 1 (map of_char ''..'')" let ?n = "length files"
  obtain s D sbk where s: "mk_ok sbk D {1..<2} ((\<lambda>_. [])(1 := ?r)) s" "m_freeinode s = of_nat 2" "i_type (D 1) = T_DIR"
    "superblock_of sbk = mk_sb" "mkfs_main files = bindE (forE (mk_file 1) files s) (mk_finish 1)"
    using mk_root_ok by (metis of_nat_numeral)
  have c: "card (used (length (concat (snd f)))) = blocks_for (length (concat (snd f)))" if "f \<in> set files" for f
    using assms(1) that by (intro card_used) (auto simp: file_limits_def)
  have "need {1..<2} (((\<lambda>_. [])(1 := ?r))(1 := ((\<lambda>_. [])(1 := ?r)) 1 @ replicate (16 * ?n) 0)) = blocks_for (32 + 16 * ?n)"
    using card_used [of "32 + 16 * ?n"] assms(2) by (simp add: numeral_2_eq_2)
  then have room: "59 + need {1..<2} (((\<lambda>_. [])(1 := ?r))(1 := ((\<lambda>_. [])(1 := ?r)) 1 @ replicate (16 * ?n) 0))
      + (\<Sum>f \<leftarrow> files. card (used (length (concat (snd f))))) \<le> 1000"
    using assms(3) c by (simp cong: map_cong)
  obtain D' F' u where u: "forE (mk_file 1) files s = Inr u" "mk_ok sbk D' N F' u" "F' 1 = root_bytes files"
    "\<And>k. k < ?n \<Longrightarrow> F' (2 + k) = concat (snd (files ! k)) \<and> i_type (D' (2 + k)) = T_FILE" "i_type (D' 1) = T_DIR"
    using mk_files_ok [OF s(1,2) order_refl _ assms(1) _ room] assms(2) s(3) unfolding N_def root_bytes_def by auto
  obtain t D2 where t: "mk_finish 1 u = Inr t" "m_img t ! 1 = sbk"
    and b: "blocks_ok D2 (space F') N t" "files_ok D2 N F' t" "\<forall>i \<in> N. dinode_at t i = D2 i"
    and D2: "D2 = D'(1 := (D' 1)\<lparr>i_size := (of_nat (length (F' 1)) div 512 + 1) * 512\<rparr>)"
    and bm: "\<forall>b < 1000. bm_bit (m_img t ! 58) b \<longleftrightarrow> b < unat (m_freeblock t)"
    using mk_finish_ok [OF u(2)] unfolding N_def by auto
  have "image_byte t i j = F' i ! j" if "i \<in> N" "j < length (F' i)" for i j
    using b(2,3) that by (simp add: image_byte_def files_ok_def)
  moreover have "i_size (D' i) = of_nat (length (F' i))" if "i \<in> N" for i using u(2) that by (simp add: mk_ok_def)
  ultimately show ?thesis
    using t s(4,5) u image_blocks [OF b(1,3) bm] b(3) D2 by (intro exI [of _ t]) (auto simp: N_def Let_def)
qed

theorem mkfs_builds_witness:
  "\<exists>s. mkfs_main [(map of_char ''_cat'', [[1, 2, 3], [4]])] = Inr s \<and> i_size (dinode_at s 2) = 4 \<and> image_byte s 2 3 = 4
    \<and> image_byte s 1 (32 + 2) = of_char (CHR ''c'') \<and> bm_bit (m_img s ! 58) 58"
proof -
  let ?fs = "[(map of_char ''_cat'' :: u8 list, [[1, 2, 3], [4]] :: u8 list list)]"
  have r: "root_bytes ?fs ! 34 = of_char (CHR ''c'')" by code_simp
  show ?thesis
    using mkfs_builds [of ?fs] r by (auto simp: file_limits_def blocks_for_def Let_def)
qed

text \<open>
  The number of files is not tested: the inode with number 208 lies in the block of the bitmap, and the inodes from 200 on are beyond
  the number that the superblock states.
\<close>

lemma inode_in_bitmap: "IBLOCK 208 mk_sb = sb_bmapstart mk_sb"
  by (simp add: IBLOCK_def IPB_def mk_sb_sel)

end
