(* ===== verification/Grep.thy ===== *)
theory Grep
  imports Prelude
begin

text \<open>
  The user program grep (grep.c): the regular expression matcher with its operators \<open>^ . * $\<close>, and the
  loop that reads a file into a buffer of 1024 bytes and prints the lines that match. A C string is
  the list of the characters before its NUL.
\<close>

section \<open>The matcher\<close>

fun matchhere :: "string \<Rightarrow> string \<Rightarrow> bool"
  and matchstar :: "char \<Rightarrow> string \<Rightarrow> string \<Rightarrow> bool"
where
  "matchhere [] xs = True"
| "matchhere (r # re) xs =
    (if re \<noteq> [] \<and> hd re = CHR ''*'' then matchstar r (tl re) xs
     else if r = CHR ''$'' \<and> re = [] then xs = []
     else case xs of [] \<Rightarrow> False | x # t \<Rightarrow> (r = CHR ''.'' \<or> r = x) \<and> matchhere re t)"
| "matchstar c re xs =
    (matchhere re xs \<or> (case xs of [] \<Rightarrow> False | x # t \<Rightarrow> (x = c \<or> c = CHR ''.'') \<and> matchstar c re t))"

text \<open>The \<open>do \<dots> while(*text++ != 0)\<close> of match.\<close>

fun match_from :: "string \<Rightarrow> string \<Rightarrow> bool" where
  "match_from re xs = (matchhere re xs \<or> (case xs of [] \<Rightarrow> False | x # t \<Rightarrow> match_from re t))"

definition match :: "string \<Rightarrow> string \<Rightarrow> bool" where
  "match re xs =
    (if re \<noteq> [] \<and> hd re = CHR ''^'' then matchhere (tl re) xs else match_from re xs)"

declare match_from.simps [simp del] matchhere.simps(2) [simp del] matchstar.simps [simp del]

section \<open>The lines of a file\<close>

definition NL :: char where "NL = CHR 0x0A"

text \<open>\<open>strchr(p, '\n')\<close>: the search stops at a NUL.\<close>

fun line_end :: "string \<Rightarrow> nat option" where
  "line_end [] = None"
| "line_end (c # cs) =
    (if c = CHR 0x00 then None else if c = NL then Some 0 else map_option Suc (line_end cs))"

lemma line_end_length: "line_end p = Some k \<Longrightarrow> k < length p"
  by (induction p arbitrary: k) (auto split: if_splits)

text \<open>The inner loop of grep from \<open>p\<close> on: what it writes, and where \<open>p\<close> stands at its end.\<close>

function grep_lines :: "string \<Rightarrow> string \<Rightarrow> string \<times> string" where
  "grep_lines pattern p =
    (case line_end p of
       None \<Rightarrow> ([], p)
     | Some k \<Rightarrow>
       let (out, rest) = grep_lines pattern (drop (Suc k) p) in
       ((if match pattern (take k p) then take (Suc k) p else []) @ out, rest))"
  by pat_completeness auto

termination
  by (relation "measure (\<lambda>(pattern, p). length p)") (auto dest: line_end_length)

declare grep_lines.simps [simp del]

text \<open>
  The loop of grep with the first \<open>m\<close> bytes \<open>buf\<close> of the buffer filled: the results of the calls of read
  are given as a list, an empty one for a result of 0 or -1. The read call never returns more than
  it is asked for.
\<close>

fun grep :: "string \<Rightarrow> string \<Rightarrow> string list \<Rightarrow> string result" where
  "grep pattern buf [] = Inr []"
| "grep pattern buf (c # cs) =
    (if c = [] then Inr []
     else bindE (guardE (length c \<le> 1024 - length buf - 1) BadAccess) (\<lambda>_.
       let b = buf @ c; (out, p) = grep_lines pattern b in
       bindE (grep pattern (if length p = length b then [] else p) cs) (\<lambda>t. Inr (out @ t))))"

section \<open>What a pattern means\<close>

text \<open>
  A pattern is a sequence of single characters and starred characters, and the mark whether it ends in
  \<open>$\<close>. Each item has a language; a pattern matches at the beginning of a text when a prefix of
  the text, or the whole text if the pattern ends in \<open>$\<close>, is in the concatenation of the languages.
\<close>

datatype item = One char | Many char

definition char_ok :: "char \<Rightarrow> char \<Rightarrow> bool" where
  "char_ok c x \<longleftrightarrow> c = CHR ''.'' \<or> x = c"

primrec item_lang :: "item \<Rightarrow> string set" where
  "item_lang (One c) = {[x] |x. char_ok c x}"
| "item_lang (Many c) = {w. \<forall>x \<in> set w. char_ok c x}"

primrec lang :: "item list \<Rightarrow> string set" where
  "lang [] = {[]}"
| "lang (i # ps) = {u @ v |u v. u \<in> item_lang i \<and> v \<in> lang ps}"

fun items :: "string \<Rightarrow> item list \<times> bool" where
  "items [] = ([], False)"
| "items [r] = (if r = CHR ''$'' then ([], True) else ([One r], False))"
| "items (r # c # re) =
    (if c = CHR ''*'' then apfst ((#) (Many r)) (items re) else apfst ((#) (One r)) (items (c # re)))"

definition matches_at :: "string \<Rightarrow> string \<Rightarrow> bool" where
  "matches_at re xs \<longleftrightarrow> (\<exists>u v. xs = u @ v \<and> u \<in> lang (fst (items re)) \<and> (snd (items re) \<longrightarrow> v = []))"

definition matches :: "string \<Rightarrow> string \<Rightarrow> bool" where
  "matches re xs \<longleftrightarrow> (case re of
      CHR ''^'' # re' \<Rightarrow> matches_at re' xs
    | _ \<Rightarrow> (\<exists>p t. xs = p @ t \<and> matches_at re t))"

lemma matches_at_Nil [simp]: "matches_at [] xs"
  by (simp add: matches_at_def)

lemma matches_at_end: "matches_at [CHR ''$''] xs \<longleftrightarrow> xs = []"
  by (simp add: matches_at_def)

lemma matches_at_Cons:
  assumes "items re' = apfst ((#) i) (items re)"
  shows "matches_at re' xs \<longleftrightarrow> (\<exists>w t. xs = w @ t \<and> w \<in> item_lang i \<and> matches_at re t)"
proof
  have i: "fst (items re') = i # fst (items re)" "snd (items re') = snd (items re)" using assms by simp_all
  { assume "matches_at re' xs"
    then obtain u v where "xs = u @ v" "u \<in> lang (i # fst (items re))" and v: "snd (items re) \<longrightarrow> v = []"
      unfolding matches_at_def i by blast
    then obtain w w' where "xs = w @ w' @ v" "w \<in> item_lang i" "w' \<in> lang (fst (items re))" by auto
    then show "\<exists>w t. xs = w @ t \<and> w \<in> item_lang i \<and> matches_at re t" unfolding matches_at_def using v by blast }
  assume "\<exists>w t. xs = w @ t \<and> w \<in> item_lang i \<and> matches_at re t"
  then obtain w w' v where w: "xs = w @ w' @ v" "w \<in> item_lang i" "w' \<in> lang (fst (items re))" "snd (items re) \<longrightarrow> v = []"
    unfolding matches_at_def by blast
  then have "w @ w' \<in> lang (i # fst (items re))" "xs = (w @ w') @ v" by auto
  with w(4) show "matches_at re' xs" unfolding matches_at_def i by blast
qed

lemma matches_at_one:
  assumes "re = [] \<longrightarrow> r \<noteq> CHR ''$''" "re \<noteq> [] \<longrightarrow> hd re \<noteq> CHR ''*''"
  shows "matches_at (r # re) xs \<longleftrightarrow> (\<exists>x t. xs = x # t \<and> char_ok r x \<and> matches_at re t)"
proof -
  have "items (r # re) = apfst ((#) (One r)) (items re)" using assms by (cases re) auto
  from matches_at_Cons [OF this, of xs] show ?thesis by simp (metis append_Cons append_Nil)
qed

lemma matches_at_many: "matches_at (c # CHR ''*'' # re) xs
  \<longleftrightarrow> (\<exists>u t. xs = u @ t \<and> (\<forall>x \<in> set u. char_ok c x) \<and> matches_at re t)"
  by (simp add: matches_at_Cons [of _ "Many c" re])

lemma matches_at_many_unfold: "matches_at (c # CHR ''*'' # re) xs
  \<longleftrightarrow> matches_at re xs \<or> (\<exists>x t. xs = x # t \<and> char_ok c x \<and> matches_at (c # CHR ''*'' # re) t)"
proof
  assume "matches_at (c # CHR ''*'' # re) xs"
  then obtain u t where u: "xs = u @ t" "\<forall>x \<in> set u. char_ok c x" "matches_at re t" by (auto simp: matches_at_many)
  show "matches_at re xs \<or> (\<exists>x t. xs = x # t \<and> char_ok c x \<and> matches_at (c # CHR ''*'' # re) t)"
  proof (cases u)
    case (Cons x u')
    then show ?thesis using u by (auto simp: matches_at_many)
  qed (use u in simp)
next
  assume "matches_at re xs \<or> (\<exists>x t. xs = x # t \<and> char_ok c x \<and> matches_at (c # CHR ''*'' # re) t)"
  then show "matches_at (c # CHR ''*'' # re) xs"
  proof
    assume "matches_at re xs"
    then show ?thesis unfolding matches_at_many by (intro exI [of _ "[]"] exI [of _ xs]) simp
  next
    assume "\<exists>x t. xs = x # t \<and> char_ok c x \<and> matches_at (c # CHR ''*'' # re) t"
    then obtain x u t where "xs = x # u @ t" "char_ok c x" "\<forall>y \<in> set u. char_ok c y" "matches_at re t"
      by (auto simp: matches_at_many)
    then show ?thesis unfolding matches_at_many by (intro exI [of _ "x # u"] exI [of _ t]) simp
  qed
qed

text \<open>The matcher decides it.\<close>

lemma matchhere_matches:
  "matchhere re xs = matches_at re xs"
  "matchstar c re' xs' = matches_at (c # CHR ''*'' # re') xs'"
proof (induction re xs and c re' xs' rule: matchhere_matchstar.induct)
  case (2 r re xs)
  show ?case
  proof (cases "re \<noteq> [] \<and> hd re = CHR ''*''")
    case True
    then have "r # re = r # CHR ''*'' # tl re" by (cases re) auto
    then show ?thesis using 2(1) [OF True] True by (simp add: matchhere.simps(2))
  next
    case False
    then show ?thesis using 2(2)
      by (cases "r = CHR ''$'' \<and> re = []") (auto simp: matchhere.simps(2) matches_at_end matches_at_one char_ok_def split: list.splits)
  qed
next
  case (3 c re xs)
  then show ?case
    by (subst matchstar.simps, subst matches_at_many_unfold) (auto simp: char_ok_def split: list.split)
qed simp

lemma match_from_matches: "match_from re xs \<longleftrightarrow> (\<exists>p t. xs = p @ t \<and> matches_at re t)"
proof (induction xs)
  case (Cons x xs)
  have "(\<exists>p t. x # xs = p @ t \<and> matches_at re t) \<longleftrightarrow> matches_at re (x # xs) \<or> (\<exists>p t. xs = p @ t \<and> matches_at re t)"
    by (auto simp: Cons_eq_append_conv)
  then show ?case by (simp add: match_from.simps [of re "x # xs"] Cons matchhere_matches)
qed (simp add: match_from.simps matchhere_matches)

lemma match_matches: "match re xs = matches re xs"
  by (cases re) (auto simp: match_def matches_def match_from_matches matchhere_matches split: char.splits bool.splits)

section \<open>What grep prints\<close>

text \<open>The complete lines of a text, without their newlines, and what follows the last newline.\<close>

fun lines_of :: "string \<Rightarrow> string list \<times> string" where
  "lines_of [] = ([], [])"
| "lines_of (c # cs) =
    (case lines_of cs of (ls, r) \<Rightarrow>
       if c = NL then ([] # ls, r)
       else (case ls of [] \<Rightarrow> ([], c # r) | l # ls \<Rightarrow> ((c # l) # ls, r)))"

definition print_lines :: "string list \<Rightarrow> string" where
  "print_lines ls = concat (map (\<lambda>l. l @ [NL]) ls)"

lemma lines_of_no_NL: "NL \<notin> set cs \<Longrightarrow> lines_of cs = ([], cs)"
  by (induction cs) auto

lemma lines_of_first: "NL \<notin> set l \<Longrightarrow> lines_of (l @ NL # cs) = (l # fst (lines_of cs), snd (lines_of cs))"
  by (induction l) (auto split: prod.split)

lemma lines_of_rest: "NL \<notin> set (snd (lines_of cs))"
  by (induction cs) (auto split: prod.split list.split)

lemma lines_of_rest_set: "set (snd (lines_of cs)) \<subseteq> set cs"
  by (induction cs) (auto split: prod.splits list.splits)

lemma lines_of_append:
  "lines_of (xs @ ys) = (fst (lines_of xs) @ fst (lines_of (snd (lines_of xs) @ ys)), snd (lines_of (snd (lines_of xs) @ ys)))"
  by (induction xs) (auto split: prod.split list.split)

lemma line_end_None: "CHR 0x00 \<notin> set p \<Longrightarrow> line_end p = None \<longleftrightarrow> NL \<notin> set p"
  by (induction p) auto

lemma line_end_Some:
  "line_end p = Some k \<Longrightarrow> p = take k p @ NL # drop (Suc k) p \<and> NL \<notin> set (take k p) \<and> p ! k = NL"
  by (induction p arbitrary: k) (auto split: if_splits)

lemma grep_lines_spec:
  "CHR 0x00 \<notin> set p \<Longrightarrow>
   grep_lines pattern p = (print_lines (filter (match pattern) (fst (lines_of p))), snd (lines_of p))"
proof (induction pattern p rule: grep_lines.induct)
  case (1 pattern p)
  show ?case
  proof (cases "line_end p")
    case None
    then show ?thesis using line_end_None [OF 1(2)] by (subst grep_lines.simps) (simp add: lines_of_no_NL print_lines_def)
  next
    case (Some k)
    note k = line_end_Some [OF Some]
    have z: "CHR 0x00 \<notin> set (drop (Suc k) p)" using 1(2) by (meson in_set_dropD)
    have t: "take (Suc k) p = take k p @ [NL]"
      using k line_end_length [OF Some] by (simp add: take_Suc_conv_app_nth)
    have "lines_of p = (take k p # fst (lines_of (drop (Suc k) p)), snd (lines_of (drop (Suc k) p)))"
      using lines_of_first k by metis
    then show ?thesis using 1(1) [OF Some z] Some t by (subst grep_lines.simps) (simp add: print_lines_def)
  qed
qed

lemma lines_of_shorter: "NL \<in> set cs \<Longrightarrow> length (snd (lines_of cs)) < length cs"
proof (induction cs)
  case (Cons c cs)
  have le: "length (snd (lines_of cs)) \<le> length cs"
    using Cons.IH lines_of_no_NL [of cs] by (cases "NL \<in> set cs") auto
  show ?case
  proof (cases "c = NL")
    case True
    then show ?thesis using le by (auto split: prod.split)
  next
    case False
    then have "length (snd (lines_of cs)) < length cs" using Cons by simp
    then show ?thesis using False by (auto split: prod.split list.split)
  qed
qed simp

lemma grep_spec:
  assumes "\<forall>c \<in> set cs. NL \<in> set c \<and> CHR 0x00 \<notin> set c" "NL \<notin> set buf" "CHR 0x00 \<notin> set buf"
    "\<forall>i < length cs. length (snd (lines_of (buf @ concat (take i cs)))) + length (cs ! i) \<le> 1023"
  shows "grep pattern buf cs = Inr (print_lines (filter (match pattern) (fst (lines_of (buf @ concat cs)))))"
  using assms
proof (induction cs arbitrary: buf)
  case Nil
  then show ?case by (simp add: lines_of_no_NL print_lines_def)
next
  case (Cons c cs)
  let ?b = "snd (lines_of (buf @ c))"
  have z: "CHR 0x00 \<notin> set (buf @ c)" using Cons.prems by auto
  have fits: "length c \<le> 1024 - length buf - 1" "c \<noteq> []"
    using Cons.prems(1) Cons.prems(4) [rule_format, of 0] by (auto simp: lines_of_no_NL [OF Cons.prems(2)])
  have ne: "length ?b \<noteq> length (buf @ c)" using lines_of_shorter [of "buf @ c"] Cons.prems(1) by simp
  have "\<forall>i < length cs. length (snd (lines_of (?b @ concat (take i cs)))) + length (cs ! i) \<le> 1023"
  proof (intro allI impI)
    fix i assume "i < length cs"
    then show "length (snd (lines_of (?b @ concat (take i cs)))) + length (cs ! i) \<le> 1023"
      using Cons.prems(4) [rule_format, of "Suc i"] lines_of_append [of "buf @ c" "concat (take i cs)"] by simp
  qed
  moreover have "CHR 0x00 \<notin> set ?b" using z lines_of_rest_set by blast
  ultimately have "grep pattern ?b cs = Inr (print_lines (filter (match pattern) (fst (lines_of (?b @ concat cs)))))"
    using Cons.IH [of ?b] Cons.prems(1) lines_of_rest by auto
  then show ?case using fits ne grep_lines_spec [OF z, of pattern] lines_of_append [of "buf @ c" "concat cs"]
    by (simp add: print_lines_def Let_def)
qed

text \<open>When a read brings no newline, the beginning of the line is lost.\<close>

lemma grep_drops:
  assumes "NL \<notin> set (buf @ c)" "c \<noteq> []" "length (buf @ c) \<le> 1023"
  shows "grep pattern buf (c # cs) = grep pattern [] cs"
proof -
  have "line_end (buf @ c) = None"
    using line_end_Some [of "buf @ c"] line_end_length [of "buf @ c"] nth_mem [of _ "buf @ c"] assms(1) by (metis option.exhaust)
  then have "grep_lines pattern (buf @ c) = ([], buf @ c)" by (subst grep_lines.simps) simp
  moreover have "length c \<le> 1024 - length buf - 1" using assms(3) by simp
  ultimately show ?thesis using assms(2) by (cases "grep pattern [] cs") (simp_all add: Let_def)
qed



end
