(* ===== verification/User.thy ===== *)
theory User
  imports Fs Fcntl Grep
begin

unbundle bit_operations_syntax

text \<open>
  User programs. A program is seen through the system calls that it makes: it is a function from the results of
  its calls, in their order, to the calls, together with its own result and the results that are left when
  it returns. \<open>None\<close> means that it has not returned: it waits for a result that is not there yet, has
  ended, or runs for ever. A call of fork has the result 0 in the child and the pid of the child in the parent; exec
  has a result only when it fails.

  The theory has the library functions printf, gets and stat (printf.c, ulib.c) and the programs cat, echo, grep
  (its main function), init, kill, ln, ls, mkdir, rm, wc, zombie, stressfs, forktest and the scheduler tests assig2_1 to assig2_5.
\<close>

section \<open>Calls and their results\<close>

datatype ucall =
    UFork | UExit | UWait | UPipe | UWrite int string | URead int nat | UClose int | UKill int
  | UExec string "string list" | UOpen string u32 | UMknod string int int | UUnlink string | UFstat int
  | ULink string string | UMkdir string | UChdir string | UDup int | UGetpid | USbrk int | USleep int | UUptime | UPrintinfo
  | USchedPolicy int int | UExecTime int int | UDeadline int int | URate int int

text \<open>The value returned, the bytes stored by read, the descriptors stored by pipe and the struct stored by fstat.\<close>

record ures =
  u_ret :: int
  u_data :: string
  u_fds :: "int \<times> int"
  u_stat :: stat

type_synonym 'a user = "ures list \<Rightarrow> ucall list \<times> ('a \<times> ures list) option"

definition retU :: "'a \<Rightarrow> 'a user" where
  "retU x rs = ([], Some (x, rs))"

definition bindU :: "'a user \<Rightarrow> ('a \<Rightarrow> 'b user) \<Rightarrow> 'b user" where
  "bindU m f rs = (case m rs of
      (cs, None) \<Rightarrow> (cs, None)
    | (cs, Some (x, rs)) \<Rightarrow> (case f x rs of (ds, y) \<Rightarrow> (cs @ ds, y)))"

definition sys :: "ucall \<Rightarrow> ures user" where
  "sys c rs = ([c], case rs of [] \<Rightarrow> None | r # rs \<Rightarrow> Some (r, rs))"

text \<open>A call whose result is not used, and the ends of a process.\<close>

definition do_sys :: "ucall \<Rightarrow> unit user" where
  "do_sys c = bindU (sys c) (\<lambda>_. retU ())"

definition uexit :: "'a user" where
  "uexit rs = ([UExit], None)"

definition hang :: "'a user" where
  "hang rs = ([], None)"

definition thenU :: "unit user \<Rightarrow> 'a user \<Rightarrow> 'a user" where
  "thenU m n = bindU m (\<lambda>_. n)"

definition whenU :: "bool \<Rightarrow> unit user \<Rightarrow> unit user" where
  "whenU b m = (if b then m else retU ())"

text \<open>
  A loop whose body goes on with \<open>Inr s\<close> and leaves it with \<open>Inl r\<close>. Each round makes a call, so that there are
  at most as many complete rounds as there are results.
\<close>

fun loopU :: "nat \<Rightarrow> ('s \<Rightarrow> ('r + 's) user) \<Rightarrow> 's \<Rightarrow> 'r user" where
  "loopU 0 f s rs = ([], None)"
| "loopU (Suc n) f s rs = bindU (f s) (\<lambda>x. case x of Inl r \<Rightarrow> retU r | Inr s' \<Rightarrow> loopU n f s') rs"

definition foreverU :: "('s \<Rightarrow> ('r + 's) user) \<Rightarrow> 's \<Rightarrow> 'r user" where
  "foreverU f s rs = loopU (Suc (length rs)) f s rs"

primrec forU :: "('x \<Rightarrow> unit user) \<Rightarrow> 'x list \<Rightarrow> unit user" where
  "forU f [] = retU ()"
| "forU f (x # xs) = thenU (f x) (forU f xs)"

text \<open>A \<open>for\<close> loop with a break: the body says whether to go on.\<close>

primrec for_breakU :: "('x \<Rightarrow> bool user) \<Rightarrow> 'x list \<Rightarrow> unit user" where
  "for_breakU f [] = retU ()"
| "for_breakU f (x # xs) = bindU (f x) (\<lambda>b. if b then for_breakU f xs else retU ())"

section \<open>The library\<close>

definition newline :: string where "newline = [CHR 0x0A]"

definition putc :: "int \<Rightarrow> char \<Rightarrow> unit user" where
  "putc fd c = do_sys (UWrite fd [c])"

definition printf :: "int \<Rightarrow> string \<Rightarrow> fmt_arg list \<Rightarrow> unit user" where
  "printf fd fmt as = (case printf_text fmt as of Inl _ \<Rightarrow> hang | Inr t \<Rightarrow> forU (putc fd) t)"

fun gets_loop :: "nat \<Rightarrow> string user" where
  "gets_loop 0 = retU []"
| "gets_loop (Suc k) =
    bindU (sys (URead 0 1)) (\<lambda>r.
    if u_ret r < 1 then retU []
    else
      let c = hd (u_data r) in
      if c = CHR 0x0A \<or> c = CHR 0x0D then retU [c]
      else bindU (gets_loop k) (\<lambda>t. retU (c # t)))"

definition gets :: "nat \<Rightarrow> string user" where
  "gets m = gets_loop (m - 1)"

text \<open>\<open>st\<close> is what the struct holds before the call.\<close>

definition ustat :: "string \<Rightarrow> stat \<Rightarrow> (int \<times> stat) user" where
  "ustat n st =
    bindU (sys (UOpen n O_RDONLY)) (\<lambda>f.
    if u_ret f < 0 then retU (- 1, st)
    else
      bindU (sys (UFstat (u_ret f))) (\<lambda>r.
      thenU (do_sys (UClose (u_ret f)))
        (retU (u_ret r, if u_ret r < 0 then st else u_stat r))))"

section \<open>Programs\<close>

text \<open>A line without arguments.\<close>

definition say :: "int \<Rightarrow> string \<Rightarrow> unit user" where
  "say fd t = printf fd (t @ newline) []"

definition cat :: "int \<Rightarrow> unit user" where
  "cat fd =
    bindU (foreverU (\<lambda>_.
      bindU (sys (URead fd 512)) (\<lambda>r.
      if u_ret r \<le> 0 then retU (Inl (u_ret r))
      else
        bindU (sys (UWrite 1 (u_data r))) (\<lambda>w.
        if u_ret w \<noteq> u_ret r then thenU (say 1 ''cat: write error'') uexit else retU (Inr ())))) ())
    (\<lambda>n. whenU (n < 0) (thenU (say 1 ''cat: read error'') uexit))"

text \<open>
  The programs cat, wc and grep run a function on the standard input, or on each of the files named by the
  arguments \<open>as\<close>.
\<close>

definition on_files :: "string \<Rightarrow> (int \<Rightarrow> string \<Rightarrow> unit user) \<Rightarrow> string list \<Rightarrow> unit user" where
  "on_files name f as =
    (if as = [] then thenU (f 0 []) uexit
     else thenU (forU (\<lambda>a.
       bindU (sys (UOpen a O_RDONLY)) (\<lambda>r.
       if u_ret r < 0 then thenU (printf 1 (name @ '': cannot open %s'' @ newline) [Ptr (Some a)]) uexit
       else thenU (f (u_ret r) a) (do_sys (UClose (u_ret r))))) as) uexit)"

definition cat_main :: "string list \<Rightarrow> unit user" where
  "cat_main argv = on_files ''cat'' (\<lambda>fd _. cat fd) (tl argv)"

definition echo_main :: "string list \<Rightarrow> unit user" where
  "echo_main argv =
    thenU (forU (\<lambda>i. printf 1 ''%s%s''
        [Ptr (Some (argv ! i)), Ptr (Some (if i + 1 < length argv then '' '' else newline))]) [1..<length argv]) uexit"

text \<open>wc: one character of the buffer.\<close>

definition wc_char :: "char \<Rightarrow> int \<times> int \<times> int \<times> bool \<Rightarrow> int \<times> int \<times> int \<times> bool" where
  "wc_char b = (\<lambda>(l, w, c, inword).
    let c = c + 1;
        l = (if b = CHR 0x0A then l + 1 else l) in
    if b \<in> {CHR '' '', CHR 0x0D, CHR 0x09, CHR 0x0A, CHR 0x0B} then (l, w, c, False)
    else if \<not> inword then (l, w + 1, c, True)
    else (l, w, c, inword))"

definition wc :: "int \<Rightarrow> string \<Rightarrow> unit user" where
  "wc fd name =
    bindU (foreverU (\<lambda>st.
      bindU (sys (URead fd 512)) (\<lambda>r.
      if u_ret r \<le> 0 then retU (Inl (u_ret r, st)) else retU (Inr (fold wc_char (u_data r) st)))) (0, 0, 0, False))
    (\<lambda>(n, l, w, c, _).
      if n < 0 then thenU (say 1 ''wc: read error'') uexit
      else printf 1 (''%d %d %d %s'' @ newline) [Num (word_of_int l), Num (word_of_int w), Num (word_of_int c), Ptr (Some name)])"

definition wc_main :: "string list \<Rightarrow> unit user" where
  "wc_main argv = on_files ''wc'' wc (tl argv)"

definition kill_main :: "string list \<Rightarrow> unit user" where
  "kill_main argv =
    (if length argv < 2 then thenU (say 2 ''usage: kill pid...'') uexit
     else thenU (forU (\<lambda>a.
       case atoi (arr (map of_char a)) of None \<Rightarrow> hang | Some n \<Rightarrow> do_sys (UKill n)) (tl argv)) uexit)"

definition ln_main :: "string list \<Rightarrow> unit user" where
  "ln_main argv =
    (if length argv \<noteq> 3 then thenU (say 2 ''Usage: ln old new'') uexit
     else bindU (sys (ULink (argv ! 1) (argv ! 2))) (\<lambda>r.
       thenU (whenU (u_ret r < 0) (printf 2 (''link %s %s: failed'' @ newline) [Ptr (Some (argv ! 1)), Ptr (Some (argv ! 2))])) uexit))"

text \<open>mkdir and rm make one call for each argument and stop at the first that fails.\<close>

definition each_arg :: "string \<Rightarrow> string \<Rightarrow> (string \<Rightarrow> ucall) \<Rightarrow> string list \<Rightarrow> unit user" where
  "each_arg usage msg call argv =
    (if length argv < 2 then thenU (say 2 usage) uexit
     else thenU (for_breakU (\<lambda>a.
       bindU (sys (call a)) (\<lambda>r.
       if u_ret r < 0 then bindU (printf 2 (msg @ newline) [Ptr (Some a)]) (\<lambda>_. retU False) else retU True)) (tl argv)) uexit)"

definition mkdir_main :: "string list \<Rightarrow> unit user" where
  "mkdir_main = each_arg ''Usage: mkdir files...'' ''mkdir: %s failed to create'' UMkdir"

definition rm_main :: "string list \<Rightarrow> unit user" where
  "rm_main = each_arg ''Usage: rm files...'' ''rm: %s failed to delete'' UUnlink"

definition zombie_main :: "unit user" where
  "zombie_main = bindU (sys UFork) (\<lambda>r. thenU (whenU (u_ret r > 0) (do_sys (USleep 5))) uexit)"

definition init_main :: "unit user" where
  "init_main =
    bindU (sys (UOpen ''console'' O_RDWR)) (\<lambda>r.
    thenU (whenU (u_ret r < 0) (thenU (do_sys (UMknod ''console'' 1 1)) (do_sys (UOpen ''console'' O_RDWR))))
    (thenU (do_sys (UDup 0)) (thenU (do_sys (UDup 0))
    (foreverU (\<lambda>_.
      thenU (say 1 ''init: starting sh'')
      (bindU (sys UFork) (\<lambda>p.
       if u_ret p < 0 then thenU (say 1 ''init: fork failed'') uexit
       else if u_ret p = 0
       then thenU (do_sys (UExec ''sh'' [''sh''])) (thenU (say 1 ''init: exec sh failed'') uexit)
       else bindU (foreverU (\<lambda>_.
           bindU (sys UWait) (\<lambda>w.
           if u_ret w \<ge> 0 \<and> u_ret w \<noteq> u_ret p then bindU (say 1 ''zombie!'') (\<lambda>_. retU (Inr ())) else retU (Inl ()))) ())
         (\<lambda>_. retU (Inr ()))))) ()))))"

text \<open>ls. The name of a directory entry is the part of its 14 bytes before a NUL.\<close>

definition fmtname :: "string \<Rightarrow> string" where
  "fmtname path =
    (let p = rev (takeWhile (\<lambda>c. c \<noteq> CHR ''/'') (rev path)) in
     if DIRSIZ \<le> length p then p else p @ replicate (DIRSIZ - length p) (CHR '' ''))"

definition ls_line :: "string \<Rightarrow> stat \<Rightarrow> unit user" where
  "ls_line path st =
    printf 1 (''%s %d %d %d'' @ newline)
      [Ptr (Some (fmtname path)), Num (scast (st_type st)), Num (st_ino st), Num (st_size st)]"

definition ls_entry :: "string \<Rightarrow> string \<Rightarrow> stat \<Rightarrow> stat user" where
  "ls_entry path de st =
    (if take 2 de = [CHR 0x00, CHR 0x00] then retU st
     else
       let buf = path @ ''/'' @ takeWhile (\<lambda>c. c \<noteq> CHR 0x00) (drop 2 de) in
       bindU (ustat buf st) (\<lambda>(r, st).
       bindU (if r < 0 then printf 1 (''ls: cannot stat %s'' @ newline) [Ptr (Some buf)] else ls_line buf st) (\<lambda>_.
       retU st)))"

definition ls :: "string \<Rightarrow> unit user" where
  "ls path =
    bindU (sys (UOpen path O_RDONLY)) (\<lambda>f.
    let fd = u_ret f in
    if fd < 0 then printf 2 (''ls: cannot open %s'' @ newline) [Ptr (Some path)]
    else
      bindU (sys (UFstat fd)) (\<lambda>r.
      let st = u_stat r in
      if u_ret r < 0
      then thenU (printf 2 (''ls: cannot stat %s'' @ newline) [Ptr (Some path)]) (do_sys (UClose fd))
      else
        thenU (if st_type st = T_FILE then ls_line path st
          else if st_type st = T_DIR
          then (if length path + 1 + DIRSIZ + 1 > 512 then say 1 ''ls: path too long''
            else foreverU (\<lambda>st.
              bindU (sys (URead fd 16)) (\<lambda>r.
              if u_ret r \<noteq> 16 then retU (Inl ())
              else bindU (ls_entry path (u_data r) st) (\<lambda>st. retU (Inr st)))) st)
          else retU ())
        (do_sys (UClose fd))))"

definition ls_main :: "string list \<Rightarrow> unit user" where
  "ls_main argv = (if length argv < 2 then thenU (ls ''.'') uexit else thenU (forU ls (tl argv)) uexit)"

text \<open>
  grep: the lines that the inner loop writes, one call each, and the rest of the buffer.
\<close>

function grep_matched :: "string \<Rightarrow> string \<Rightarrow> string list \<times> string" where
  "grep_matched pattern p =
    (case line_end p of
       None \<Rightarrow> ([], p)
     | Some k \<Rightarrow>
       let (out, rest) = grep_matched pattern (drop (Suc k) p) in
       ((if match pattern (take k p) then [take (Suc k) p] else []) @ out, rest))"
  by pat_completeness auto

termination
  by (relation "measure (\<lambda>(pattern, p). length p)") (auto dest: line_end_length)

declare grep_matched.simps [simp del]

definition grep_fd :: "string \<Rightarrow> int \<Rightarrow> unit user" where
  "grep_fd pattern fd =
    foreverU (\<lambda>buf.
      bindU (sys (URead fd (1024 - length buf - 1))) (\<lambda>r.
      if u_ret r \<le> 0 then retU (Inl ())
      else
        let b = buf @ u_data r; (out, p) = grep_matched pattern b in
        bindU (forU (\<lambda>l. do_sys (UWrite 1 l)) out) (\<lambda>_.
        retU (Inr (if length p = length b then [] else p))))) []"

definition grep_main :: "string list \<Rightarrow> unit user" where
  "grep_main argv =
    (if length argv \<le> 1 then thenU (say 2 ''usage: grep pattern [file ...]'') uexit
     else on_files ''grep'' (\<lambda>fd _. grep_fd (argv ! 1) fd) (drop 2 argv))"

text \<open>stressfs: the number of forks that returned 0, at most 4.\<close>

fun stress_forks :: "nat \<Rightarrow> nat \<Rightarrow> nat user" where
  "stress_forks 0 i = retU i"
| "stress_forks (Suc k) i = bindU (sys UFork) (\<lambda>r. if u_ret r > 0 then retU i else stress_forks k (Suc i))"

definition stressfs_main :: "unit user" where
  "stressfs_main =
    thenU (say 1 ''stressfs starting'')
    (bindU (stress_forks 4 0) (\<lambda>i.
     thenU (printf 1 (''write %d'' @ newline) [Num (of_nat i)])
     (let path = ''stressfs'' @ [char_of (48 + i)] in
      bindU (sys (UOpen path (O_CREATE OR O_RDWR))) (\<lambda>f.
      thenU (forU (\<lambda>_. do_sys (UWrite (u_ret f) (replicate 512 (CHR ''a'')))) [0..<20])
      (thenU (do_sys (UClose (u_ret f)))
      (thenU (say 1 ''read'')
      (bindU (sys (UOpen path O_RDONLY)) (\<lambda>f.
       thenU (forU (\<lambda>_. do_sys (URead (u_ret f) 512)) [0..<20])
       (thenU (do_sys (UClose (u_ret f)))
       (thenU (do_sys UWait) uexit))))))))))"

text \<open>forktest has a printf of its own, which writes the format as it is.\<close>

definition forktest_printf :: "int \<Rightarrow> string \<Rightarrow> unit user" where
  "forktest_printf fd s = do_sys (UWrite fd s)"

fun forktest_forks :: "nat \<Rightarrow> nat \<Rightarrow> nat user" where
  "forktest_forks 0 n = retU n"
| "forktest_forks (Suc k) n =
    bindU (sys UFork) (\<lambda>r.
    if u_ret r < 0 then retU n else if u_ret r = 0 then uexit else forktest_forks k (Suc n))"

definition forktest :: "unit user" where
  "forktest =
    thenU (forktest_printf 1 (''fork test'' @ newline))
    (bindU (forktest_forks 1000 0) (\<lambda>n.
     if n = 1000 then thenU (forktest_printf 1 (''fork claimed to work N times!'' @ newline)) uexit
     else
       thenU (forU (\<lambda>_. bindU (sys UWait) (\<lambda>w.
         whenU (u_ret w < 0) (thenU (forktest_printf 1 (''wait stopped early'' @ newline)) uexit))) [0..<n])
       (bindU (sys UWait) (\<lambda>w.
        if u_ret w \<noteq> - 1 then thenU (forktest_printf 1 (''wait got too many'' @ newline)) uexit
        else forktest_printf 1 (''fork test OK'' @ newline)))))"

definition forktest_main :: "unit user" where
  "forktest_main = thenU forktest uexit"

section \<open>The scheduler tests\<close>

text \<open>
  Each of assig2_1 to assig2_5 gives itself, and then each child it forks, a deadline or a rate, an execution time
  and a policy. The calls are \<open>param\<close> (deadline or rate), exec_time and sched_policy.
\<close>

definition rt_task :: "(int \<Rightarrow> int \<Rightarrow> ucall) \<Rightarrow> int \<Rightarrow> int \<Rightarrow> int \<times> int \<Rightarrow> unit user" where
  "rt_task param policy pid t =
    thenU (do_sys (param pid (fst t)))
    (thenU (do_sys (UExecTime pid (snd t)))
    (do_sys (USchedPolicy pid policy)))"

definition rt_program :: "(int \<Rightarrow> int \<Rightarrow> ucall) \<Rightarrow> int \<Rightarrow> int \<times> int \<Rightarrow> (int \<times> int) list \<Rightarrow> unit user" where
  "rt_program param policy t ts =
    bindU (sys UGetpid) (\<lambda>p.
    thenU (rt_task param policy (u_ret p) t)
    (thenU (forU (\<lambda>t. bindU (sys UFork) (\<lambda>c.
        if u_ret c \<noteq> 0 then rt_task param policy (u_ret c) t else hang)) ts)
    hang))"

definition assig2_1 :: "unit user" where
  "assig2_1 = rt_program UDeadline 0 (19, 4) [(18, 5), (24, 6), (21, 4)]"

definition assig2_2 :: "unit user" where
  "assig2_2 = rt_program URate 1 (1, 10) [(21, 1), (11, 2)]"

definition assig2_3 :: "unit user" where
  "assig2_3 = rt_program UDeadline 0 (23, 5) [(16, 4), (14, 9), (18, 6), (21, 8)]"

definition assig2_4 :: "unit user" where
  "assig2_4 = rt_program UDeadline 0 (19, 6) [(20, 8), (20, 4), (24, 5), (52, 4)]"

definition assig2_5 :: "unit user" where
  "assig2_5 = rt_program URate 1 (2, 5) [(22, 1), (11, 3), (4, 5), (2, 4)]"

definition ppi_main :: "unit user" where
  "ppi_main = rt_program URate 1 (1, 10) [(21, 1), (11, 2)]"

section \<open>Lemmas\<close>

text \<open>A result that stores nothing.\<close>

definition result :: "int \<Rightarrow> ures" where
  "result v = \<lparr>u_ret = v, u_data = [], u_fds = (0, 0),
     u_stat = \<lparr>st_type = 0, st_dev = 0, st_ino = 0, st_nlink = 0, st_size = 0\<rparr>\<rparr>"

lemma bindU_retU [simp]: "bindU (retU x) f = f x"
  by (simp add: fun_eq_iff bindU_def retU_def)

lemma sys_simps [simp]:
  "bindU (sys c) f [] = ([c], None)"
  "bindU (sys c) f (r # rs) = (case f r rs of (ds, y) \<Rightarrow> (c # ds, y))"
  by (simp_all add: bindU_def sys_def)

lemma bindU_bindU [simp]: "bindU (bindU m f) g = bindU m (\<lambda>x. bindU (f x) g)"
  by (rule ext) (auto simp: bindU_def split: option.splits prod.splits)

text \<open>
  The number of rounds that \<open>foreverU\<close> allows is enough when every round that goes on makes a call: the loop
  satisfies the equation of \<open>while(1)\<close>.
\<close>

definition progress :: "('s \<Rightarrow> ('r + 's) user) \<Rightarrow> bool" where
  "progress f \<longleftrightarrow> (\<forall>s rs cs s' rs'. f s rs = (cs, Some (Inr s', rs')) \<longrightarrow> length rs' < length rs)"

lemma loopU_enough:
  assumes "progress f" "length rs < n" "length rs < m"
  shows "loopU n f s rs = loopU m f s rs"
  using assms(2,3)
proof (induction n arbitrary: m s rs)
  case (Suc n)
  then obtain k where m: "m = Suc k" by (cases m) auto
  have "loopU n f s' rs' = loopU k f s' rs'" if "f s rs = (cs, Some (Inr s', rs'))" for cs s' rs'
    using Suc m assms(1) that unfolding progress_def by (intro Suc.IH) fastforce+
  then show ?case by (auto simp: m bindU_def retU_def split: prod.splits option.splits sum.splits)
qed simp

lemma foreverU_step:
  assumes "progress f"
  shows "foreverU f s = bindU (f s) (\<lambda>x. case x of Inl r \<Rightarrow> retU r | Inr s' \<Rightarrow> foreverU f s')"
proof
  fix rs
  have "loopU (length rs) f s' rs' = loopU (Suc (length rs')) f s' rs'" if "f s rs = (cs, Some (Inr s', rs'))" for cs s' rs'
    using that assms unfolding progress_def by (intro loopU_enough [OF assms]) fastforce+
  then show "foreverU f s rs = bindU (f s) (\<lambda>x. case x of Inl r \<Rightarrow> retU r | Inr s' \<Rightarrow> foreverU f s') rs"
    by (auto simp: foreverU_def bindU_def retU_def split: prod.splits option.splits sum.splits)
qed

text \<open>A loop whose body starts with a call goes on, if the rest of the body never makes results come back.\<close>

definition uses :: "'a user \<Rightarrow> bool" where
  "uses m \<longleftrightarrow> (\<forall>rs cs x rs'. m rs = (cs, Some (x, rs')) \<longrightarrow> length rs' \<le> length rs)"

lemma uses_basic [simp]: "uses (retU x)" "uses (sys c)" "uses uexit" "uses hang"
  by (auto simp: uses_def retU_def sys_def uexit_def hang_def split: list.splits)

lemma uses_bind [simp]: "uses m \<Longrightarrow> (\<And>x. uses (f x)) \<Longrightarrow> uses (bindU m f)"
  unfolding uses_def bindU_def by (fastforce split: prod.splits option.splits dest: order_trans)

lemma uses_then [simp]: "uses m \<Longrightarrow> uses n \<Longrightarrow> uses (thenU m n)"
  by (simp add: thenU_def)

lemma uses_for [simp]: "(\<And>x. uses (f x)) \<Longrightarrow> uses (forU f xs)"
  by (induction xs) simp_all

lemma uses_do_sys [simp]: "uses (do_sys c)"
  by (simp add: do_sys_def)

lemma uses_printf [simp]: "uses (printf fd fmt as)"
  by (simp add: printf_def putc_def split: sum.split)

lemma progress_sys: "(\<And>s r. uses (g s r)) \<Longrightarrow> progress (\<lambda>s. bindU (sys (c s)) (g s))"
  unfolding progress_def
proof (intro allI impI)
  fix s rs cs s' rs'
  assume u: "\<And>s r. uses (g s r)" and e: "bindU (sys (c s)) (g s) rs = (cs, Some (Inr s', rs'))"
  obtain r rs1 where rs: "rs = r # rs1" using e by (cases rs) auto
  obtain ds where "g s r rs1 = (ds, Some (Inr s', rs'))" using e rs by (auto split: prod.splits)
  then have "length rs' \<le> length rs1" using u unfolding uses_def by blast
  then show "length rs' < length rs" using rs by simp
qed

lemma if_bindU: "bindU (if b then m else n) f = (if b then bindU m f else bindU n f)"
  by simp

text \<open>
  cat writes the bytes it reads, in their order, when no read fails and no write falls short.
\<close>

lemma bindU_uexit [simp]: "bindU uexit f = uexit"
  by (simp add: fun_eq_iff bindU_def uexit_def)

lemma cat_step:
  "cat fd = bindU (sys (URead fd 512)) (\<lambda>r.
     if u_ret r \<le> 0 then whenU (u_ret r < 0) (thenU (say 1 ''cat: read error'') uexit)
     else bindU (sys (UWrite 1 (u_data r))) (\<lambda>w.
       if u_ret w \<noteq> u_ret r then thenU (say 1 ''cat: write error'') uexit else cat fd))"
  unfolding cat_def
  by (subst foreverU_step) (auto simp: progress_sys say_def thenU_def if_bindU cong: if_cong intro!: arg_cong2 [where f = bindU])

lemma cat_copies:
  assumes "\<forall>(r, w) \<in> set xs. 0 < u_ret r \<and> u_ret w = u_ret r" "u_ret e = 0"
  shows "cat fd (concat (map (\<lambda>(r, w). [r, w]) xs) @ e # rs)
    = (concat (map (\<lambda>(r, w). [URead fd 512, UWrite 1 (u_data r)]) xs) @ [URead fd 512], Some ((), rs))"
  using assms(1)
proof (induction xs)
  case Nil
  show ?case by (subst cat_step) (simp add: assms(2) whenU_def retU_def)
next
  case (Cons x xs)
  then show ?case by (subst cat_step) (auto split: prod.splits)
qed

text \<open>The lines that \<open>grep_fd\<close> writes are the output of the inner loop of grep.\<close>

lemma grep_matched_lines: "grep_lines pattern p = apfst concat (grep_matched pattern p)"
proof (induction pattern p rule: grep_matched.induct)
  case (1 pattern p)
  show ?case
    by (subst grep_lines.simps, subst grep_matched.simps)
      (auto simp: "1.IH" Let_def split: option.split prod.split)
qed

text \<open>wc counts the newlines, the characters, and the places at which a word begins.\<close>

definition blank :: "char \<Rightarrow> bool" where
  "blank b \<longleftrightarrow> b \<in> {CHR '' '', CHR 0x0D, CHR 0x09, CHR 0x0A, CHR 0x0B}"

fun word_starts :: "bool \<Rightarrow> string \<Rightarrow> nat" where
  "word_starts inword [] = 0"
| "word_starts inword (b # bs) = (if blank b then 0 else if inword then 0 else 1) + word_starts (\<not> blank b) bs"

lemma wc_counts:
  "fold wc_char bs (l, w, c, inword) =
    (l + int (length (filter (\<lambda>b. b = CHR 0x0A) bs)), w + int (word_starts inword bs), c + int (length bs),
     if bs = [] then inword else \<not> blank (last bs))"
  by (induction bs arbitrary: l w c inword) (auto simp: wc_char_def blank_def Let_def)

end
