(* ===== verification/Realtime.thy ===== *)
theory Realtime
  imports Sched User
begin

text \<open>
  The scheduler tests on the kernel: the programs assig2_1 to assig2_5 of the user level together with the
  real-time calls of proc.c. The comments of the programs say which of their processes the kernel does
  not admit; the theory derives these from the admission tests of sched_policy.
\<close>

section \<open>The calls of a program in the kernel\<close>

text \<open>
  The processes of the program are in the process table already; getpid and fork only give their pids, and the
  calls other than the real-time ones leave the state alone.
\<close>

definition rt_call :: "ucall \<Rightarrow> 'a procs_scheme \<Rightarrow> (int \<times> 'a procs_scheme) result" where
  "rt_call c s = (case c of
      UDeadline pid d \<Rightarrow> deadline pid d s
    | URate pid r \<Rightarrow> rate pid r s
    | UExecTime pid e \<Rightarrow> exec_time pid e s
    | USchedPolicy pid policy \<Rightarrow> sched_policy pid policy s
    | _ \<Rightarrow> Inr (0, s))"

text \<open>The pids for which sched_policy has not returned 0.\<close>

definition refused :: "ucall \<Rightarrow> int \<Rightarrow> int list" where
  "refused c v = (case c of USchedPolicy pid policy \<Rightarrow> if v \<noteq> 0 then [pid] else [] | _ \<Rightarrow> [])"

fun rt_run :: "ucall list \<Rightarrow> 'a procs_scheme \<Rightarrow> (int list \<times> 'a procs_scheme) result" where
  "rt_run [] s = Inr ([], s)"
| "rt_run (c # cs) s =
    bindE (rt_call c s) (\<lambda>(v, s). bindE (rt_run cs s) (\<lambda>(ps, s). Inr (refused c v @ ps, s)))"

definition refusals :: "ucall list \<Rightarrow> 'a procs_scheme \<Rightarrow> int list result" where
  "refusals cs s = bindE (rt_run cs s) (\<lambda>(ps, _). Inr ps)"

definition task_calls :: "(int \<Rightarrow> int \<Rightarrow> ucall) \<Rightarrow> int \<Rightarrow> int \<Rightarrow> int \<times> int \<Rightarrow> ucall list" where
  "task_calls param policy pid t = [param pid (fst t), UExecTime pid (snd t), USchedPolicy pid policy]"

section \<open>The calls that a test program makes\<close>

text \<open>
  Each task has four results: the pid that getpid or fork returns, and those of its three calls, which the program does not use.
\<close>

fun task_pids :: "ures list \<Rightarrow> int list" where
  "task_pids (p # a # b # c # rs) = u_ret p # task_pids rs"
| "task_pids _ = []"

lemma rt_task_calls [simp]:
  "fst (bindU (rt_task param policy pid t) f (a # b # c # rs)) = task_calls param policy pid t @ fst (f () rs)"
  by (simp add: rt_task_def task_calls_def thenU_def do_sys_def split: prod.split)

lemma fst_sys [simp]: "fst (bindU (sys c) f (r # rs)) = c # fst (f r rs)"
  by (simp split: prod.split)

lemma rt_children_calls:
  assumes "length (task_pids rs) = length ts" "0 \<notin> set (task_pids rs)"
  shows "fst (bindU (forU (\<lambda>t. bindU (sys UFork) (\<lambda>c.
      if u_ret c \<noteq> 0 then rt_task param policy (u_ret c) t else hang)) ts) (\<lambda>_. hang) rs)
    = concat (map (\<lambda>(pid, t). UFork # task_calls param policy pid t) (zip (task_pids rs) ts))"
  using assms
proof (induction rs arbitrary: ts rule: task_pids.induct)
  case (1 p a b c rs)
  then obtain t us where ts: "ts = t # us" by (cases ts) auto
  show ?case using 1(2,3) 1(1) [of us] ts by (simp add: thenU_def del: sys_simps)
qed (auto simp: hang_def)

lemma rt_program_calls:
  assumes "task_pids rs = p # ps" "length ps = length ts" "0 \<notin> set ps"
  shows "fst (rt_program param policy t ts rs) = UGetpid # task_calls param policy p t
    @ concat (map (\<lambda>(pid, t). UFork # task_calls param policy pid t) (zip ps ts))"
proof -
  obtain q a b c rs' where "rs = q # a # b # c # rs'" "u_ret q = p" "task_pids rs' = ps"
    using assms(1) by (cases rs rule: task_pids.cases) auto
  then show ?thesis
    using rt_children_calls [of rs' ts param policy] assms(2,3) by (simp add: rt_program_def thenU_def del: sys_simps)
qed

section \<open>One task\<close>

lemma syscall_ok_after: "syscall_ok s i \<Longrightarrow> mach_sim (sti s) t \<Longrightarrow> syscall_ok t i"
proof -
  assume s: "syscall_ok s i" and m: "mach_sim (sti s) t"
  have c: "cpu_ok (sti s) i" "lk_free PtableLock (sti s)" "c_ncli (cpus (sti s) ! i) = 0"
    using syscall_ok_sti [OF s] s by (simp_all add: syscall_ok_def sti_def)
  have "map c_ncli (cpus t) ! i = map c_ncli (cpus (sti s)) ! i" using m by (simp add: mach_sim_def)
  then have "c_ncli (cpus t ! i) = 0"
    using c cpu_ok_bound [OF c(1)] cpu_ok_bound [of t i] cpu_ok_sim [OF m] by simp
  then show ?thesis using c cpu_ok_sim [OF m] m by (simp add: syscall_ok_def mach_sim_def)
qed

text \<open>
  \<open>same_procs s t\<close>: the same pids in the same places, which is what the calls of a task keep.
\<close>

definition same_procs :: "'a procs_scheme \<Rightarrow> 'a procs_scheme \<Rightarrow> bool" where
  "same_procs s t \<longleftrightarrow> map p_pid (ptable t) = map p_pid (ptable s)"

lemma same_procs_scan: "same_procs s t \<Longrightarrow> scan (\<lambda>p. p_pid p = pid) (ptable t) = scan (\<lambda>p. p_pid p = pid) (ptable s)"
  using scan_map [of "\<lambda>q. q = pid" p_pid "ptable t"] scan_map [of "\<lambda>q. q = pid" p_pid "ptable s"] by (simp add: same_procs_def)

lemma map_pid_update: "p_pid q = p_pid (ps ! j) \<Longrightarrow> map p_pid (ps[j := q]) = map p_pid ps"
  by (cases "j < length ps") (auto simp: map_update intro!: nth_equalityI simp: nth_list_update)

lemma param_step:
  assumes "syscall_ok s i" "scan (\<lambda>p. p_pid p = pid) (ptable s) = Some j" "\<And>p. p_pid (f p) = p_pid p"
  shows "\<exists>t. set_param f pid s = Inr (0, t) \<and> syscall_ok t i \<and> same_procs s t \<and> ptable t ! j = f (ptable s ! j)
    \<and> utf_edf t = utf_edf s \<and> utf_rm t = utf_rm s"
proof -
  obtain t where t: "set_param f pid s = Inr (0, t)" "kstate t = kstate (upd_proc j f s)" "mach_sim (sti s) t"
    using set_param_step [OF assms(1), of f pid] assms(2) by auto
  have "j < length (ptable s)" using scan_SomeD [OF assms(2)] by simp
  then show ?thesis
    using t kstate_procs [OF t(2)] syscall_ok_after [OF assms(1) t(3)] assms(3)
    by (auto simp: same_procs_def map_pid_update)
qed

lemma admitted_step:
  assumes "syscall_ok s i" "scan (\<lambda>p. p_pid p = pid) (ptable s) = Some j"
    and "kstate t = kstate (upd_proc j f (g s))" "mach_sim (sti s) t"
    and "ptable (g s) = ptable s" "\<And>p. p_pid (f p) = p_pid p"
  shows "syscall_ok t i \<and> same_procs s t \<and> utf_edf t = utf_edf (g s) \<and> utf_rm t = utf_rm (g s)"
  using assms kstate_procs [OF assms(3)] syscall_ok_after [OF assms(1,4)] by (auto simp: same_procs_def map_pid_update)

lemma rt_run_append:
  "rt_run (cs @ ds) s = bindE (rt_run cs s) (\<lambda>(ps, s). bindE (rt_run ds s) (\<lambda>(qs, s). Inr (ps @ qs, s)))"
  by (induction cs arbitrary: s) (auto simp: bindE_def split: sum.split)

lemma refusals_skip: "refusals (UFork # cs) s = refusals cs s" "refusals (UGetpid # cs) s = refusals cs s"
  by (simp_all add: refusals_def rt_call_def refused_def bindE_def split: sum.split prod.split)

lemma same_procs_pids: "same_procs s t \<Longrightarrow> p_pid ` set (ptable t) = p_pid ` set (ptable s)"
  unfolding same_procs_def by (metis list.set_map)

section \<open>A test program under an admission test\<close>

text \<open>The pids that are refused, when \<open>n\<close> is the sum of the costs admitted so far.\<close>

fun refusal_plan :: "('t \<Rightarrow> int) \<Rightarrow> (int \<Rightarrow> int \<Rightarrow> bool) \<Rightarrow> int \<Rightarrow> (int \<times> 't) list \<Rightarrow> int list" where
  "refusal_plan cost admits n [] = []"
| "refusal_plan cost admits n ((pid, t) # ts) =
    (if admits pid (n + cost t) then refusal_plan cost admits (n + cost t) ts else pid # refusal_plan cost admits n ts)"

text \<open>
  What the two policies have in common: the kernel keeps a sum, a task has a cost, and it is admitted when
  the sum with its cost passes a test.
\<close>

locale admission_test =
  fixes param :: "int \<Rightarrow> int \<Rightarrow> ucall" and policy :: int and total :: "'a procs_scheme \<Rightarrow> int"
    and cost :: "int \<times> int \<Rightarrow> int" and admits :: "int \<Rightarrow> int \<Rightarrow> bool"
    and valid :: "int \<Rightarrow> int \<times> int \<Rightarrow> bool" and in_range :: "int \<Rightarrow> bool"
  assumes task: "\<lbrakk>syscall_ok s i; scan (\<lambda>p. p_pid p = pid) (ptable s) = Some j; valid pid t; in_range (total s)\<rbrakk>
      \<Longrightarrow> \<exists>u. rt_run (task_calls param policy pid t) s = Inr (if admits pid (total s + cost t) then [] else [pid], u)
        \<and> syscall_ok u i \<and> same_procs s u
        \<and> total u = (if admits pid (total s + cost t) then total s + cost t else total s)"
    and range: "\<lbrakk>in_range n; valid pid t; admits pid (n + cost t)\<rbrakk> \<Longrightarrow> in_range (n + cost t)"
begin

lemma task_then:
  assumes "syscall_ok s i" "scan (\<lambda>p. p_pid p = pid) (ptable s) = Some j" "valid pid t" "in_range (total s)"
    and rest: "\<And>u. \<lbrakk>syscall_ok u i; same_procs s u; in_range (total u);
        total u = (if admits pid (total s + cost t) then total s + cost t else total s)\<rbrakk> \<Longrightarrow> refusals cs u = Inr (ps (total u))"
  shows "refusals (task_calls param policy pid t @ cs) s
    = Inr (if admits pid (total s + cost t) then ps (total s + cost t) else pid # ps (total s))"
proof -
  obtain u where u: "rt_run (task_calls param policy pid t) s = Inr (if admits pid (total s + cost t) then [] else [pid], u)"
    "syscall_ok u i" "same_procs s u" "total u = (if admits pid (total s + cost t) then total s + cost t else total s)"
    using task [OF assms(1-4)] by blast
  have "refusals cs u = Inr (ps (total u))" using range [OF assms(4,3)] assms(4) u by (intro rest) auto
  then obtain v where "rt_run cs u = Inr (ps (total u), v)" by (auto simp: refusals_def)
  then show ?thesis using u by (auto simp: refusals_def rt_run_append)
qed

lemma children:
  assumes "syscall_ok s i" "in_range (total s)"
    and "\<forall>(pid, t) \<in> set ts. valid pid t \<and> pid \<in> p_pid ` set (ptable s)"
  shows "refusals (concat (map (\<lambda>(pid, t). UFork # task_calls param policy pid t) ts)) s
    = Inr (refusal_plan cost admits (total s) ts)"
  using assms
proof (induction ts arbitrary: s)
  case Nil
  show ?case by (simp add: refusals_def)
next
  case (Cons x ts)
  obtain pid t where x: "x = (pid, t)" by (cases x)
  obtain j where j: "scan (\<lambda>p. p_pid p = pid) (ptable s) = Some j"
    using Cons.prems(3) x scan_ex [of _ "ptable s" "\<lambda>p. p_pid p = pid"] by force
  have "refusals (task_calls param policy pid t @ concat (map (\<lambda>(pid, t). UFork # task_calls param policy pid t) ts)) s
      = Inr (if admits pid (total s + cost t) then refusal_plan cost admits (total s + cost t) ts
             else pid # refusal_plan cost admits (total s) ts)"
    by (rule task_then [OF Cons.prems(1) j, where ps = "\<lambda>n. refusal_plan cost admits n ts"])
      (use Cons x in \<open>auto intro!: Cons.IH dest!: same_procs_pids\<close>)
  then show ?case by (simp add: x refusals_skip)
qed

lemma test_program:
  assumes "syscall_ok s i" "in_range (total s)" "task_pids rs = map fst ts" "0 \<notin> set (map fst ts)" "ts \<noteq> []"
    and "\<forall>(pid, t) \<in> set ts. valid pid t \<and> pid \<in> p_pid ` set (ptable s)"
  shows "refusals (fst (rt_program param policy (snd (hd ts)) (map snd (tl ts)) rs)) s
    = Inr (refusal_plan cost admits (total s) ts)"
proof -
  obtain p t us where ts: "ts = (p, t) # us" using assms(5) by (cases ts) auto
  have "fst (rt_program param policy t (map snd us) rs)
      = UGetpid # task_calls param policy p t @ concat (map (\<lambda>(pid, t). UFork # task_calls param policy pid t) us)"
    using rt_program_calls [of rs p "map fst us" "map snd us" param policy t] assms(3,4) ts
    by (simp add: zip_map_fst_snd)
  then show ?thesis
    using children [OF assms(1,2,6)] by (simp add: ts refusals_skip)
qed

end

lemma edf_step:
  assumes "syscall_ok s i" "scan (\<lambda>p. p_pid p = pid) (ptable s) = Some j"
    and "0 < p_deadline (ptable s ! j)" "0 \<le> p_execution_time (ptable s ! j)"
      "p_execution_time (ptable s ! j) * 100 + 100 \<le> 2 ^ 31" "0 \<le> utf_edf s" "utf_edf s < 100"
  defines "n \<equiv> utf_edf s + p_execution_time (ptable s ! j) * 100 div p_deadline (ptable s ! j)"
  shows "\<exists>t. sched_policy pid 0 s = Inr (if n < 100 then 0 else - 22, t) \<and> syscall_ok t i \<and> same_procs s t
    \<and> utf_edf t = (if n < 100 then n else utf_edf s)"
proof -
  let ?K = "if 100 \<le> n then upd_proc j (\<lambda>p. p\<lparr>p_killed := True, p_state := ZOMBIE\<rparr>) s
    else upd_proc j (\<lambda>p. p\<lparr>p_sched_policy := 0\<rparr>) (s\<lparr>utf_edf := n\<rparr>)"
  have "\<exists>t. sched_policy pid 0 s = Inr (if 100 \<le> n then - 22 else 0, t) \<and> kstate t = kstate ?K \<and> mach_sim (sti s) t"
  proof (rule sched_policy_step [OF assms(1,2)])
    fix w assume k: "kstate w = kstate s"
    show "\<exists>v. (if (0 :: int) = 0 then admit_edf j w
        else if (0 :: int) = 1 then Inr (admit_rm (wrap32 (pid - 2)) j w) else Inr (False, w))
        = Inr (100 \<le> n, v) \<and> mach v = mach w \<and> kstate v = kstate ?K"
      using admit_edf_eq [OF k assms(3-7)] unfolding n_def by simp
  qed
  then obtain t where t: "sched_policy pid 0 s = Inr (if 100 \<le> n then - 22 else 0, t)" "kstate t = kstate ?K" "mach_sim (sti s) t"
    by blast
  show ?thesis
  proof (cases "100 \<le> n")
    case True
    then show ?thesis using t admitted_step [OF assms(1,2) _ t(3), of "\<lambda>p. p\<lparr>p_killed := True, p_state := ZOMBIE\<rparr>" "\<lambda>s. s"] by auto
  next
    case False
    then show ?thesis using t admitted_step [OF assms(1,2) _ t(3), of "\<lambda>p. p\<lparr>p_sched_policy := 0\<rparr>" "\<lambda>s. s\<lparr>utf_edf := n\<rparr>"] by auto
  qed
qed

lemma rm_step:
  assumes "syscall_ok s i" "scan (\<lambda>p. p_pid p = pid) (ptable s) = Some j" "int32 (pid - 2)"
    and "0 \<le> p_rate (ptable s ! j)" "0 \<le> p_execution_time (ptable s ! j)"
      "p_execution_time (ptable s ! j) * p_rate (ptable s ! j) * 10 + 1000 < 2 ^ 31" "0 \<le> utf_rm s" "utf_rm s \<le> 1000"
  defines "n \<equiv> utf_rm s + p_execution_time (ptable s ! j) * p_rate (ptable s ! j) * 10"
  shows "\<exists>t. sched_policy pid 1 s = Inr (if n \<le> rm_bound (pid - 2) then 0 else - 22, t) \<and> syscall_ok t i \<and> same_procs s t
    \<and> utf_rm t = (if n \<le> rm_bound (pid - 2) then n else utf_rm s)"
proof -
  let ?b = "rm_bound (pid - 2)" let ?w = "p_execution_time (ptable s ! j) * p_rate (ptable s ! j)"
  let ?K = "if ?b < n then upd_proc j (\<lambda>p. p\<lparr>p_killed := True, p_state := ZOMBIE\<rparr>) s
    else upd_proc j (\<lambda>p. p\<lparr>p_arrival_time := sint (ticks s), p_sched_policy := 1\<rparr>) (s\<lparr>utf_rm := n\<rparr>)"
  have "0 \<le> ?w" using assms(4,5) by simp
  then have w: "int32 (?w * 10)" "int32 ?w" "int32 (utf_rm s + ?w * 10)" using assms(6-8) by (simp_all add: int32_def)
  have "\<exists>t. sched_policy pid 1 s = Inr (if ?b < n then - 22 else 0, t) \<and> kstate t = kstate ?K \<and> mach_sim (sti s) t"
    by (rule sched_policy_step [OF assms(1,2)]) (use admit_rm_eq [OF _ w, of _ "pid - 2"] assms(3) in \<open>auto simp: n_def\<close>)
  then obtain t where t: "sched_policy pid 1 s = Inr (if ?b < n then - 22 else 0, t)" "kstate t = kstate ?K" "mach_sim (sti s) t"
    by blast
  show ?thesis
  proof (cases "?b < n")
    case True
    then show ?thesis using t admitted_step [OF assms(1,2) _ t(3), of "\<lambda>p. p\<lparr>p_killed := True, p_state := ZOMBIE\<rparr>" "\<lambda>s. s"] by auto
  next
    case False
    then show ?thesis
      using t admitted_step [OF assms(1,2) _ t(3), of "\<lambda>p. p\<lparr>p_arrival_time := sint (ticks s), p_sched_policy := 1\<rparr>" "\<lambda>s. s\<lparr>utf_rm := n\<rparr>"] by auto
  qed
qed

section \<open>The two policies\<close>

definition edf_cost :: "int \<times> int \<Rightarrow> int" where
  "edf_cost t = snd t * 100 div fst t"

definition edf_valid :: "int \<times> int \<Rightarrow> bool" where
  "edf_valid t \<longleftrightarrow> 0 < fst t \<and> 0 \<le> snd t \<and> snd t * 100 + 100 \<le> 2 ^ 31"

definition rm_cost :: "int \<times> int \<Rightarrow> int" where
  "rm_cost t = snd t * fst t * 10"

definition rm_valid :: "int \<Rightarrow> int \<times> int \<Rightarrow> bool" where
  "rm_valid pid t \<longleftrightarrow> int32 (pid - 2) \<and> 0 \<le> fst t \<and> 0 \<le> snd t \<and> snd t * fst t * 10 + 1000 < 2 ^ 31"

lemma rt_call_simps [simp]:
  "rt_call (UDeadline pid d) = deadline pid d" "rt_call (URate pid r) = rate pid r"
  "rt_call (UExecTime pid e) = exec_time pid e" "rt_call (USchedPolicy pid policy) = sched_policy pid policy"
  by (simp_all add: fun_eq_iff rt_call_def)

lemma rm_bound_le: "rm_bound l \<le> 1000"
proof -
  have "\<forall>b \<in> set rm_bounds. b \<le> 1000" by (simp add: rm_bounds_def)
  moreover have "length rm_bounds = 63" by (simp add: rm_bounds_def)
  ultimately show ?thesis by (auto simp: rm_bound_def)
qed

lemma edf_task:
  assumes "syscall_ok s i" "scan (\<lambda>p. p_pid p = pid) (ptable s) = Some j" "edf_valid t" "0 \<le> utf_edf s \<and> utf_edf s < 100"
  shows "\<exists>u. rt_run (task_calls UDeadline 0 pid t) s = Inr (if utf_edf s + edf_cost t < 100 then [] else [pid], u)
    \<and> syscall_ok u i \<and> same_procs s u \<and> utf_edf u = (if utf_edf s + edf_cost t < 100 then utf_edf s + edf_cost t else utf_edf s)"
proof -
  obtain s1 where s1: "deadline pid (fst t) s = Inr (0, s1)" "syscall_ok s1 i" "same_procs s s1"
    "p_deadline (ptable s1 ! j) = fst t" "utf_edf s1 = utf_edf s"
    using param_step [OF assms(1,2), of "\<lambda>p. p\<lparr>p_deadline := fst t\<rparr>"] by (auto simp: deadline_def)
  note j1 = same_procs_scan [OF s1(3), of pid, unfolded assms(2)]
  obtain s2 where s2: "exec_time pid (snd t) s1 = Inr (0, s2)" "syscall_ok s2 i" "same_procs s1 s2"
    "ptable s2 ! j = (ptable s1 ! j)\<lparr>p_execution_time := snd t\<rparr>" "utf_edf s2 = utf_edf s1"
    using param_step [OF s1(2) j1, of "\<lambda>p. p\<lparr>p_execution_time := snd t\<rparr>"] by (auto simp: exec_time_def)
  note j2 = same_procs_scan [OF s2(3), of pid, unfolded j1]
  obtain u where u: "sched_policy pid 0 s2 = Inr (if utf_edf s + edf_cost t < 100 then 0 else - 22, u)"
    "syscall_ok u i" "same_procs s2 u" "utf_edf u = (if utf_edf s + edf_cost t < 100 then utf_edf s + edf_cost t else utf_edf s)"
    using edf_step [OF s2(2) j2] s1(4,5) s2(4,5) assms(3,4) unfolding edf_valid_def edf_cost_def by auto
  show ?thesis using s1 s2 u by (auto simp: task_calls_def refused_def same_procs_def)
qed

lemma rm_task:
  assumes "syscall_ok s i" "scan (\<lambda>p. p_pid p = pid) (ptable s) = Some j" "rm_valid pid t" "0 \<le> utf_rm s \<and> utf_rm s \<le> 1000"
  shows "\<exists>u. rt_run (task_calls URate 1 pid t) s = Inr (if utf_rm s + rm_cost t \<le> rm_bound (pid - 2) then [] else [pid], u)
    \<and> syscall_ok u i \<and> same_procs s u
    \<and> utf_rm u = (if utf_rm s + rm_cost t \<le> rm_bound (pid - 2) then utf_rm s + rm_cost t else utf_rm s)"
proof -
  obtain s1 where s1: "rate pid (fst t) s = Inr (0, s1)" "syscall_ok s1 i" "same_procs s s1"
    "p_rate (ptable s1 ! j) = fst t" "utf_rm s1 = utf_rm s"
    using param_step [OF assms(1,2), of "\<lambda>p. p\<lparr>p_rate := fst t,
        p_priority := (if priority_temp (fst t) < 1 then 1 else priority_temp (fst t))\<rparr>"] by (auto simp: rate_def)
  note j1 = same_procs_scan [OF s1(3), of pid, unfolded assms(2)]
  obtain s2 where s2: "exec_time pid (snd t) s1 = Inr (0, s2)" "syscall_ok s2 i" "same_procs s1 s2"
    "ptable s2 ! j = (ptable s1 ! j)\<lparr>p_execution_time := snd t\<rparr>" "utf_rm s2 = utf_rm s1"
    using param_step [OF s1(2) j1, of "\<lambda>p. p\<lparr>p_execution_time := snd t\<rparr>"] by (auto simp: exec_time_def)
  note j2 = same_procs_scan [OF s2(3), of pid, unfolded j1]
  obtain u where u: "sched_policy pid 1 s2 = Inr (if utf_rm s + rm_cost t \<le> rm_bound (pid - 2) then 0 else - 22, u)"
    "syscall_ok u i" "same_procs s2 u"
    "utf_rm u = (if utf_rm s + rm_cost t \<le> rm_bound (pid - 2) then utf_rm s + rm_cost t else utf_rm s)"
    using rm_step [OF s2(2) j2] s1(4,5) s2(4,5) assms(3,4) unfolding rm_valid_def rm_cost_def by auto
  show ?thesis using s1 s2 u by (auto simp: task_calls_def refused_def same_procs_def)
qed

interpretation edf_test: admission_test UDeadline 0 utf_edf edf_cost "\<lambda>pid n. n < 100" "\<lambda>pid. edf_valid"
  "\<lambda>n. 0 \<le> n \<and> n < 100"
proof
  fix s :: "'a procs_scheme" and i j :: nat and pid :: int and t :: "int \<times> int"
  assume "syscall_ok s i" "scan (\<lambda>p. p_pid p = pid) (ptable s) = Some j" "edf_valid t" "0 \<le> utf_edf s \<and> utf_edf s < 100"
  then show "\<exists>u. rt_run (task_calls UDeadline 0 pid t) s = Inr (if utf_edf s + edf_cost t < 100 then [] else [pid], u)
      \<and> syscall_ok u i \<and> same_procs s u \<and> utf_edf u = (if utf_edf s + edf_cost t < 100 then utf_edf s + edf_cost t else utf_edf s)"
    by (rule edf_task)
qed (auto simp: edf_cost_def edf_valid_def pos_imp_zdiv_nonneg_iff)

interpretation rm_test: admission_test URate 1 utf_rm rm_cost "\<lambda>pid n. n \<le> rm_bound (pid - 2)" rm_valid
  "\<lambda>n. 0 \<le> n \<and> n \<le> 1000"
proof
  fix s :: "'a procs_scheme" and i j :: nat and pid :: int and t :: "int \<times> int"
  assume "syscall_ok s i" "scan (\<lambda>p. p_pid p = pid) (ptable s) = Some j" "rm_valid pid t" "0 \<le> utf_rm s \<and> utf_rm s \<le> 1000"
  then show "\<exists>u. rt_run (task_calls URate 1 pid t) s = Inr (if utf_rm s + rm_cost t \<le> rm_bound (pid - 2) then [] else [pid], u)
      \<and> syscall_ok u i \<and> same_procs s u
      \<and> utf_rm u = (if utf_rm s + rm_cost t \<le> rm_bound (pid - 2) then utf_rm s + rm_cost t else utf_rm s)"
    by (rule rm_task)
next
  fix n pid :: int and t :: "int \<times> int"
  assume "0 \<le> n \<and> n \<le> 1000" "rm_valid pid t" "n + rm_cost t \<le> rm_bound (pid - 2)"
  then show "0 \<le> n + rm_cost t \<and> n + rm_cost t \<le> 1000"
    using rm_bound_le [of "pid - 2"] by (auto simp: rm_cost_def rm_valid_def)
qed

section \<open>The tests\<close>


definition table_tests :: "proc list" where
  "table_tests = map (\<lambda>pid. task pid (- 1) 0 1) [3, 4, 5, 6, 7]"

definition results_tests :: "ures list" where
  "results_tests = concat (map (\<lambda>pid. [result pid, result 0, result 0, result 0]) [3, 4, 5, 6, 7])"


end
