(* ===== verification/Sh.thy ===== *)
theory Sh
  imports Fcntl
begin

unbundle bit_operations_syntax

text \<open>
  The parser of the shell (sh.c). The line is a buffer of characters that ends in a NUL at \<open>es\<close>; the
  pointers of the parser are offsets into it. The tree of commands refers to the words of the line by
  the offsets of their beginning and their end, and nulterminate writes the NULs behind the words
  into the buffer when the whole line has been parsed. \<open>Panic m\<close> is a call of the shell's own panic, which
  prints \<open>m\<close> and ends the process.
\<close>

section \<open>Data\<close>

definition MAXARGS :: nat where "MAXARGS = 10"

definition NUL :: char where "NUL = CHR 0x00"

definition whitespace :: string where
  "whitespace = [CHR '' '', CHR 0x09, CHR 0x0D, CHR 0x0A, CHR 0x0B]"

definition symbols :: string where
  "symbols = ''<|>&;()''"

text \<open>
  The structs execcmd, redircmd, pipecmd, listcmd and backcmd, which share their type field. The arrays
  argv and eargv hold one pair of offsets for each argument.
\<close>

datatype cmd =
    Exec "(nat \<times> nat) list"
  | Redir cmd nat nat u32 int
  | Pipe cmd cmd
  | Seq cmd cmd
  | Back cmd

text \<open>The constructors of the commands. malloc is taken to succeed; the code does not test its result.\<close>

abbreviation execcmd :: cmd where
  "execcmd \<equiv> Exec []"

abbreviation redircmd :: "cmd \<Rightarrow> nat \<Rightarrow> nat \<Rightarrow> u32 \<Rightarrow> int \<Rightarrow> cmd" where
  "redircmd c q eq mode fd \<equiv> Redir c q eq mode fd"

abbreviation pipecmd :: "cmd \<Rightarrow> cmd \<Rightarrow> cmd" where
  "pipecmd l r \<equiv> Pipe l r"

abbreviation listcmd :: "cmd \<Rightarrow> cmd \<Rightarrow> cmd" where
  "listcmd l r \<equiv> Seq l r"

abbreviation backcmd :: "cmd \<Rightarrow> cmd" where
  "backcmd c \<equiv> Back c"

text \<open>\<open>cmd->argv[argc] = q; cmd->eargv[argc] = eq;\<close> for the execcmd inside the redirections made so far.\<close>

primrec add_arg :: "nat \<times> nat \<Rightarrow> cmd \<Rightarrow> cmd" where
  "add_arg a (Exec as) = Exec (as @ [a])"
| "add_arg a (Redir c q eq m fd) = Redir (add_arg a c) q eq m fd"
| "add_arg a (Pipe l r) = Pipe l r"
| "add_arg a (Seq l r) = Seq l r"
| "add_arg a (Back c) = Back c"

section \<open>Tokens\<close>

text \<open>\<open>while(s < es && \<dots>) s++;\<close>\<close>

function skip_while :: "(char \<Rightarrow> bool) \<Rightarrow> string \<Rightarrow> nat \<Rightarrow> nat \<Rightarrow> nat" where
  "skip_while P buf es s = (if s < es \<and> P (buf ! s) then skip_while P buf es (Suc s) else s)"
  by pat_completeness auto

termination
  by (relation "measure (\<lambda>(P, buf, es, s). es - s)") auto

declare skip_while.simps [simp del]

definition is_space :: "char \<Rightarrow> bool" where
  "is_space c \<longleftrightarrow> c \<in> set whitespace"

definition gettoken :: "string \<Rightarrow> nat \<Rightarrow> nat \<Rightarrow> char \<times> nat \<times> nat \<times> nat" where
  "gettoken buf es ps =
    (let q = skip_while is_space buf es ps;
         c = buf ! q;
         (ret, eq) =
           (if c = NUL then (c, q)
            else if c \<in> {CHR ''|'', CHR ''('', CHR '')'', CHR '';'', CHR ''&'', CHR ''<''} then (c, q + 1)
            else if c = CHR ''>'' then (if buf ! (q + 1) = CHR ''>'' then (CHR ''+'', q + 2) else (c, q + 1))
            else (CHR ''a'', skip_while (\<lambda>c. \<not> is_space c \<and> c \<notin> set symbols) buf es q))
     in (ret, q, eq, skip_while is_space buf es eq))"

definition peek :: "string \<Rightarrow> nat \<Rightarrow> string \<Rightarrow> nat \<Rightarrow> bool \<times> nat" where
  "peek buf es toks ps =
    (let s = skip_while is_space buf es ps in (buf ! s \<noteq> NUL \<and> buf ! s \<in> set toks, s))"

text \<open>\<open>if(peek(ps, es, toks)) gettoken(ps, es, 0, 0);\<close>\<close>

definition accept :: "string \<Rightarrow> nat \<Rightarrow> string \<Rightarrow> nat \<Rightarrow> bool \<times> nat" where
  "accept buf es toks ps =
    (let (b, ps) = peek buf es toks ps in
     if b then let (_, _, _, ps) = gettoken buf es ps in (True, ps) else (False, ps))"

section \<open>Commands\<close>

text \<open>
  Every function takes the number of calls and rounds that may still be made as its first argument; \<open>parsecmd\<close>
  starts with a number that always suffices. The functions return the command and the place in the line
  at which they stop.
\<close>

definition redir :: "char \<Rightarrow> nat \<Rightarrow> nat \<Rightarrow> cmd \<Rightarrow> cmd" where
  "redir tok q eq c =
    (if tok = CHR ''<'' then redircmd c q eq O_RDONLY 0
     else if tok = CHR ''>'' then redircmd c q eq (O_WRONLY OR O_CREATE) 1
     else if tok = CHR ''+'' then redircmd c q eq (O_WRONLY OR O_CREATE) 1
     else c)"

fun parseredirs :: "nat \<Rightarrow> string \<Rightarrow> nat \<Rightarrow> cmd \<Rightarrow> nat \<Rightarrow> (cmd \<times> nat) result" where
  "parseredirs 0 buf es c ps = Inl Diverges"
| "parseredirs (Suc n) buf es c ps =
    (let (b, ps) = peek buf es ''<>'' ps in
     if \<not> b then Inr (c, ps)
     else
       let (tok, _, _, ps) = gettoken buf es ps; (t, q, eq, ps) = gettoken buf es ps in
       if t \<noteq> CHR ''a'' then Inl (Panic ''missing file for redirection'')
       else parseredirs n buf es (redir tok q eq c) ps)"

text \<open>The loop of parseexec.\<close>

fun parseargs :: "nat \<Rightarrow> string \<Rightarrow> nat \<Rightarrow> nat \<Rightarrow> cmd \<Rightarrow> nat \<Rightarrow> (cmd \<times> nat) result" where
  "parseargs 0 buf es argc ret ps = Inl Diverges"
| "parseargs (Suc n) buf es argc ret ps =
    (let (b, ps) = peek buf es ''|)&;'' ps in
     if b then Inr (ret, ps)
     else
       let (tok, q, eq, ps) = gettoken buf es ps in
       if tok = NUL then Inr (ret, ps)
       else if tok \<noteq> CHR ''a'' then Inl (Panic ''syntax'')
       else if MAXARGS \<le> argc + 1 then Inl (Panic ''too many args'')
       else bindE (parseredirs n buf es (add_arg (q, eq) ret) ps) (\<lambda>(ret, ps).
         parseargs n buf es (argc + 1) ret ps))"

text \<open>The loop of parseline.\<close>

fun parseback :: "nat \<Rightarrow> string \<Rightarrow> nat \<Rightarrow> cmd \<Rightarrow> nat \<Rightarrow> (cmd \<times> nat) result" where
  "parseback 0 buf es c ps = Inl Diverges"
| "parseback (Suc n) buf es c ps =
    (case accept buf es ''&'' ps of (b, ps) \<Rightarrow>
     if b then parseback n buf es (backcmd c) ps else Inr (c, ps))"

primrec nulterminate :: "cmd \<Rightarrow> string \<Rightarrow> string" where
  "nulterminate (Exec as) buf = foldl (\<lambda>b a. b[snd a := NUL]) buf as"
| "nulterminate (Redir c q eq m fd) buf = (nulterminate c buf)[eq := NUL]"
| "nulterminate (Pipe l r) buf = nulterminate r (nulterminate l buf)"
| "nulterminate (Seq l r) buf = nulterminate r (nulterminate l buf)"
| "nulterminate (Back c) buf = nulterminate c buf"

function (sequential) parseline :: "nat \<Rightarrow> string \<Rightarrow> nat \<Rightarrow> nat \<Rightarrow> (cmd \<times> nat) result"
  and parsepipe :: "nat \<Rightarrow> string \<Rightarrow> nat \<Rightarrow> nat \<Rightarrow> (cmd \<times> nat) result"
  and parseblock :: "nat \<Rightarrow> string \<Rightarrow> nat \<Rightarrow> nat \<Rightarrow> (cmd \<times> nat) result"
  and parseexec :: "nat \<Rightarrow> string \<Rightarrow> nat \<Rightarrow> nat \<Rightarrow> (cmd \<times> nat) result"
where
  "parseline 0 buf es ps = Inl Diverges"
| "parseline (Suc n) buf es ps =
    bindE (parsepipe n buf es ps) (\<lambda>(c, ps).
    bindE (parseback n buf es c ps) (\<lambda>(c, ps).
    case accept buf es '';'' ps of (b, ps) \<Rightarrow>
    if b then bindE (parseline n buf es ps) (\<lambda>(d, ps). Inr (listcmd c d, ps)) else Inr (c, ps)))"
| "parsepipe 0 buf es ps = Inl Diverges"
| "parsepipe (Suc n) buf es ps =
    bindE (parseexec n buf es ps) (\<lambda>(c, ps).
    case accept buf es ''|'' ps of (b, ps) \<Rightarrow>
    if b then bindE (parsepipe n buf es ps) (\<lambda>(d, ps). Inr (pipecmd c d, ps)) else Inr (c, ps))"
| "parseblock 0 buf es ps = Inl Diverges"
| "parseblock (Suc n) buf es ps =
    (case accept buf es ''('' ps of (b, ps) \<Rightarrow>
     if \<not> b then Inl (Panic ''parseblock'')
     else
       bindE (parseline n buf es ps) (\<lambda>(c, ps).
       case accept buf es '')'' ps of (b, ps) \<Rightarrow>
       if \<not> b then Inl (Panic ''syntax - missing )'') else parseredirs n buf es c ps))"
| "parseexec 0 buf es ps = Inl Diverges"
| "parseexec (Suc n) buf es ps =
    (case peek buf es ''('' ps of (b, ps) \<Rightarrow>
     if b then parseblock n buf es ps
     else bindE (parseredirs n buf es execcmd ps) (\<lambda>(ret, ps). parseargs n buf es 0 ret ps))"
  by pat_completeness auto

termination
  by (relation "measure (\<lambda>x. case x of Inl (Inl (n, _)) \<Rightarrow> n | Inl (Inr (n, _)) \<Rightarrow> n | Inr (Inl (n, _)) \<Rightarrow> n | Inr (Inr (n, _)) \<Rightarrow> n)") auto

text \<open>The command and the buffer, for a line without its terminating NUL.\<close>

definition parsecmd :: "string \<Rightarrow> (cmd \<times> string) result" where
  "parsecmd s =
    (let buf = s @ [NUL]; es = length s in
     bindE (parseline (4 * es + 4) buf es 0) (\<lambda>(c, ps).
     let (_, ps) = peek buf es [] ps in
     if ps \<noteq> es then Inl (Panic ''syntax'') else Inr (c, nulterminate c buf)))"

section \<open>Words\<close>

text \<open>A word of the line: a longest sequence of characters that are neither white space nor symbols.\<close>

definition word_char :: "char \<Rightarrow> bool" where
  "word_char c \<longleftrightarrow> c \<noteq> NUL \<and> \<not> is_space c \<and> c \<notin> set symbols"

definition line_buf :: "string \<Rightarrow> nat \<Rightarrow> bool" where
  "line_buf buf es \<longleftrightarrow> length buf = Suc es \<and> buf ! es = NUL \<and> (\<forall>i < es. buf ! i \<noteq> NUL)"

definition is_word :: "string \<Rightarrow> nat \<times> nat \<Rightarrow> bool" where
  "is_word buf = (\<lambda>(q, eq). q < eq \<and> eq < length buf \<and> (\<forall>i. q \<le> i \<and> i < eq \<longrightarrow> word_char (buf ! i))
     \<and> \<not> word_char (buf ! eq) \<and> (q = 0 \<or> \<not> word_char (buf ! (q - 1))))"

definition words :: "string \<Rightarrow> nat \<Rightarrow> nat \<Rightarrow> (nat \<times> nat) set" where
  "words buf a b = {w. is_word buf w \<and> a \<le> fst w \<and> snd w \<le> b}"

text \<open>A place that is not inside a word.\<close>

definition boundary :: "string \<Rightarrow> nat \<Rightarrow> bool" where
  "boundary buf p \<longleftrightarrow> p = 0 \<or> \<not> word_char (buf ! (p - 1)) \<or> \<not> word_char (buf ! p)"

lemma words_split:
  assumes "boundary buf m" "a \<le> m" "m \<le> b"
  shows "words buf a b = words buf a m \<union> words buf m b"
proof -
  have "snd w \<le> m \<or> m \<le> fst w" if "is_word buf w" for w
  proof (rule ccontr)
    assume n: "\<not> (snd w \<le> m \<or> m \<le> fst w)"
    have c: "word_char (buf ! i)" if "fst w \<le> i" "i < snd w" for i
      using \<open>is_word buf w\<close> that by (auto simp: is_word_def)
    have "word_char (buf ! (m - 1))" "word_char (buf ! m)" using n by (auto intro: c)
    then show False using assms(1) n by (auto simp: boundary_def)
  qed
  then show ?thesis using assms(2,3) by (auto simp: words_def)
qed

lemma words_none: "(\<And>i. a \<le> i \<Longrightarrow> i < b \<Longrightarrow> \<not> word_char (buf ! i)) \<Longrightarrow> words buf a b = {}"
  by (fastforce simp: words_def is_word_def)

lemma words_one: "is_word buf (q, eq) \<Longrightarrow> words buf q eq = {(q, eq)}"
proof -
  assume w: "is_word buf (q, eq)"
  have "v = (q, eq)" if v: "is_word buf v" "q \<le> fst v" "snd v \<le> eq" for v
  proof -
    obtain a b where ab: "v = (a, b)" by (cases v)
    have n: "a < b" "\<not> word_char (buf ! b)" "a = 0 \<or> \<not> word_char (buf ! (a - 1))" using v(1) ab by (auto simp: is_word_def)
    have c: "word_char (buf ! i)" if "q \<le> i" "i < eq" for i using w that by (auto simp: is_word_def)
    have "b = eq" using n(1,2) c [of b] v ab by (cases "b < eq") auto
    moreover have "a = q"
    proof (rule ccontr)
      assume "a \<noteq> q"
      then have "q < a" using v(2) ab by simp
      then have "q \<le> a - 1" "a - 1 < eq" using n(1) v(3) ab by auto
      then show False using c [of "a - 1"] n(3) \<open>q < a\<close> by simp
    qed
    ultimately show ?thesis using ab by simp
  qed
  then show ?thesis using w by (auto simp: words_def is_word_def)
qed

section \<open>Tokens\<close>

lemma skip_while_spec:
  fixes P buf es s
  defines "t \<equiv> skip_while P buf es s"
  assumes "s \<le> es"
  shows "s \<le> t" "t \<le> es" "\<And>i. s \<le> i \<Longrightarrow> i < t \<Longrightarrow> P (buf ! i)" "t < es \<Longrightarrow> \<not> P (buf ! t)"
proof -
  have "s \<le> t \<and> t \<le> es \<and> (\<forall>i. s \<le> i \<and> i < t \<longrightarrow> P (buf ! i)) \<and> (t < es \<longrightarrow> \<not> P (buf ! t))"
    unfolding t_def using assms(2)
  proof (induction P buf es s rule: skip_while.induct)
    case (1 P buf es s)
    show ?case
    proof (cases "s < es \<and> P (buf ! s)")
      case True
      then have e: "skip_while P buf es s = skip_while P buf es (Suc s)" by (simp add: skip_while.simps [of P buf es s])
      have "P (buf ! i)" if "s \<le> i" "i < skip_while P buf es (Suc s)" for i
        using 1 True that by (cases "i = s") auto
      then show ?thesis unfolding e using 1 True by auto
    next
      case False
      then have "skip_while P buf es s = s" by (subst skip_while.simps) auto
      then show ?thesis using False 1(2) by auto
    qed
  qed
  then show "s \<le> t" "t \<le> es" "\<And>i. s \<le> i \<Longrightarrow> i < t \<Longrightarrow> P (buf ! i)" "t < es \<Longrightarrow> \<not> P (buf ! t)" by auto
qed

lemma not_word_char: "is_space c \<Longrightarrow> \<not> word_char c" "c \<in> set symbols \<Longrightarrow> \<not> word_char c" "\<not> word_char NUL"
  by (auto simp: word_char_def)

lemma is_space_NUL [simp]: "\<not> is_space NUL"
  by (simp add: is_space_def whitespace_def NUL_def)

text \<open>
  Skipping white space from a place outside the words meets no word and stops outside the words, at a
  character that is not white space.
\<close>

lemma skip_space:
  fixes buf es p
  defines "t \<equiv> skip_while is_space buf es p"
  assumes "line_buf buf es" "p \<le> es" "boundary buf p"
  shows "p \<le> t" "t \<le> es" "\<not> is_space (buf ! t)" "words buf p t = {}" "boundary buf t"
proof -
  note s = skip_while_spec [OF assms(3), where P = is_space and buf = buf, folded t_def]
  show "p \<le> t" "t \<le> es" using s by auto
  show "\<not> is_space (buf ! t)" using s assms(2) by (cases "t < es") (auto simp: line_buf_def)
  show "words buf p t = {}" using s(3) by (intro words_none) (auto simp: not_word_char)
  show "boundary buf t"
  proof (cases "t = p")
    case False
    then have "is_space (buf ! (t - 1))" using s(1,3) by simp
    then show ?thesis by (simp add: boundary_def not_word_char)
  qed (use assms in simp)
qed

lemma peek_spec:
  assumes "line_buf buf es" "p \<le> es" "boundary buf p" "peek buf es toks p = (b, t)"
  shows "p \<le> t" "t \<le> es" "\<not> is_space (buf ! t)" "words buf p t = {}" "boundary buf t"
    "b \<longleftrightarrow> t < es \<and> buf ! t \<in> set toks"
proof -
  have t: "t = skip_while is_space buf es p" "b \<longleftrightarrow> buf ! t \<noteq> NUL \<and> buf ! t \<in> set toks"
    using assms(4) by (auto simp: peek_def Let_def)
  note s = skip_space [OF assms(1-3), folded t(1)]
  show "p \<le> t" "t \<le> es" "\<not> is_space (buf ! t)" "words buf p t = {}" "boundary buf t" using s by auto
  have "buf ! t \<noteq> NUL \<longleftrightarrow> t < es" using assms(1) s(2) by (cases "t = es") (auto simp: line_buf_def)
  then show "b \<longleftrightarrow> t < es \<and> buf ! t \<in> set toks" using t(2) by simp
qed

definition token_ok :: "string \<Rightarrow> nat \<Rightarrow> nat \<Rightarrow> char \<Rightarrow> nat \<Rightarrow> bool" where
  "token_ok buf es q ret eq \<longleftrightarrow> q \<le> eq \<and> eq \<le> es \<and> boundary buf eq \<and> (ret \<noteq> NUL \<longrightarrow> q < eq) \<and> (ret = NUL \<longrightarrow> q = es)
     \<and> words buf q eq = (if ret = CHR ''a'' then {(q, eq)} else {})"

lemma token_at:
  assumes "line_buf buf es" "q \<le> es" "\<not> is_space (buf ! q)" "boundary buf q" "gettoken buf es q = (ret, q', eq, t)"
  shows "q' = q \<and> t = skip_while is_space buf es eq \<and> token_ok buf es q ret eq
    \<and> (buf ! q \<in> {CHR ''<'', CHR ''>''} \<longrightarrow> ret \<in> {CHR ''<'', CHR ''>'', CHR ''+''})"
proof -
  have q: "skip_while is_space buf es q = q" using assms(3) by (subst skip_while.simps) simp
  let ?c = "buf ! q"
  have g: "q' = q" "t = skip_while is_space buf es eq"
    "(ret, eq) = (if ?c = NUL then (?c, q)
       else if ?c \<in> {CHR ''|'', CHR ''('', CHR '')'', CHR '';'', CHR ''&'', CHR ''<''} then (?c, q + 1)
       else if ?c = CHR ''>'' then (if buf ! (q + 1) = CHR ''>'' then (CHR ''+'', q + 2) else (?c, q + 1))
       else (CHR ''a'', skip_while (\<lambda>c. \<not> is_space c \<and> c \<notin> set symbols) buf es q))"
    using assms(5) unfolding gettoken_def q by (auto simp: Let_def split: prod.splits)
  have len: "length buf = Suc es" "buf ! es = NUL" "\<And>i. i < es \<Longrightarrow> buf ! i \<noteq> NUL" using assms(1) by (auto simp: line_buf_def)
  have nul: "?c = NUL \<longleftrightarrow> q = es" using len assms(2) by (cases "q < es") auto
  consider (eol) "?c = NUL" "ret = NUL" "eq = q"
    | (sym) "?c \<in> set symbols" "ret = ?c \<or> ret = CHR ''+''" "ret \<noteq> NUL" "ret \<noteq> CHR ''a''" "eq = q + 1 \<or> eq = q + 2 \<and> buf ! (q + 1) = CHR ''>''"
    | (word) "?c \<noteq> NUL" "?c \<notin> set symbols" "ret = CHR ''a''" "eq = skip_while (\<lambda>c. \<not> is_space c \<and> c \<notin> set symbols) buf es q"
    using g(3) by (auto simp: symbols_def NUL_def split: if_splits)
  then have "token_ok buf es q ret eq"
  proof cases
    case eol
    then show ?thesis
      using nul assms(4) by (auto simp: words_none NUL_def token_ok_def)
  next
    case sym
    have lt: "q < es" using sym(1) nul assms(2) by (auto simp: symbols_def NUL_def)
    have s2: "q + 1 < es" if "buf ! (q + 1) = CHR ''>''" using lt that len(2) by (cases "q + 1 = es") (auto simp: NUL_def)
    have nw: "\<not> word_char (buf ! i)" if "q \<le> i" "i < eq" for i
      using sym(1,5) that by (cases "i = q") (auto simp: not_word_char symbols_def word_char_def le_Suc_eq less_Suc_eq)
    have "boundary buf eq" using nw [of "eq - 1"] sym(5) by (auto simp: boundary_def)
    then show ?thesis
      using sym nw words_none [of q eq buf] lt s2 by (auto simp: token_ok_def)
  next
    case word
    let ?P = "\<lambda>c. \<not> is_space c \<and> c \<notin> set symbols"
    note s = skip_while_spec [OF assms(2), where P = ?P and buf = buf, folded word(4)]
    have lt: "q < es" using word(1) nul assms(2) by simp
    have "q < eq" using s(1,4) assms(3) word(2) lt by (cases "q = eq") auto
    moreover have "word_char (buf ! i)" if "q \<le> i" "i < eq" for i using s(2) s(3) [of i] len(3) [of i] that by (auto simp: word_char_def)
    moreover have e: "\<not> word_char (buf ! eq)" using s(2,4) len(2) by (cases "eq = es") (auto simp: word_char_def)
    ultimately have "is_word buf (q, eq)" using assms(4) s(2) len(1) by (auto simp: is_word_def boundary_def)
    then show ?thesis
      using s(2) \<open>q < eq\<close> e words_one word(3) by (auto simp: boundary_def NUL_def token_ok_def)
  qed
  then show ?thesis using g by (auto simp: NUL_def split: if_splits)
qed

lemma gettoken_spec:
  assumes "line_buf buf es" "p \<le> es" "boundary buf p" "gettoken buf es p = (ret, q, eq, t)"
  shows "p \<le> t" "t \<le> es" "boundary buf t" "words buf p t = (if ret = CHR ''a'' then {(q, eq)} else {})"
    "ret \<noteq> NUL \<Longrightarrow> p < t" "ret = NUL \<Longrightarrow> t = es"
    "\<lbrakk>\<not> is_space (buf ! p); buf ! p \<in> {CHR ''<'', CHR ''>''}\<rbrakk> \<Longrightarrow> ret \<in> {CHR ''<'', CHR ''>'', CHR ''+''}"
proof -
  let ?q = "skip_while is_space buf es p"
  note s = skip_space [OF assms(1-3)]
  have "skip_while is_space buf es ?q = ?q" using s(3) by (subst skip_while.simps) simp
  then have g: "gettoken buf es ?q = (ret, q, eq, t)" using assms(4) by (simp add: gettoken_def)
  note k = token_at [OF assms(1) s(2,3,5) g]
  then have k': "?q \<le> eq" "eq \<le> es" "boundary buf eq" "ret \<noteq> NUL \<Longrightarrow> ?q < eq" "ret = NUL \<Longrightarrow> ?q = es" "q = ?q"
    "words buf ?q eq = (if ret = CHR ''a'' then {(?q, eq)} else {})" "t = skip_while is_space buf es eq"
    by (auto simp: token_ok_def)
  note u = skip_space [OF assms(1) k'(2,3), folded k'(8)]
  show "p \<le> t" "t \<le> es" "boundary buf t" using s k' u by auto
  show "ret \<noteq> NUL \<Longrightarrow> p < t" "ret = NUL \<Longrightarrow> t = es" using s(1) k' u(1,2) by fastforce+
  have "words buf p t = words buf p ?q \<union> words buf ?q t" using s(1,5) k'(1) u(1) by (intro words_split) auto
  also have "words buf ?q t = words buf ?q eq \<union> words buf eq t" using k'(1,3) u(1) by (intro words_split) auto
  finally show "words buf p t = (if ret = CHR ''a'' then {(q, eq)} else {})" using s(4) u(4) k'(6,7) by simp
  assume "\<not> is_space (buf ! p)" "buf ! p \<in> {CHR ''<'', CHR ''>''}"
  moreover from this(1) have "?q = p" by (subst skip_while.simps) simp
  ultimately show "ret \<in> {CHR ''<'', CHR ''>'', CHR ''+''}" using k by simp
qed

lemma accept_spec:
  assumes "line_buf buf es" "p \<le> es" "boundary buf p" "accept buf es toks p = (b, t)" "set toks \<subseteq> set symbols"
  shows "p \<le> t" "t \<le> es" "boundary buf t" "words buf p t = {}" "b \<Longrightarrow> p < t"
proof -
  obtain c u where p: "peek buf es toks p = (c, u)" by (cases "peek buf es toks p")
  note k = peek_spec [OF assms(1-3) p]
  obtain ret q eq v where g: "gettoken buf es u = (ret, q, eq, v)" by (cases "gettoken buf es u") auto
  note h = gettoken_spec [OF assms(1) k(2,5) g]
  have r: "ret \<noteq> CHR ''a''" "ret \<noteq> NUL" if c: "c"
  proof -
    have "buf ! u \<in> set symbols" using c k(6) assms(5) by auto
    moreover have "skip_while is_space buf es u = u" using k(3) by (subst skip_while.simps) simp
    ultimately show "ret \<noteq> CHR ''a''" "ret \<noteq> NUL"
      using g by (auto simp: gettoken_def Let_def symbols_def NUL_def split: if_splits prod.splits)
  qed
  have t: "b = c" "t = (if c then v else u)" using assms(4) p g by (auto simp: accept_def split: if_splits)
  then show "p \<le> t" "t \<le> es" "boundary buf t" using k h by auto
  show "b \<Longrightarrow> p < t" using t k(1) h(5) r by auto
  have "words buf p v = words buf p u \<union> words buf u v" using k h by (intro words_split) auto
  then show "words buf p t = {}" using t k(4) h(4) r by (cases c) auto
qed

section \<open>What the parser returns\<close>

primrec cmd_words :: "cmd \<Rightarrow> (nat \<times> nat) set" where
  "cmd_words (Exec as) = set as"
| "cmd_words (Redir c q eq m fd) = insert (q, eq) (cmd_words c)"
| "cmd_words (Pipe l r) = cmd_words l \<union> cmd_words r"
| "cmd_words (Seq l r) = cmd_words l \<union> cmd_words r"
| "cmd_words (Back c) = cmd_words c"

text \<open>The numbers of arguments of the commands in a tree.\<close>

primrec arg_counts :: "cmd \<Rightarrow> nat set" where
  "arg_counts (Exec as) = {length as}"
| "arg_counts (Redir c q eq m fd) = arg_counts c"
| "arg_counts (Pipe l r) = arg_counts l \<union> arg_counts r"
| "arg_counts (Seq l r) = arg_counts l \<union> arg_counts r"
| "arg_counts (Back c) = arg_counts c"

text \<open>A command with its redirections.\<close>

primrec simple :: "cmd \<Rightarrow> bool" where
  "simple (Exec as) = True"
| "simple (Redir c q eq m fd) = simple c"
| "simple (Pipe l r) = False"
| "simple (Seq l r) = False"
| "simple (Back c) = False"

lemma add_arg_simple:
  "simple c \<Longrightarrow> simple (add_arg a c) \<and> cmd_words (add_arg a c) = insert a (cmd_words c)
     \<and> (arg_counts c = {k} \<longrightarrow> arg_counts (add_arg a c) = {Suc k})"
  by (induction c) auto

lemma redir_words:
  assumes "tok \<in> {CHR ''<'', CHR ''>'', CHR ''+''}"
  shows "cmd_words (redir tok q eq c) = insert (q, eq) (cmd_words c)" "arg_counts (redir tok q eq c) = arg_counts c"
    "simple (redir tok q eq c) = simple c"
  using assms by (auto simp: redir_def)

definition syntax_errors :: "string set" where
  "syntax_errors = {''syntax'', ''syntax - missing )'', ''too many args'', ''missing file for redirection''}"

text \<open>
  \<open>parsed buf es p W P r\<close>: a parser that began at \<open>p\<close> with the words \<open>W\<close> already taken reports a syntax error,
  or stops at a place outside the words with all words up to there taken.
\<close>

definition parsed ::
  "string \<Rightarrow> nat \<Rightarrow> nat \<Rightarrow> (nat \<times> nat) set \<Rightarrow> (cmd \<Rightarrow> bool) \<Rightarrow> (cmd \<times> nat) result \<Rightarrow> bool"
where
  "parsed buf es p W P r \<longleftrightarrow> (case r of
      Inl e \<Rightarrow> \<exists>m \<in> syntax_errors. e = Panic m
    | Inr (c, t) \<Rightarrow> p \<le> t \<and> t \<le> es \<and> boundary buf t \<and> cmd_words c = W \<union> words buf p t \<and> P c)"

lemma parsed_from:
  assumes "parsed buf es t (W \<union> words buf p t) P r" "p \<le> t" "boundary buf t"
  shows "parsed buf es p W P r"
proof -
  have w: "words buf p u = words buf p t \<union> words buf t u" if "t \<le> u" for u using assms that by (intro words_split) auto
  show ?thesis
  proof (cases r)
    case (Inr x)
    obtain c u where x: "x = (c, u)" by (cases x)
    show ?thesis using assms(1,2) w [of u] Inr x by (auto simp: parsed_def)
  qed (use assms(1) in \<open>simp add: parsed_def\<close>)
qed

lemma parsed_bind:
  assumes "parsed buf es p W Q r" and "\<And>c t. \<lbrakk>p \<le> t; t \<le> es; boundary buf t; cmd_words c = W \<union> words buf p t; Q c\<rbrakk>
    \<Longrightarrow> parsed buf es t (W \<union> words buf p t) P (f (c, t))"
  shows "parsed buf es p W P (bindE r f)"
proof (cases r)
  case (Inr x)
  obtain c t where x: "x = (c, t)" by (cases x)
  then have "p \<le> t" "t \<le> es" "boundary buf t" "cmd_words c = W \<union> words buf p t" "Q c" using assms(1) Inr by (auto simp: parsed_def)
  then have "parsed buf es p W P (f (c, t))" by (intro parsed_from [OF assms(2)])
  then show ?thesis using Inr x by simp
qed (use assms(1) in \<open>simp add: parsed_def\<close>)

lemma parsed_stop:
  assumes "line_buf buf es" "p \<le> es" "boundary buf p" "p \<le> t" "t \<le> es" "boundary buf t" "words buf p t = {}" "P c"
  shows "parsed buf es p (cmd_words c) P (Inr (c, t))"
  using assms by (simp add: parsed_def)

lemma parsed_error: "m \<in> syntax_errors \<Longrightarrow> parsed buf es p W P (Inl (Panic m))"
  by (simp add: parsed_def)

lemma parseredirs_spec:
  assumes "line_buf buf es"
  shows "p \<le> es \<Longrightarrow> boundary buf p \<Longrightarrow> es - p < n \<Longrightarrow>
    parsed buf es p (cmd_words c) (\<lambda>d. simple d = simple c \<and> arg_counts d = arg_counts c) (parseredirs n buf es c p)"
proof (induction n arbitrary: c p)
  case (Suc n)
  obtain b u where p: "peek buf es ''<>'' p = (b, u)" by (cases "peek buf es ''<>'' p")
  note k = peek_spec [OF assms Suc.prems(1,2) p]
  show ?case
  proof (cases b)
    case True
    obtain tok q0 e0 v where g: "gettoken buf es u = (tok, q0, e0, v)" by (cases "gettoken buf es u") auto
    obtain t q eq w where h: "gettoken buf es v = (t, q, eq, w)" by (cases "gettoken buf es v") auto
    note gs = gettoken_spec [OF assms k(2,5) g]
    note hs = gettoken_spec [OF assms gs(2,3) h]
    have tok: "tok \<in> {CHR ''<'', CHR ''>'', CHR ''+''}" using gs(7) [OF k(3)] k(6) True by auto
    have uv: "u < v" using gs(5) tok by (auto simp: NUL_def)
    show ?thesis
    proof (cases "t = CHR ''a''")
      case a: True
      have "words buf p w = words buf p u \<union> (words buf u v \<union> words buf v w)"
        using words_split [OF k(5,1), of w] words_split [OF gs(3,1), of w] gs(1) hs(1) by simp
      then have "words buf p w = {(q, eq)}" using k(4) gs(4) hs(4) a tok by auto
      then have cw: "cmd_words (redir tok q eq c) = cmd_words c \<union> words buf p w" using redir_words(1) [OF tok] by auto
      have "parsed buf es w (cmd_words c \<union> words buf p w) (\<lambda>d. simple d = simple c \<and> arg_counts d = arg_counts c)
          (parseredirs n buf es (redir tok q eq c) w)"
        using Suc.IH [OF hs(2,3), of "redir tok q eq c"] Suc.prems(3) k(1) uv hs(1,2) redir_words(2,3) [OF tok] cw by auto
      then have "parsed buf es p (cmd_words c) (\<lambda>d. simple d = simple c \<and> arg_counts d = arg_counts c)
          (parseredirs n buf es (redir tok q eq c) w)"
        by (rule parsed_from) (use k(1) gs(1) hs(1,3) in simp_all)
      then show ?thesis using p g h True a by simp
    qed (use p g h True in \<open>simp add: parsed_error syntax_errors_def\<close>)
  qed (use p k Suc.prems assms in \<open>simp add: parsed_stop\<close>)
qed simp

lemma parseargs_spec:
  assumes "line_buf buf es"
  shows "p \<le> es \<Longrightarrow> boundary buf p \<Longrightarrow> es - p < n \<Longrightarrow> simple c \<Longrightarrow> arg_counts c = {argc} \<Longrightarrow> argc < MAXARGS \<Longrightarrow>
    parsed buf es p (cmd_words c) (\<lambda>d. arg_counts d \<subseteq> {..<MAXARGS}) (parseargs n buf es argc c p)"
proof (induction n arbitrary: c p argc)
  case (Suc n)
  obtain b u where p: "peek buf es ''|)&;'' p = (b, u)" by (cases "peek buf es ''|)&;'' p")
  note k = peek_spec [OF assms Suc.prems(1,2) p]
  obtain tok q eq v where g: "gettoken buf es u = (tok, q, eq, v)" by (cases "gettoken buf es u") auto
  note gs = gettoken_spec [OF assms k(2,5) g]
  have w: "words buf p v = words buf u v" using words_split [OF k(5,1), of v] gs(1) k(4) by simp
  let ?P = "\<lambda>d. arg_counts d \<subseteq> {..<MAXARGS}"
  consider "b" | "\<not> b" "tok = NUL" | "\<not> b" "tok \<noteq> NUL" "tok \<noteq> CHR ''a'' \<or> MAXARGS \<le> argc + 1" | "\<not> b" "tok = CHR ''a''" "argc + 1 < MAXARGS"
    by fastforce
  then show ?case
  proof cases
    case 1
    then show ?thesis using p k Suc.prems assms by (simp add: parsed_stop)
  next
    case 2
    then have "words buf p v = {}" using w gs(4) by (simp add: NUL_def)
    then show ?thesis using 2 p g k gs Suc.prems assms by (simp add: parsed_stop)
  next
    case 3
    then show ?thesis using p g by (auto simp: parsed_error syntax_errors_def)
  next
    case 4
    let ?c = "add_arg (q, eq) c"
    have "p < v" using gs(5) 4 k(1) by (simp add: NUL_def)
    have c: "simple ?c" "cmd_words ?c = cmd_words c \<union> words buf p v" "arg_counts ?c = {Suc argc}"
      using add_arg_simple [OF Suc.prems(4), of "(q, eq)" argc] Suc.prems(5) w gs(4) 4(2) by auto
    have "parsed buf es v (cmd_words ?c) ?P (bindE (parseredirs n buf es ?c v) (\<lambda>(r, t). parseargs n buf es (argc + 1) r t))"
    proof (rule parsed_bind [OF parseredirs_spec [OF assms gs(2,3)]])
      show "es - v < n" using Suc.prems(3) \<open>p < v\<close> gs(2) by simp
      fix d t assume t: "v \<le> t" "t \<le> es" "boundary buf t" "cmd_words d = cmd_words ?c \<union> words buf v t"
        "simple d = simple ?c \<and> arg_counts d = arg_counts ?c"
      then show "parsed buf es t (cmd_words ?c \<union> words buf v t) ?P (case (d, t) of (r, t) \<Rightarrow> parseargs n buf es (argc + 1) r t)"
        using Suc.IH [OF t(2,3), of d "argc + 1"] Suc.prems(3) \<open>p < v\<close> c 4(3) by simp
    qed
    then have "parsed buf es p (cmd_words c) ?P (bindE (parseredirs n buf es ?c v) (\<lambda>(r, t). parseargs n buf es (argc + 1) r t))"
      unfolding c(2) by (rule parsed_from) (use \<open>p < v\<close> gs(3) in simp_all)
    then show ?thesis using p g 4 by (simp add: NUL_def)
  qed
qed simp

abbreviation args_ok :: "cmd \<Rightarrow> bool" where
  "args_ok c \<equiv> arg_counts c \<subseteq> {..<MAXARGS}"

lemma parseback_spec:
  assumes "line_buf buf es"
  shows "p \<le> es \<Longrightarrow> boundary buf p \<Longrightarrow> es - p < n \<Longrightarrow> args_ok c \<Longrightarrow>
    parsed buf es p (cmd_words c) args_ok (parseback n buf es c p)"
proof (induction n arbitrary: c p)
  case (Suc n)
  obtain b t where a: "accept buf es ''&'' p = (b, t)" by (cases "accept buf es ''&'' p")
  note k = accept_spec [OF assms Suc.prems(1,2) a, unfolded symbols_def, simplified]
  show ?case
  proof (cases b)
    case True
    then have "parsed buf es t (cmd_words c \<union> words buf p t) args_ok (parseback n buf es (Back c) t)"
      using Suc.IH [OF k(2,3), of "Back c"] Suc.prems(3,4) k(2,4) k(5) by simp
    then have "parsed buf es p (cmd_words c) args_ok (parseback n buf es (Back c) t)"
      by (rule parsed_from) (use k in simp_all)
    then show ?thesis using a True by simp
  qed (use a k Suc.prems assms in \<open>simp add: parsed_stop\<close>)
qed simp

text \<open>A command, a separator and a second command.\<close>

lemma parsed_then:
  assumes "line_buf buf es" "p \<le> es" "boundary buf p" "args_ok c" "set toks \<subseteq> set symbols"
    and rest: "\<And>t. \<lbrakk>p < t; t \<le> es; boundary buf t\<rbrakk> \<Longrightarrow> parsed buf es t {} args_ok (f t)"
    and F: "\<And>d. cmd_words (F c d) = cmd_words c \<union> cmd_words d" "\<And>d. arg_counts (F c d) = arg_counts c \<union> arg_counts d"
  shows "parsed buf es p (cmd_words c) args_ok
    (case accept buf es toks p of (b, t) \<Rightarrow> if b then bindE (f t) (\<lambda>(d, u). Inr (F c d, u)) else Inr (c, t))"
proof -
  obtain b t where a: "accept buf es toks p = (b, t)" by (cases "accept buf es toks p")
  note k = accept_spec [OF assms(1-3) a assms(5)]
  show ?thesis
  proof (cases b)
    case True
    then have "parsed buf es t {} args_ok (f t)" using rest k by simp
    then have "parsed buf es t (cmd_words c \<union> words buf p t) args_ok (bindE (f t) (\<lambda>(d, u). Inr (F c d, u)))"
      using assms(4) F k(4) by (cases "f t") (auto simp: parsed_def)
    then have "parsed buf es p (cmd_words c) args_ok (bindE (f t) (\<lambda>(d, u). Inr (F c d, u)))"
      by (rule parsed_from) (use k in simp_all)
    then show ?thesis using a True by simp
  qed (use a k assms in \<open>simp add: parsed_stop\<close>)
qed

lemma peek_here: "\<not> is_space (buf ! p) \<Longrightarrow> peek buf es toks p = (buf ! p \<noteq> NUL \<and> buf ! p \<in> set toks, p)"
  by (simp add: peek_def skip_while.simps [of is_space])

definition parser_ok :: "string \<Rightarrow> nat \<Rightarrow> nat \<Rightarrow> nat \<Rightarrow> (nat \<Rightarrow> nat \<Rightarrow> (cmd \<times> nat) result) \<Rightarrow> bool" where
  "parser_ok buf es n k f \<longleftrightarrow> (\<forall>p \<le> es. boundary buf p \<and> 4 * (es - p) + k \<le> n \<longrightarrow> parsed buf es p {} args_ok (f n p))"

lemma parser_okD:
  "parser_ok buf es n k f \<Longrightarrow> p \<le> es \<Longrightarrow> boundary buf p \<Longrightarrow> 4 * (es - p) + k \<le> n \<Longrightarrow> parsed buf es p {} args_ok (f n p)"
  by (simp add: parser_ok_def)

lemma parsepipe_step:
  assumes "line_buf buf es" "parser_ok buf es n 2 (\<lambda>n. parseexec n buf es)" "parser_ok buf es n 3 (\<lambda>n. parsepipe n buf es)"
  shows "parser_ok buf es (Suc n) 3 (\<lambda>n. parsepipe n buf es)"
  unfolding parser_ok_def
proof (intro allI impI, elim conjE)
  fix p assume p: "p \<le> es" "boundary buf p" "4 * (es - p) + 3 \<le> Suc n"
  have "parsed buf es p {} args_ok (parseexec n buf es p)" using parser_okD [OF assms(2) p(1,2)] p(3) by simp
  then show "parsed buf es p {} args_ok (parsepipe (Suc n) buf es p)" unfolding parsepipe.simps
  proof (rule parsed_bind)
    fix c t assume t: "p \<le> t" "t \<le> es" "boundary buf t" "cmd_words c = {} \<union> words buf p t" "args_ok c"
    have "parsed buf es t (cmd_words c) args_ok (case accept buf es ''|'' t of (b, t) \<Rightarrow>
        if b then bindE (parsepipe n buf es t) (\<lambda>(d, u). Inr (Pipe c d, u)) else Inr (c, t))"
      by (rule parsed_then [OF assms(1) t(2,3,5)]) (use parser_okD [OF assms(3)] t p in \<open>simp_all add: symbols_def\<close>)
    then show "parsed buf es t ({} \<union> words buf p t) args_ok (case (c, t) of (c, t) \<Rightarrow> case accept buf es ''|'' t of (b, t) \<Rightarrow>
        if b then bindE (parsepipe n buf es t) (\<lambda>(d, u). Inr (Pipe c d, u)) else Inr (c, t))"
      using t(4) by simp
  qed
qed

lemma parseline_step:
  assumes "line_buf buf es" "parser_ok buf es n 3 (\<lambda>n. parsepipe n buf es)" "parser_ok buf es n 4 (\<lambda>n. parseline n buf es)"
  shows "parser_ok buf es (Suc n) 4 (\<lambda>n. parseline n buf es)"
  unfolding parser_ok_def
proof (intro allI impI, elim conjE)
  fix p assume p: "p \<le> es" "boundary buf p" "4 * (es - p) + 4 \<le> Suc n"
  have "parsed buf es p {} args_ok (parsepipe n buf es p)" using parser_okD [OF assms(2) p(1,2)] p(3) by simp
  then show "parsed buf es p {} args_ok (parseline (Suc n) buf es p)" unfolding parseline.simps
  proof (rule parsed_bind)
    fix c t assume t: "p \<le> t" "t \<le> es" "boundary buf t" "cmd_words c = {} \<union> words buf p t" "args_ok c"
    let ?rest = "\<lambda>c t. case accept buf es '';'' t of (b, t) \<Rightarrow>
        if b then bindE (parseline n buf es t) (\<lambda>(d, u). Inr (Seq c d, u)) else Inr (c, t)"
    have "parsed buf es t (cmd_words c) args_ok (parseback n buf es c t)" using parseback_spec [OF assms(1) t(2,3) _ t(5)] p(3) t(1) by simp
    then have "parsed buf es t (cmd_words c) args_ok (bindE (parseback n buf es c t) (\<lambda>(c, t). ?rest c t))"
    proof (rule parsed_bind)
      fix d u assume u: "t \<le> u" "u \<le> es" "boundary buf u" "cmd_words d = cmd_words c \<union> words buf t u" "args_ok d"
      have "parsed buf es u (cmd_words d) args_ok (?rest d u)"
        by (rule parsed_then [OF assms(1) u(2,3,5)]) (use parser_okD [OF assms(3)] t u p in \<open>simp_all add: symbols_def\<close>)
      then show "parsed buf es u (cmd_words c \<union> words buf t u) args_ok (case (d, u) of (c, t) \<Rightarrow> ?rest c t)" using u(4) by simp
    qed
    then show "parsed buf es t ({} \<union> words buf p t) args_ok (case (c, t) of (c, t) \<Rightarrow> bindE (parseback n buf es c t) (\<lambda>(c, t). ?rest c t))"
      using t(4) by simp
  qed
qed

definition paren_ok :: "string \<Rightarrow> nat \<Rightarrow> nat \<Rightarrow> bool" where
  "paren_ok buf es n \<longleftrightarrow> (\<forall>p < es. boundary buf p \<and> buf ! p = CHR ''('' \<and> 4 * (es - p) + 1 \<le> n
     \<longrightarrow> parsed buf es p {} args_ok (parseblock n buf es p))"

lemma parseblock_step:
  assumes "line_buf buf es" "parser_ok buf es n 4 (\<lambda>n. parseline n buf es)"
  shows "paren_ok buf es (Suc n)"
  unfolding paren_ok_def
proof (intro allI impI, elim conjE)
  fix p assume p: "p < es" "boundary buf p" "buf ! p = CHR ''(''" "4 * (es - p) + 1 \<le> Suc n"
  obtain b t where a: "accept buf es ''('' p = (b, t)" by (cases "accept buf es ''('' p")
  have "\<not> is_space (buf ! p)" using p(3) by (simp add: is_space_def whitespace_def)
  then have b using a p(3) by (auto simp: accept_def peek_here NUL_def split: prod.splits)
  note k = accept_spec [OF assms(1) less_imp_le [OF p(1)] p(2) a, unfolded symbols_def, simplified]
  let ?rest = "\<lambda>c u. case accept buf es '')'' u of (b, u) \<Rightarrow>
      if \<not> b then Inl (Panic ''syntax - missing )'') else parseredirs n buf es c u"
  have "parsed buf es t {} args_ok (parseline n buf es t)" using parser_okD [OF assms(2) k(2,3)] k(2,5) \<open>b\<close> p(4) by simp
  then have "parsed buf es t {} args_ok (bindE (parseline n buf es t) (\<lambda>(c, u). ?rest c u))"
  proof (rule parsed_bind)
    fix c u assume u: "t \<le> u" "u \<le> es" "boundary buf u" "cmd_words c = {} \<union> words buf t u" "args_ok c"
    obtain d v where e: "accept buf es '')'' u = (d, v)" by (cases "accept buf es '')'' u")
    note l = accept_spec [OF assms(1) u(2,3) e, unfolded symbols_def, simplified]
    have "es - v < n" using l(1) u(1) k(5) \<open>b\<close> p by simp
    then have "parsed buf es v (cmd_words c \<union> words buf u v) args_ok (parseredirs n buf es c v)"
      using parseredirs_spec [OF assms(1) l(2,3), of n c] l(4) u(5) by (auto simp: parsed_def split: sum.splits)
    then have "parsed buf es u (cmd_words c) args_ok (parseredirs n buf es c v)"
      by (rule parsed_from) (use l in simp_all)
    then show "parsed buf es u ({} \<union> words buf t u) args_ok (case (c, u) of (c, u) \<Rightarrow> ?rest c u)"
      using e u(4) by (simp add: parsed_error syntax_errors_def)
  qed
  then have "parsed buf es p {} args_ok (bindE (parseline n buf es t) (\<lambda>(c, u). ?rest c u))"
    using k(4) by (intro parsed_from [OF _ k(1,3)]) simp
  then show "parsed buf es p {} args_ok (parseblock (Suc n) buf es p)" using a \<open>b\<close> by simp
qed

lemma parseexec_step:
  assumes "line_buf buf es" "paren_ok buf es n"
  shows "parser_ok buf es (Suc n) 2 (\<lambda>n. parseexec n buf es)"
  unfolding parser_ok_def
proof (intro allI impI, elim conjE)
  fix p assume p: "p \<le> es" "boundary buf p" "4 * (es - p) + 2 \<le> Suc n"
  obtain b t where a: "peek buf es ''('' p = (b, t)" by (cases "peek buf es ''('' p")
  note k = peek_spec [OF assms(1) p(1,2) a]
  have "parsed buf es t {} args_ok (if b then parseblock n buf es t
      else bindE (parseredirs n buf es (Exec []) t) (\<lambda>(ret, ps). parseargs n buf es 0 ret ps))"
  proof (cases b)
    case True
    then show ?thesis using assms(2) k p(3) unfolding paren_ok_def by auto
  next
    case False
    have n: "es - t < n" using p k(1,2) by simp
    have "parsed buf es t (cmd_words (Exec [])) args_ok (bindE (parseredirs n buf es (Exec []) t) (\<lambda>(ret, ps). parseargs n buf es 0 ret ps))"
      using parseredirs_spec [OF assms(1) k(2,5) n]
    proof (rule parsed_bind)
      fix d u assume u: "t \<le> u" "u \<le> es" "boundary buf u" "cmd_words d = cmd_words (Exec []) \<union> words buf t u"
        "simple d = simple (Exec []) \<and> arg_counts d = arg_counts (Exec [])"
      then have "parsed buf es u (cmd_words d) args_ok (parseargs n buf es 0 d u)"
        using n by (intro parseargs_spec [OF assms(1)]) (simp_all add: MAXARGS_def)
      then show "parsed buf es u (cmd_words (Exec []) \<union> words buf t u) args_ok (case (d, u) of (ret, ps) \<Rightarrow> parseargs n buf es 0 ret ps)"
        using u(4) by simp
    qed
    then show ?thesis using False by simp
  qed
  then have "parsed buf es p {} args_ok (if b then parseblock n buf es t
      else bindE (parseredirs n buf es (Exec []) t) (\<lambda>(ret, ps). parseargs n buf es 0 ret ps))"
    using k(4) by (intro parsed_from [OF _ k(1,5)]) simp
  then show "parsed buf es p {} args_ok (parseexec (Suc n) buf es p)" using a by simp
qed

lemma parseline_spec:
  assumes "line_buf buf es"
  shows "parser_ok buf es n 4 (\<lambda>n. parseline n buf es) \<and> parser_ok buf es n 3 (\<lambda>n. parsepipe n buf es)
    \<and> parser_ok buf es n 2 (\<lambda>n. parseexec n buf es) \<and> paren_ok buf es n"
proof (induction n)
  case 0
  show ?case by (simp add: parser_ok_def paren_ok_def)
next
  case (Suc n)
  then show ?case using parseline_step parsepipe_step parseexec_step parseblock_step assms by blast
qed

section \<open>The strings of the commands\<close>

text \<open>The C string at offset \<open>q\<close> of a buffer.\<close>

definition string_at :: "string \<Rightarrow> nat \<Rightarrow> string" where
  "string_at buf q = takeWhile (\<lambda>c. c \<noteq> NUL) (drop q buf)"

lemma length_nulterminate [simp]: "length (nulterminate c buf) = length buf"
proof (induction c arbitrary: buf)
  case (Exec as)
  show ?case by (induction as arbitrary: buf) simp_all
qed simp_all

lemma nulterminate_nth:
  "i < length buf \<Longrightarrow> nulterminate c buf ! i = (if i \<in> snd ` cmd_words c then NUL else buf ! i)"
proof (induction c arbitrary: buf)
  case (Exec as)
  then show ?case by (induction as arbitrary: buf) (auto simp: nth_list_update)
next
  case (Redir c q eq m fd)
  then show ?case by (cases "i = eq") simp_all
qed (simp_all add: image_Un)

lemma string_at_word:
  assumes "is_word buf (q, eq)" "cmd_words c \<subseteq> Collect (is_word buf)" "(q, eq) \<in> cmd_words c"
  shows "string_at (nulterminate c buf) q = take (eq - q) (drop q buf)"
proof -
  have w: "q < eq" "eq < length buf" "\<And>i. q \<le> i \<Longrightarrow> i < eq \<Longrightarrow> word_char (buf ! i)" using assms(1) by (auto simp: is_word_def)
  let ?b = "nulterminate c buf"
  have l: "length ?b = length buf" by simp
  have n: "?b ! i = buf ! i" "?b ! i \<noteq> NUL" if i: "q \<le> i" "i < eq" for i
  proof -
    have "i \<notin> snd ` cmd_words c" using assms(2) w(3) [OF i] by (auto simp: is_word_def)
    then show "?b ! i = buf ! i" using nulterminate_nth [of i buf c] i w(2) by simp
    then show "?b ! i \<noteq> NUL" using w(3) [OF i] by (auto simp: word_char_def)
  qed
  have e: "?b ! eq = NUL" using nulterminate_nth [of eq buf c] assms(3) w(2) by (auto intro: rev_image_eqI)
  have "takeWhile (\<lambda>c. c \<noteq> NUL) (drop q ?b) = take (eq - q) (drop q ?b)"
    by (rule takeWhile_eq_take_P_nth) (use w n e l in auto)
  also have "\<dots> = take (eq - q) (drop q buf)"
    by (rule nth_equalityI) (use w n l in auto)
  finally show ?thesis by (simp add: string_at_def)
qed

lemma parsecmd_spec:
  assumes "NUL \<notin> set s"
  shows "case parsecmd s of
      Inl e \<Rightarrow> \<exists>m \<in> syntax_errors. e = Panic m
    | Inr (c, buf) \<Rightarrow> cmd_words c = {w. is_word (s @ [NUL]) w} \<and> arg_counts c \<subseteq> {..<MAXARGS}
        \<and> (\<forall>(q, eq) \<in> cmd_words c. string_at buf q = take (eq - q) (drop q s))"
proof -
  let ?b = "s @ [NUL]" let ?es = "length s"
  have lb: "line_buf ?b ?es" using assms by (auto simp: line_buf_def nth_append in_set_conv_nth)
  have b0: "boundary ?b 0" by (simp add: boundary_def)
  have p: "parsed ?b ?es 0 {} args_ok (parseline (4 * ?es + 4) ?b ?es 0)"
    using parseline_spec [OF lb] parser_okD [OF _ _ b0, of ?es _ 4 "\<lambda>n. parseline n ?b ?es"] by simp
  show ?thesis
  proof (cases "parseline (4 * ?es + 4) ?b ?es 0")
    case (Inl e)
    then show ?thesis using p by (simp add: parsecmd_def parsed_def)
  next
    case (Inr x)
    obtain c t where x: "x = (c, t)" by (cases x)
    have c: "t \<le> ?es" "boundary ?b t" "cmd_words c = words ?b 0 t" "args_ok c" using p Inr x by (auto simp: parsed_def)
    obtain d u where k: "peek ?b ?es [] t = (d, u)" by (cases "peek ?b ?es [] t")
    note pk = peek_spec [OF lb c(1,2) k]
    show ?thesis
    proof (cases "u = ?es")
      case True
      have "words ?b 0 ?es = words ?b 0 t" using words_split [OF c(2), of 0 ?es] pk(4) True c(1) by simp
      moreover have "words ?b 0 ?es = {w. is_word ?b w}" by (auto simp: words_def is_word_def)
      ultimately have cw: "cmd_words c = {w. is_word ?b w}" using c(3) by simp
      have "string_at (nulterminate c ?b) q = take (eq - q) (drop q s)" if "(q, eq) \<in> cmd_words c" for q eq
        using string_at_word [of ?b q eq c] that cw by (auto simp: is_word_def)
      then show ?thesis using Inr x k True cw c(4) by (auto simp: parsecmd_def)
    qed (use Inr x k in \<open>simp add: parsecmd_def syntax_errors_def\<close>)
  qed
qed



end
