(* ===== verification/Shell.thy ===== *)
theory Shell
  imports Sh User
begin

text \<open>
  The shell as a program (sh.c): reading a line, the builtin cd, and the system calls by which runcmd carries out a
  command that the parser has returned. The strings of the command are read from the buffer in which
  nulterminate has ended them.
\<close>

section \<open>Running a command\<close>

definition sh_panic :: "string \<Rightarrow> 'a user" where
  "sh_panic s = bindU (printf 2 (''%s'' @ newline) [Ptr (Some s)]) (\<lambda>_. uexit)"

definition fork1 :: "int user" where
  "fork1 = bindU (sys UFork) (\<lambda>r. if u_ret r = - 1 then sh_panic ''fork'' else retU (u_ret r))"

text \<open>The child of a pipe: \<open>fd\<close> becomes the end \<open>p\<close> of it.\<close>

definition pipe_child :: "int \<Rightarrow> int \<Rightarrow> int \<times> int \<Rightarrow> unit user" where
  "pipe_child fd p ps =
    thenU (do_sys (UClose fd)) (thenU (do_sys (UDup p)) (thenU (do_sys (UClose (fst ps))) (do_sys (UClose (snd ps)))))"

primrec runcmd :: "string \<Rightarrow> cmd \<Rightarrow> unit user" where
  "runcmd buf (Exec as) =
    (if as = [] then uexit
     else
       let argv = map (\<lambda>a. string_at buf (fst a)) as in
       thenU (do_sys (UExec (hd argv) argv))
       (thenU (printf 2 (''exec %s failed'' @ newline) [Ptr (Some (hd argv))]) uexit))"
| "runcmd buf (Redir c q eq mode fd) =
    thenU (do_sys (UClose fd))
    (bindU (sys (UOpen (string_at buf q) mode)) (\<lambda>r.
     if u_ret r < 0 then thenU (printf 2 (''open %s failed'' @ newline) [Ptr (Some (string_at buf q))]) uexit
     else runcmd buf c))"
| "runcmd buf (Seq l r) =
    bindU fork1 (\<lambda>pid. if pid = 0 then runcmd buf l else thenU (do_sys UWait) (runcmd buf r))"
| "runcmd buf (Pipe l r) =
    bindU (sys UPipe) (\<lambda>p.
    if u_ret p < 0 then sh_panic ''pipe''
    else
      let ps = u_fds p in
      bindU fork1 (\<lambda>pid.
      if pid = 0 then thenU (pipe_child 1 (snd ps) ps) (runcmd buf l)
      else
        bindU fork1 (\<lambda>pid.
        if pid = 0 then thenU (pipe_child 0 (fst ps) ps) (runcmd buf r)
        else
          thenU (do_sys (UClose (fst ps))) (thenU (do_sys (UClose (snd ps)))
          (thenU (do_sys UWait) (thenU (do_sys UWait) uexit))))))"
| "runcmd buf (Back c) = bindU fork1 (\<lambda>pid. if pid = 0 then runcmd buf c else uexit)"

section \<open>Reading commands\<close>

text \<open>The bytes of the buffer from its start to the NUL; \<open>None\<close> at the end of the input.\<close>

definition getcmd :: "nat \<Rightarrow> string option user" where
  "getcmd nbuf =
    thenU (printf 2 ''$ '' [])
    (bindU (gets nbuf) (\<lambda>t.
     let line = takeWhile (\<lambda>c. c \<noteq> NUL) t in
     retU (if line = [] then None else Some line)))"

text \<open>What parsecmd prints before its panic, when the line goes on after a command.\<close>

definition leftovers :: "string \<Rightarrow> string option" where
  "leftovers s =
    (let buf = s @ [NUL]; es = length s in
     case parseline (4 * es + 4) buf es 0 of
       Inl _ \<Rightarrow> None
     | Inr (c, ps) \<Rightarrow> let (_, ps) = peek buf es [] ps in if ps \<noteq> es then Some (drop ps s) else None)"

text \<open>\<open>runcmd(parsecmd(buf))\<close> in the child.\<close>

definition run_line :: "string \<Rightarrow> unit user" where
  "run_line s =
    (case parsecmd s of
       Inr (c, buf) \<Rightarrow> runcmd buf c
     | Inl (Panic m) \<Rightarrow>
         thenU (case leftovers s of None \<Rightarrow> retU () | Some t \<Rightarrow> printf 2 (''leftovers: %s'' @ newline) [Ptr (Some t)])
           (sh_panic m)
     | Inl _ \<Rightarrow> hang)"

definition open_console :: "unit user" where
  "open_console =
    foreverU (\<lambda>_.
      bindU (sys (UOpen ''console'' O_RDWR)) (\<lambda>r.
      if u_ret r < 0 then retU (Inl ())
      else if u_ret r \<ge> 3 then bindU (do_sys (UClose (u_ret r))) (\<lambda>_. retU (Inl ()))
      else retU (Inr ()))) ()"

definition sh_main :: "unit user" where
  "sh_main =
    thenU open_console
    (thenU (foreverU (\<lambda>_.
       bindU (getcmd 100) (\<lambda>l. case l of
         None \<Rightarrow> retU (Inl ())
       | Some line \<Rightarrow>
         if take 3 line = ''cd ''
         then
           let dir = drop 3 (butlast line) in
           bindU (sys (UChdir dir)) (\<lambda>r.
           bindU (whenU (u_ret r < 0) (printf 2 (''cannot cd %s'' @ newline) [Ptr (Some dir)])) (\<lambda>_.
           retU (Inr ())))
         else
           bindU fork1 (\<lambda>pid.
           if pid = 0 then bindU (run_line line) (\<lambda>_. retU (Inr ()))
           else bindU (do_sys UWait) (\<lambda>_. retU (Inr ()))))) ())
    uexit)"

section \<open>What a command line may do\<close>

definition ends :: "'a user \<Rightarrow> bool" where
  "ends m \<longleftrightarrow> (\<forall>rs. snd (m rs) = None)"

lemma ends_bind: "ends m \<or> (\<forall>x. ends (f x)) \<Longrightarrow> ends (bindU m f)"
proof -
  assume e: "ends m \<or> (\<forall>x. ends (f x))"
  show ?thesis
    unfolding ends_def
  proof
    fix rs
    obtain cs y where m: "m rs = (cs, y)" by (cases "m rs")
    have "snd (f x rs') = None" if "y = Some (x, rs')" for x rs'
      using e m that unfolding ends_def by (metis option.distinct(1) snd_conv)
    then show "snd (bindU m f rs) = None" by (auto simp: bindU_def m split: option.split prod.split)
  qed
qed

lemma ends_simps [simp]: "ends uexit" "ends hang" "ends (sh_panic t)"
  by (simp_all add: ends_def uexit_def hang_def sh_panic_def ends_bind [unfolded ends_def])

lemma ends_then [simp]: "ends n \<Longrightarrow> ends (thenU m n)"
  by (simp add: thenU_def ends_bind)

lemma runcmd_ends: "ends (runcmd buf c)"
  by (induction c) (auto simp: Let_def intro!: ends_bind ends_then)

definition calls_in :: "(ucall \<Rightarrow> bool) \<Rightarrow> 'a user \<Rightarrow> bool" where
  "calls_in P m \<longleftrightarrow> (\<forall>rs. list_all P (fst (m rs)))"

lemma calls_bind [simp]: "calls_in P m \<Longrightarrow> (\<And>x. calls_in P (f x)) \<Longrightarrow> calls_in P (bindU m f)"
  unfolding calls_in_def bindU_def by (auto split: prod.splits option.splits) (metis fst_conv)+

lemma calls_basic [simp]:
  "calls_in P (retU x)" "calls_in P hang" "calls_in P (sys c) \<longleftrightarrow> P c" "calls_in P uexit \<longleftrightarrow> P UExit"
  by (simp_all add: calls_in_def retU_def hang_def sys_def uexit_def)

lemma calls_derived [simp]:
  "P c \<Longrightarrow> calls_in P (do_sys c)"
  "calls_in P m \<Longrightarrow> calls_in P n \<Longrightarrow> calls_in P (thenU m n)"
  by (simp_all add: do_sys_def thenU_def)

lemma calls_for [simp]: "(\<And>x. calls_in P (f x)) \<Longrightarrow> calls_in P (forU f xs)"
  by (induction xs) simp_all

text \<open>The calls that a command may make, when \<open>ws\<close> are the words of the line.\<close>

fun call_ok :: "string set \<Rightarrow> ucall \<Rightarrow> bool" where
  "call_ok ws (UExec f as) \<longleftrightarrow> as \<noteq> [] \<and> f = hd as \<and> set as \<subseteq> ws \<and> length as < MAXARGS"
| "call_ok ws (UOpen f m) \<longleftrightarrow> f \<in> ws"
| "call_ok ws (UUnlink f) \<longleftrightarrow> False"
| "call_ok ws (ULink f g) \<longleftrightarrow> False"
| "call_ok ws (UMkdir f) \<longleftrightarrow> False"
| "call_ok ws (UMknod f a b) \<longleftrightarrow> False"
| "call_ok ws (UChdir f) \<longleftrightarrow> False"
| "call_ok ws (UKill p) \<longleftrightarrow> False"
| "call_ok ws c \<longleftrightarrow> True"

lemma calls_ok_derived [simp]:
  "calls_in (call_ok ws) (printf fd fmt as)" "calls_in (call_ok ws) (sh_panic t)" "calls_in (call_ok ws) fork1"
  "calls_in (call_ok ws) (pipe_child fd p ps)"
  by (simp_all add: printf_def putc_def sh_panic_def fork1_def pipe_child_def split: sum.split)

lemma runcmd_calls:
  assumes "(\<lambda>w. string_at buf (fst w)) ` cmd_words c \<subseteq> ws" "arg_counts c \<subseteq> {..<MAXARGS}"
  shows "calls_in (call_ok ws) (runcmd buf c)"
  using assms
proof (induction c)
  case (Exec as)
  then show ?case by (auto simp: Let_def hd_map intro!: calls_derived)
qed (auto simp: Let_def image_Un)

definition line_words :: "string \<Rightarrow> string set" where
  "line_words s = {take (eq - q) (drop q s) |q eq. is_word (s @ [NUL]) (q, eq)}"

text \<open>
  C34. The child that the shell forks for a line never returns to the shell's loop, whatever the results of its
  system calls are. The programs it executes have as their name and arguments words of the line, the
  name being the first of less than MAXARGS arguments; the files it opens are named by words of the line. It makes no other
  call that changes the file system or kills a process.
\<close>

theorem run_line_confined:
  assumes "NUL \<notin> set s"
  shows "snd (run_line s rs) = None \<and> list_all (call_ok (line_words s)) (fst (run_line s rs))"
proof (cases "parsecmd s")
  case (Inl e)
  then obtain m where "e = Panic m" using parsecmd_spec [OF assms] by auto
  then have "ends (run_line s)" "calls_in (call_ok (line_words s)) (run_line s)"
    using Inl by (auto simp: run_line_def split: option.split)
  then show ?thesis by (simp add: ends_def calls_in_def)
next
  case (Inr x)
  obtain c buf where x: "x = (c, buf)" by (cases x)
  have p: "cmd_words c = {w. is_word (s @ [NUL]) w}" "arg_counts c \<subseteq> {..<MAXARGS}"
    "\<forall>(q, eq) \<in> cmd_words c. string_at buf q = take (eq - q) (drop q s)"
    using parsecmd_spec [OF assms] Inr x by auto
  then have "(\<lambda>w. string_at buf (fst w)) ` cmd_words c \<subseteq> line_words s" by (fastforce simp: line_words_def)
  then show ?thesis using runcmd_calls [OF _ p(2)] runcmd_ends [of buf c] Inr x
    by (simp add: run_line_def ends_def calls_in_def)
qed

theorem run_line_confined_witness:
  "fst (run_line ''ls>f'' [result 0, result 1]) = [UClose 1, UOpen ''f'' 0x201, UExec ''ls'' [''ls'']]
   \<and> call_ok (line_words ''ls>f'') (UOpen ''f'' 0x201) \<and> call_ok (line_words ''ls>f'') (UExec ''ls'' [''ls''])"
proof -
  have e: "fst (run_line ''ls>f'' [result 0, result 1]) = [UClose 1, UOpen ''f'' 0x201, UExec ''ls'' [''ls'']]"
    by code_simp
  then show ?thesis using run_line_confined [of "''ls>f''" "[result 0, result 1]"] by (simp add: NUL_def)
qed

end
