(* ===== verification/Umalloc.thy ===== *)
theory Umalloc
  imports Prelude
begin

text \<open>
  The memory allocator of user programs (umalloc.c). The headers of the blocks are a store from addresses to
  pairs of a next pointer and a size in units of 8 bytes, the size of a Header; all headers in use are at
  multiples of 8, so that they do not overlap. The address of the static header \<open>base\<close> is chosen by the linker,
  and whether the kernel grants an sbrk is decided by \<open>grant\<close>, from the present end of the process and the
  number of bytes: both are arguments. The loops have no bound of their own; \<open>None\<close> stands for not returning.
\<close>

section \<open>Definitions\<close>

record header =
  h_ptr :: u32
  h_size :: u32

record umem =
  heap :: "u32 \<Rightarrow> header"
  freep :: u32
  brk :: u32

definition upd_hdr :: "u32 \<Rightarrow> (header \<Rightarrow> header) \<Rightarrow> umem \<Rightarrow> umem" where
  "upd_hdr p f s = s\<lparr>heap := (heap s)(p := f (heap s p))\<rparr>"

definition nextp :: "umem \<Rightarrow> u32 \<Rightarrow> u32" where
  "nextp s p = h_ptr (heap s p)"

text \<open>\<open>p + p->s.size\<close>, in C's pointer arithmetic.\<close>

definition endp :: "umem \<Rightarrow> u32 \<Rightarrow> u32" where
  "endp s p = p + 8 * h_size (heap s p)"

text \<open>The \<open>for\<close> loop of free.\<close>

partial_function (option) free_place :: "umem \<Rightarrow> u32 \<Rightarrow> u32 \<Rightarrow> u32 option" where
  "free_place s bp p =
    (if bp > p \<and> bp < nextp s p then Some p
     else if p \<ge> nextp s p \<and> (bp > p \<or> bp < nextp s p) then Some p
     else free_place s bp (nextp s p))"

definition free_link :: "u32 \<Rightarrow> u32 \<Rightarrow> umem \<Rightarrow> umem" where
  "free_link bp p s =
    (let n = nextp s p;
         s = (if endp s bp = n
              then upd_hdr bp (\<lambda>h. h\<lparr>h_ptr := nextp s n, h_size := h_size h + h_size (heap s n)\<rparr>) s
              else upd_hdr bp (\<lambda>h. h\<lparr>h_ptr := n\<rparr>) s);
         s = (if endp s p = bp
              then upd_hdr p (\<lambda>h. h\<lparr>h_ptr := nextp s bp, h_size := h_size h + h_size (heap s bp)\<rparr>) s
              else upd_hdr p (\<lambda>h. h\<lparr>h_ptr := bp\<rparr>) s)
     in s\<lparr>freep := p\<rparr>)"

definition free :: "u32 \<Rightarrow> umem \<Rightarrow> umem option" where
  "free ap s =
    (let bp = ap - 8 in
     Option.bind (free_place s bp (freep s)) (\<lambda>p. Some (free_link bp p s)))"

definition sbrk :: "(u32 \<Rightarrow> u32 \<Rightarrow> bool) \<Rightarrow> u32 \<Rightarrow> umem \<Rightarrow> u32 \<times> umem" where
  "sbrk grant n s = (if grant (brk s) n then (brk s, s\<lparr>brk := brk s + n\<rparr>) else (- 1, s))"

definition morecore :: "(u32 \<Rightarrow> u32 \<Rightarrow> bool) \<Rightarrow> u32 \<Rightarrow> umem \<Rightarrow> (u32 \<times> umem) option" where
  "morecore grant nu s =
    (let nu = (if nu < 4096 then 4096 else nu); (p, s) = sbrk grant (nu * 8) s in
     if p = - 1 then Some (0, s)
     else
       let s = upd_hdr p (\<lambda>h. h\<lparr>h_size := nu\<rparr>) s in
       Option.bind (free (p + 8) s) (\<lambda>s. Some (freep s, s)))"

text \<open>The body of the loop of malloc for a block that is large enough.\<close>

definition take_block :: "u32 \<Rightarrow> u32 \<Rightarrow> u32 \<Rightarrow> umem \<Rightarrow> u32 \<times> umem" where
  "take_block nunits prevp p s =
    (if h_size (heap s p) = nunits
     then (p + 8, (upd_hdr prevp (\<lambda>h. h\<lparr>h_ptr := nextp s p\<rparr>) s)\<lparr>freep := prevp\<rparr>)
     else
       let s = upd_hdr p (\<lambda>h. h\<lparr>h_size := h_size h - nunits\<rparr>) s;
           p = endp s p;
           s = upd_hdr p (\<lambda>h. h\<lparr>h_size := nunits\<rparr>) s
       in (p + 8, s\<lparr>freep := prevp\<rparr>))"

partial_function (option) malloc_loop ::
  "(u32 \<Rightarrow> u32 \<Rightarrow> bool) \<Rightarrow> u32 \<Rightarrow> u32 \<Rightarrow> u32 \<Rightarrow> umem \<Rightarrow> (u32 \<times> umem) option"
where
  "malloc_loop grant nunits prevp p s =
    (if h_size (heap s p) \<ge> nunits then Some (take_block nunits prevp p s)
     else if p = freep s
     then Option.bind (morecore grant nunits s) (\<lambda>x. case x of (p, s) \<Rightarrow>
       if p = 0 then Some (0, s) else malloc_loop grant nunits p (nextp s p) s)
     else malloc_loop grant nunits p (nextp s p) s)"

definition units :: "u32 \<Rightarrow> u32" where
  "units nbytes = (nbytes + 8 - 1) div 8 + 1"

definition malloc_init :: "u32 \<Rightarrow> umem \<Rightarrow> umem" where
  "malloc_init base s =
    (if freep s = 0
     then (upd_hdr base (\<lambda>h. h\<lparr>h_ptr := base, h_size := 0\<rparr>) s)\<lparr>freep := base\<rparr>
     else s)"

definition malloc :: "(u32 \<Rightarrow> u32 \<Rightarrow> bool) \<Rightarrow> u32 \<Rightarrow> u32 \<Rightarrow> umem \<Rightarrow> (u32 \<times> umem) option" where
  "malloc grant base nbytes s =
    (let s = malloc_init base s in malloc_loop grant (units nbytes) (freep s) (nextp s (freep s)) s)"

section \<open>The free list\<close>

text \<open>
  The free list is a ring from \<open>base\<close> through the free blocks in the order of their addresses. Between two blocks of
  it there is always a gap: neighbours are merged. \<open>A\<close> is the set of the blocks handed out.
\<close>

definition szof :: "umem \<Rightarrow> u32 \<Rightarrow> nat" where
  "szof s a = unat (h_size (heap s a))"

definition fin :: "umem \<Rightarrow> u32 \<Rightarrow> nat" where
  "fin s a = unat a + 8 * szof s a"

definition linked :: "umem \<Rightarrow> u32 list \<Rightarrow> bool" where
  "linked s = successively (\<lambda>x y. nextp s x = y)"

definition spaced :: "umem \<Rightarrow> u32 list \<Rightarrow> bool" where
  "spaced s = sorted_wrt (\<lambda>x y. fin s x < unat y)"

definition block_ok :: "u32 \<Rightarrow> umem \<Rightarrow> u32 \<Rightarrow> bool" where
  "block_ok base s a \<longleftrightarrow> 0 < szof s a \<and> fin s a \<le> unat (brk s) \<and> unat base + 8 \<le> unat a \<and> 8 dvd unat a"

definition apart :: "umem \<Rightarrow> u32 \<Rightarrow> u32 \<Rightarrow> bool" where
  "apart s a b \<longleftrightarrow> fin s a \<le> unat b \<or> fin s b \<le> unat a"

definition heap_ok :: "u32 \<Rightarrow> umem \<Rightarrow> u32 list \<Rightarrow> u32 set \<Rightarrow> bool" where
  "heap_ok base s bs A \<longleftrightarrow>
     linked s (base # bs @ [base]) \<and> spaced s (base # bs) \<and> szof s base = 0 \<and> freep s \<in> set (base # bs)
   \<and> (\<forall>a \<in> set bs \<union> A. block_ok base s a)
   \<and> (\<forall>a \<in> A. \<forall>b \<in> set bs \<union> A. a = b \<and> b \<notin> set bs \<or> apart s a b)
   \<and> 0 < unat base \<and> 8 dvd unat base \<and> unat base + 8 \<le> unat (brk s) \<and> 8 dvd unat (brk s) \<and> unat (brk s) < 2147483648"

lemma heap_okD:
  assumes "heap_ok base s bs A"
  shows "linked s (base # bs @ [base])" "spaced s (base # bs)" "szof s base = 0" "freep s \<in> set (base # bs)"
    "\<And>a. a \<in> set bs \<union> A \<Longrightarrow> block_ok base s a"
    "\<And>a b. a \<in> A \<Longrightarrow> b \<in> set bs \<union> A \<Longrightarrow> a \<noteq> b \<Longrightarrow> apart s a b" "A \<inter> set bs = {}"
    "0 < unat base" "8 dvd unat base" "unat base + 8 \<le> unat (brk s)" "8 dvd unat (brk s)" "unat (brk s) < 2147483648"
proof -
  have h: "\<forall>a \<in> set bs \<union> A. block_ok base s a" "\<forall>a \<in> A. \<forall>b \<in> set bs \<union> A. a = b \<and> b \<notin> set bs \<or> apart s a b"
    using assms by (auto simp: heap_ok_def)
  show "\<And>a b. a \<in> A \<Longrightarrow> b \<in> set bs \<union> A \<Longrightarrow> a \<noteq> b \<Longrightarrow> apart s a b" using h(2) by blast
  have "\<not> apart s a a" if "a \<in> set bs" for a using h(1) that by (auto simp: apart_def fin_def block_ok_def)
  then show "A \<inter> set bs = {}" using h(2) by blast
qed (use assms in \<open>auto simp: heap_ok_def\<close>)

text \<open>Sizes and next pointers after an update of a header.\<close>

lemma upd_hdr_sel [simp]:
  "freep (upd_hdr p f s) = freep s" "brk (upd_hdr p f s) = brk s"
  "nextp (upd_hdr p f s) a = (if a = p then h_ptr (f (heap s p)) else nextp s a)"
  "h_size (heap (upd_hdr p f s) a) = (if a = p then h_size (f (heap s p)) else h_size (heap s a))"
  "szof (upd_hdr p f s) a = (if a = p then unat (h_size (f (heap s p))) else szof s a)"
  by (simp_all add: upd_hdr_def nextp_def szof_def)

lemma freep_upd_sel [simp]:
  "nextp (s\<lparr>freep := v\<rparr>) a = nextp s a" "szof (s\<lparr>freep := v\<rparr>) a = szof s a" "fin (s\<lparr>freep := v\<rparr>) a = fin s a"
  "nextp (s\<lparr>brk := w\<rparr>) a = nextp s a" "szof (s\<lparr>brk := w\<rparr>) a = szof s a" "fin (s\<lparr>brk := w\<rparr>) a = fin s a"
  by (simp_all add: nextp_def szof_def fin_def)

lemma linked_cong: "(\<And>x. x \<in> set (butlast xs) \<Longrightarrow> nextp s x = nextp t x) \<Longrightarrow> linked s xs = linked t xs"
  unfolding linked_def
  by (induction xs rule: induct_list012) auto

lemma linked_split: "linked s (xs @ p # ys) \<longleftrightarrow> linked s (xs @ [p]) \<and> linked s (p # ys)"
  by (auto simp: linked_def successively_append_iff)

lemma linked_Cons2 [simp]: "linked s (x # y # zs) \<longleftrightarrow> nextp s x = y \<and> linked s (y # zs)"
  by (simp add: linked_def)

lemma linked_one [simp]: "linked s [x]"
  by (simp add: linked_def)

lemma spaced_cong: "(\<And>x. x \<in> set xs \<Longrightarrow> szof s x = szof t x) \<Longrightarrow> spaced s xs = spaced t xs"
  unfolding spaced_def by (intro iffI; erule sorted_wrt_mono_rel [rotated]) (auto simp: fin_def)

lemma spaced_distinct: "spaced s xs \<Longrightarrow> distinct xs"
  unfolding spaced_def by (induction xs) (auto simp: fin_def)

lemma spaced_append: "spaced s (xs @ ys) \<longleftrightarrow> spaced s xs \<and> spaced s ys \<and> (\<forall>x \<in> set xs. \<forall>y \<in> set ys. fin s x < unat y)"
  by (simp add: spaced_def sorted_wrt_append)

lemma spaced_Nil [simp]: "spaced s []"
  by (simp add: spaced_def)

lemma spaced_Cons: "spaced s (x # ys) \<longleftrightarrow> (\<forall>y \<in> set ys. fin s x < unat y) \<and> spaced s ys"
  by (simp add: spaced_def)

section \<open>free\<close>

lemma free_place_here:
  assumes "linked s (p # ys @ [base])" "p < bp" "\<forall>y \<in> set ys. bp < y" "base \<le> p"
  shows "free_place s bp p = Some p"
proof (cases ys)
  case Nil
  then show ?thesis using assms by (subst free_place.simps) simp
next
  case (Cons y zs)
  then show ?thesis using assms by (subst free_place.simps) simp
qed

lemma spaced_less: "spaced s (xs @ ys) \<Longrightarrow> x \<in> set xs \<Longrightarrow> y \<in> set ys \<Longrightarrow> x < y"
  by (fastforce simp: spaced_append fin_def word_less_nat_alt)

lemma free_place_up:
  "linked s (us @ [p]) \<Longrightarrow> spaced s (us @ [p]) \<Longrightarrow> \<forall>u \<in> set (us @ [p]). u < bp \<Longrightarrow> q \<in> set us \<Longrightarrow>
   free_place s bp q = free_place s bp p"
proof (induction us arbitrary: q)
  case (Cons u us)
  have nx: "free_place s bp u = free_place s bp (hd (us @ [p]))"
  proof -
    have n: "nextp s u = hd (us @ [p])" using Cons.prems(1) by (cases us) simp_all
    have "hd (us @ [p]) \<in> set (us @ [p])" by (cases us) simp_all
    then have "u < hd (us @ [p])" "hd (us @ [p]) < bp" using Cons.prems(2,3) spaced_less [of s "[u]" "us @ [p]"] by auto
    then show ?thesis using n by (subst free_place.simps) auto
  qed
  have "linked s (us @ [p])" using Cons.prems(1) by (cases us) simp_all
  then have IH: "free_place s bp q = free_place s bp p" if "q \<in> set us" for q
    using Cons.IH Cons.prems(2,3) that by (auto simp: spaced_Cons)
  show ?case using Cons.prems(4) IH nx by (cases us) auto
qed simp

lemma free_place_down:
  "linked s (us @ [base]) \<Longrightarrow> spaced s us \<Longrightarrow> \<forall>u \<in> set us. bp < u \<Longrightarrow> base < bp \<Longrightarrow> q \<in> set us \<Longrightarrow>
   free_place s bp q = free_place s bp base"
proof (induction us arbitrary: q)
  case (Cons u us)
  have nx: "free_place s bp u = free_place s bp (hd (us @ [base]))"
  proof -
    have n: "nextp s u = hd (us @ [base])" using Cons.prems(1) by (cases us) simp_all
    have "u < hd us" if "us \<noteq> []" using that Cons.prems(2) spaced_less [of s "[u]" us "u" "hd us"] by simp
    then show ?thesis using n Cons.prems(3,4) by (subst free_place.simps) (cases us; auto)
  qed
  have "linked s (us @ [base])" using Cons.prems(1) by (cases us) simp_all
  then have IH: "free_place s bp q = free_place s bp base" if "q \<in> set us" for q
    using Cons.IH Cons.prems(2,3,4) that by (auto simp: spaced_Cons)
  show ?case using Cons.prems(5) IH nx by (cases us) auto
qed simp

lemma free_place_spec:
  assumes "linked s (xs @ p # ys @ [base])" "spaced s (xs @ p # ys)" "base = hd (xs @ [p])"
    "\<forall>x \<in> set (xs @ [p]). x < bp" "\<forall>y \<in> set ys. bp < y" "q \<in> set (xs @ p # ys)"
  shows "free_place s bp q = Some p"
proof -
  have l: "linked s (xs @ [p])" "linked s (p # ys @ [base])" using assms(1) linked_split [of s xs p "ys @ [base]"] by auto
  have sp: "spaced s (xs @ [p])" "spaced s ys" using assms(2) by (auto simp: spaced_append spaced_Cons)
  have b: "base \<le> p" "base < bp" using assms(2,3,4) spaced_less [of s xs "p # ys" base p] by (cases xs; auto)+
  have p: "free_place s bp p = Some p" by (rule free_place_here [OF l(2) _ assms(5) b(1)]) (use assms(4) in simp)
  have up: "free_place s bp r = Some p" if "r \<in> set (xs @ [p])" for r
    using free_place_up [OF l(1) sp(1) assms(4), of r] p that by auto
  have "linked s (ys @ [base])" using l(2) by (cases ys) simp_all
  then have "free_place s bp r = Some p" if "r \<in> set ys" for r
    using free_place_down [OF _ sp(2) assms(5) b(2) that] up [of base] assms(3) by (cases xs) auto
  then show ?thesis using up assms(6) by auto
qed

text \<open>Every address splits the ring in the blocks below and the blocks above.\<close>

lemma ring_split:
  assumes "spaced s (base # bs)" "base < bp" "bp \<notin> set bs"
  obtains xs p ys where "base # bs = xs @ p # ys" "base = hd (xs @ [p])" "\<forall>x \<in> set (xs @ [p]). x < bp" "\<forall>y \<in> set ys. bp < y"
proof -
  have "\<exists>xs p ys. base # bs = xs @ p # ys \<and> base = hd (xs @ [p]) \<and> (\<forall>x \<in> set (xs @ [p]). x < bp) \<and> (\<forall>y \<in> set ys. bp < y)"
    using assms
  proof (induction bs arbitrary: base)
    case Nil
    then show ?case by (intro exI [of _ "[]"]) simp
  next
    case (Cons b bs)
    show ?case
    proof (cases "b < bp")
      case True
      then obtain xs p ys where "b # bs = xs @ p # ys" "\<forall>x \<in> set (xs @ [p]). x < bp" "\<forall>y \<in> set ys. bp < y"
        using Cons.IH [of b] Cons.prems by (auto simp: spaced_Cons)
      then show ?thesis using Cons.prems(2) by (intro exI [of _ "base # xs"] exI [of _ p] exI [of _ ys]) simp
    next
      case False
      then have "bp < b" using Cons.prems(3) by auto
      moreover have "bp < y" if "y \<in> set bs" for y
        using spaced_less [of s "[b]" bs b y] Cons.prems(1) that \<open>bp < b\<close> by (auto simp: spaced_Cons)
      ultimately show ?thesis using Cons.prems(2) by (intro exI [of _ "[]"] exI [of _ base] exI [of _ "b # bs"]) simp
    qed
  qed
  then show ?thesis using that by blast
qed

lemma endp_eq:
  assumes "fin s a < 4294967296"
  shows "endp s a = b \<longleftrightarrow> fin s a = unat b" "unat (endp s a) = fin s a"
proof -
  have "8 * szof s a < 4294967296" using assms by (simp add: fin_def)
  then have "unat (8 * h_size (heap s a)) = 8 * szof s a" by (simp add: unat_word_ariths szof_def)
  then show u: "unat (endp s a) = fin s a" using assms by (simp add: endp_def unat_word_ariths fin_def)
  show "endp s a = b \<longleftrightarrow> fin s a = unat b" using u by (simp add: word_unat_eq_iff)
qed

text \<open>\<open>span s a\<close>: the bytes of a block; \<open>free_bytes s bs\<close>: the bytes of all free blocks.\<close>

definition span :: "umem \<Rightarrow> u32 \<Rightarrow> nat set" where
  "span s a = {unat a..<fin s a}"

definition free_bytes :: "umem \<Rightarrow> u32 list \<Rightarrow> nat set" where
  "free_bytes s bs = (\<Union>a \<in> set bs. span s a)"

text \<open>The first half of free joins the block with the one behind it, or links it to that.\<close>

definition join_next :: "u32 \<Rightarrow> u32 \<Rightarrow> umem \<Rightarrow> umem" where
  "join_next bp n s =
    (if endp s bp = n
     then upd_hdr bp (\<lambda>h. h\<lparr>h_ptr := nextp s n, h_size := h_size h + h_size (heap s n)\<rparr>) s
     else upd_hdr bp (\<lambda>h. h\<lparr>h_ptr := n\<rparr>) s)"

definition join_prev :: "u32 \<Rightarrow> u32 \<Rightarrow> umem \<Rightarrow> umem" where
  "join_prev p bp s =
    (if endp s p = bp
     then upd_hdr p (\<lambda>h. h\<lparr>h_ptr := nextp s bp, h_size := h_size h + h_size (heap s bp)\<rparr>) s
     else upd_hdr p (\<lambda>h. h\<lparr>h_ptr := bp\<rparr>) s)"

lemma free_link_joins: "free_link bp p s = (join_prev p bp (join_next bp (nextp s p) s))\<lparr>freep := p\<rparr>"
  by (simp add: free_link_def join_next_def join_prev_def Let_def)

lemma szof_add:
  assumes "szof s a + szof s b < 4294967296"
  shows "unat (h_size (heap s a) + h_size (heap s b)) = szof s a + szof s b"
  using assms by (simp add: szof_def unat_word_ariths)

lemma join_frame:
  "a \<noteq> bp \<Longrightarrow> nextp (join_next bp n s) a = nextp s a" "a \<noteq> bp \<Longrightarrow> szof (join_next bp n s) a = szof s a"
  "brk (join_next bp n s) = brk s" "freep (join_next bp n s) = freep s"
  "a \<noteq> p \<Longrightarrow> nextp (join_prev p bp s) a = nextp s a" "a \<noteq> p \<Longrightarrow> szof (join_prev p bp s) a = szof s a"
  "brk (join_prev p bp s) = brk s" "freep (join_prev p bp s) = freep s"
  by (auto simp: join_next_def join_prev_def)

lemma join_next_spec:
  assumes "linked s (ys @ [base])" "spaced s ys" "bp \<notin> set ys" "base < bp" "0 < szof s bp"
    "\<forall>y \<in> set ys. fin s bp \<le> unat y \<and> fin s y < 4294967296" "fin s bp < 4294967296"
    "\<forall>y \<in> set ys. 0 < szof s y"
  shows "\<exists>ws t. t = join_next bp (hd (ys @ [base])) s \<and> linked t (bp # ws @ [base]) \<and> spaced t (bp # ws)
    \<and> set ws \<subseteq> set ys \<and> span t bp \<union> free_bytes t ws = span s bp \<union> free_bytes s ys
    \<and> fin s bp \<le> fin t bp \<and> (fin t bp = fin s bp \<or> fin t bp \<in> fin s ` set ys)"
proof (cases "endp s bp = hd (ys @ [base])")
  case True
  have f: "fin s bp = unat (hd (ys @ [base]))" using True endp_eq(1) [OF assms(7)] by simp
  have "ys \<noteq> []" using f assms(4) by (cases ys) (auto simp: fin_def word_less_nat_alt)
  then obtain n zs where ys: "ys = n # zs" by (cases ys) auto
  let ?t = "join_next bp n s"
  have t: "?t = upd_hdr bp (\<lambda>h. h\<lparr>h_ptr := nextp s n, h_size := h_size h + h_size (heap s n)\<rparr>) s"
    using True ys by (simp add: join_next_def)
  have "szof s bp + szof s n < 4294967296" using f ys assms(6) by (auto simp: fin_def)
  then have sz: "szof ?t bp = szof s bp + szof s n" using szof_add [of s bp n] by (simp add: t)
  have fn: "fin ?t bp = fin s n" using sz f ys by (simp add: fin_def)
  have nb: "x \<noteq> bp" if "x \<in> set zs" for x using that assms(3) ys by auto
  have l: "linked ?t (bp # zs @ [base])"
  proof -
    have "linked ?t (zs @ [base]) = linked s (zs @ [base])" by (rule linked_cong) (simp add: join_frame nb)
    moreover have "nextp ?t bp = hd (zs @ [base])" using assms(1) ys by (cases zs) (simp_all add: t)
    ultimately show ?thesis using assms(1) ys by (cases zs) simp_all
  qed
  have "spaced ?t zs = spaced s zs" by (rule spaced_cong) (simp add: join_frame nb)
  then have sp: "spaced ?t (bp # zs)" using assms(2) ys fn by (auto simp: spaced_Cons)
  have "span ?t a = span s a" if "a \<in> set zs" for a using nb [OF that] by (simp add: span_def fin_def join_frame)
  moreover have "span ?t bp = span s bp \<union> span s n"
    using f ys fn by (auto simp: span_def fin_def)
  ultimately have "span ?t bp \<union> free_bytes ?t zs = span s bp \<union> free_bytes s ys" by (auto simp: free_bytes_def ys)
  then show ?thesis using l sp ys fn f by (intro exI [of _ zs] exI [of _ ?t]) (auto simp: fin_def)
next
  case False
  let ?t = "join_next bp (hd (ys @ [base])) s"
  have t: "?t = upd_hdr bp (\<lambda>h. h\<lparr>h_ptr := hd (ys @ [base])\<rparr>) s" using False by (simp add: join_next_def)
  have sz: "szof ?t a = szof s a" for a by (simp add: t szof_def)
  then have fn: "fin ?t a = fin s a" "span ?t a = span s a" for a by (simp_all add: fin_def span_def)
  have nb: "x \<noteq> bp" if "x \<in> set ys" for x using that assms(3) by auto
  have "linked ?t (ys @ [base]) = linked s (ys @ [base])" by (rule linked_cong) (simp add: join_frame nb)
  moreover have "nextp ?t bp = hd (ys @ [base])" by (simp add: t)
  ultimately have l: "linked ?t (bp # ys @ [base])" using assms(1) by (cases ys) simp_all
  have "fin s bp < unat y" if y: "y \<in> set ys" for y
  proof -
    obtain n zs where ys: "ys = n # zs" using y by (cases ys) auto
    have "fin s bp \<noteq> unat n" using False endp_eq(1) [OF assms(7)] ys by simp
    then have "fin s bp < unat n" using assms(6) ys by auto
    then show ?thesis using y assms(2) ys by (auto simp: spaced_Cons fin_def)
  qed
  moreover have "spaced ?t ys = spaced s ys" by (rule spaced_cong) (simp add: sz)
  ultimately have "spaced ?t (bp # ys)" using assms(2) fn by (simp add: spaced_Cons)
  then show ?thesis using l fn by (intro exI [of _ ys] exI [of _ ?t]) (auto simp: free_bytes_def)
qed

lemma join_prev_spec:
  assumes "linked t (xs @ [p])" "linked t (bp # ws @ [base])" "spaced t (xs @ [p])" "spaced t (bp # ws)"
    "bp \<notin> set (xs @ [p])" "p \<notin> set ws" "fin t p \<le> unat bp" "fin t bp < 4294967296"
  shows "\<exists>vs u. u = join_prev p bp t \<and> linked u (xs @ p # vs @ [base]) \<and> spaced u (xs @ p # vs)
    \<and> set vs \<subseteq> insert bp (set ws) \<and> span u p \<union> free_bytes u vs = span t p \<union> span t bp \<union> free_bytes t ws
    \<and> fin t p \<le> fin u p \<and> (fin u p = fin t p \<or> fin t p = unat bp \<and> fin u p = fin t bp)
    \<and> (\<exists>c \<in> set (p # vs). szof t bp \<le> szof u c)"
proof -
  have xp: "x \<noteq> p" if "x \<in> set xs" for x using spaced_distinct [OF assms(3)] that by auto
  have wp: "w \<noteq> p" if "w \<in> set ws" for w using assms(6) that by auto
  have fx: "fin t x < unat p" "fin t x < unat bp" if "x \<in> set xs" for x
    using that assms(3,7) by (auto simp: spaced_append fin_def)
  have fw: "fin t x < unat w" if "x \<in> set xs" "w \<in> set (bp # ws)" for x w
    using fx [OF that(1)] that(2) assms(4) by (auto simp: spaced_Cons fin_def)
  let ?u = "join_prev p bp t"
  have lx: "linked ?u (xs @ [p])" using assms(1) linked_cong [of "xs @ [p]" ?u t] xp by (simp add: join_frame)
  have fr: "szof ?u a = szof t a" if "a \<noteq> p" for a using that by (rule join_frame)
  have fxs: "fin ?u x = fin t x" if "x \<in> set xs" for x using fr [OF xp [OF that]] by (simp add: fin_def)
  have sx: "spaced ?u xs" using spaced_cong [of xs ?u t] assms(3) fr xp by (auto simp: spaced_append)
  have pb: "p \<noteq> bp" using assms(5) by auto
  have pf: "fin t p < 4294967296" using assms(7,8) by (simp add: fin_def)
  show ?thesis
  proof (cases "endp t p = bp")
    case True
    have e: "fin t p = unat bp" using True endp_eq(1) [OF pf] by simp
    have u: "?u = upd_hdr p (\<lambda>h. h\<lparr>h_ptr := nextp t bp, h_size := h_size h + h_size (heap t bp)\<rparr>) t"
      using True by (simp add: join_prev_def)
    have "szof t p + szof t bp < 4294967296" using assms(8) e by (auto simp: fin_def)
    then have fu: "fin ?u p = fin t bp" using szof_add [of t p bp] e by (simp add: u fin_def)
    have lw: "linked ?u (p # ws @ [base])"
    proof -
      have "linked ?u (ws @ [base]) = linked t (ws @ [base])" by (rule linked_cong) (simp add: join_frame wp)
      then show ?thesis using assms(2) by (cases ws) (simp_all add: u)
    qed
    have "spaced ?u ws" using spaced_cong [of ws ?u t] assms(4) fr wp by (auto simp: spaced_Cons)
    then have sp: "spaced ?u (xs @ p # ws)" using sx fx fw fxs fu assms(4) by (auto simp: spaced_append spaced_Cons)
    have "span ?u a = span t a" if "a \<in> set ws" for a using fr [OF wp [OF that]] by (simp add: span_def fin_def)
    moreover have "span ?u p = span t p \<union> span t bp" using e fu by (auto simp: span_def fin_def)
    ultimately have "span ?u p \<union> free_bytes ?u ws = span t p \<union> span t bp \<union> free_bytes t ws" by (simp add: free_bytes_def Un_assoc)
    then show ?thesis using lx lw sp e fu linked_split [of ?u xs p "ws @ [base]"]
      by (intro exI [of _ ws] exI [of _ ?u]) (auto simp: fin_def)
  next
    case False
    have e: "fin t p < unat bp" using False endp_eq(1) [OF pf] assms(7) by (simp add: nat_less_le)
    have u: "?u = upd_hdr p (\<lambda>h. h\<lparr>h_ptr := bp\<rparr>) t" using False by (simp add: join_prev_def)
    have sz: "szof ?u a = szof t a" for a by (simp add: u szof_def)
    then have fu: "fin ?u a = fin t a" "span ?u a = span t a" for a by (simp_all add: fin_def span_def)
    have lw: "linked ?u (p # bp # ws @ [base])"
    proof -
      have "linked ?u (bp # ws @ [base]) = linked t (bp # ws @ [base])"
        by (rule linked_cong) (use pb wp in \<open>auto simp: join_frame butlast_append\<close>)
      then show ?thesis using assms(2) by (simp add: u)
    qed
    have "spaced ?u (bp # ws)" using spaced_cong [of "bp # ws" ?u t] assms(4) sz by simp
    moreover have "fin t p < unat w" if "w \<in> set (bp # ws)" for w using e that assms(4) by (auto simp: spaced_Cons fin_def)
    ultimately have sp: "spaced ?u (xs @ p # bp # ws)" using sx fx fw fu by (auto simp: spaced_append spaced_Cons)
    then show ?thesis using lx lw fu sz linked_split [of ?u xs p "(bp # ws) @ [base]"]
      by (intro exI [of _ "bp # ws"] exI [of _ ?u]) (auto simp: free_bytes_def)
  qed
qed

lemma apart_iff: "0 < szof s a \<Longrightarrow> 0 < szof s b \<Longrightarrow> apart s a b \<longleftrightarrow> span s a \<inter> span s b = {}"
proof -
  assume "0 < szof s a" "0 < szof s b"
  then have n: "unat a < fin s a" "unat b < fin s b" by (simp_all add: fin_def)
  have "unat a \<in> span s b \<or> unat b \<in> span s a" if "\<not> apart s a b" using that n by (auto simp: apart_def span_def)
  then have "span s a \<inter> span s b \<noteq> {}" if "\<not> apart s a b" using that n by (auto simp: span_def)
  moreover have "span s a \<inter> span s b = {}" if "apart s a b" using that by (auto simp: apart_def span_def)
  ultimately show ?thesis by blast
qed

text \<open>The bytes of a block that has been handed out are not free.\<close>

lemma span_not_free:
  assumes "heap_ok base s bs A" "a \<in> A"
  shows "span s a \<inter> free_bytes s bs = {}"
proof -
  note h = heap_okD [OF assms(1)]
  have "span s a \<inter> span s b = {}" if "b \<in> set bs" for b
    using apart_iff [of s a b] h(5) [of a] h(5) [of b] h(6) [of a b] h(7) that assms(2) by (auto simp: block_ok_def)
  then show ?thesis by (auto simp: free_bytes_def)
qed

lemma heap_okI:
  assumes "linked t (base # cs @ [base])" "spaced t (base # cs)" "szof t base = 0" "freep t \<in> set (base # cs)"
    and b: "\<And>a. a \<in> set cs \<union> A \<Longrightarrow> block_ok base t a" and f: "\<And>a. a \<in> A \<Longrightarrow> span t a \<inter> free_bytes t cs = {}"
    and A: "\<And>a b. a \<in> A \<Longrightarrow> b \<in> A \<Longrightarrow> a \<noteq> b \<Longrightarrow> span t a \<inter> span t b = {}"
    and "0 < unat base" "8 dvd unat base" "unat base + 8 \<le> unat (brk t)" "8 dvd unat (brk t)" "unat (brk t) < 2147483648"
  shows "heap_ok base t cs A"
proof -
  have "a = b \<and> b \<notin> set cs \<or> apart t a b" if "a \<in> A" "b \<in> set cs \<union> A" for a b
  proof (cases "b \<in> set cs")
    case True
    then have "span t a \<inter> span t b = {}" using f [OF that(1)] by (auto simp: free_bytes_def)
    then show ?thesis using apart_iff [of t a b] b [of a] b [of b] that by (auto simp: block_ok_def)
  next
    case False
    then show ?thesis using A [of a b] apart_iff [of t a b] b [of a] b [of b] that by (auto simp: block_ok_def)
  qed
  then show ?thesis unfolding heap_ok_def using assms by (simp add: Ball_def)
qed

lemma free_bytes_append [simp]: "free_bytes s (xs @ ys) = free_bytes s xs \<union> free_bytes s ys"
  "free_bytes s (x # ys) = span s x \<union> free_bytes s ys"
  by (auto simp: free_bytes_def)

lemma free_bytes_cong: "(\<And>x. x \<in> set xs \<Longrightarrow> szof t x = szof s x) \<Longrightarrow> free_bytes t xs = free_bytes s xs"
  by (simp add: free_bytes_def span_def fin_def)

text \<open>The two joins together, for a block \<open>a\<close> between \<open>p\<close> and the blocks \<open>ys\<close>.\<close>

lemma joins_spec:
  assumes "linked s (xs @ p # ys @ [base])" "spaced s (xs @ p # ys)" "a \<notin> set (xs @ p # ys)" "base < a" "0 < szof s a"
    "\<forall>y \<in> set ys. fin s a \<le> unat y \<and> fin s y \<le> B \<and> 0 < szof s y" "fin s a \<le> B" "B < 4294967296" "fin s p \<le> unat a"
  shows "\<exists>vs u. u = join_prev p a (join_next a (nextp s p) s) \<and> linked u (xs @ p # vs @ [base]) \<and> spaced u (xs @ p # vs)
    \<and> set vs \<subseteq> insert a (set ys) \<and> free_bytes u (xs @ p # vs) = free_bytes s (xs @ p # ys) \<union> span s a
    \<and> (\<forall>c. c \<noteq> a \<and> c \<noteq> p \<longrightarrow> szof u c = szof s c) \<and> (fin u p = fin s p \<or> fin s p = unat a \<and> fin s p \<le> fin u p \<and> fin u p \<le> B)
    \<and> (a \<in> set vs \<longrightarrow> szof s a \<le> szof u a \<and> fin u a \<le> B) \<and> (\<exists>c \<in> set (p # vs). szof s a \<le> szof u c)"
proof -
  have ls: "linked s (xs @ [p])" "nextp s p = hd (ys @ [base])" "linked s (ys @ [base])"
    using assms(1) linked_split [of s xs p "ys @ [base]"] by (cases ys; auto)+
  have sp: "spaced s (xs @ [p])" "spaced s ys" "p \<notin> set ys" "p \<notin> set xs"
    using assms(2) spaced_distinct [OF assms(2)] by (auto simp: spaced_append spaced_Cons)
  obtain ws t where t: "t = join_next a (nextp s p) s" "linked t (a # ws @ [base])" "spaced t (a # ws)" "set ws \<subseteq> set ys"
    "span t a \<union> free_bytes t ws = span s a \<union> free_bytes s ys" "fin s a \<le> fin t a" "fin t a = fin s a \<or> fin t a \<in> fin s ` set ys"
    using join_next_spec [of s ys base a] ls(2,3) sp(2) assms(3-8) by fastforce
  have tf: "nextp t c = nextp s c" "szof t c = szof s c" if "c \<noteq> a" for c using that t(1) by (simp_all add: join_frame)
  have ta: "fin t a \<le> B" using t(7) assms(6,7) by auto
  have xa: "x \<noteq> a" if "x \<in> set (xs @ [p])" for x using that assms(3) by auto
  have lt: "linked t (xs @ [p])" using ls(1) linked_cong [of "xs @ [p]" t s] tf(1) xa by simp
  have st: "spaced t (xs @ [p])" using sp(1) spaced_cong [of "xs @ [p]" t s] tf(2) xa by simp
  have fp: "fin t p = fin s p" using tf(2) xa by (simp add: fin_def)
  have pre: "a \<notin> set (xs @ [p])" "p \<notin> set ws" "fin t p \<le> unat a" "fin t a < 4294967296"
    using assms(3,8,9) t(4) sp(3) fp ta by auto
  obtain vs u where u: "u = join_prev p a t" "linked u (xs @ p # vs @ [base])" "spaced u (xs @ p # vs)" "set vs \<subseteq> insert a (set ws)"
    "span u p \<union> free_bytes u vs = span t p \<union> span t a \<union> free_bytes t ws"
    "fin t p \<le> fin u p" "fin u p = fin t p \<or> fin t p = unat a \<and> fin u p = fin t a" "\<exists>c \<in> set (p # vs). szof t a \<le> szof u c"
    using join_prev_spec [OF lt t(2) st t(3) pre] by blast
  have uf: "szof u c = szof t c" if "c \<noteq> p" for c using that u(1) by (simp add: join_frame)
  have ut: "\<forall>c. c \<noteq> a \<and> c \<noteq> p \<longrightarrow> szof u c = szof s c" using uf tf(2) by simp
  have "free_bytes u xs = free_bytes s xs"
  proof (rule free_bytes_cong)
    fix x assume "x \<in> set xs"
    then have "x \<noteq> a" "x \<noteq> p" using xa sp(4) by auto
    then show "szof u x = szof s x" using ut by simp
  qed
  moreover have "span t p = span s p" using fp by (simp add: span_def)
  ultimately have fb: "free_bytes u (xs @ p # vs) = free_bytes s (xs @ p # ys) \<union> span s a" using u(5) t(5) by auto
  have sa: "szof s a \<le> szof t a" using t(6) by (simp add: fin_def)
  have "a \<noteq> p" using xa by auto
  then have ua: "szof s a \<le> szof u a \<and> fin u a \<le> B" using uf [of a] sa ta by (simp add: fin_def)
  have up: "fin u p = fin s p \<or> fin s p = unat a \<and> fin s p \<le> fin u p \<and> fin u p \<le> B" using u(6,7) fp ta by auto
  have big: "\<exists>c \<in> set (p # vs). szof s a \<le> szof u c" using u(8) sa order_trans by blast
  have "set vs \<subseteq> insert a (set ys)" using u(4) t(4) by blast
  then show ?thesis using u(1-3) t(1) fb ut ua up big by blast
qed

text \<open>Where a block that is handed out lies in the ring.\<close>

lemma free_between:
  assumes "heap_ok base s bs A" "a \<in> A"
  obtains xs p ys where "base # bs = xs @ p # ys" "base = hd (xs @ [p])" "free_place s a (freep s) = Some p"
    "\<forall>y \<in> set ys. fin s a \<le> unat y \<and> fin s y \<le> unat (brk s) \<and> 0 < szof s y" "fin s p \<le> unat a"
    "linked s (xs @ p # ys @ [base])" "spaced s (xs @ p # ys)" "a \<notin> set (xs @ p # ys)"
proof -
  note h = heap_okD [OF assms(1)]
  have a: "base < a" "a \<notin> set bs" "0 < szof s a" "unat base + 8 \<le> unat a"
    using h(5) [of a] h(7) assms(2) by (auto simp: block_ok_def word_less_nat_alt)
  obtain xs p ys where r: "base # bs = xs @ p # ys" "base = hd (xs @ [p])" "\<forall>x \<in> set (xs @ [p]). x < a" "\<forall>y \<in> set ys. a < y"
    using ring_split [OF h(2) a(1,2)] by metis
  have ln: "linked s (xs @ p # ys @ [base])" using h(1) r(1) by (metis append_Cons append_assoc)
  have sp: "spaced s (xs @ p # ys)" using h(2) r(1) by simp
  have place: "free_place s a (freep s) = Some p"
    by (rule free_place_spec [OF ln sp r(2,3,4)]) (use h(4) r(1) in simp)
  have ab: "fin s a \<le> unat y \<and> a < y \<or> fin s y \<le> unat a \<and> y < a" if "y \<in> set bs" for y
  proof -
    have "a \<noteq> y" using a(2) that by auto
    then show ?thesis using h(6) [of a y] h(5) [of y] a(3) that assms(2) by (auto simp: apart_def fin_def word_less_nat_alt block_ok_def)
  qed
  have yb: "y \<in> set bs" if "y \<in> set ys" for y using r(1) that by (cases xs) auto
  have ys: "\<forall>y \<in> set ys. fin s a \<le> unat y \<and> fin s y \<le> unat (brk s) \<and> 0 < szof s y"
  proof
    fix y assume y: "y \<in> set ys"
    then have "\<not> y < a" using r(4) by force
    then show "fin s a \<le> unat y \<and> fin s y \<le> unat (brk s) \<and> 0 < szof s y"
      using ab [OF yb [OF y]] h(5) [of y] yb [OF y] by (auto simp: block_ok_def)
  qed
  have pa: "fin s p \<le> unat a"
  proof (cases "p = base")
    case False
    then have "p \<in> set bs" using r(1,2) by (cases xs) auto
    then show ?thesis using ab [of p] r(3) by fastforce
  qed (use h(3) a(4) in \<open>simp add: fin_def\<close>)
  have "a \<notin> set (xs @ p # ys)" using a(1,2) r(1) by (metis less_irrefl set_ConsD)
  then show thesis by (rule that [OF r(1,2) place ys pa ln sp])
qed

text \<open>What is needed to go from one heap to the next with fewer blocks handed out.\<close>

lemma spans_disjoint:
  assumes "heap_ok base s bs A" "a \<in> A" "b \<in> A" "a \<noteq> b"
  shows "span s a \<inter> span s b = {}"
  using apart_iff [of s a b] heap_okD(5,6) [OF assms(1)] assms by (auto simp: block_ok_def)

lemma heap_ok_step:
  assumes "heap_ok base s bs A" "A' \<subseteq> A" "linked t (base # cs @ [base])" "spaced t (base # cs)" "szof t base = 0"
    "freep t \<in> set (base # cs)" "\<forall>c \<in> set cs. block_ok base t c" "\<forall>a \<in> A'. szof t a = szof s a"
    "\<forall>a \<in> A'. span s a \<inter> free_bytes t cs = {}" "brk t = brk s"
  shows "heap_ok base t cs A'"
proof -
  note h = heap_okD [OF assms(1)]
  have sp: "span t a = span s a" "fin t a = fin s a" if "a \<in> A'" for a using that assms(8) by (simp_all add: span_def fin_def)
  show ?thesis
  proof (rule heap_okI [OF assms(3-6)])
    fix a assume "a \<in> set cs \<union> A'"
    then show "block_ok base t a" using h(5) [of a] assms(2,7,8,10) sp(2) [of a] by (auto simp: block_ok_def)
  next
    fix a b assume "a \<in> A'" "b \<in> A'" "a \<noteq> b"
    then show "span t a \<inter> span t b = {}" using spans_disjoint [OF assms(1), of a b] sp(1) [of a] sp(1) [of b] assms(2) by blast
  qed (use h assms(9,10) sp in auto)
qed

text \<open>The blocks of the ring after the joins.\<close>

lemma joined_blocks:
  assumes "heap_ok base s bs A" "a \<in> A" "base # bs = xs @ p # ys" "set vs \<subseteq> insert a (set ys)" "a \<notin> set (xs @ p # ys)"
    "\<forall>c. c \<noteq> a \<and> c \<noteq> p \<longrightarrow> szof u c = szof s c" "fin u p = fin s p \<or> fin s p = unat a \<and> fin s p \<le> fin u p \<and> fin u p \<le> unat (brk s)"
    "a \<in> set vs \<longrightarrow> szof s a \<le> szof u a \<and> fin u a \<le> unat (brk s)" "brk u = brk s"
  shows "szof u base = 0" "c \<in> set (xs @ p # vs) \<Longrightarrow> c \<noteq> base \<Longrightarrow> block_ok base u c"
proof -
  note h = heap_okD [OF assms(1)]
  have a: "base < a" "block_ok base s a" using h(5) [of a] assms(2) by (auto simp: block_ok_def word_less_nat_alt)
  show "szof u base = 0"
    using assms(6,7) h(3) a by (cases "p = base") (auto simp: fin_def block_ok_def)
  assume c: "c \<in> set (xs @ p # vs)" "c \<noteq> base"
  have "c = a \<and> a \<in> set vs \<or> c \<in> set (xs @ p # ys)" using c(1) assms(4) by auto
  then consider "c = a" "a \<in> set vs" | "c = p" "c \<in> set bs" | "c \<noteq> a" "c \<noteq> p" "c \<in> set bs"
    using c(2) assms(3,5) by (metis set_ConsD)
  then show "block_ok base u c"
  proof cases
    case 1
    then show ?thesis using assms(8,9) a(2) by (auto simp: block_ok_def)
  next
    case 2
    then show ?thesis using assms(7,9) h(5) [of p] by (auto simp: block_ok_def fin_def)
  next
    case 3
    then show ?thesis using assms(6,9) h(5) [of c] by (auto simp: block_ok_def fin_def)
  qed
qed

lemma free_spec:
  assumes "heap_ok base s bs A" "a \<in> A"
  shows "\<exists>t cs. free (a + 8) s = Some t \<and> heap_ok base t cs (A - {a}) \<and> free_bytes t cs = free_bytes s bs \<union> span s a
    \<and> (\<forall>b \<in> A - {a}. szof t b = szof s b) \<and> brk t = brk s \<and> (\<exists>c \<in> set cs. szof s a \<le> szof t c)"
proof -
  note h = heap_okD [OF assms(1)]
  have a: "base < a" "0 < szof s a" "fin s a \<le> unat (brk s)" "block_ok base s a"
    using h(5) [of a] assms(2) by (auto simp: block_ok_def word_less_nat_alt)
  obtain xs p ys where r: "base # bs = xs @ p # ys" "base = hd (xs @ [p])" "free_place s a (freep s) = Some p"
    "\<forall>y \<in> set ys. fin s a \<le> unat y \<and> fin s y \<le> unat (brk s) \<and> 0 < szof s y" "fin s p \<le> unat a"
    "linked s (xs @ p # ys @ [base])" "spaced s (xs @ p # ys)" "a \<notin> set (xs @ p # ys)"
    by (rule free_between [OF assms])
  obtain vs u where u: "u = join_prev p a (join_next a (nextp s p) s)" "linked u (xs @ p # vs @ [base])" "spaced u (xs @ p # vs)"
    "set vs \<subseteq> insert a (set ys)" "free_bytes u (xs @ p # vs) = free_bytes s (xs @ p # ys) \<union> span s a"
    "\<forall>c. c \<noteq> a \<and> c \<noteq> p \<longrightarrow> szof u c = szof s c" "fin u p = fin s p \<or> fin s p = unat a \<and> fin s p \<le> fin u p \<and> fin u p \<le> unat (brk s)"
    "a \<in> set vs \<longrightarrow> szof s a \<le> szof u a \<and> fin u a \<le> unat (brk s)" "\<exists>c \<in> set (p # vs). szof s a \<le> szof u c"
    using joins_spec [OF r(6,7,8) a(1,2) r(4) a(3) _ r(5)] h(12) by auto
  let ?t = "u\<lparr>freep := p\<rparr>"
  have bu: "brk u = brk s" using u(1) by (simp add: join_frame)
  note j = joined_blocks [OF assms r(1) u(4) r(8) u(6,7,8) bu]
  obtain cs where cs: "xs @ p # vs = base # cs" using r(2) by (cases xs) auto
  have ft: "free_bytes ?t zs = free_bytes u zs" for zs by (simp add: free_bytes_def span_def)
  have e: "span u base = {}" "span s base = {}" using j(1) h(3) by (simp_all add: span_def fin_def)
  have fb: "free_bytes ?t cs = free_bytes s bs \<union> span s a"
    using u(5) e unfolding cs r(1) [symmetric] by (simp add: ft)
  have "p \<in> set (base # bs)" unfolding r(1) by simp
  then have "p \<notin> A" using h(7) h(5) [of p] by (auto simp: block_ok_def)
  then have sz: "\<forall>b \<in> A - {a}. szof ?t b = szof s b" using u(6) by auto
  have "heap_ok base ?t cs (A - {a})"
  proof (rule heap_ok_step [OF assms(1)])
    have "xs @ p # vs @ [base] = (xs @ p # vs) @ [base]" by simp
    then have "linked u (base # cs @ [base])" using u(2) cs by (metis append_Cons)
    then show "linked ?t (base # cs @ [base])" using linked_cong [of "base # cs @ [base]" ?t u] by simp
    show "spaced ?t (base # cs)" using u(3) cs spaced_cong [of "base # cs" ?t u] by simp
    show "freep ?t \<in> set (base # cs)" unfolding cs [symmetric] by simp
    show "\<forall>c \<in> set cs. block_ok base ?t c"
    proof
      fix c assume c: "c \<in> set cs"
      then have "c \<noteq> base" using spaced_distinct [OF u(3)] cs by auto
      then show "block_ok base ?t c" using j(2) [of c] c cs by (simp add: block_ok_def)
    qed
    show "\<forall>b \<in> A - {a}. span s b \<inter> free_bytes ?t cs = {}"
      using span_not_free [OF assms(1)] spans_disjoint [OF assms(1,2)] unfolding fb by blast
  qed (use j(1) bu sz in auto)
  moreover have "free (a + 8) s = Some ?t" using r(3) u(1) by (simp add: free_def free_link_joins)
  moreover have "\<exists>c \<in> set cs. szof s a \<le> szof ?t c"
  proof -
    obtain c where c: "c \<in> set (p # vs)" "szof s a \<le> szof u c" using u(9) by blast
    then have "c \<in> set (base # cs)" "c \<noteq> base" using a(2) j(1) unfolding cs [symmetric] by auto
    then show ?thesis using c(2) by auto
  qed
  ultimately show ?thesis using fb sz bu by (intro exI [of _ ?t] exI [of _ cs]) simp
qed

section \<open>malloc\<close>

text \<open>The kernel grants no memory beyond KERNBASE.\<close>

definition grants_ok :: "(u32 \<Rightarrow> u32 \<Rightarrow> bool) \<Rightarrow> bool" where
  "grants_ok grant \<longleftrightarrow> (\<forall>b n. grant b n \<longrightarrow> unat b + unat n < 2147483648)"

text \<open>A block at the end of the process is like one that has been handed out.\<close>

lemma grow_ok:
  assumes "heap_ok base s bs A" "unat (brk s) + 8 * unat nu < 2147483648" "0 < unat nu"
  defines "t \<equiv> upd_hdr (brk s) (\<lambda>h. h\<lparr>h_size := nu\<rparr>) (s\<lparr>brk := brk s + nu * 8\<rparr>)"
  shows "heap_ok base t bs (insert (brk s) A)" "brk s \<notin> A" "\<forall>a \<in> A. szof t a = szof s a" "szof t (brk s) = unat nu"
    "free_bytes t bs = free_bytes s bs" "unat (brk t) = unat (brk s) + 8 * unat nu"
proof -
  note h = heap_okD [OF assms(1)]
  have lt: "unat a < unat (brk s)" if "a \<in> set (base # bs) \<union> A" for a
    using h(5) [of a] h(10) that by (auto simp: block_ok_def fin_def)
  then have ne: "a \<noteq> brk s" if "a \<in> set (base # bs) \<union> A" for a using that by blast
  then show "brk s \<notin> A" by blast
  have sz: "szof t a = szof s a" "nextp t a = nextp s a" if "a \<noteq> brk s" for a using that by (simp_all add: t_def)
  show "\<forall>a \<in> A. szof t a = szof s a" using sz ne by auto
  have fs: "fin t a = fin s a" "span t a = span s a" if "a \<in> set (base # bs) \<union> A" for a
    using sz(1) [OF ne [OF that]] by (simp_all add: fin_def span_def)
  show n: "szof t (brk s) = unat nu" by (simp add: t_def)
  show fb: "free_bytes t bs = free_bytes s bs" using sz ne by (intro free_bytes_cong) auto
  show bt: "unat (brk t) = unat (brk s) + 8 * unat nu"
    using assms(2) by (simp add: t_def unat_word_ariths mult.commute)
  have top: "span t (brk s) = {unat (brk s)..<unat (brk t)}" using n bt by (simp add: span_def fin_def)
  have below: "span t a \<subseteq> {..<unat (brk s)}" if "a \<in> set bs \<union> A" for a
    using h(5) [of a] fs(2) [of a] that by (auto simp: span_def block_ok_def)
  show "heap_ok base t bs (insert (brk s) A)"
  proof (rule heap_okI)
    have eq: "nextp t x = nextp s x" if "x \<in> set (butlast (base # bs @ [base]))" for x
    proof -
      have "x \<in> set (base # bs)" using that by (metis append_Cons butlast_snoc)
      then have "x \<noteq> brk s" using ne by blast
      then show ?thesis by (rule sz(2))
    qed
    show "linked t (base # bs @ [base])" using linked_cong [of "base # bs @ [base]" t s] eq h(1) by simp
    show "spaced t (base # bs)" using spaced_cong [of "base # bs" t s] sz(1) ne h(2) by auto
    show "szof t base = 0" using sz(1) ne h(3) by auto
    show "freep t \<in> set (base # bs)" using h(4) by (simp add: t_def)
    show "block_ok base t a" if "a \<in> set bs \<union> insert (brk s) A" for a
      using that h(5) [of a] sz(1) [of a] ne [of a] n bt h(10,11) assms(3) by (auto simp: block_ok_def fin_def)
    show "span t a \<inter> free_bytes t bs = {}" if "a \<in> insert (brk s) A" for a
      using that top below span_not_free [OF assms(1)] fs(2) fb by (fastforce simp: free_bytes_def)
    show "span t a \<inter> span t b = {}" if ab: "a \<in> insert (brk s) A" "b \<in> insert (brk s) A" "a \<noteq> b" for a b
    proof -
      have "span t (brk s) \<inter> span t c = {}" if "c \<in> A" for c using top below [of c] that by fastforce
      then show ?thesis using ab spans_disjoint [OF assms(1), of a b] fs(2) [of a] fs(2) [of b] by blast
    qed
    show "8 dvd unat (brk t)" using bt h(11) by simp
  qed (use h bt assms(2) in auto)
qed

lemma morecore_spec:
  assumes "heap_ok base s bs A" "grants_ok grant" "unat nu < 268435456" "0 < nu"
  shows "\<not> grant (brk s) (max 4096 nu * 8) \<and> morecore grant nu s = Some (0, s)
    \<or> (\<exists>t cs. morecore grant nu s = Some (freep t, t) \<and> freep t \<noteq> 0 \<and> heap_ok base t cs A \<and> (\<forall>a \<in> A. szof t a = szof s a)
       \<and> (\<exists>c \<in> set cs. unat nu \<le> szof t c) \<and> free_bytes t cs = free_bytes s bs \<union> {unat (brk s)..<unat (brk t)})"
proof -
  let ?nu = "if nu < 4096 then 4096 else nu"
  have n: "unat ?nu < 268435456" "unat nu \<le> unat ?nu" "0 < unat ?nu" using assms(3,4) by (auto simp: word_less_nat_alt)
  have n8: "unat (?nu * 8) = 8 * unat ?nu" using n(1) by (simp add: unat_word_ariths mult.commute)
  have b1: "brk s \<noteq> - 1" using heap_okD(12) [OF assms(1)] by (auto simp: unsigned_minus_1_eq_mask mask_eq_exp_minus_1)
  show ?thesis
  proof (cases "grant (brk s) (?nu * 8)")
    case True
    then have lt: "unat (brk s) + 8 * unat ?nu < 2147483648" using assms(2) n8 unfolding grants_ok_def by metis
    let ?u = "upd_hdr (brk s) (\<lambda>h. h\<lparr>h_size := ?nu\<rparr>) (s\<lparr>brk := brk s + ?nu * 8\<rparr>)"
    note g = grow_ok [OF assms(1) lt n(3)]
    obtain t cs where t: "free (brk s + 8) ?u = Some t" "heap_ok base t cs (insert (brk s) A - {brk s})"
      "free_bytes t cs = free_bytes ?u bs \<union> span ?u (brk s)" "\<forall>b \<in> insert (brk s) A - {brk s}. szof t b = szof ?u b" "brk t = brk ?u"
      "\<exists>c \<in> set cs. szof ?u (brk s) \<le> szof t c" using free_spec [OF g(1), of "brk s"] by blast
    have A: "insert (brk s) A - {brk s} = A" using g(2) by blast
    have "freep t \<noteq> 0" using heap_okD(4,5,8) [OF t(2)] by (fastforce simp: block_ok_def)
    moreover have "\<exists>c \<in> set cs. unat nu \<le> szof t c" 
    proof -
      obtain c where c: "c \<in> set cs" "szof ?u (brk s) \<le> szof t c" using t(6) by (rule bexE)
      have "unat nu \<le> szof t c" using n(2) c(2) unfolding g(4) by (rule order_trans)
      then show ?thesis using c(1) by (rule bexI)
    qed
    moreover have "\<forall>a \<in> A. szof t a = szof s a" using t(4) A g(3) by simp
    moreover have "morecore grant nu s = Some (freep t, t)"
      using True b1 t(1) by (simp add: morecore_def sbrk_def Let_def del: upd_hdr_sel)
    moreover have "free_bytes t cs = free_bytes s bs \<union> {unat (brk s)..<unat (brk t)}"
      using t(3) g(4,5,6) t(5) by (simp add: span_def fin_def)
    ultimately have "\<exists>t cs. morecore grant nu s = Some (freep t, t) \<and> freep t \<noteq> 0 \<and> heap_ok base t cs A \<and> (\<forall>a \<in> A. szof t a = szof s a)
       \<and> (\<exists>c \<in> set cs. unat nu \<le> szof t c) \<and> free_bytes t cs = free_bytes s bs \<union> {unat (brk s)..<unat (brk t)}"
      using t(2) A by auto
    then show ?thesis by blast
  next
    case False
    moreover have "max 4096 nu = ?nu" by (auto simp: max_def)
    ultimately show ?thesis by (simp add: morecore_def sbrk_def Let_def)
  qed
qed

text \<open>A block is taken out of the ring when it has the right size, and split otherwise: its end is handed out.\<close>

lemma ring_next:
  assumes "heap_ok base s bs A" "q \<in> set (base # bs)" "nextp s q \<noteq> base"
  obtains xs ys where "base # bs = xs @ q # nextp s q # ys"
proof -
  obtain xs zs where z: "base # bs = xs @ q # zs" using split_list [OF assms(2)] by metis
  have "linked s ((base # bs) @ [base])" using heap_okD(1) [OF assms(1)] by simp
  then have "linked s (q # zs @ [base])" unfolding z using linked_split [of s xs q "zs @ [base]"] by simp
  then show ?thesis using assms(3) that z by (cases zs) auto
qed

definition handed_out :: "u32 \<Rightarrow> umem \<Rightarrow> u32 list \<Rightarrow> u32 set \<Rightarrow> u32 \<Rightarrow> u32 \<times> umem \<Rightarrow> bool" where
  "handed_out base s bs A n = (\<lambda>(r, t). \<exists>c cs. r = c + 8 \<and> r \<noteq> 0 \<and> c \<notin> A \<and> heap_ok base t cs (insert c A) \<and> szof t c = unat n
     \<and> span t c \<union> free_bytes t cs = free_bytes s bs \<and> (\<forall>a \<in> A. szof t a = szof s a) \<and> brk t = brk s)"

lemma handed_outI:
  assumes "heap_ok base s bs A" "linked t (base # cs @ [base])" "spaced t (base # cs)" "szof t base = 0" "freep t \<in> set (base # cs)"
    and b: "\<And>a. a \<in> set cs \<Longrightarrow> block_ok base t a" "block_ok base t c"
    and sp: "span t c \<inter> free_bytes t cs = {}" "span t c \<union> free_bytes t cs = free_bytes s bs"
    and A: "\<And>a. a \<in> A \<Longrightarrow> szof t a = szof s a" and "brk t = brk s" "szof t c = unat n"
  shows "handed_out base s bs A n (c + 8, t)"
proof -
  note h = heap_okD [OF assms(1)]
  have st: "span t a = span s a" "fin t a = fin s a" if "a \<in> A" for a using A [OF that] by (simp_all add: span_def fin_def)
  have ac: "span t a \<inter> span t c = {}" "span t a \<inter> free_bytes t cs = {}" if "a \<in> A" for a
    using span_not_free [OF assms(1) that] st(1) [OF that] sp(2) by auto
  have c: "unat c + 8 \<le> unat (brk t)" using b(2) by (auto simp: block_ok_def fin_def)
  have "c \<notin> A"
  proof
    assume "c \<in> A"
    then have "span t c = {}" using ac(1) by blast
    then show False using b(2) by (auto simp: span_def fin_def block_ok_def)
  qed
  moreover have "c + 8 \<noteq> 0"
  proof -
    have "unat (c + 8) = unat c + 8" using c h(12) assms(11) by (simp add: unat_word_ariths)
    then show ?thesis by auto
  qed
  moreover have "heap_ok base t cs (insert c A)"
  proof (rule heap_okI [OF assms(2-5)])
    fix a assume "a \<in> set cs \<union> insert c A"
    then show "block_ok base t a" using b h(5) [of a] A [of a] st(2) [of a] assms(11) by (auto simp: block_ok_def)
  next
    fix a b assume "a \<in> insert c A" "b \<in> insert c A" "a \<noteq> b"
    then show "span t a \<inter> span t b = {}" using ac(1) st(1) spans_disjoint [OF assms(1), of a b] by blast
  next
    fix a assume "a \<in> insert c A"
    then show "span t a \<inter> free_bytes t cs = {}" using ac(2) sp(1) by blast
  qed (use h(8-12) assms(11) in simp_all)
  ultimately show ?thesis unfolding handed_out_def using sp(2) A assms(11,12) by blast
qed

lemma spaced_spans: "spaced s xs \<Longrightarrow> a \<in> set xs \<Longrightarrow> b \<in> set xs \<Longrightarrow> a \<noteq> b \<Longrightarrow> span s a \<inter> span s b = {}"
  by (induction xs) (fastforce simp: spaced_Cons span_def fin_def)+

lemma span_apart_free:
  assumes "spaced s (base # bs)" "p \<in> set bs" "p \<notin> set cs" "set cs \<subseteq> set bs"
  shows "span s p \<inter> free_bytes s cs = {}"
proof -
  have "span s p \<inter> span s c = {}" if "c \<in> set cs" for c
    using spaced_spans [OF assms(1), of p c] assms(2-4) that by auto
  then show ?thesis by (auto simp: free_bytes_def)
qed

lemma take_exact:
  assumes "heap_ok base s bs A" "base # bs = xs @ q # p # ys" "nextp s q = p" "h_size (heap s p) = n"
  shows "handed_out base s bs A n (take_block n q p s)"
proof -
  note h = heap_okD [OF assms(1)]
  let ?t = "(upd_hdr q (\<lambda>h. h\<lparr>h_ptr := nextp s p\<rparr>) s)\<lparr>freep := q\<rparr>"
  obtain cs where cs: "xs @ q # ys = base # cs" using assms(2) by (cases xs) auto
  have d: "distinct (xs @ q # p # ys)" using spaced_distinct [OF h(2)] assms(2) by simp
  have pb: "p \<in> set bs" using assms(2) by (cases xs) auto
  have sz: "szof ?t a = szof s a" for a by (simp add: szof_def upd_hdr_def)
  then have fs: "fin ?t a = fin s a" "span ?t a = span s a" for a by (simp_all add: fin_def span_def)
  have fb: "free_bytes ?t zs = free_bytes s zs" for zs by (rule free_bytes_cong) (rule sz)
  have c: "set cs \<subseteq> set bs" "free_bytes s bs = span s p \<union> free_bytes s cs"
    using assms(2) cs by (cases xs; auto)+
  have pp: "p \<notin> set cs" using d cs by (cases xs) auto
  have xq: "x \<noteq> q" if "x \<in> set xs" for x using d that by auto
  have yq: "x \<noteq> q" if "x \<in> set ys" for x using d that by auto
  have "linked s ((xs @ q # p # ys) @ [base])" using h(1) assms(2) by (metis append_Cons)
  then have l: "linked s (xs @ [q])" "linked s (p # ys @ [base])"
    using linked_split [of s xs q "p # ys @ [base]"] by auto
  have l1: "linked ?t (xs @ [q])" using l(1) linked_cong [of "xs @ [q]" ?t s] xq by simp
  have "linked ?t (ys @ [base]) = linked s (ys @ [base])" by (rule linked_cong) (simp add: yq)
  then have "linked ?t (q # ys @ [base])" using l(2) by (cases ys) simp_all
  then have "linked ?t (xs @ q # ys @ [base])" using l1 linked_split [of ?t xs q "ys @ [base]"] by simp
  then have lt: "linked ?t (base # cs @ [base])" using cs by (metis append_Cons append_assoc)
  have "spaced s (xs @ q # ys)" using h(2) assms(2) by (simp add: spaced_append spaced_Cons)
  then have sp: "spaced ?t (base # cs)" using cs spaced_cong [of "base # cs" ?t s] sz by simp
  have "q \<in> set (base # cs)" unfolding cs [symmetric] by simp
  then have "handed_out base s bs A n (p + 8, ?t)"
    using h(3) h(5) c pb fs fb sz span_apart_free [OF h(2) pb pp c(1)] assms(4)
    by (intro handed_outI [OF assms(1) lt sp]) (auto simp: block_ok_def szof_def)
  then show ?thesis using assms(4) by (simp add: take_block_def)
qed

lemma split_block:
  assumes "heap_ok base s bs A" "p \<in> set bs" "0 < n" "n < h_size (heap s p)"
  obtains c t where "take_block n q p s = (c + 8, t)" "unat c = fin s p - 8 * unat n" "c \<notin> set (base # bs) \<union> A"
    "freep t = q" "brk t = brk s" "\<And>a. nextp t a = nextp s a"
    "szof t p = szof s p - unat n" "szof t c = unat n" "\<And>a. a \<noteq> p \<Longrightarrow> a \<noteq> c \<Longrightarrow> szof t a = szof s a"
proof -
  note h = heap_okD [OF assms(1)]
  define u where "u = upd_hdr p (\<lambda>h. h\<lparr>h_size := h_size h - n\<rparr>) s"
  define c where "c = endp u p"
  define t where "t = (upd_hdr c (\<lambda>h. h\<lparr>h_size := n\<rparr>) u)\<lparr>freep := q\<rparr>"
  have n: "unat n < szof s p" "0 < unat n" using assms(3,4) by (simp_all add: word_less_nat_alt szof_def)
  have up: "szof u p = szof s p - unat n" using assms(4) by (simp add: u_def szof_def unat_sub less_imp_le)
  have pb: "block_ok base s p" using h(5) assms(2) by blast
  have "fin u p < 4294967296" using up pb h(12) by (auto simp: fin_def block_ok_def)
  then have c: "unat c = fin s p - 8 * unat n" unfolding c_def using endp_eq(2) [of u p] up n by (simp add: fin_def)
  have cp: "unat p < unat c" "unat c < fin s p" using c n by (auto simp: fin_def)
  have "c \<notin> set (base # bs) \<union> A"
  proof
    assume m: "c \<in> set (base # bs) \<union> A"
    have "unat c \<in> span s p" "c \<noteq> p" using cp by (auto simp: span_def)
    moreover have "unat c \<in> span s c" if "0 < szof s c" using that by (simp add: span_def fin_def)
    moreover have "c \<noteq> base" using cp(1) pb by (auto simp: block_ok_def)
    ultimately show False using m assms(2) h(5) [of c] span_not_free [OF assms(1), of c] spaced_spans [OF h(2), of c p]
      by (auto simp: block_ok_def free_bytes_def)
  qed
  moreover have "take_block n q p s = (c + 8, t)" using assms(4) by (auto simp: take_block_def Let_def u_def c_def t_def)
  moreover have "p \<noteq> c" using cp by auto
  ultimately show thesis using up c by (intro that [of c t]) (auto simp: t_def u_def nextp_def upd_hdr_def szof_def)
qed

lemma take_split:
  assumes "heap_ok base s bs A" "q \<in> set (base # bs)" "p \<in> set bs" "0 < n" "n < h_size (heap s p)"
  shows "handed_out base s bs A n (take_block n q p s)"
proof -
  note h = heap_okD [OF assms(1)]
  obtain c t where t: "take_block n q p s = (c + 8, t)" "unat c = fin s p - 8 * unat n" "c \<notin> set (base # bs) \<union> A"
    "freep t = q" "brk t = brk s" "\<And>a. nextp t a = nextp s a"
    "szof t p = szof s p - unat n" "szof t c = unat n" "\<And>a. a \<noteq> p \<Longrightarrow> a \<noteq> c \<Longrightarrow> szof t a = szof s a"
    using split_block [OF assms(1,3,4,5), of q] by metis
  have n: "unat n < szof s p" "0 < unat n" using assms(4,5) by (simp_all add: word_less_nat_alt szof_def)
  have pb: "block_ok base s p" "p \<noteq> base" using h(5) [of p] assms(3) by (auto simp: block_ok_def)
  have sz: "szof t a = szof s a" if "a \<in> set (base # bs) \<union> A" "a \<noteq> p" for a using t(3) t(9) [of a] that by auto
  have ap: "a \<noteq> p" if "a \<in> A" for a using h(7) that assms(3) by blast
  have le: "fin t a \<le> fin s a" if "a \<in> set (base # bs)" for a
    using t(7) sz [of a] that by (cases "a = p") (auto simp: fin_def)
  have spans: "span t p \<union> span t c = span s p" "span t p \<inter> span t c = {}"
    using t(2,7,8) n by (auto simp: span_def fin_def)
  obtain xs ys where xy: "bs = xs @ p # ys" using split_list [OF assms(3)] by blast
  have d: "p \<notin> set xs" "p \<notin> set ys" using spaced_distinct [OF h(2)] xy by auto
  have fo: "free_bytes t xs = free_bytes s xs" "free_bytes t ys = free_bytes s ys"
    by (rule free_bytes_cong, use d xy sz in fastforce)+
  have sp: "span s p \<inter> free_bytes s xs = {}" "span s p \<inter> free_bytes s ys = {}"
    using span_apart_free [OF h(2) assms(3) d(1)] span_apart_free [OF h(2) assms(3) d(2)] xy by auto
  have "handed_out base s bs A n (c + 8, t)"
  proof (rule handed_outI [OF assms(1)])
    show "linked t (base # bs @ [base])" using h(1) linked_cong [of "base # bs @ [base]" t s] t(6) by simp
    show "spaced t (base # bs)" using h(2) unfolding spaced_def
      by (rule sorted_wrt_mono_rel [rotated]) (use le in fastforce)
    show "block_ok base t a" if "a \<in> set bs" for a
      using h(5) [of a] le [of a] t(5,7) sz [of a] n that by (cases "a = p") (auto simp: block_ok_def)
    show "block_ok base t c" using pb t(2,5,8) n by (auto simp: block_ok_def fin_def)
    show "span t c \<inter> free_bytes t bs = {}" using spans fo sp unfolding xy by auto
    show "span t c \<union> free_bytes t bs = free_bytes s bs" using spans(1) fo unfolding xy by auto
  qed (use assms(2) t h(3) sz ap pb(2) in auto)
  then show ?thesis using t(1) by simp
qed

lemma take_block_spec:
  assumes "heap_ok base s bs A" "q \<in> set (base # bs)" "0 < n" "n \<le> h_size (heap s (nextp s q))"
  shows "handed_out base s bs A n (take_block n q (nextp s q) s)"
proof -
  have "nextp s q \<noteq> base" using heap_okD(3) [OF assms(1)] assms(3,4) by (auto simp: szof_def word_le_nat_alt word_less_nat_alt)
  then obtain xs ys where r: "base # bs = xs @ q # nextp s q # ys" using ring_next [OF assms(1,2)] by blast
  then have "nextp s q \<in> set bs" by (cases xs) auto
  then show ?thesis using take_exact [OF assms(1) r refl] take_split [OF assms(1,2) _ assms(3)] assms(4)
    by (cases "h_size (heap s (nextp s q)) = n") auto
qed

text \<open>The loop of malloc from \<open>q\<close> on, with the blocks \<open>ws\<close> still to be looked at before freep.\<close>

lemma malloc_search:
  assumes "heap_ok base s bs A" "0 < n"
  shows "set (q # ws) \<subseteq> set (base # bs) \<Longrightarrow> linked s (q # ws @ [freep s]) \<Longrightarrow> freep s \<notin> set ws \<Longrightarrow>
    (\<exists>r. malloc_loop grant n q (nextp s q) s = Some r \<and> handed_out base s bs A n r)
    \<or> (\<forall>x \<in> set (ws @ [freep s]). szof s x < unat n) \<and> malloc_loop grant n q (nextp s q) s
        = Option.bind (morecore grant n s) (\<lambda>x. case x of (p, s) \<Rightarrow>
            if p = 0 then Some (0, s) else malloc_loop grant n p (nextp s p) s)"
proof (induction ws arbitrary: q)
  case Nil
  then have n: "nextp s q = freep s" by simp
  show ?case
  proof (cases "n \<le> h_size (heap s (freep s))")
    case True
    then have "malloc_loop grant n q (nextp s q) s = Some (take_block n q (nextp s q) s)" using n by (subst malloc_loop.simps) simp
    then show ?thesis using take_block_spec [OF assms(1) _ assms(2), of q] True n Nil.prems(1) by auto
  next
    case False
    then have "malloc_loop grant n q (nextp s q) s = Option.bind (morecore grant n s) (\<lambda>x. case x of (p, s) \<Rightarrow>
        if p = 0 then Some (0, s) else malloc_loop grant n p (nextp s p) s)"
      using n by (subst malloc_loop.simps) simp
    then show ?thesis using False by (simp add: szof_def word_le_nat_alt)
  qed
next
  case (Cons w ws)
  have w: "nextp s q = w" "linked s (w # ws @ [freep s])" "w \<noteq> freep s" using Cons.prems(2,3) by auto
  show ?case
  proof (cases "n \<le> h_size (heap s w)")
    case True
    then have "malloc_loop grant n q (nextp s q) s = Some (take_block n q w s)" using w(1) by (subst malloc_loop.simps) simp
    then show ?thesis using take_block_spec [OF assms(1) _ assms(2), of q] True w(1) Cons.prems(1) by auto
  next
    case False
    then have e: "malloc_loop grant n q (nextp s q) s = malloc_loop grant n w (nextp s w) s"
      using w by (subst malloc_loop.simps) simp
    have "szof s w < unat n" using False by (simp add: szof_def word_le_nat_alt)
    then show ?thesis unfolding e using Cons.IH [of w] Cons.prems(1,3) w(2) by auto
  qed
qed

lemma ring_path:
  assumes "heap_ok base s bs A"
  obtains ws where "linked s (freep s # ws @ [freep s])" "set (freep s # ws) = set (base # bs)" "freep s \<notin> set ws"
proof -
  note h = heap_okD [OF assms]
  obtain xs ys where x: "base # bs = xs @ freep s # ys" using split_list [OF h(4)] by metis
  have "linked s ((base # bs) @ [base])" using h(1) by simp
  then have l: "linked s (xs @ [freep s])" "linked s (freep s # ys @ [base])"
    unfolding x using linked_split [of s xs "freep s" "ys @ [base]"] by auto
  have d: "freep s \<notin> set (ys @ xs)" using spaced_distinct [OF h(2)] x by auto
  have "linked s (freep s # (ys @ xs) @ [freep s])"
  proof (cases xs)
    case Nil
    then show ?thesis using l(2) x by simp
  next
    case (Cons b zs)
    then have "b = base" using x by simp
    then show ?thesis using l Cons linked_split [of s "freep s # ys" base "zs @ [freep s]"] by simp
  qed
  then show ?thesis using that [of "ys @ xs"] d x by (metis Un_commute Un_insert_right list.set(2) set_append)
qed

definition malloc_ok :: "(u32 \<Rightarrow> u32 \<Rightarrow> bool) \<Rightarrow> u32 \<Rightarrow> umem \<Rightarrow> u32 list \<Rightarrow> u32 set \<Rightarrow> u32 \<Rightarrow> u32 \<times> umem \<Rightarrow> bool" where
  "malloc_ok grant base s bs A n = (\<lambda>(r, t).
     if r = 0 then t = s \<and> \<not> grant (brk s) (max 4096 n * 8)
     else \<exists>c cs. r = c + 8 \<and> c \<notin> A \<and> heap_ok base t cs (insert c A) \<and> szof t c = unat n
       \<and> span t c \<union> free_bytes t cs = free_bytes s bs \<union> {unat (brk s)..<unat (brk t)} \<and> (\<forall>a \<in> A. szof t a = szof s a))"

lemma handed_out_ok: "handed_out base s bs A n r \<Longrightarrow> malloc_ok grant base s bs A n r"
  by (cases r) (auto simp: handed_out_def malloc_ok_def)

lemma malloc_loop_spec:
  assumes "heap_ok base s bs A" "grants_ok grant" "0 < n" "unat n < 268435456"
  shows "\<exists>r. malloc_loop grant n (freep s) (nextp s (freep s)) s = Some r \<and> malloc_ok grant base s bs A n r"
proof -
  obtain ws where w: "linked s (freep s # ws @ [freep s])" "set (freep s # ws) = set (base # bs)" "freep s \<notin> set ws"
    using ring_path [OF assms(1)] by metis
  let ?more = "Option.bind (morecore grant n s) (\<lambda>x. case x of (p, s) \<Rightarrow>
      if p = 0 then Some (0, s) else malloc_loop grant n p (nextp s p) s)"
  from malloc_search [OF assms(1,3), of "freep s" ws grant] w
  consider (found) r where "malloc_loop grant n (freep s) (nextp s (freep s)) s = Some r" "handed_out base s bs A n r"
    | (more) "malloc_loop grant n (freep s) (nextp s (freep s)) s = ?more" by auto
  then show ?thesis
  proof cases
    case found
    then show ?thesis using handed_out_ok by blast
  next
    case more
    from morecore_spec [OF assms(1,2,4,3)]
    consider (no) "\<not> grant (brk s) (max 4096 n * 8)" "morecore grant n s = Some (0, s)"
      | (yes) t cs where "morecore grant n s = Some (freep t, t)" "freep t \<noteq> 0" "heap_ok base t cs A" "\<forall>a \<in> A. szof t a = szof s a"
          "\<exists>c \<in> set cs. unat n \<le> szof t c" "free_bytes t cs = free_bytes s bs \<union> {unat (brk s)..<unat (brk t)}" by blast
    then show ?thesis
    proof cases
      case no
      then show ?thesis using more by (simp add: malloc_ok_def)
    next
      case yes
      obtain vs where v: "linked t (freep t # vs @ [freep t])" "set (freep t # vs) = set (base # cs)" "freep t \<notin> set vs"
        using ring_path [OF yes(3)] by metis
      have "\<not> (\<forall>x \<in> set (vs @ [freep t]). szof t x < unat n)" using yes(5) v(2) by fastforce
      then obtain r where r: "malloc_loop grant n (freep t) (nextp t (freep t)) t = Some r" "handed_out base t cs A n r"
        using malloc_search [OF yes(3) assms(3), of "freep t" vs grant] v by auto
      then have "malloc_loop grant n (freep s) (nextp s (freep s)) s = Some r" using more yes(1,2) by simp
      moreover have "malloc_ok grant base s bs A n r" using r(2) yes(4,6) by (cases r) (auto simp: handed_out_def malloc_ok_def)
      ultimately show ?thesis by blast
    qed
  qed
qed

lemma units_spec:
  assumes "unat nbytes \<le> 2147483632"
  shows "unat (units nbytes) = (unat nbytes + 7) div 8 + 1" "0 < units nbytes" "unat (units nbytes) < 268435456"
proof -
  have "unat (7 + nbytes) = unat nbytes + 7" using assms by (simp add: unat_word_ariths)
  then have "unat ((nbytes + 8 - 1) div 8) = (unat nbytes + 7) div 8" by (simp add: unat_div)
  moreover have "(unat nbytes + 7) div 8 < 268435455" using assms by auto
  ultimately show "unat (units nbytes) = (unat nbytes + 7) div 8 + 1" "unat (units nbytes) < 268435456"
    by (simp_all add: units_def unat_word_ariths)
  then show "0 < units nbytes" by (simp add: word_less_nat_alt)
qed

text \<open>For a request close to \<open>2^32\<close> bytes the sum wraps around: the block has only its header.\<close>

lemma units_wraps: "units 0xFFFFFFFF = 1"
  by (simp add: units_def)

text \<open>The first call of malloc sets up the ring with no block in it.\<close>

lemma malloc_init_ok:
  assumes "freep s = 0" "0 < unat base" "8 dvd unat base" "unat base + 8 \<le> unat (brk s)" "8 dvd unat (brk s)" "unat (brk s) < 2147483648"
  shows "heap_ok base (malloc_init base s) [] {}"
  using assms by (simp add: heap_ok_def malloc_init_def spaced_Cons)

text \<open>
  C32. The allocator of user programs keeps its free list well formed, a ring sorted by address without neighbouring blocks, and
  never hands out a byte twice. For a request that fits in the address space malloc returns: either a block with
  room for the bytes asked for, apart from all blocks handed out before, or 0 when the kernel has refused the memory that morecore asks for; no
  free byte is lost. free returns for every block handed out, and makes its bytes free again.
\<close>

theorem malloc_free_ok:
  assumes "heap_ok base s bs A" "grants_ok grant" "unat nbytes \<le> 2147483632"
  shows "(\<exists>r t. malloc grant base nbytes s = Some (r, t) \<and>
      (if r = 0 then t = s \<and> \<not> grant (brk s) (max 4096 (units nbytes) * 8)
       else \<exists>c cs. r = c + 8 \<and> c \<notin> A \<and> heap_ok base t cs (insert c A) \<and> unat nbytes + 8 \<le> 8 * szof t c
         \<and> span t c \<union> free_bytes t cs = free_bytes s bs \<union> {unat (brk s)..<unat (brk t)} \<and> (\<forall>a \<in> A. szof t a = szof s a)))
    \<and> (\<forall>a \<in> A. \<exists>t cs. free (a + 8) s = Some t \<and> heap_ok base t cs (A - {a})
         \<and> free_bytes t cs = free_bytes s bs \<union> span s a \<and> (\<forall>b \<in> A - {a}. szof t b = szof s b))"
proof -
  note u = units_spec [OF assms(3)]
  have "freep s \<noteq> 0" using heap_okD(4,5,8) [OF assms(1)] by (fastforce simp: block_ok_def)
  then have "malloc grant base nbytes s = malloc_loop grant (units nbytes) (freep s) (nextp s (freep s)) s"
    by (simp add: malloc_def malloc_init_def)
  then obtain r t where r: "malloc grant base nbytes s = Some (r, t)" "malloc_ok grant base s bs A (units nbytes) (r, t)"
    using malloc_loop_spec [OF assms(1,2) u(2,3)] by (metis surj_pair)
  have "unat nbytes + 8 \<le> 8 * unat (units nbytes)" unfolding u(1) by presburger
  then have "if r = 0 then t = s \<and> \<not> grant (brk s) (max 4096 (units nbytes) * 8)
       else \<exists>c cs. r = c + 8 \<and> c \<notin> A \<and> heap_ok base t cs (insert c A) \<and> unat nbytes + 8 \<le> 8 * szof t c
         \<and> span t c \<union> free_bytes t cs = free_bytes s bs \<union> {unat (brk s)..<unat (brk t)} \<and> (\<forall>a \<in> A. szof t a = szof s a)"
    using r(2) by (cases "r = 0") (auto simp: malloc_ok_def)
  then show ?thesis using r(1) free_spec [OF assms(1)] by blast
qed

definition umem_ex :: umem where
  "umem_ex = malloc_init 8 \<lparr>heap = (\<lambda>a. \<lparr>h_ptr = 0, h_size = 0\<rparr>), freep = 0, brk = 4096\<rparr>"

theorem malloc_free_ok_witness:
  "\<exists>r t. malloc (\<lambda>b n. unat b + unat n < 65536) 8 100 umem_ex = Some (r, t) \<and> r \<noteq> 0
     \<and> (\<exists>c cs. r = c + 8 \<and> heap_ok 8 t cs {c} \<and> 108 \<le> 8 * szof t c)"
proof -
  let ?g = "\<lambda>b n :: u32. unat b + unat n < 65536"
  have ok: "heap_ok 8 umem_ex [] {}" unfolding umem_ex_def by (rule malloc_init_ok) simp_all
  have g: "grants_ok ?g" by (simp add: grants_ok_def)
  have "brk umem_ex = 4096" "units 100 = 14" by (simp_all add: umem_ex_def malloc_init_def units_def)
  then have "?g (brk umem_ex) (max 4096 (units 100) * 8)" by simp
  then show ?thesis using malloc_free_ok [OF ok g, of 100] by (auto split: if_splits)
qed

end
