(* ===== verification/Usertests.thy ===== *)
theory Usertests
  imports User
begin

unbundle bit_operations_syntax

text \<open>
  The test program of the system calls (usertests.c), in the form of theory User: each test is a function from the results of its
  calls to the calls. The global array \<open>buf\<close> is passed from test to test, and a test that stores into it returns it.

  What a test takes from its memory or from an instruction of its own is a parameter: \<open>peek\<close> gives the byte that a load reads, or \<open>None\<close> for a load
  that kills the process, \<open>str_at\<close> the string at an address, \<open>uninit\<close> the array that is not initialised, and
  \<open>validateint\<close> and \<open>port_io\<close> the effects of the two pieces of inline assembly. The test mem, which allocates with malloc, is
  a parameter of the main function.
\<close>

section \<open>Checks\<close>

abbreviation failed :: "int \<Rightarrow> bool" where "failed \<equiv> \<lambda>r. r < 0"
abbreviation succeeded :: "int \<Rightarrow> bool" where "succeeded \<equiv> \<lambda>r. 0 \<le> r"
abbreviation nonzero :: "int \<Rightarrow> bool" where "nonzero \<equiv> \<lambda>r. r \<noteq> 0"
abbreviation zero :: "int \<Rightarrow> bool" where "zero \<equiv> \<lambda>r. r = 0"
abbreviation other_than :: "int \<Rightarrow> int \<Rightarrow> bool" where "other_than n \<equiv> \<lambda>r. r \<noteq> n"

text \<open>\<open>printf(1, \<dots>); exit();\<close>\<close>

definition die :: "string \<Rightarrow> fmt_arg list \<Rightarrow> 'a user" where
  "die fmt as = thenU (printf 1 fmt as) uexit"

text \<open>A call and the test of its result: \<open>if(bad(call)){ printf(1, \<dots>); exit(); }\<close>.\<close>

definition rejectf :: "ucall \<Rightarrow> (int \<Rightarrow> bool) \<Rightarrow> string \<Rightarrow> fmt_arg list \<Rightarrow> int user" where
  "rejectf c bad fmt as = bindU (sys c) (\<lambda>r. if bad (u_ret r) then die fmt as else retU (u_ret r))"

definition reject :: "ucall \<Rightarrow> (int \<Rightarrow> bool) \<Rightarrow> string \<Rightarrow> int user" where
  "reject c bad msg = rejectf c bad (msg @ newline) []"

definition require :: "ucall \<Rightarrow> (int \<Rightarrow> bool) \<Rightarrow> string \<Rightarrow> unit user" where
  "require c bad msg = bindU (reject c bad msg) (\<lambda>_. retU ())"

definition seqU :: "unit user list \<Rightarrow> unit user" where
  "seqU ms = forU (\<lambda>m. m) ms"

text \<open>A loop that may return from the function: the result says whether it ran to its end.\<close>

primrec for_returnU :: "('x \<Rightarrow> bool user) \<Rightarrow> 'x list \<Rightarrow> bool user" where
  "for_returnU f [] = retU True"
| "for_returnU f (x # xs) = bindU (f x) (\<lambda>b. if b then for_returnU f xs else retU False)"

primrec collectU :: "('x \<Rightarrow> 'a user) \<Rightarrow> 'x list \<Rightarrow> 'a list user" where
  "collectU f [] = retU []"
| "collectU f (x # xs) = bindU (f x) (\<lambda>y. bindU (collectU f xs) (\<lambda>ys. retU (y # ys)))"

text \<open>The buffer after a read into it.\<close>

definition stored :: "string \<Rightarrow> ures \<Rightarrow> string" where
  "stored buf r = u_data r @ drop (length (u_data r)) buf"

definition fill_buf :: "nat \<Rightarrow> nat \<Rightarrow> string \<Rightarrow> string" where
  "fill_buf c n buf = replicate n (char_of c) @ drop n buf"

definition sizeof_buf :: nat where "sizeof_buf = 8192"

text \<open>The first four bytes of the buffer as an int.\<close>

definition set_int :: "string \<Rightarrow> nat \<Rightarrow> string" where
  "set_int buf i = map (\<lambda>b. char_of (unat b)) (bytes32 (of_nat i)) @ drop 4 buf"

definition get_int :: "string \<Rightarrow> int" where
  "get_int buf = sint (word32 (map of_char (take 4 buf)))"

text \<open>A name of a letter and a digit.\<close>

definition file_name :: "nat \<Rightarrow> nat \<Rightarrow> string" where
  "file_name c i = [char_of c, char_of (48 + i)]"

section \<open>Directories and transactions\<close>

definition iputtest :: "unit user" where
  "iputtest = seqU [
     say 1 ''iput test'',
     require (UMkdir ''iputdir'') failed ''mkdir failed'',
     require (UChdir ''iputdir'') failed ''chdir iputdir failed'',
     require (UUnlink ''../iputdir'') failed ''unlink ../iputdir failed'',
     require (UChdir ''/'') failed ''chdir / failed'',
     say 1 ''iput test ok'']"

definition exitiputtest :: "unit user" where
  "exitiputtest =
    thenU (say 1 ''exitiput test'')
    (bindU (reject UFork failed ''fork failed'') (\<lambda>pid.
     if pid = 0
     then seqU [
       require (UMkdir ''iputdir'') failed ''mkdir failed'',
       require (UChdir ''iputdir'') failed ''child chdir failed'',
       require (UUnlink ''../iputdir'') failed ''unlink ../iputdir failed'',
       uexit]
     else seqU [do_sys UWait, say 1 ''exitiput test ok'']))"

definition openiputtest :: "unit user" where
  "openiputtest = seqU [
     say 1 ''openiput test'',
     require (UMkdir ''oidir'') failed ''mkdir oidir failed'',
     bindU (reject UFork failed ''fork failed'') (\<lambda>pid.
       if pid = 0
       then seqU [require (UOpen ''oidir'' O_RDWR) succeeded ''open directory for write succeeded'', uexit]
       else seqU [
         do_sys (USleep 1),
         require (UUnlink ''oidir'') nonzero ''unlink failed'',
         do_sys UWait,
         say 1 ''openiput test ok''])]"

section \<open>Simple file system tests\<close>

definition opentest :: "unit user" where
  "opentest =
    thenU (say 1 ''open test'')
    (bindU (reject (UOpen ''echo'' 0) failed ''open echo failed!'') (\<lambda>fd. seqU [
       do_sys (UClose fd),
       require (UOpen ''doesnotexist'' 0) succeeded ''open doesnotexist succeeded!'',
       say 1 ''open test ok'']))"

definition writetest :: "string \<Rightarrow> string user" where
  "writetest buf =
    thenU (say 1 ''small file test'')
    (bindU (reject (UOpen ''small'' (O_CREATE OR O_RDWR)) failed ''error: creat small failed!'') (\<lambda>fd.
     thenU (say 1 ''creat small succeeded; ok'')
     (thenU (forU (\<lambda>i.
        bindU (rejectf (UWrite fd (replicate 10 (CHR ''a''))) (other_than 10) (''error: write aa %d new file failed'' @ newline) [Num (of_nat i)]) (\<lambda>_.
        bindU (rejectf (UWrite fd (replicate 10 (CHR ''b''))) (other_than 10) (''error: write bb %d new file failed'' @ newline) [Num (of_nat i)]) (\<lambda>_.
        retU ()))) [0..<100])
     (thenU (say 1 ''writes ok'')
     (thenU (do_sys (UClose fd))
     (bindU (reject (UOpen ''small'' O_RDONLY) failed ''error: open small failed!'') (\<lambda>fd.
      thenU (say 1 ''open small succeeded ok'')
      (bindU (sys (URead fd 2000)) (\<lambda>r.
       thenU (if u_ret r = 2000 then say 1 ''read succeeded ok'' else die (''read failed'' @ newline) [])
       (thenU (do_sys (UClose fd))
       (thenU (require (UUnlink ''small'') failed ''unlink small failed'')
       (thenU (say 1 ''small file test ok'')
       (retU (stored buf r))))))))))))))"

definition read_block :: "int \<Rightarrow> string \<times> nat \<Rightarrow> (string + string \<times> nat) user" where
  "read_block fd = (\<lambda>(buf, n).
    bindU (sys (URead fd 512)) (\<lambda>r.
    let i = u_ret r; buf = stored buf r in
    if i = 0 then (if n = MAXFILE - 1 then die ''read only %d blocks from big'' [Num (of_nat n)] else retU (Inl buf))
    else if i \<noteq> 512 then die (''read failed %d'' @ newline) [Num (word_of_int i)]
    else if get_int buf \<noteq> int n
    then die (''read content of block %d is %d'' @ newline) [Num (of_nat n), Num (word_of_int (get_int buf))]
    else retU (Inr (buf, Suc n))))"

definition writetest1 :: "string \<Rightarrow> string user" where
  "writetest1 buf =
    thenU (say 1 ''big files test'')
    (bindU (reject (UOpen ''big'' (O_CREATE OR O_RDWR)) failed ''error: creat big failed!'') (\<lambda>fd.
     thenU (forU (\<lambda>i. require (UWrite fd (take 512 (set_int buf i))) (other_than 512) ''error: write big file failed'') [0..<MAXFILE])
     (thenU (do_sys (UClose fd))
     (bindU (reject (UOpen ''big'' O_RDONLY) failed ''error: open big failed!'') (\<lambda>fd.
      bindU (foreverU (read_block fd) (set_int buf (MAXFILE - 1), 0)) (\<lambda>buf.
      thenU (do_sys (UClose fd))
      (thenU (require (UUnlink ''big'') failed ''unlink big failed'')
      (thenU (say 1 ''big files ok'')
      (retU buf)))))))))"

definition createtest :: "unit user" where
  "createtest = seqU [
     say 1 ''many creates, followed by unlink test'',
     forU (\<lambda>i. bindU (sys (UOpen (file_name 97 i) (O_CREATE OR O_RDWR))) (\<lambda>f. do_sys (UClose (u_ret f)))) [0..<52],
     forU (\<lambda>i. do_sys (UUnlink (file_name 97 i))) [0..<52],
     say 1 ''many creates, followed by unlink; ok'']"

definition dirtest :: "unit user" where
  "dirtest = seqU [
     say 1 ''mkdir test'',
     require (UMkdir ''dir0'') failed ''mkdir failed'',
     require (UChdir ''dir0'') failed ''chdir dir0 failed'',
     require (UChdir ''..'') failed ''chdir .. failed'',
     require (UUnlink ''dir0'') failed ''unlink dir0 failed'',
     say 1 ''mkdir test ok'']"

definition exectest :: "unit user" where
  "exectest = seqU [
     say 1 ''exec test'',
     require (UExec ''echo'' [''echo'', ''ALL'', ''TESTS'', ''PASSED'']) failed ''exec echo failed'']"

section \<open>Processes and pipes\<close>

text \<open>The parent of pipe1: \<open>None\<close> after the return at the first wrong byte, and otherwise the number of bytes.\<close>

definition pipe1_read :: "int \<Rightarrow> string \<Rightarrow> (string \<times> nat option) user" where
  "pipe1_read fd buf = foreverU (\<lambda>(buf, cc, sq, total).
    bindU (sys (URead fd cc)) (\<lambda>r.
    let n = nat (u_ret r); buf = stored buf r in
    if u_ret r \<le> 0 then retU (Inl (buf, Some total))
    else if \<exists>i < n. of_char (buf ! i) \<noteq> (sq + i) mod (256 :: nat)
    then thenU (printf 1 (''pipe1 oops 2'' @ newline) []) (retU (Inl (buf, None)))
    else retU (Inr (buf, min (cc * 2) sizeof_buf, sq + n, total + n)))) (buf, 1, 0, 0)"

definition pipe1 :: "string \<Rightarrow> string user" where
  "pipe1 buf =
    bindU (sys UPipe) (\<lambda>p.
    if u_ret p \<noteq> 0 then die (''pipe() failed'' @ newline) []
    else
      bindU (sys UFork) (\<lambda>f.
      if u_ret f = 0
      then thenU (do_sys (UClose (fst (u_fds p))))
        (thenU (forU (\<lambda>n. require (UWrite (snd (u_fds p)) (map (\<lambda>i. char_of (1033 * n + i)) [0..<1033])) (other_than 1033) ''pipe1 oops 1'') [0..<5])
        uexit)
      else if 0 < u_ret f
      then thenU (do_sys (UClose (snd (u_fds p))))
        (bindU (pipe1_read (fst (u_fds p)) buf) (\<lambda>(buf, t). case t of
           None \<Rightarrow> retU buf
         | Some tot \<Rightarrow>
           if tot \<noteq> 5 * 1033 then die (''pipe1 oops 3 total %d'' @ newline) [Num (of_nat tot)]
           else thenU (seqU [do_sys (UClose (fst (u_fds p))), do_sys UWait, say 1 ''pipe1 ok'']) (retU buf)))
      else die (''fork() failed'' @ newline) []))"

definition preempt :: "string \<Rightarrow> string user" where
  "preempt buf =
    thenU (printf 1 ''preempt: '' [])
    (bindU (sys UFork) (\<lambda>pid1.
     if u_ret pid1 = 0 then hang
     else
       bindU (sys UFork) (\<lambda>pid2.
       if u_ret pid2 = 0 then hang
       else
         bindU (sys UPipe) (\<lambda>p.
         bindU (sys UFork) (\<lambda>pid3.
         if u_ret pid3 = 0
         then thenU (do_sys (UClose (fst (u_fds p))))
           (bindU (sys (UWrite (snd (u_fds p)) ''x'')) (\<lambda>w.
            thenU (whenU (u_ret w \<noteq> 1) (printf 1 ''preempt write error'' []))
            (thenU (do_sys (UClose (snd (u_fds p)))) hang)))
         else
           thenU (do_sys (UClose (snd (u_fds p))))
           (bindU (sys (URead (fst (u_fds p)) sizeof_buf)) (\<lambda>r.
            if u_ret r \<noteq> 1 then thenU (printf 1 ''preempt read error'' []) (retU (stored buf r))
            else thenU (seqU [
                do_sys (UClose (fst (u_fds p))),
                printf 1 ''kill... '' [],
                do_sys (UKill (u_ret pid1)), do_sys (UKill (u_ret pid2)), do_sys (UKill (u_ret pid3)),
                printf 1 ''wait... '' [],
                do_sys UWait, do_sys UWait, do_sys UWait,
                say 1 ''preempt ok''])
              (retU (stored buf r)))))))))"

definition exitwait :: "unit user" where
  "exitwait =
    bindU (for_returnU (\<lambda>_.
      bindU (sys UFork) (\<lambda>f.
      if u_ret f < 0 then thenU (say 1 ''fork failed'') (retU False)
      else if u_ret f \<noteq> 0
      then bindU (sys UWait) (\<lambda>w. if u_ret w \<noteq> u_ret f then thenU (say 1 ''wait wrong pid'') (retU False) else retU True)
      else uexit)) [0..<100 :: nat])
    (\<lambda>b. whenU b (say 1 ''exitwait ok''))"

definition ut_forktest :: "unit user" where
  "ut_forktest =
    thenU (say 1 ''fork test'')
    (bindU (forktest_forks 1000 0) (\<lambda>n.
     if n = 1000 then die (''fork claimed to work 1000 times!'' @ newline) []
     else seqU [
       forU (\<lambda>_. require UWait failed ''wait stopped early'') [0..<n],
       require UWait (other_than (- 1)) ''wait got too many'',
       say 1 ''fork test OK'']))"

section \<open>Shared files\<close>

definition sharedfd_count :: "int \<Rightarrow> string \<Rightarrow> (nat \<times> nat) user" where
  "sharedfd_count fd buf = foreverU (\<lambda>(buf, nc, np).
    bindU (sys (URead fd 10)) (\<lambda>r.
    let buf = stored buf r in
    if u_ret r \<le> 0 then retU (Inl (nc, np))
    else retU (Inr (buf, nc + count_list buf (CHR ''c''), np + count_list buf (CHR ''p''))))) (buf, 0, 0)"

definition sharedfd :: "unit user" where
  "sharedfd =
    thenU (say 1 ''sharedfd test'')
    (thenU (do_sys (UUnlink ''sharedfd''))
    (bindU (sys (UOpen ''sharedfd'' (O_CREATE OR O_RDWR))) (\<lambda>f.
     if u_ret f < 0 then printf 1 ''fstests: cannot open sharedfd for writing'' []
     else
       bindU (sys UFork) (\<lambda>p.
       let buf = replicate 10 (if u_ret p = 0 then CHR ''c'' else CHR ''p'') in
       thenU (for_breakU (\<lambda>_.
         bindU (sys (UWrite (u_ret f) buf)) (\<lambda>w.
         if u_ret w \<noteq> 10 then thenU (say 1 ''fstests: write sharedfd failed'') (retU False) else retU True)) [0..<1000 :: nat])
       (thenU (if u_ret p = 0 then uexit else do_sys UWait)
       (thenU (do_sys (UClose (u_ret f)))
       (bindU (sys (UOpen ''sharedfd'' 0)) (\<lambda>f.
        if u_ret f < 0 then say 1 ''fstests: cannot open sharedfd for reading''
        else
          bindU (sharedfd_count (u_ret f) buf) (\<lambda>(nc, np).
          thenU (do_sys (UClose (u_ret f)))
          (thenU (do_sys (UUnlink ''sharedfd''))
          (if nc = 10000 \<and> np = 10000 then say 1 ''sharedfd ok''
           else die (''sharedfd oops %d %d'' @ newline) [Num (of_nat nc), Num (of_nat np)])))))))))))"

definition fourfiles_read :: "int \<Rightarrow> nat \<Rightarrow> string \<Rightarrow> (string \<times> nat) user" where
  "fourfiles_read fd i buf = foreverU (\<lambda>(buf, total).
    bindU (sys (URead fd sizeof_buf)) (\<lambda>r.
    let buf = stored buf r in
    if u_ret r \<le> 0 then retU (Inl (buf, total))
    else if \<exists>j < nat (u_ret r). buf ! j \<noteq> char_of (48 + i) then die (''wrong char'' @ newline) []
    else retU (Inr (buf, total + nat (u_ret r))))) (buf, 0)"

fun fourfiles_check :: "nat list \<Rightarrow> string \<Rightarrow> string user" where
  "fourfiles_check [] buf = retU buf"
| "fourfiles_check (i # is) buf =
    bindU (sys (UOpen (file_name 102 i) 0)) (\<lambda>f.
    bindU (fourfiles_read (u_ret f) i buf) (\<lambda>(buf, total).
    thenU (do_sys (UClose (u_ret f)))
    (if total \<noteq> 12 * 500 then die (''wrong length %d'' @ newline) [Num (of_nat total)]
     else thenU (do_sys (UUnlink (file_name 102 i))) (fourfiles_check is buf))))"

definition fourfiles :: "string \<Rightarrow> string user" where
  "fourfiles buf =
    thenU (say 1 ''fourfiles test'')
    (thenU (forU (\<lambda>pi.
       thenU (do_sys (UUnlink (file_name 102 pi)))
       (bindU (reject UFork failed ''fork failed'') (\<lambda>pid.
        whenU (pid = 0)
          (bindU (reject (UOpen (file_name 102 pi) (O_CREATE OR O_RDWR)) failed ''create failed'') (\<lambda>fd.
           thenU (forU (\<lambda>_.
             bindU (sys (UWrite fd (replicate 500 (char_of (48 + pi))))) (\<lambda>w.
             whenU (u_ret w \<noteq> 500) (die (''write failed %d'' @ newline) [Num (word_of_int (u_ret w))]))) [0..<12 :: nat])
           uexit))))) [0..<4])
    (thenU (forU (\<lambda>_. do_sys UWait) [0..<4 :: nat])
    (bindU (fourfiles_check [0, 1] buf) (\<lambda>buf.
     thenU (say 1 ''fourfiles ok'') (retU buf)))))"

definition createdelete :: "unit user" where
  "createdelete = seqU [
     say 1 ''createdelete test'',
     forU (\<lambda>pi.
       bindU (reject UFork failed ''fork failed'') (\<lambda>pid.
       whenU (pid = 0)
         (thenU (forU (\<lambda>i.
            bindU (reject (UOpen (file_name (112 + pi) i) (O_CREATE OR O_RDWR)) failed ''create failed'') (\<lambda>fd.
            thenU (do_sys (UClose fd))
            (whenU (0 < i \<and> i mod 2 = 0)
               (require (UUnlink (file_name (112 + pi) (i div 2))) failed ''unlink failed'')))) [0..<20])
          uexit))) [0..<4],
     forU (\<lambda>_. do_sys UWait) [0..<4 :: nat],
     forU (\<lambda>i. forU (\<lambda>pi.
       bindU (sys (UOpen (file_name (112 + pi) i) 0)) (\<lambda>f.
       let fd = u_ret f in
       if (i = 0 \<or> 20 div 2 \<le> i) \<and> fd < 0
       then die (''oops createdelete %s didn'' @ [CHR 0x27] @ ''t exist'' @ newline) [Ptr (Some (file_name (112 + pi) i))]
       else if (1 \<le> i \<and> i < 20 div 2) \<and> 0 \<le> fd
       then die (''oops createdelete %s did exist'' @ newline) [Ptr (Some (file_name (112 + pi) i))]
       else whenU (0 \<le> fd) (do_sys (UClose fd)))) [0..<4]) [0..<20],
     forU (\<lambda>i. forU (\<lambda>_. do_sys (UUnlink (file_name (112 + i) i))) [0..<4 :: nat]) [0..<20],
     say 1 ''createdelete ok'']"

definition unlinkread :: "string \<Rightarrow> string user" where
  "unlinkread buf =
    thenU (say 1 ''unlinkread test'')
    (bindU (reject (UOpen ''unlinkread'' (O_CREATE OR O_RDWR)) failed ''create unlinkread failed'') (\<lambda>fd.
     thenU (do_sys (UWrite fd ''hello''))
     (thenU (do_sys (UClose fd))
     (bindU (reject (UOpen ''unlinkread'' O_RDWR) failed ''open unlinkread failed'') (\<lambda>fd.
      thenU (require (UUnlink ''unlinkread'') nonzero ''unlink unlinkread failed'')
      (bindU (sys (UOpen ''unlinkread'' (O_CREATE OR O_RDWR))) (\<lambda>f1.
       thenU (do_sys (UWrite (u_ret f1) ''yyy''))
       (thenU (do_sys (UClose (u_ret f1)))
       (bindU (sys (URead fd sizeof_buf)) (\<lambda>r.
        let buf = stored buf r in
        if u_ret r \<noteq> 5 then die ''unlinkread read failed'' []
        else if hd buf \<noteq> CHR ''h'' then die (''unlinkread wrong data'' @ newline) []
        else thenU (seqU [
            require (UWrite fd (take 10 buf)) (other_than 10) ''unlinkread write failed'',
            do_sys (UClose fd),
            do_sys (UUnlink ''unlinkread''),
            say 1 ''unlinkread ok''])
          (retU buf)))))))))))"

section \<open>Links\<close>

definition linktest :: "string \<Rightarrow> string user" where
  "linktest buf =
    thenU (say 1 ''linktest'')
    (thenU (do_sys (UUnlink ''lf1''))
    (thenU (do_sys (UUnlink ''lf2''))
    (bindU (reject (UOpen ''lf1'' (O_CREATE OR O_RDWR)) failed ''create lf1 failed'') (\<lambda>fd.
     thenU (seqU [
       require (UWrite fd ''hello'') (other_than 5) ''write lf1 failed'',
       do_sys (UClose fd),
       require (ULink ''lf1'' ''lf2'') failed ''link lf1 lf2 failed'',
       do_sys (UUnlink ''lf1''),
       require (UOpen ''lf1'' 0) succeeded ''unlinked lf1 but it is still there!''])
     (bindU (reject (UOpen ''lf2'' 0) failed ''open lf2 failed'') (\<lambda>fd.
      bindU (sys (URead fd sizeof_buf)) (\<lambda>r.
      if u_ret r \<noteq> 5 then die (''read lf2 failed'' @ newline) []
      else thenU (seqU [
          do_sys (UClose fd),
          require (ULink ''lf2'' ''lf2'') succeeded ''link lf2 lf2 succeeded! oops'',
          do_sys (UUnlink ''lf2''),
          require (ULink ''lf2'' ''lf1'') succeeded ''link non-existant succeeded! oops'',
          require (ULink ''.'' ''lf1'') succeeded ''link . lf1 succeeded! oops'',
          say 1 ''linktest ok''])
        (retU (stored buf r)))))))))"

text \<open>The directory listing of concreate: the files that were seen, and their number.\<close>

definition concreate_list :: "int \<Rightarrow> nat user" where
  "concreate_list fd = foreverU (\<lambda>(de, fa, n).
    bindU (sys (URead fd 16)) (\<lambda>r.
    let de = stored de r; name = drop 2 de; i = of_char (name ! 1) - 48 :: int in
    if u_ret r \<le> 0 then retU (Inl n)
    else if take 2 de = [CHR 0x00, CHR 0x00] then retU (Inr (de, fa, n))
    else if name ! 0 = CHR ''C'' \<and> name ! 2 = CHR 0x00
    then
      (if i < 0 \<or> 40 \<le> i then die (''concreate weird file %s'' @ newline) [Ptr (Some (takeWhile (\<lambda>c. c \<noteq> CHR 0x00) name))]
       else if fa ! nat i then die (''concreate duplicate file %s'' @ newline) [Ptr (Some (takeWhile (\<lambda>c. c \<noteq> CHR 0x00) name))]
       else retU (Inr (de, fa[nat i := True], Suc n)))
    else retU (Inr (de, fa, n)))) (replicate 16 (CHR 0x00), replicate 40 False, 0)"

definition concreate :: "unit user" where
  "concreate =
    thenU (say 1 ''concreate test'')
    (thenU (forU (\<lambda>i.
       let file = file_name 67 i in
       thenU (do_sys (UUnlink file))
       (bindU (sys UFork) (\<lambda>p.
        thenU (if u_ret p \<noteq> 0 \<and> i mod 3 = 1 then do_sys (ULink ''C0'' file)
          else if u_ret p = 0 \<and> i mod 5 = 1 then do_sys (ULink ''C0'' file)
          else bindU (rejectf (UOpen file (O_CREATE OR O_RDWR)) failed (''concreate create %s failed'' @ newline) [Ptr (Some file)])
            (\<lambda>fd. do_sys (UClose fd)))
        (if u_ret p = 0 then uexit else do_sys UWait)))) [0..<40])
    (bindU (sys (UOpen ''.'' 0)) (\<lambda>f.
     bindU (concreate_list (u_ret f)) (\<lambda>n.
     thenU (do_sys (UClose (u_ret f)))
     (if n \<noteq> 40 then die (''concreate not enough files in directory listing'' @ newline) []
      else thenU (forU (\<lambda>i.
          let file = file_name 67 i in
          bindU (reject UFork failed ''fork failed'') (\<lambda>pid.
          thenU (if i mod 3 = 0 \<and> pid = 0 \<or> i mod 3 = 1 \<and> pid \<noteq> 0
            then forU (\<lambda>_. bindU (sys (UOpen file 0)) (\<lambda>f. do_sys (UClose (u_ret f)))) [0..<4 :: nat]
            else forU (\<lambda>_. do_sys (UUnlink file)) [0..<4 :: nat])
          (if pid = 0 then uexit else do_sys UWait))) [0..<40])
        (say 1 ''concreate ok''))))))"

fun linkunlink_steps :: "nat \<Rightarrow> u32 \<Rightarrow> unit user" where
  "linkunlink_steps 0 x = retU ()"
| "linkunlink_steps (Suc k) x =
    (let x = x * 1103515245 + 12345 in
     thenU (if x mod 3 = 0 then bindU (sys (UOpen ''x'' (O_RDWR OR O_CREATE))) (\<lambda>f. do_sys (UClose (u_ret f)))
       else if x mod 3 = 1 then do_sys (ULink ''cat'' ''x'')
       else do_sys (UUnlink ''x''))
     (linkunlink_steps k x))"

definition linkunlink :: "unit user" where
  "linkunlink =
    thenU (say 1 ''linkunlink test'')
    (thenU (do_sys (UUnlink ''x''))
    (bindU (reject UFork failed ''fork failed'') (\<lambda>pid. seqU [
       linkunlink_steps 100 (if pid \<noteq> 0 then 1 else 97),
       if pid \<noteq> 0 then do_sys UWait else uexit,
       say 1 ''linkunlink ok''])))"

definition bigdir_name :: "nat \<Rightarrow> string" where
  "bigdir_name i = [CHR ''x'', char_of (48 + i div 64), char_of (48 + i mod 64)]"

definition bigdir :: "unit user" where
  "bigdir =
    thenU (say 1 ''bigdir test'')
    (thenU (do_sys (UUnlink ''bd''))
    (bindU (reject (UOpen ''bd'' O_CREATE) failed ''bigdir create failed'') (\<lambda>fd. seqU [
       do_sys (UClose fd),
       forU (\<lambda>i. require (ULink ''bd'' (bigdir_name i)) nonzero ''bigdir link failed'') [0..<500],
       do_sys (UUnlink ''bd''),
       forU (\<lambda>i. bindU (rejectf (UUnlink (bigdir_name i)) nonzero ''bigdir unlink failed'' []) (\<lambda>_. retU ())) [0..<500],
       say 1 ''bigdir ok''])))"

section \<open>Directories\<close>

definition subdir_make :: "unit user" where
  "subdir_make =
    thenU (say 1 ''subdir test'')
    (thenU (do_sys (UUnlink ''ff''))
    (thenU (require (UMkdir ''dd'') nonzero ''subdir mkdir dd failed'')
    (bindU (reject (UOpen ''dd/ff'' (O_CREATE OR O_RDWR)) failed ''create dd/ff failed'') (\<lambda>fd.
     thenU (seqU [
       do_sys (UWrite fd ''ff''),
       do_sys (UClose fd),
       require (UUnlink ''dd'') succeeded ''unlink dd (non-empty dir) succeeded!'',
       require (UMkdir ''/dd/dd'') nonzero ''subdir mkdir dd/dd failed''])
     (bindU (reject (UOpen ''dd/dd/ff'' (O_CREATE OR O_RDWR)) failed ''create dd/dd/ff failed'') (\<lambda>fd. seqU [
        do_sys (UWrite fd ''FF''),
        do_sys (UClose fd)]))))))"

definition subdir_walk :: "unit user" where
  "subdir_walk = seqU [
     require (ULink ''dd/dd/ff'' ''dd/dd/ffff'') nonzero ''link dd/dd/ff dd/dd/ffff failed'',
     require (UUnlink ''dd/dd/ff'') nonzero ''unlink dd/dd/ff failed'',
     require (UOpen ''dd/dd/ff'' O_RDONLY) succeeded ''open (unlinked) dd/dd/ff succeeded'',
     require (UChdir ''dd'') nonzero ''chdir dd failed'',
     require (UChdir ''dd/../../dd'') nonzero ''chdir dd/../../dd failed'',
     require (UChdir ''dd/../../../dd'') nonzero ''chdir dd/../../dd failed'',
     require (UChdir ''./..'') nonzero ''chdir ./.. failed'']"

definition subdir_errors :: "unit user" where
  "subdir_errors = seqU [
     require (UOpen ''dd/dd/ff'' O_RDONLY) succeeded ''open (unlinked) dd/dd/ff succeeded!'',
     require (UOpen ''dd/ff/ff'' (O_CREATE OR O_RDWR)) succeeded ''create dd/ff/ff succeeded!'',
     require (UOpen ''dd/xx/ff'' (O_CREATE OR O_RDWR)) succeeded ''create dd/xx/ff succeeded!'',
     require (UOpen ''dd'' O_CREATE) succeeded ''create dd succeeded!'',
     require (UOpen ''dd'' O_RDWR) succeeded ''open dd rdwr succeeded!'',
     require (UOpen ''dd'' O_WRONLY) succeeded ''open dd wronly succeeded!'',
     require (ULink ''dd/ff/ff'' ''dd/dd/xx'') zero ''link dd/ff/ff dd/dd/xx succeeded!'',
     require (ULink ''dd/xx/ff'' ''dd/dd/xx'') zero ''link dd/xx/ff dd/dd/xx succeeded!'',
     require (ULink ''dd/ff'' ''dd/dd/ffff'') zero ''link dd/ff dd/dd/ffff succeeded!'',
     require (UMkdir ''dd/ff/ff'') zero ''mkdir dd/ff/ff succeeded!'',
     require (UMkdir ''dd/xx/ff'') zero ''mkdir dd/xx/ff succeeded!'',
     require (UMkdir ''dd/dd/ffff'') zero ''mkdir dd/dd/ffff succeeded!'',
     require (UUnlink ''dd/xx/ff'') zero ''unlink dd/xx/ff succeeded!'',
     require (UUnlink ''dd/ff/ff'') zero ''unlink dd/ff/ff succeeded!'',
     require (UChdir ''dd/ff'') zero ''chdir dd/ff succeeded!'',
     require (UChdir ''dd/xx'') zero ''chdir dd/xx succeeded!'']"

definition subdir_remove :: "unit user" where
  "subdir_remove = seqU [
     require (UUnlink ''dd/dd/ffff'') nonzero ''unlink dd/dd/ff failed'',
     require (UUnlink ''dd/ff'') nonzero ''unlink dd/ff failed'',
     require (UUnlink ''dd'') zero ''unlink non-empty dd succeeded!'',
     require (UUnlink ''dd/dd'') failed ''unlink dd/dd failed'',
     require (UUnlink ''dd'') failed ''unlink dd failed'',
     say 1 ''subdir ok'']"

definition subdir :: "string \<Rightarrow> string user" where
  "subdir buf =
    thenU subdir_make
    (bindU (reject (UOpen ''dd/dd/../ff'' 0) failed ''open dd/dd/../ff failed'') (\<lambda>fd.
     bindU (sys (URead fd sizeof_buf)) (\<lambda>r.
     let buf = stored buf r in
     if u_ret r \<noteq> 2 \<or> hd buf \<noteq> CHR ''f'' then die (''dd/dd/../ff wrong content'' @ newline) []
     else
       thenU (do_sys (UClose fd))
       (thenU subdir_walk
       (bindU (reject (UOpen ''dd/dd/ffff'' 0) failed ''open dd/dd/ffff failed'') (\<lambda>fd.
        bindU (sys (URead fd sizeof_buf)) (\<lambda>r.
        if u_ret r \<noteq> 2 then die (''read dd/dd/ffff wrong len'' @ newline) []
        else thenU (seqU [do_sys (UClose fd), subdir_errors, subdir_remove]) (retU (stored buf r)))))))))"

section \<open>Large and odd files\<close>

definition bigwrite :: "string \<Rightarrow> unit user" where
  "bigwrite buf = seqU [
     say 1 ''bigwrite test'',
     do_sys (UUnlink ''bigwrite''),
     forU (\<lambda>k.
       let sz = 499 + 471 * k in
       bindU (reject (UOpen ''bigwrite'' (O_CREATE OR O_RDWR)) failed ''cannot create bigwrite'') (\<lambda>fd. seqU [
         forU (\<lambda>_.
           bindU (sys (UWrite fd (take sz buf))) (\<lambda>w.
           whenU (u_ret w \<noteq> int sz) (die (''write(%d) ret %d'' @ newline) [Num (of_nat sz), Num (word_of_int (u_ret w))]))) [0..<2 :: nat],
         do_sys (UClose fd),
         do_sys (UUnlink ''bigwrite'')])) [0..<12],
     say 1 ''bigwrite ok'']"

definition bigfile_read :: "int \<Rightarrow> string \<Rightarrow> (string \<times> nat) user" where
  "bigfile_read fd buf = foreverU (\<lambda>(buf, i, total).
    bindU (sys (URead fd 300)) (\<lambda>r.
    let buf = stored buf r; cc = u_ret r in
    if cc < 0 then die (''read bigfile failed'' @ newline) []
    else if cc = 0 then retU (Inl (buf, total))
    else if cc \<noteq> 300 then die (''short read bigfile'' @ newline) []
    else if sint (of_char (buf ! 0) :: u8) \<noteq> int (i div 2) \<or> sint (of_char (buf ! 299) :: u8) \<noteq> int (i div 2) then die (''read bigfile wrong data'' @ newline) []
    else retU (Inr (buf, Suc i, total + 300)))) (buf, 0, 0)"

definition bigfile :: "string \<Rightarrow> string user" where
  "bigfile buf =
    thenU (say 1 ''bigfile test'')
    (thenU (do_sys (UUnlink ''bigfile''))
    (bindU (rejectf (UOpen ''bigfile'' (O_CREATE OR O_RDWR)) failed ''cannot create bigfile'' []) (\<lambda>fd.
     thenU (forU (\<lambda>i. require (UWrite fd (replicate 600 (char_of i))) (other_than 600) ''write bigfile failed'') [0..<20 :: nat])
     (thenU (do_sys (UClose fd))
     (bindU (reject (UOpen ''bigfile'' 0) failed ''cannot open bigfile'') (\<lambda>fd.
      bindU (bigfile_read fd (fill_buf 19 600 buf)) (\<lambda>(buf, total).
      thenU (do_sys (UClose fd))
      (if total \<noteq> 20 * 600 then die (''read bigfile wrong total'' @ newline) []
       else thenU (do_sys (UUnlink ''bigfile'')) (thenU (say 1 ''bigfile test ok'') (retU buf))))))))))"

definition fourteen :: "unit user" where
  "fourteen = seqU [
     say 1 ''fourteen test'',
     require (UMkdir ''12345678901234'') nonzero ''mkdir 12345678901234 failed'',
     require (UMkdir ''12345678901234/123456789012345'') nonzero ''mkdir 12345678901234/123456789012345 failed'',
     bindU (reject (UOpen ''123456789012345/123456789012345/123456789012345'' O_CREATE) failed
       ''create 123456789012345/123456789012345/123456789012345 failed'') (\<lambda>fd. do_sys (UClose fd)),
     bindU (reject (UOpen ''12345678901234/12345678901234/12345678901234'' 0) failed
       ''open 12345678901234/12345678901234/12345678901234 failed'') (\<lambda>fd. do_sys (UClose fd)),
     require (UMkdir ''12345678901234/12345678901234'') zero ''mkdir 12345678901234/12345678901234 succeeded!'',
     require (UMkdir ''123456789012345/12345678901234'') zero ''mkdir 12345678901234/123456789012345 succeeded!'',
     say 1 ''fourteen ok'']"

definition rmdot :: "unit user" where
  "rmdot = seqU [
     say 1 ''rmdot test'',
     require (UMkdir ''dots'') nonzero ''mkdir dots failed'',
     require (UChdir ''dots'') nonzero ''chdir dots failed'',
     require (UUnlink ''.'') zero ''rm . worked!'',
     require (UUnlink ''..'') zero ''rm .. worked!'',
     require (UChdir ''/'') nonzero ''chdir / failed'',
     require (UUnlink ''dots/.'') zero ''unlink dots/. worked!'',
     require (UUnlink ''dots/..'') zero ''unlink dots/.. worked!'',
     require (UUnlink ''dots'') nonzero ''unlink dots failed!'',
     say 1 ''rmdot ok'']"

definition dirfile :: "unit user" where
  "dirfile = seqU [
     say 1 ''dir vs file'',
     bindU (reject (UOpen ''dirfile'' O_CREATE) failed ''create dirfile failed'') (\<lambda>fd. do_sys (UClose fd)),
     require (UChdir ''dirfile'') zero ''chdir dirfile succeeded!'',
     require (UOpen ''dirfile/xx'' 0) succeeded ''create dirfile/xx succeeded!'',
     require (UOpen ''dirfile/xx'' O_CREATE) succeeded ''create dirfile/xx succeeded!'',
     require (UMkdir ''dirfile/xx'') zero ''mkdir dirfile/xx succeeded!'',
     require (UUnlink ''dirfile/xx'') zero ''unlink dirfile/xx succeeded!'',
     require (ULink ''README'' ''dirfile/xx'') zero ''link to dirfile/xx succeeded!'',
     require (UUnlink ''dirfile'') nonzero ''unlink dirfile failed!'',
     require (UOpen ''.'' O_RDWR) succeeded ''open . for writing succeeded!'',
     bindU (sys (UOpen ''.'' 0)) (\<lambda>f. seqU [
       require (UWrite (u_ret f) ''x'') (\<lambda>r. 0 < r) ''write . succeeded!'',
       do_sys (UClose (u_ret f))]),
     say 1 ''dir vs file OK'']"

definition open_close :: "string \<Rightarrow> u32 \<Rightarrow> unit user" where
  "open_close path mode = bindU (sys (UOpen path mode)) (\<lambda>f. whenU (0 \<le> u_ret f) (do_sys (UClose (u_ret f))))"

definition iref :: "unit user" where
  "iref = seqU [
     say 1 ''empty file name'',
     forU (\<lambda>_. seqU [
       require (UMkdir ''irefd'') nonzero ''mkdir irefd failed'',
       require (UChdir ''irefd'') nonzero ''chdir irefd failed'',
       do_sys (UMkdir ''''),
       do_sys (ULink ''README'' ''''),
       open_close '''' O_CREATE,
       open_close ''xx'' O_CREATE,
       do_sys (UUnlink ''xx'')]) [0..<50 + 1 :: nat],
     do_sys (UChdir ''/''),
     say 1 ''empty file name OK'']"

text \<open>fsfull is not called by the main function.\<close>

definition fsfull_name :: "nat \<Rightarrow> string" where
  "fsfull_name n = [CHR ''f'', char_of (48 + n div 1000), char_of (48 + n mod 1000 div 100), char_of (48 + n mod 100 div 10), char_of (48 + n mod 10)]"

definition fsfull :: "string \<Rightarrow> unit user" where
  "fsfull buf =
    thenU (say 1 ''fsfull test'')
    (bindU (foreverU (\<lambda>nfiles.
       thenU (printf 1 (''writing %s'' @ newline) [Ptr (Some (fsfull_name nfiles))])
       (bindU (sys (UOpen (fsfull_name nfiles) (O_CREATE OR O_RDWR))) (\<lambda>f.
        if u_ret f < 0
        then thenU (printf 1 (''open %s failed'' @ newline) [Ptr (Some (fsfull_name nfiles))]) (retU (Inl nfiles))
        else
          bindU (foreverU (\<lambda>total.
            bindU (sys (UWrite (u_ret f) (take 512 buf))) (\<lambda>w.
            retU (if u_ret w < 512 then Inl total else Inr (total + u_ret w)))) 0) (\<lambda>total.
          thenU (printf 1 (''wrote %d bytes'' @ newline) [Num (word_of_int total)])
          (thenU (do_sys (UClose (u_ret f)))
          (retU (if total = 0 then Inl nfiles else Inr (Suc nfiles)))))))) 0) (\<lambda>nfiles. seqU [
     forU (\<lambda>n. do_sys (UUnlink (fsfull_name n))) (rev [0..<Suc nfiles]),
     say 1 ''fsfull test finished'']))"

section \<open>Memory\<close>

text \<open>The memory of the program is not part of the model: what the program reads in it is the parameter \<open>peek\<close>,
\<open>None\<close> where the read is a fault, and the stores \<open>*b = 1\<close> and \<open>*lastaddr = 99\<close> are left out.\<close>

text \<open>The result of sbrk as an address.\<close>

definition sbrkU :: "u32 \<Rightarrow> u32 user" where
  "sbrkU n = bindU (sys (USbrk (sint n))) (\<lambda>r. retU (word_of_int (u_ret r)))"

definition BIG :: u32 where "BIG = 100 * 1024 * 1024"

fun sbrk_bytes :: "nat list \<Rightarrow> u32 \<Rightarrow> u32 user" where
  "sbrk_bytes [] a = retU a"
| "sbrk_bytes (i # is) a =
    bindU (sbrkU 1) (\<lambda>b.
    if b \<noteq> a then die (''sbrk test failed %d %x %x'' @ newline) [Num (of_nat i), Num a, Num b]
    else sbrk_bytes is (b + 1))"

definition sbrk_small :: "unit user" where
  "sbrk_small =
    bindU (sbrkU 0) (\<lambda>a.
    bindU (sbrk_bytes [0..<5000] a) (\<lambda>a.
    bindU (reject UFork failed ''sbrk test fork failed'') (\<lambda>pid.
    bindU (sbrkU 1) (\<lambda>_.
    bindU (sbrkU 1) (\<lambda>c.
    if c \<noteq> a + 1 then die (''sbrk test failed post-fork'' @ newline) []
    else if pid = 0 then uexit
    else do_sys UWait)))))"

definition sbrk_big :: "(u32 \<Rightarrow> char option) \<Rightarrow> u32 \<Rightarrow> unit user" where
  "sbrk_big peek oldbrk =
    bindU (sbrkU 0) (\<lambda>a.
    bindU (sbrkU (BIG - a)) (\<lambda>p.
    if p \<noteq> a then die (''sbrk test failed to grow big address space; enough phys mem?'' @ newline) []
    else
      bindU (sbrkU 0) (\<lambda>a.
      bindU (sbrkU (- 4096)) (\<lambda>c.
      if c = 0xffffffff then die (''sbrk could not deallocate'' @ newline) []
      else
        bindU (sbrkU 0) (\<lambda>c.
        if c \<noteq> a - 4096 then die (''sbrk deallocation produced wrong address, a %x c %x'' @ newline) [Num a, Num c]
        else
          bindU (sbrkU 0) (\<lambda>a.
          bindU (sbrkU 4096) (\<lambda>c.
          bindU (if c \<noteq> a then retU True else bindU (sbrkU 0) (\<lambda>b. retU (b \<noteq> a + 4096))) (\<lambda>bad.
          if bad then die (''sbrk re-allocation failed, a %x c %x'' @ newline) [Num a, Num c]
          else (case peek (BIG - 1) of
              None \<Rightarrow> hang
            | Some x \<Rightarrow>
              if x = char_of (99 :: nat) then die (''sbrk de-allocation didn'' @ [CHR 0x27] @ ''t really deallocate'' @ newline) []
              else
                bindU (sbrkU 0) (\<lambda>a.
                bindU (sbrkU 0) (\<lambda>b.
                bindU (sbrkU (- (b - oldbrk))) (\<lambda>c.
                whenU (c \<noteq> a) (die (''sbrk downsize failed, a %x c %x'' @ newline) [Num a, Num c])))))))))))))"

definition sbrk_kernel :: "(u32 \<Rightarrow> char option) \<Rightarrow> unit user" where
  "sbrk_kernel peek = forU (\<lambda>k.
    let a = KERNBASE + 50000 * of_nat k in
    bindU (sys UGetpid) (\<lambda>ppid.
    bindU (reject UFork failed ''fork failed'') (\<lambda>pid.
    if pid = 0
    then (case peek a of
        None \<Rightarrow> hang
      | Some x \<Rightarrow> seqU [
          printf 1 (''oops could read %x = %x'' @ newline) [Num a, Num (scast (of_char x :: u8))],
          do_sys (UKill (u_ret ppid)),
          uexit])
    else do_sys UWait))) [0..<40]"

definition sbrk_children :: "int \<times> int \<Rightarrow> int list user" where
  "sbrk_children fds = collectU (\<lambda>_.
    bindU (sys UFork) (\<lambda>p.
    if u_ret p = 0
    then bindU (sbrkU 0) (\<lambda>b.
      bindU (sbrkU (BIG - b)) (\<lambda>_.
      thenU (do_sys (UWrite (snd fds) ''x''))
      (foreverU (\<lambda>_. bindU (sys (USleep 1000)) (\<lambda>_. retU (Inr ()))) ())))
    else thenU (whenU (u_ret p \<noteq> - 1) (do_sys (URead (fst fds) 1))) (retU (u_ret p)))) [0..<10 :: nat]"

definition sbrktest :: "(u32 \<Rightarrow> char option) \<Rightarrow> unit user" where
  "sbrktest peek =
    thenU (say 1 ''sbrk test'')
    (bindU (sbrkU 0) (\<lambda>oldbrk.
     thenU sbrk_small
     (thenU (sbrk_big peek oldbrk)
     (thenU (sbrk_kernel peek)
     (bindU (sys UPipe) (\<lambda>p.
      if u_ret p \<noteq> 0 then die (''pipe() failed'' @ newline) []
      else
        bindU (sbrk_children (u_fds p)) (\<lambda>pids.
        bindU (sbrkU 4096) (\<lambda>c.
        thenU (forU (\<lambda>pid. whenU (pid \<noteq> - 1) (seqU [do_sys (UKill pid), do_sys UWait])) pids)
        (if c = 0xffffffff then die (''failed sbrk leaked memory'' @ newline) []
         else
           bindU (sbrkU 0) (\<lambda>b.
           thenU (whenU (oldbrk < b) (bindU (sbrkU 0) (\<lambda>b. bindU (sbrkU (- (b - oldbrk))) (\<lambda>_. retU ()))))
           (say 1 ''sbrk test OK'')))))))))))"

definition validatetest :: "(u32 \<Rightarrow> unit user) \<Rightarrow> (u32 \<Rightarrow> string) \<Rightarrow> unit user" where
  "validatetest validateint str_at = seqU [
     say 1 ''validate test'',
     forU (\<lambda>k.
       let p = 4096 * of_nat k in
       bindU (sys UFork) (\<lambda>pid.
       if u_ret pid = 0 then thenU (validateint p) uexit
       else seqU [
         do_sys (USleep 0), do_sys (USleep 0),
         do_sys (UKill (u_ret pid)),
         do_sys UWait,
         require (ULink ''nosuchfile'' (str_at p)) (other_than (- 1)) ''link should not succeed''])) [0..<1100 * 1024 div 4096 + 1],
     say 1 ''validate ok'']"

definition bsstest :: "string \<Rightarrow> unit user" where
  "bsstest uninit = seqU [
     say 1 ''bss test'',
     if \<exists>c \<in> set uninit. c \<noteq> CHR 0x00 then die (''bss test failed'' @ newline) [] else retU (),
     say 1 ''bss test ok'']"

definition bigargtest :: "unit user" where
  "bigargtest =
    thenU (do_sys (UUnlink ''bigarg-ok''))
    (bindU (sys UFork) (\<lambda>p.
     if u_ret p = 0
     then thenU (say 1 ''bigarg test'')
       (thenU (do_sys (UExec ''echo'' (replicate 31 (''bigargs test: failed'' @ newline @ replicate 199 (CHR '' '')))))
       (thenU (say 1 ''bigarg test ok'')
       (bindU (sys (UOpen ''bigarg-ok'' O_CREATE)) (\<lambda>f.
        thenU (do_sys (UClose (u_ret f))) uexit))))
     else if u_ret p < 0 then die (''bigargtest: fork failed'' @ newline) []
     else
       thenU (do_sys UWait)
       (bindU (reject (UOpen ''bigarg-ok'' 0) failed ''bigarg test failed!'') (\<lambda>fd. seqU [
          do_sys (UClose fd),
          do_sys (UUnlink ''bigarg-ok'')]))))"

definition uio :: "unit user \<Rightarrow> unit user" where
  "uio port_io =
    thenU (say 1 ''uio test'')
    (bindU (sys UFork) (\<lambda>p.
     if u_ret p = 0 then thenU port_io (die (''uio: uio succeeded; test FAILED'' @ newline) [])
     else if u_ret p < 0 then die (''fork failed'' @ newline) []
     else seqU [do_sys UWait, say 1 ''uio test done'']))"

text \<open>The size of the read is -1, as an unsigned number.\<close>

definition argptest :: "unit user" where
  "argptest =
    bindU (sys (UOpen ''init'' O_RDONLY)) (\<lambda>f.
    if u_ret f < 0 then thenU (printf 2 (''open failed'' @ newline) []) uexit
    else
      bindU (sbrkU 0) (\<lambda>_. seqU [
        do_sys (URead (u_ret f) (2 ^ 32 - 1)),
        do_sys (UClose (u_ret f)),
        say 1 ''arg test passed'']))"

definition rand :: "u32 \<Rightarrow> u32" where
  "rand randstate = randstate * 1664525 + 1013904223"

section \<open>The main function\<close>

record test_env =
  t_peek :: "u32 \<Rightarrow> char option"
  t_str_at :: "u32 \<Rightarrow> string"
  t_uninit :: string
  t_validateint :: "u32 \<Rightarrow> unit user"
  t_port_io :: "unit user"
  t_mem :: "unit user"

definition usertests_main :: "test_env \<Rightarrow> string \<Rightarrow> unit user" where
  "usertests_main t buf =
    thenU (say 1 ''usertests starting'')
    (thenU (require (UOpen ''usertests.ran'' 0) succeeded ''already ran user tests -- rebuild fs.img'')
    (thenU (bindU (sys (UOpen ''usertests.ran'' O_CREATE)) (\<lambda>f. do_sys (UClose (u_ret f))))
    (thenU (seqU [argptest, createdelete, linkunlink, concreate])
    (bindU (fourfiles buf) (\<lambda>buf.
     thenU (seqU [sharedfd, bigargtest, bigwrite buf, bigargtest, bsstest (t_uninit t), sbrktest (t_peek t),
       validatetest (t_validateint t) (t_str_at t), opentest])
     (bindU (writetest buf) (\<lambda>buf.
      bindU (writetest1 buf) (\<lambda>buf.
      thenU (seqU [createtest, openiputtest, exitiputtest, iputtest, t_mem t])
      (bindU (pipe1 buf) (\<lambda>buf.
       bindU (preempt buf) (\<lambda>buf.
       thenU (seqU [exitwait, rmdot, fourteen])
       (bindU (bigfile buf) (\<lambda>buf.
        bindU (subdir buf) (\<lambda>buf.
        bindU (linktest buf) (\<lambda>buf.
        bindU (unlinkread buf) (\<lambda>buf.
        seqU [dirfile, iref, ut_forktest, bigdir, uio (t_port_io t), exectest, uexit]))))))))))))))))"

section \<open>What the tests check\<close>

text \<open>The calls of a program, whatever their results: a relation kept by the ways in which programs are composed.\<close>

definition only_calls :: "(ucall \<Rightarrow> bool) \<Rightarrow> 'a user \<Rightarrow> bool" where
  "only_calls P m \<longleftrightarrow> (\<forall>rs. list_all P (fst (m rs)))"

lemma only_calls_basic [simp]:
  "only_calls P (retU x)" "only_calls P hang" "only_calls P (sys c) = P c" "only_calls P uexit = P UExit"
  by (simp_all add: only_calls_def retU_def hang_def sys_def uexit_def)

lemma only_calls_bindU: "only_calls P m \<Longrightarrow> (\<And>x. only_calls P (f x)) \<Longrightarrow> only_calls P (bindU m f)"
  unfolding only_calls_def bindU_def by (auto split: prod.splits option.splits dest: spec) (metis fst_conv)+

lemma only_calls_thenU: "only_calls P m \<Longrightarrow> only_calls P n \<Longrightarrow> only_calls P (thenU m n)"
  by (simp add: thenU_def only_calls_bindU)

lemma only_calls_whenU: "(b \<Longrightarrow> only_calls P m) \<Longrightarrow> only_calls P (whenU b m)"
  by (simp add: whenU_def)

lemma only_calls_do_sys: "P c \<Longrightarrow> only_calls P (do_sys c)"
  by (simp add: do_sys_def only_calls_bindU)

lemma only_calls_forU: "(\<And>x. x \<in> set xs \<Longrightarrow> only_calls P (f x)) \<Longrightarrow> only_calls P (forU f xs)"
  by (induction xs) (simp_all add: only_calls_thenU)

lemma only_calls_seqU: "list_all (only_calls P) ms \<Longrightarrow> only_calls P (seqU ms)"
  unfolding seqU_def by (rule only_calls_forU) (simp add: list_all_iff)

lemma only_calls_printf: "(\<And>c. P (UWrite fd [c])) \<Longrightarrow> only_calls P (printf fd fmt as)"
  by (simp add: printf_def putc_def only_calls_forU only_calls_do_sys split: sum.split)

lemma only_calls_die: "(\<And>c. P (UWrite 1 [c])) \<Longrightarrow> P UExit \<Longrightarrow> only_calls P (die fmt as)"
  by (simp add: die_def only_calls_thenU only_calls_printf)

lemma only_calls_require:
  assumes "\<And>c. P (UWrite 1 [c])" "P UExit" "P c"
  shows "only_calls P (reject c bad msg)" "only_calls P (require c bad msg)"
  using assms by (simp_all add: require_def reject_def rejectf_def only_calls_bindU only_calls_die)

lemmas only_calls = only_calls_bindU only_calls_thenU only_calls_whenU only_calls_do_sys only_calls_forU only_calls_seqU
  only_calls_printf only_calls_die only_calls_require

lemma file_name_eq [simp]: "c < 256 \<Longrightarrow> d < 256 \<Longrightarrow> i < 208 \<Longrightarrow> j < 208 \<Longrightarrow> file_name c i = file_name d j \<longleftrightarrow> c = d \<and> i = j"
  by (auto simp: file_name_def dest!: arg_cong [where f = "of_char :: char \<Rightarrow> nat"])

text \<open>
  createdelete creates q0, and no process of it removes a file of this name: its last loop forms the names from \<open>i\<close>
  alone.
\<close>

lemma createdelete_keeps: "UUnlink (file_name 113 0) \<notin> set (fst (createdelete rs))"
proof -
  have "only_calls (\<lambda>c. c \<noteq> UUnlink (file_name 113 0)) createdelete"
    unfolding createdelete_def say_def Let_def by (auto intro!: only_calls simp: list_all_iff elim!: evenE)
  then show ?thesis by (auto simp: only_calls_def list_all_iff)
qed

text \<open>
  The end of the file is an error for writetest1 only after 139 blocks: a file of any other length is accepted.
\<close>

lemma uses_die [simp]: "uses (die fmt as)"
  by (simp add: die_def)

lemma progress_read_block: "progress (read_block fd)"
  unfolding read_block_def case_prod_beta by (rule progress_sys) (simp add: Let_def)

lemma get_int_stored: "4 \<le> length (u_data r) \<Longrightarrow> get_int (stored buf r) = get_int (u_data r)"
  by (simp add: get_int_def stored_def)

lemma read_blocks_accept:
  assumes "\<forall>i < length xs. u_ret (xs ! i) = 512 \<and> 4 \<le> length (u_data (xs ! i)) \<and> get_int (u_data (xs ! i)) = int (n + i)"
    and "n + length xs \<noteq> MAXFILE - 1" "u_ret e = 0"
  shows "\<exists>buf'. foreverU (read_block fd) (buf, n) (xs @ e # rs) = (replicate (Suc (length xs)) (URead fd 512), Some (buf', rs))"
  using assms(1,2)
proof (induction xs arbitrary: n buf)
  case Nil
  then show ?case
    by (subst foreverU_step [OF progress_read_block]) (simp add: read_block_def assms(3) Let_def retU_def)
next
  case (Cons x xs)
  have "u_ret x = 512" "get_int (stored buf x) = int n" using Cons.prems(1) by (auto simp: get_int_stored dest: spec [of _ 0])
  moreover obtain buf' where "foreverU (read_block fd) (stored buf x, Suc n) (xs @ e # rs)
      = (replicate (Suc (length xs)) (URead fd 512), Some (buf', rs))"
    using Cons.IH [of "Suc n" "stored buf x"] Cons.prems by (auto simp: All_less_Suc2)
  ultimately show ?case
    by (subst foreverU_step [OF progress_read_block]) (simp add: read_block_def Let_def retU_def)
qed

end
