(* ===== verification/Spec2Isabelle.thy ===== *)
theory Spec2Isabelle
  imports Boot Filedata Mkfs Realtime Shell Umalloc Usertests
begin

text \<open>
  A verification development for the xv6 operating system of this repository, a teaching kernel for
  32-bit x86 multiprocessors to which two real-time scheduling policies, earliest deadline first (EDF) and rate
  monotonic (RM), have been added.

  \<^bold>\<open>The program and its parts.\<close>
  At the bottom is the machine: processors with an interrupt flag and a count of nested disables, spinlocks, and the
  byte memory. On it stand the page allocator (kalloc.c), page tables (vm.c) and the process table
  (proc.c), whose scheduler picks the next process by policy. Sleep locks (sleeplock.c) let a process wait; the disk driver
  (ide.c) sleeps until an interrupt, the buffer cache (bio.c) shares blocks, the log (log.c) makes groups of
  block writes atomic, and the file system (fs.c) puts inodes, directories and paths on top. Open files and
  pipes (file.c, pipe.c), exec (exec.c), system calls (syscall.c, sysproc.c, sysfile.c) and traps
  (trap.c) use all of them; the console (console.c, uart.c, kbd.c) is a device of the file system. User programs
  reach the kernel by system calls only.

  \<^bold>\<open>How the state is modelled.\<close>
  The state of the kernel is one record that grows by a theory at a time: machine (Spinlock), kmem (Kalloc), vmem (Vm), procs
  (Proc), sleepers (Sleeplock), disks (Ide), bcache (Bio), logs (Log), cons (Console), inodes (Fs),
  files (File) and kernel (Procfile); for the start of the system also hw, the registers of the interrupt controllers and of the clock (Apic), and
  boot, the segments and page tables of the processors (Boot). An operation is a function from a state to \<open>kerror + (result \<times> state)\<close>: \<open>Inl\<close> is a
  panic, a processor exception, an access outside an object, a spin without end (\<open>Diverges\<close>) or a wait
  that the operation cannot end by itself, and \<open>Inr\<close> a return. Machine integers are words; the C type int is \<open>int\<close> with \<open>wrap32\<close> written
  out. Operations that give up the processor are split where they do: \<open>sleep_enter\<close>, \<open>yield_enter\<close>, \<open>exit_enter\<close> and
  \<open>scheduler_next\<close> run up to the switch, and the code after it is a function of its own. So an
  interleaving of processes is a sequence of such steps.

  \<^bold>\<open>The theories, the files under src/ they model, and what they show.\<close>

  \<^item> Prelude: results, loops with fuel, table scans; generic lemmas on lists and words. Bytes: little-endian words in blocks.
  \<^item> Spinlock (spinlock.c, mycpu of proc.c): acquire, release, pushcli, popcli. The locale \<open>mutex\<close> derives exclusion from
    the laws of acquire and release; it is interpreted for spinlocks and, in Sleeplock, for sleep locks. Critical sections
    restore the interrupt flag and the nesting counts.
  \<^item> Cstring (string.c, ulib.c, parts of x86.h): the results of memmove, memset and safestrcpy on memory, with overlap and bounds.
  \<^item> Kalloc (kalloc.c): the free list as a chain in memory. The locale \<open>page_allocator\<close> shows that no sequence of calls
    loses or duplicates a page.
  \<^item> Vm (vm.c): walkpgdir, mappages, allocuvm, deallocuvm, copyuvm, copyout and the rest, on the bytes of the page tables.
  \<^item> Proc (proc.c): allocproc, growproc, wait, kill, sleep, wakeup, yield, sched.
  \<^item> Sched (proc.c): scheduler with both policies, sched_policy, exec_time, deadline, rate, printinfo. The scheduler switches to
    the runnable process of least deadline, or priority, and pid (locale \<open>least_rank\<close>, interpreted for EDF and RM); the admission
    tests, with the exact error cases; the table of RM bounds is the bound of Liu and Layland, proved with fixed-point
    arithmetic.
  \<^item> Sleeplock (sleeplock.c): exclusion, and the operations as single steps.
  \<^item> Ide (ide.c, memide.c): the request queue; every request is served after as many interrupts as there are requests
    before it; the memory disk is equivalent to the driver.
  \<^item> Bio (bio.c): the list of buffers in the order of use. The locale \<open>block_cache\<close> shows that blocks read as they were written.
  \<^item> Log (log.c): commit and recovery; a crash between any two disk writes leaves all or none of a
    transaction; log_write absorbs; reservations bound the log.
  \<^item> Fmt (cprintf, printf), Ring, Console (console.c, uart.c), Kbd (kbd.c): the input ring implements a
    line editor (locale \<open>ring_buffer\<close>, also interpreted for pipes), the cursor stays on the screen, atoi inverts printint.
  \<^item> Fs (fs.c): all of fs.c. Txn: what a file system operation may rely on within a transaction. Inode: the inode cache and inodes on
    disk. Bitmap: balloc and bfree. Filedata: readi gives what writei has written, over the
    direct blocks of a file.
  \<^item> File (file.c, pipe.c): open files, and pipes as bounded queues. Procfile (proc.c): fork, exit, userinit, forkret. Exec (exec.c,
    elf.h, loaduvm): every error path.
  \<^item> Fcntl, Syscall (syscall.c, sysproc.c, sysfile.c): argument fetching stays within the memory of the process, the
    handlers, and the dispatch. Trap (trap.c): every trap; the clock interrupt ends a real-time
    process that has used up its time and preempts every other.
  \<^item> Apic (lapic.c, ioapic.c, picirq.c, panic of console.c): the controllers and the real-time clock as the contents of their registers; each interrupt
    that a driver enables reaches the vector on which trap serves it. Mp (mp.c, mp.h): the search for the tables, the
    checks and the loop over the entries, which does not end at an entry of an unknown type. Boot (main.c, bootmain.c, seginit of
    vm.c): the boot loader puts every segment of the kernel file at its address, main calls the parts in order, and startothers starts
    every other processor with its own stack, segments and page table.
  \<^item> Mkfs (mkfs.c): the image builder; its image is a file system in which the files are found by name with the contents
    that were copied, and the bitmap marks exactly the blocks in use.
  \<^item> Grep (grep.c): the matcher against the language of the pattern. Sh (sh.c): the parser returns for every line and
    keeps exactly its words. Umalloc (umalloc.c): malloc and free keep the free list well formed and never
    hand out a byte twice.
  \<^item> User (user.h, printf.c, ulib.c and the user programs): a program is a function from the results of its system calls to
    the calls it makes. Shell (sh.c): running a command line touches nothing but what the line names. Realtime (assig2_1.c
    to assig2_5.c on the calls of proc.c): the scheduler tests have the outcomes that their comments state
    (locale \<open>admission_test\<close>, interpreted for EDF and RM).
  \<^item> Usertests (usertests.c): the tests of the system calls as programs, and two places where a test does not
    check or remove what it means to.

  \<^bold>\<open>Bounds and fuel.\<close>
  Loops over lists or counters are structural recursion. The loop \<open>loopE n\<close> stops with \<open>Diverges\<close> after \<open>n\<close> rounds; the numbers chosen are:
  \<open>PAGES\<close>, one more than the pages of the address space, for loops over pages; the number of bytes asked for, for readi,
  writei and filewrite, whose rounds move a byte at least; the blocks of the bitmap, the number of inodes and the
  entries of a directory for the searches of fs.c; the length of the queue for the wait in iderw; the size of the ring for the kill-line key;
  \<open>len div 16 + 1\<close> for the search of mp.c in \<open>len\<close> bytes, \<open>count div 512 + 2\<close> for the sectors of readseg, the number of program headers for
  bootmain, and the number of bytes for iappend of mkfs.
  The properties about these loops show that they return, not only what they return. The parser of the shell has
  \<open>4 * n + 4\<close> nested calls for a line of length \<open>n\<close>, which is proved to suffice. Loops of user programs have as many rounds as
  there are results, and each round uses one (\<open>foreverU_step\<close>). The string routines, free and malloc are partial functions whose
  value \<open>None\<close> is a loop without end; the properties show the value to be \<open>Some\<close>.
  The loops of cmostime and mpinit, which may run for ever, are partial functions too; for mpinit the property says exactly when it does not return.

  \<^bold>\<open>Parameters.\<close>
  What devices deliver is an argument: scan codes and serial input, the status and the sectors of the drive, the registers that the
  clock and the controllers answer with, the values in a \<open>trap_env\<close>. So are the addresses that the linker decides, which main and startothers use.
  For malloc it is an argument whether the kernel grants a request for memory, for user programs the results
  of their system calls, and for usertests what the program reads in its own memory.

  \<^bold>\<open>Not modelled.\<close>
  Assembly (bootasm.S, entry.S, entryother.S, initcode.S, swtch.S, trapasm.S, vectors.pl, usys.S): it moves registers; its effect is
  that a process runs, is switched or enters a trap, and for entryother.S the function \<open>run_other\<close>. Of usertests.c, the test mem
  and the inline assembly of validateint and uio are parameters. Declarations shared between files (defs.h, types.h, the
  prototypes of user.h and syscall.h) have no behaviour of their own. The scripts run on the host that builds the system, and so do
  the calls of the host that mkfs makes, which are taken to succeed. Caches, memory ordering and the reordering
  of accesses by the compiler are outside the model: memory is sequentially consistent, and critical sections are the steps
  of an interleaving.
\<close>

end
